(* ===== verification/Ring_Prelude.thy ===== *)
theory Ring_Prelude
  imports
    "HOL-Library.Word"
    "HOL-Library.AList"
    "HOL-Library.List_Lexorder"
    "HOL-Library.Product_Lexorder"
begin

text \<open>
  Shared vocabulary of the development: bytes and strings, the operations of the Rust
  standard library that several components call (UTF-8 validation, trimming, integer
  parsing and printing, big-endian integers, substring search, ASCII case folding),
  hash maps as association lists with distinct keys, and two generic interfaces used
  by the components: a state machine with an invariant, and an incremental consumer of
  a byte stream.

  A Rust \<open>String\<close> or \<open>&str\<close> is the list of its UTF-8 bytes, as a \<open>Vec<u8>\<close> is; where
  the code looks at characters, the bytes are decoded to scalar values first.
\<close>

named_theorems rust_simps \<open>unfolding rules for the standard library functions\<close>
named_theorems codec_simps \<open>rules that evaluate encoders on symbolic arguments\<close>
named_theorems step_defs \<open>definitions of the handlers and steps of a component\<close>

section \<open>Bytes and strings\<close>

type_synonym byte = "8 word"
type_synonym bytes = "byte list"

definition asc :: "string \<Rightarrow> bytes" where
  "asc s = map of_char s"

definition crlf :: bytes where
  "crlf = [13, 10]"

lemma asc_simps [simp]: "asc [] = []" "asc (c # s) = of_char c # asc s"
  by (simp_all add: asc_def)

lemma length_asc [simp]: "length (asc s) = length s"
  by (simp add: asc_def)

lemma length_crlf [simp]: "length crlf = 2"
  by (simp add: crlf_def)

lemma byte_lt_256: "unat (b :: byte) < 256"
proof -
  have "unat b < 2 ^ LENGTH(8)" by (rule unsigned_less)
  then show ?thesis by simp
qed

section \<open>Errors as values\<close>

text \<open>\<open>?\<close> on a \<open>Result\<close>: the error returns, the value goes on.\<close>

definition try_then :: "'e + 'a \<Rightarrow> ('a \<Rightarrow> 'e + 'b) \<Rightarrow> 'e + 'b" where
  "try_then r k = (case r of Inl e \<Rightarrow> Inl e | Inr x \<Rightarrow> k x)"

definition ok_or :: "'e \<Rightarrow> 'a option \<Rightarrow> 'e + 'a" where
  "ok_or e x = (case x of None \<Rightarrow> Inl e | Some v \<Rightarrow> Inr v)"

lemma try_then_simps [simp]:
  "try_then (Inl e) k = Inl e" "try_then (Inr x) k = k x"
  by (simp_all add: try_then_def)

lemma ok_or_simps [simp]: "ok_or e None = Inl e" "ok_or e (Some v) = Inr v"
  by (simp_all add: ok_or_def)

lemma try_then_Inr_iff:
  "try_then r k = Inr y \<longleftrightarrow> (\<exists>x. r = Inr x \<and> k x = Inr y)"
  by (cases r) auto

lemma ok_or_Inr_iff [simp]: "ok_or e x = Inr v \<longleftrightarrow> x = Some v"
  by (cases x) auto

section \<open>Searching and splitting\<close>

text \<open>\<open>hay.windows(needle.len()).position(|w| w == needle)\<close>, for a nonempty needle.\<close>

primrec find_sub :: "'a list \<Rightarrow> 'a list \<Rightarrow> nat option" where
  "find_sub needle [] = None"
| "find_sub needle (x # xs) =
     (if take (length needle) (x # xs) = needle then Some 0
      else map_option Suc (find_sub needle xs))"

lemma find_sub_SomeD:
  "find_sub n h = Some i \<Longrightarrow> i + length n \<le> length h \<and> take (length n) (drop i h) = n"
proof (induction h arbitrary: i)
  case (Cons x xs)
  show ?case
  proof (cases "take (length n) (x # xs) = n")
    case True
    with Cons.prems have "i = 0" by simp
    moreover have "length n \<le> length (x # xs)"
      by (metis True length_take min.cobounded1)
    ultimately show ?thesis using True by simp
  next
    case False
    with Cons.prems obtain j where "find_sub n xs = Some j" "i = Suc j" by auto
    with Cons.IH show ?thesis by simp
  qed
qed simp

lemma find_sub_first:
  "find_sub n h = Some i \<Longrightarrow> j < i \<Longrightarrow> take (length n) (drop j h) \<noteq> n"
proof (induction h arbitrary: i j)
  case (Cons x xs)
  then show ?case by (cases j) (auto split: if_splits)
qed simp

lemma find_sub_None_iff:
  "n \<noteq> [] \<Longrightarrow> find_sub n h = None \<longleftrightarrow> (\<forall>i. take (length n) (drop i h) \<noteq> n)"
proof (induction h)
  case (Cons x xs)
  have "(\<forall>i. take (length n) (drop i (x # xs)) \<noteq> n) \<longleftrightarrow>
        take (length n) (x # xs) \<noteq> n \<and> (\<forall>i. take (length n) (drop i xs) \<noteq> n)"
    by (metis drop0 drop_Suc_Cons not0_implies_Suc)
  with Cons show ?case by auto
qed simp

text \<open>A match stays the first match when bytes arrive behind it.\<close>

lemma find_sub_append: "find_sub n h = Some i \<Longrightarrow> find_sub n (h @ t) = Some i"
proof (induction h arbitrary: i)
  case (Cons x xs)
  show ?case
  proof (cases "take (length n) (x # xs) = n")
    case True
    then have "length n \<le> length (x # xs)"
      by (metis length_take min.cobounded1)
    then have "take (length n) ((x # xs) @ t) = take (length n) (x # xs)"
      by (simp only: take_append) simp
    with True Cons.prems show ?thesis by simp
  next
    case False
    with Cons.prems obtain j where j: "find_sub n xs = Some j" "i = Suc j" by auto
    then have len: "length n \<le> length xs" using find_sub_SomeD [OF j(1)] by simp
    then have "take (length n) ((x # xs) @ t) = take (length n) (x # xs)"
      by (simp only: take_append) simp
    with False j Cons.IH show ?thesis by simp
  qed
qed simp

text \<open>\<open>slice.iter().position(|b| b == c)\<close> and \<open>slice.split(|b| b == c)\<close>.\<close>

primrec position :: "'a \<Rightarrow> 'a list \<Rightarrow> nat option" where
  "position c [] = None"
| "position c (x # xs) = (if x = c then Some 0 else map_option Suc (position c xs))"

primrec split_on :: "'a \<Rightarrow> 'a list \<Rightarrow> 'a list list" where
  "split_on c [] = [[]]"
| "split_on c (x # xs) =
     (if x = c then [] # split_on c xs
      else (case split_on c xs of [] \<Rightarrow> [[x]] | p # ps \<Rightarrow> (x # p) # ps))"

lemma split_on_nonempty [simp]: "split_on c xs \<noteq> []"
  by (induction xs) (auto split: list.splits)

lemma position_SomeD:
  "position c xs = Some i \<Longrightarrow> i < length xs \<and> xs ! i = c \<and> c \<notin> set (take i xs)"
  by (induction xs arbitrary: i) (auto split: if_splits)

lemma position_None_iff: "position c xs = None \<longleftrightarrow> c \<notin> set xs"
  by (induction xs) auto

lemma position_append_notin:
  "c \<notin> set xs \<Longrightarrow> position c (xs @ ys) = map_option (\<lambda>i. length xs + i) (position c ys)"
  by (induction xs) (cases "position c ys"; auto)+

lemma split_on_notin: "c \<notin> set xs \<Longrightarrow> split_on c xs = [xs]"
  by (induction xs) auto

lemma find_append: "find P (xs @ ys) = (case find P xs of None \<Rightarrow> find P ys | Some x \<Rightarrow> Some x)"
  by (induction xs) auto

lemma map_of_filterD:
  "distinct (map fst al) \<Longrightarrow> map_of (filter P al) k = Some v \<Longrightarrow> map_of al k = Some v"
  by (auto dest!: map_of_SomeD)

lemma set_map_filter: "set (List.map_filter f xs) = {y. \<exists>x \<in> set xs. f x = Some y}"
  by (induction xs) (auto simp: map_filter_simps split: option.splits)

text \<open>Updating an association list with distinct keys (a hash map's \<open>insert\<close>).\<close>

lemma update_fresh: "k \<notin> fst ` set al \<Longrightarrow> AList.update k v al = al @ [(k, v)]"
  by (induction al) auto

lemma set_update_keys:
  "distinct (map fst al) \<Longrightarrow> set (AList.update k v al) = insert (k, v) {p \<in> set al. fst p \<noteq> k}"
  by (induction al) force+

lemma distinct_update_values:
  "distinct (map fst al) \<Longrightarrow> distinct (map snd al) \<Longrightarrow> v \<notin> snd ` set al \<Longrightarrow>
   distinct (map snd (AList.update k v al))"
  by (induction al) (auto simp: set_update_keys)

lemma length_update_le: "length (AList.update k v al) \<le> Suc (length al)"
  by (induction al) auto

lemma eq_value_imp_eq_key:
  "distinct (map snd al) \<Longrightarrow> (a, v) \<in> set al \<Longrightarrow> (b, v) \<in> set al \<Longrightarrow> a = b"
  by (induction al) (force+)

section \<open>Machine integers on the wire\<close>

text \<open>\<open>u16::to_be_bytes\<close>, \<open>u32::to_be_bytes\<close> and their inverses.\<close>

definition u16_to_be :: "16 word \<Rightarrow> bytes" where
  "u16_to_be w = [of_nat (unat w div 256), of_nat (unat w)]"

definition u16_from_be :: "byte \<Rightarrow> byte \<Rightarrow> 16 word" where
  "u16_from_be a b = of_nat (unat a * 256 + unat b)"

definition u32_to_be :: "32 word \<Rightarrow> bytes" where
  "u32_to_be w =
     [of_nat (unat w div 2 ^ 24), of_nat (unat w div 2 ^ 16), of_nat (unat w div 2 ^ 8),
      of_nat (unat w)]"

definition u32_from_be :: "byte \<Rightarrow> byte \<Rightarrow> byte \<Rightarrow> byte \<Rightarrow> 32 word" where
  "u32_from_be a b c d =
     of_nat (((unat a * 256 + unat b) * 256 + unat c) * 256 + unat d)"

lemma unat_byte_of_nat: "unat (of_nat n :: byte) = n mod 256"
  by (simp add: unat_of_nat)

lemma length_u16_to_be [simp]: "length (u16_to_be w) = 2"
  by (simp add: u16_to_be_def)

lemma length_u32_to_be [simp]: "length (u32_to_be w) = 4"
  by (simp add: u32_to_be_def)

lemma of_nat_unat [simp]: "(of_nat (unat w) :: 'a::len word) = w"
  by simp

lemma u16_from_to_be:
  "u16_from_be (of_nat (unat w div 256)) (of_nat (unat w)) = w"
proof -
  have "unat w < 2 ^ LENGTH(16)" by (rule unsigned_less)
  then have "unat w div 256 mod 256 * 256 + unat w mod 256 = unat w"
    by simp
  then show ?thesis
    unfolding u16_from_be_def unat_byte_of_nat by (simp only: of_nat_unat)
qed

lemma digit256: "(b::nat) < 256 \<Longrightarrow> (a * 256 + b) div 256 = a"
    "(b::nat) < 256 \<Longrightarrow> (a * 256 + b) mod 256 = b"
  by simp_all

lemma be_digits4:
  fixes n :: nat
  assumes "n < 2 ^ 32"
  shows "((n div 2 ^ 24 mod 256 * 256 + n div 2 ^ 16 mod 256) * 256 + n div 2 ^ 8 mod 256) * 256
          + n mod 256 = n"
proof -
  have "n div 2 ^ 24 mod 256 = n div 2 ^ 8 div 256 div 256"
    using assms by (simp add: div_mult2_eq [symmetric])
  moreover have "n div 2 ^ 16 mod 256 = n div 2 ^ 8 div 256 mod 256"
    by (simp add: div_mult2_eq [symmetric])
  ultimately show ?thesis by simp
qed

lemma u32_from_to_be:
  "u32_from_be (of_nat (unat w div 2 ^ 24)) (of_nat (unat w div 2 ^ 16))
     (of_nat (unat w div 2 ^ 8)) (of_nat (unat w)) = w"
proof -
  have "unat w < 2 ^ LENGTH(32)" by (rule unsigned_less)
  then have "unat w < 2 ^ 32" by simp
  note be_digits4 [OF this]
  then show ?thesis
    unfolding u32_from_be_def unat_byte_of_nat by (simp only: of_nat_unat)
qed

lemma byte_of_nat_eqI: "n mod 256 = unat b \<Longrightarrow> (of_nat n :: byte) = b"
  by (metis unat_byte_of_nat of_nat_unat)

lemma unat_u16_from_be: "unat (u16_from_be a b) = unat a * 256 + unat b"
  unfolding u16_from_be_def unat_of_nat
  using byte_lt_256 [of a] byte_lt_256 [of b] by (intro mod_less) simp

lemma u16_to_from_be: "u16_to_be (u16_from_be a b) = [a, b]"
  unfolding u16_to_be_def unat_u16_from_be list.inject
  using byte_lt_256 [of a] byte_lt_256 [of b]
  by (intro conjI byte_of_nat_eqI refl) (simp_all only: digit256 mod_less)

lemma unat_u32_from_be:
  "unat (u32_from_be a b c d) = ((unat a * 256 + unat b) * 256 + unat c) * 256 + unat d"
  unfolding u32_from_be_def unat_of_nat
  using byte_lt_256 [of a] byte_lt_256 [of b] byte_lt_256 [of c] byte_lt_256 [of d]
  by (intro mod_less) simp

lemma u32_to_from_be: "u32_to_be (u32_from_be a b c d) = [a, b, c, d]"
proof -
  have pow: "(2::nat) ^ 24 = 256 * 256 * 256" "(2::nat) ^ 16 = 256 * 256" "(2::nat) ^ 8 = 256"
    by simp_all
  show ?thesis
    unfolding u32_to_be_def unat_u32_from_be list.inject pow div_mult2_eq
    using byte_lt_256 [of a] byte_lt_256 [of b] byte_lt_256 [of c] byte_lt_256 [of d]
    by (intro conjI byte_of_nat_eqI refl) (simp_all only: digit256 mod_less)
qed

text \<open>The encoders as four (two) bytes that read back: the form proofs about parsers use.\<close>

lemma u16_to_be_cases:
  obtains a b where "u16_to_be w = [a, b]" "u16_from_be a b = w"
  by (rule that [OF _ u16_from_to_be]) (simp add: u16_to_be_def)

lemma u32_to_be_cases:
  obtains a b c d where "u32_to_be w = [a, b, c, d]" "u32_from_be a b c d = w"
  by (rule that [OF _ u32_from_to_be]) (simp add: u32_to_be_def)

section \<open>Incremental consumers\<close>

text \<open>
  A consumer of a byte stream that is called once per read: \<open>feed\<close> takes the bytes of
  one read, and \<open>join\<close> puts the results of two consecutive reads together. The laws say
  that feeding two reads is feeding their concatenation, and that an error is not undone
  by later bytes; it follows that the result depends on the bytes only, not on where the
  reads fall.
\<close>

primrec feed_reads ::
    "('s \<Rightarrow> 'i list \<Rightarrow> ('e + 'r) \<times> 's) \<Rightarrow> ('r \<Rightarrow> 'r \<Rightarrow> 'r) \<Rightarrow> 's \<Rightarrow> 'i list \<Rightarrow> 'i list list \<Rightarrow> 'e + 'r"
where
  "feed_reads feed join s p [] = fst (feed s p)"
| "feed_reads feed join s p (q # qs) =
     (case feed s p of
        (Inl e, _) \<Rightarrow> Inl e
      | (Inr r, s') \<Rightarrow> map_sum id (join r) (feed_reads feed join s' q qs))"

locale incremental =
  fixes feed :: "'s \<Rightarrow> 'i list \<Rightarrow> ('e + 'r) \<times> 's"
    and join :: "'r \<Rightarrow> 'r \<Rightarrow> 'r"
  assumes feed_err: "fst (feed s a) = Inl e \<Longrightarrow> fst (feed s (a @ b)) = Inl e"
    and feed_join: "feed s a = (Inr r, s') \<Longrightarrow>
      fst (feed s (a @ b)) = map_sum id (join r) (fst (feed s' b))"
begin

lemma feed_reads_concat: "feed_reads feed join s p ps = fst (feed s (p @ concat ps))"
proof (induction ps arbitrary: s p)
  case (Cons q qs)
  show ?case
  proof (cases "feed s p")
    case (Pair r s')
    with Cons.IH feed_err [of s p] feed_join [of s p] show ?thesis
      by (cases r) simp_all
  qed
qed simp

lemma feed_reads_boundaries:
  "p @ concat ps = q @ concat qs \<Longrightarrow> feed_reads feed join s p ps = feed_reads feed join s q qs"
  by (simp add: feed_reads_concat)

end

section \<open>Machines with an invariant\<close>

text \<open>
  A component driven by events: \<open>step\<close> handles one event, \<open>start\<close> says which states it
  begins in, and \<open>inv\<close> is kept by every step. \<open>reach\<close> is the least set of states that
  contains the start states and is closed under steps.
\<close>

inductive reach :: "('s \<Rightarrow> 'e \<Rightarrow> 's) \<Rightarrow> ('s \<Rightarrow> bool) \<Rightarrow> 's \<Rightarrow> bool"
  for step :: "'s \<Rightarrow> 'e \<Rightarrow> 's" and start :: "'s \<Rightarrow> bool" where
  reach_start: "start s \<Longrightarrow> reach step start s"
| reach_step: "reach step start s \<Longrightarrow> reach step start (step s e)"

lemma reach_foldl: "reach step start s \<Longrightarrow> reach step start (foldl step s es)"
  by (induction es arbitrary: s) (auto intro: reach_step)

locale invariant_machine =
  fixes step :: "'s \<Rightarrow> 'e \<Rightarrow> 's" and start :: "'s \<Rightarrow> bool" and inv :: "'s \<Rightarrow> bool"
  assumes inv_start: "start s \<Longrightarrow> inv s"
    and inv_step: "inv s \<Longrightarrow> inv (step s e)"
begin

lemma inv_foldl: "inv s \<Longrightarrow> inv (foldl step s es)"
  by (induction es arbitrary: s) (auto intro: inv_step)

lemma inv_reach: "reach step start s \<Longrightarrow> inv s"
  by (induction rule: reach.induct) (auto intro: inv_start inv_step)

lemma inv_run: "start s \<Longrightarrow> inv (foldl step s es)"
  by (intro inv_foldl inv_start)

end

end
