(* ===== verification/Rust_Std.thy ===== *)
theory Rust_Std
  imports Ring_Prelude
begin

text \<open>
  The functions of the Rust standard library the program calls on strings and integers:
  \<open>str::from_utf8\<close>, \<open>char::is_whitespace\<close>, \<open>char::is_control\<close>, \<open>str::trim\<close>,
  \<open>to_ascii_lowercase\<close>, \<open>eq_ignore_ascii_case\<close>, \<open>from_str_radix\<close>, \<open>str::parse\<close> for
  unsigned integers and \<open>to_string\<close>, each with the facts the components use.
\<close>

section \<open>UTF-8\<close>

type_synonym scalars = "nat list"

definition cps :: "string \<Rightarrow> scalars" where
  "cps s = map of_char s"

lemma cps_simps [simp]: "cps [] = []" "cps (c # s) = of_char c # cps s"
  by (simp_all add: cps_def)

definition cont :: "byte \<Rightarrow> bool" where
  "cont b \<longleftrightarrow> 128 \<le> unat b \<and> unat b \<le> 191"

definition low6 :: "byte \<Rightarrow> nat" where
  "low6 b = unat b - 128"

text \<open>
  \<open>str::from_utf8\<close> with the scalar values of the characters: shortest forms only, no
  surrogates, nothing above \<open>10FFFF\<close>.
\<close>

fun utf8_decode :: "bytes \<Rightarrow> scalars option" where
  "utf8_decode [] = Some []"
| "utf8_decode (b0 # bs) =
     (let n = unat b0 in
      if n < 128 then map_option ((#) n) (utf8_decode bs)
      else if 194 \<le> n \<and> n \<le> 223 then
        (case bs of
           b1 # r \<Rightarrow>
             if cont b1 then map_option ((#) ((n - 192) * 64 + low6 b1)) (utf8_decode r) else None
         | _ \<Rightarrow> None)
      else if 224 \<le> n \<and> n \<le> 239 then
        (case bs of
           b1 # b2 # r \<Rightarrow>
             if cont b1 \<and> cont b2 \<and> (n = 224 \<longrightarrow> 160 \<le> unat b1) \<and> (n = 237 \<longrightarrow> unat b1 \<le> 159)
             then map_option ((#) (((n - 224) * 64 + low6 b1) * 64 + low6 b2)) (utf8_decode r)
             else None
         | _ \<Rightarrow> None)
      else if 240 \<le> n \<and> n \<le> 244 then
        (case bs of
           b1 # b2 # b3 # r \<Rightarrow>
             if cont b1 \<and> cont b2 \<and> cont b3 \<and> (n = 240 \<longrightarrow> 144 \<le> unat b1) \<and> (n = 244 \<longrightarrow> unat b1 \<le> 143)
             then map_option ((#) ((((n - 240) * 64 + low6 b1) * 64 + low6 b2) * 64 + low6 b3))
                    (utf8_decode r)
             else None
         | _ \<Rightarrow> None)
      else None)"

definition ascii :: "bytes \<Rightarrow> bool" where
  "ascii bs \<longleftrightarrow> (\<forall>b \<in> set bs. unat b < 128)"

lemma utf8_decode_ascii: "ascii bs \<Longrightarrow> utf8_decode bs = Some (map unat bs)"
  by (induction bs) (auto simp: ascii_def Let_def)

section \<open>Character classes and trimming\<close>

definition is_whitespace :: "nat \<Rightarrow> bool" where
  "is_whitespace c \<longleftrightarrow>
     9 \<le> c \<and> c \<le> 13 \<or> c = 32 \<or> c = 133 \<or> c = 160 \<or> c = 5760 \<or>
     8192 \<le> c \<and> c \<le> 8202 \<or> c = 8232 \<or> c = 8233 \<or> c = 8239 \<or> c = 8287 \<or> c = 12288"

definition is_control :: "nat \<Rightarrow> bool" where
  "is_control c \<longleftrightarrow> c \<le> 31 \<or> 127 \<le> c \<and> c \<le> 159"

definition trim_by :: "('a \<Rightarrow> bool) \<Rightarrow> 'a list \<Rightarrow> 'a list" where
  "trim_by p xs = rev (dropWhile p (rev (dropWhile p xs)))"

definition trim :: "scalars \<Rightarrow> scalars" where
  "trim = trim_by is_whitespace"

text \<open>\<open>str::trim\<close> on a string known to be ASCII, kept as bytes.\<close>

definition trim_ascii :: "bytes \<Rightarrow> bytes" where
  "trim_ascii = trim_by (\<lambda>b. is_whitespace (unat b))"

lemma map_trim_by: "map f (trim_by (\<lambda>x. p (f x)) xs) = trim_by p (map f xs)"
  by (simp add: trim_by_def dropWhile_map rev_map o_def)

lemma map_trim_ascii: "map unat (trim_ascii bs) = trim (map unat bs)"
  by (simp add: trim_ascii_def trim_def map_trim_by)

lemma set_trim_by: "set (trim_by p xs) \<subseteq> set xs"
  by (auto simp: trim_by_def dest!: set_dropWhileD)

lemma trim_by_id: "\<forall>x \<in> set xs. \<not> p x \<Longrightarrow> trim_by p xs = xs"
proof -
  assume a: "\<forall>x \<in> set xs. \<not> p x"
  then have "dropWhile p xs = xs" "dropWhile p (rev xs) = rev xs"
    by (metis dropWhile_eq_self_iff hd_in_set, metis dropWhile_eq_self_iff hd_in_set set_rev)
  then show ?thesis by (simp add: trim_by_def)
qed

lemma trim_by_ends:
  assumes "trim_by p xs \<noteq> []"
  shows "\<not> p (hd (trim_by p xs)) \<and> \<not> p (last (trim_by p xs))"
proof -
  let ?d = "dropWhile p xs"
  from assms have ne: "dropWhile p (rev ?d) \<noteq> []" by (simp add: trim_by_def)
  then have l: "\<not> p (hd (dropWhile p (rev ?d)))" by (rule hd_dropWhile)
  from ne have "?d \<noteq> []" by (metis dropWhile.simps(1) rev.simps(1))
  then have h: "\<not> p (hd ?d)" by (rule hd_dropWhile)
  have suf: "rev ?d = takeWhile p (rev ?d) @ dropWhile p (rev ?d)" by simp
  then have "?d = rev (dropWhile p (rev ?d)) @ rev (takeWhile p (rev ?d))"
    by (metis rev_append rev_rev_ident)
  then have "hd ?d = hd (rev (dropWhile p (rev ?d)))"
    using ne by (metis hd_append2 rev_is_Nil_conv)
  with h l ne show ?thesis by (simp add: trim_by_def last_rev)
qed

lemma trim_by_split:
  obtains a b where "xs = a @ trim_by p xs @ b" "\<forall>x \<in> set a. p x" "\<forall>x \<in> set b. p x"
proof
  let ?d = "dropWhile p xs"
  have "?d = rev (dropWhile p (rev ?d)) @ rev (takeWhile p (rev ?d))"
    by (metis rev_append rev_rev_ident takeWhile_dropWhile_id)
  then show "xs = takeWhile p xs @ trim_by p xs @ rev (takeWhile p (rev ?d))"
    by (metis takeWhile_dropWhile_id trim_by_def)
qed (auto dest: set_takeWhileD)

lemma trim_by_middle:
  assumes "\<forall>x \<in> set a. p x" "\<forall>x \<in> set b. p x" "m \<noteq> []" "\<not> p (hd m)" "\<not> p (last m)"
  shows "trim_by p (a @ m @ b) = m"
proof -
  have "dropWhile p (a @ m @ b) = m @ b"
    using assms(1,3,4) by (cases m) (simp_all add: dropWhile_append2)
  moreover have "dropWhile p (rev (m @ b)) = rev m"
  proof -
    have "rev m = last m # rev (butlast m)"
      using assms(3) by (metis append_butlast_last_id rev.simps(2) rev_rev_ident)
    moreover from calculation have "dropWhile p (rev m) = rev m"
      using assms(5) by (metis dropWhile.simps(2))
    moreover have "dropWhile p (rev b @ rev m) = dropWhile p (rev m)"
      by (rule dropWhile_append2) (use assms(2) in simp)
    ultimately show ?thesis by simp
  qed
  ultimately show ?thesis by (simp add: trim_by_def)
qed

text \<open>ASCII case folding, on bytes and on scalar values.\<close>

definition lower :: "byte \<Rightarrow> byte" where
  "lower b = (if 65 \<le> unat b \<and> unat b \<le> 90 then b + 32 else b)"

definition lower_cp :: "nat \<Rightarrow> nat" where
  "lower_cp c = (if 65 \<le> c \<and> c \<le> 90 then c + 32 else c)"

definition to_ascii_lowercase :: "bytes \<Rightarrow> bytes" where
  "to_ascii_lowercase = map lower"

definition eq_ignore_case :: "bytes \<Rightarrow> bytes \<Rightarrow> bool" where
  "eq_ignore_case a b \<longleftrightarrow> map lower a = map lower b"

definition eq_ignore_case_cp :: "scalars \<Rightarrow> scalars \<Rightarrow> bool" where
  "eq_ignore_case_cp a b \<longleftrightarrow> map lower_cp a = map lower_cp b"

lemma eq_ignore_case_refl [simp]: "eq_ignore_case a a"
  by (simp add: eq_ignore_case_def)

section \<open>Integers as text\<close>

definition to_digit :: "nat \<Rightarrow> nat \<Rightarrow> nat option" where
  "to_digit radix c =
     (let d = (if 48 \<le> c \<and> c \<le> 57 then Some (c - 48)
               else if 97 \<le> c \<and> c \<le> 122 then Some (c - 87)
               else if 65 \<le> c \<and> c \<le> 90 then Some (c - 55)
               else None)
      in case d of Some v \<Rightarrow> if v < radix then Some v else None | None \<Rightarrow> None)"

text \<open>The digit loop, with its checked multiplication and addition at \<open>bits\<close> bits.\<close>

fun digits_val :: "nat \<Rightarrow> nat \<Rightarrow> nat \<Rightarrow> scalars \<Rightarrow> nat option" where
  "digits_val bits radix acc [] = Some acc"
| "digits_val bits radix acc (c # cs) =
     (case to_digit radix c of
        None \<Rightarrow> None
      | Some d \<Rightarrow>
          if acc * radix + d < 2 ^ bits then digits_val bits radix (acc * radix + d) cs else None)"

text \<open>
  \<open>uN::from_str_radix\<close>: an empty string and a lone sign are errors, one leading plus
  is accepted, and a minus is no digit of an unsigned number.
\<close>

definition from_str_radix :: "nat \<Rightarrow> nat \<Rightarrow> scalars \<Rightarrow> nat option" where
  "from_str_radix bits radix cs =
     (case cs of
        [] \<Rightarrow> None
      | c # rest \<Rightarrow>
          if rest = [] \<and> (c = 43 \<or> c = 45) then None
          else digits_val bits radix 0 (if c = 43 then rest else cs))"

definition parse_uint :: "nat \<Rightarrow> scalars \<Rightarrow> nat option" where
  "parse_uint bits = from_str_radix bits 10"

fun dec_digits :: "nat \<Rightarrow> scalars" where
  "dec_digits n = (if n < 10 then [48 + n] else dec_digits (n div 10) @ [48 + n mod 10])"

declare dec_digits.simps [simp del]

definition to_dec :: "nat \<Rightarrow> bytes" where
  "to_dec n = map of_nat (dec_digits n)"

lemma to_digit_dec: "d < 10 \<Longrightarrow> to_digit 10 (48 + d) = Some d"
  by (simp add: to_digit_def)

lemma digits_val_append:
  "digits_val bits r acc (xs @ ys) =
     (case digits_val bits r acc xs of None \<Rightarrow> None | Some v \<Rightarrow> digits_val bits r v ys)"
  by (induction bits r acc xs rule: digits_val.induct) (auto split: option.splits)

lemma digits_val_dec: "n < 2 ^ bits \<Longrightarrow> digits_val bits 10 0 (dec_digits n) = Some n"
proof (induction n rule: dec_digits.induct)
  case (1 n)
  show ?case
  proof (cases "n < 10")
    case True
    with 1(2) show ?thesis by (simp add: dec_digits.simps [of n] to_digit_dec)
  next
    case False
    with 1 have "digits_val bits 10 0 (dec_digits (n div 10)) = Some (n div 10)"
      by (simp add: div_le_dividend le_less_trans)
    moreover have "n div 10 * 10 + n mod 10 = n" by simp
    ultimately show ?thesis
      using False 1(2)
      by (simp add: dec_digits.simps [of n] digits_val_append to_digit_dec)
  qed
qed

lemma dec_digits_range: "c \<in> set (dec_digits n) \<Longrightarrow> 48 \<le> c \<and> c \<le> 57"
proof (induction n rule: dec_digits.induct)
  case (1 n)
  have "n mod 10 < 10" by simp
  with 1 show ?case
    by (cases "n < 10") (auto simp: dec_digits.simps [of n])
qed

lemma dec_digits_nonempty [simp]: "dec_digits n \<noteq> []"
  by (simp add: dec_digits.simps [of n])

lemma parse_uint_dec: "n < 2 ^ bits \<Longrightarrow> parse_uint bits (dec_digits n) = Some n"
proof -
  assume n: "n < 2 ^ bits"
  obtain c cs where c: "dec_digits n = c # cs" by (cases "dec_digits n") auto
  then have "48 \<le> c" using dec_digits_range [of c n] by simp
  then show ?thesis
    using digits_val_dec [OF n] c by (simp add: parse_uint_def from_str_radix_def)
qed

lemma unat_to_dec: "map unat (to_dec n) = dec_digits n"
proof -
  have "map (\<lambda>c. unat (of_nat c :: byte)) (dec_digits n) = map id (dec_digits n)"
  proof (rule map_cong)
    fix c assume "c \<in> set (dec_digits n)"
    then have "c < 256" using dec_digits_range by fastforce
    then show "unat (of_nat c :: byte) = id c" by (simp only: unat_byte_of_nat mod_less id_apply)
  qed simp
  then show ?thesis by (simp add: to_dec_def o_def)
qed

lemma ascii_to_dec: "ascii (to_dec n)"
  unfolding ascii_def
proof
  fix b assume "b \<in> set (to_dec n)"
  then have "unat b \<in> set (map unat (to_dec n))" by simp
  then show "unat b < 128" using dec_digits_range unfolding unat_to_dec by fastforce
qed

lemma utf8_decode_to_dec: "utf8_decode (to_dec n) = Some (dec_digits n)"
  by (simp add: utf8_decode_ascii ascii_to_dec unat_to_dec)

lemma length_dec_digits: "n < 10 ^ Suc k \<Longrightarrow> length (dec_digits n) \<le> Suc k"
proof (induction k arbitrary: n)
  case 0
  then show ?case by (simp add: dec_digits.simps [of n])
next
  case (Suc k)
  then have "n div 10 < 10 ^ Suc k" by auto
  then have "length (dec_digits (n div 10)) \<le> Suc k" by (rule Suc.IH)
  then show ?case by (simp add: dec_digits.simps [of n])
qed

lemma length_to_dec_u64: "n < 2 ^ 64 \<Longrightarrow> length (to_dec n) \<le> 20"
  unfolding to_dec_def using length_dec_digits [of n 19] by simp

lemma digits_val_bound: "digits_val bits r acc cs = Some v \<Longrightarrow> acc < 2 ^ bits \<Longrightarrow> v < 2 ^ bits"
  by (induction bits r acc cs rule: digits_val.induct) (auto split: option.splits if_splits)

lemma from_str_radix_bound: "from_str_radix bits r cs = Some v \<Longrightarrow> v < 2 ^ bits"
  unfolding from_str_radix_def
  by (auto split: list.splits if_splits dest: digits_val_bound simp del: digits_val.simps)

section \<open>What a numeral is worth\<close>

text \<open>
  Numbers by position: \<open>digit_text radix s vs\<close> says that \<open>s\<close> spells the digits \<open>vs\<close>,
  in either case, and \<open>digit_sum\<close> is what they are worth.
\<close>

definition digit_char :: "nat \<Rightarrow> nat \<Rightarrow> nat \<Rightarrow> bool" where
  "digit_char radix c v \<longleftrightarrow> v < radix \<and>
     (c = cps ''0123456789abcdefghijklmnopqrstuvwxyz'' ! v \<or>
      c = cps ''0123456789ABCDEFGHIJKLMNOPQRSTUVWXYZ'' ! v)"

definition digit_sum :: "nat \<Rightarrow> nat list \<Rightarrow> nat" where
  "digit_sum radix vs = (\<Sum>i < length vs. rev vs ! i * radix ^ i)"

definition spells :: "nat \<Rightarrow> scalars \<Rightarrow> nat \<Rightarrow> bool" where
  "spells radix s n \<longleftrightarrow> (\<exists>vs. list_all2 (digit_char radix) s vs \<and> n = digit_sum radix vs)"

lemma digit_sum_Cons: "digit_sum r (v # vs) = v * r ^ length vs + digit_sum r vs"
  by (simp add: digit_sum_def nth_append)

lemma digit_sum_Nil: "digit_sum r [] = 0"
  by (simp add: digit_sum_def)

lemma digit_chars:
  assumes "v < 36"
  shows "cps ''0123456789abcdefghijklmnopqrstuvwxyz'' ! v = (if v < 10 then 48 + v else 87 + v) \<and>
    cps ''0123456789ABCDEFGHIJKLMNOPQRSTUVWXYZ'' ! v = (if v < 10 then 48 + v else 55 + v)"
proof -
  have "\<forall>v \<in> set [0..<36].
      cps ''0123456789abcdefghijklmnopqrstuvwxyz'' ! v = (if v < 10 then 48 + v else 87 + v) \<and>
      cps ''0123456789ABCDEFGHIJKLMNOPQRSTUVWXYZ'' ! v = (if v < 10 then 48 + v else 55 + v)"
    by code_simp
  with assms show ?thesis by (metis atLeastLessThan_iff set_upt zero_le)
qed

lemma digit_char_iff:
  "radix \<le> 36 \<Longrightarrow> digit_char radix c v \<longleftrightarrow>
     v < radix \<and> (c = (if v < 10 then 48 + v else 87 + v) \<or> c = (if v < 10 then 48 + v else 55 + v))"
  unfolding digit_char_def using digit_chars [of v] by auto

lemma to_digit_char: "radix \<le> 36 \<Longrightarrow> to_digit radix c = Some v \<longleftrightarrow> digit_char radix c v"
  by (auto simp: to_digit_def digit_char_iff Let_def split: if_splits)

lemma digits_val_sum:
  "radix \<le> 36 \<Longrightarrow> acc < 2 ^ bits \<Longrightarrow> digits_val bits radix acc cs = Some n \<longleftrightarrow>
     (\<exists>vs. list_all2 (digit_char radix) cs vs \<and> n = acc * radix ^ length cs + digit_sum radix vs
        \<and> n < 2 ^ bits)"
proof (induction cs arbitrary: acc)
  case Nil
  then show ?case by (auto simp: digit_sum_Nil)
next
  case (Cons c cs)
  let ?acc = "\<lambda>d. acc * radix + d"
  have eq: "acc * radix ^ length (c # cs) + digit_sum radix (v # vs) =
      ?acc v * radix ^ length cs + digit_sum radix vs" if "length vs = length cs" for v vs
    using that by (simp add: digit_sum_Cons algebra_simps)
  have le: "?acc v < 2 ^ bits"
    if "?acc v * radix ^ length cs + digit_sum radix vs < 2 ^ bits" "digit_char radix c v" for v vs
  proof -
    have "0 < radix" using that(2) by (auto simp: digit_char_def)
    then have "?acc v * 1 \<le> ?acc v * radix ^ length cs" by (intro mult_le_mono2) simp
    then have "?acc v \<le> ?acc v * radix ^ length cs + digit_sum radix vs"
      unfolding mult_1_right by (rule trans_le_add1)
    from this that(1) show ?thesis by (rule le_less_trans)
  qed
  show ?case
  proof
    assume "digits_val bits radix acc (c # cs) = Some n"
    then obtain d where d: "digit_char radix c d" "?acc d < 2 ^ bits"
      "digits_val bits radix (?acc d) cs = Some n"
      using Cons.prems by (auto simp: to_digit_char [symmetric] split: option.splits if_splits)
    from Cons.IH [OF Cons.prems(1) d(2)] d(3) obtain vs where
      vs: "list_all2 (digit_char radix) cs vs" "n = ?acc d * radix ^ length cs + digit_sum radix vs" "n < 2 ^ bits"
      by blast
    with d(1) eq [of vs d] show "\<exists>vs. list_all2 (digit_char radix) (c # cs) vs \<and>
        n = acc * radix ^ length (c # cs) + digit_sum radix vs \<and> n < 2 ^ bits"
      by (intro exI [of _ "d # vs"]) (simp add: list_all2_lengthD)
  next
    assume "\<exists>vs. list_all2 (digit_char radix) (c # cs) vs \<and>
        n = acc * radix ^ length (c # cs) + digit_sum radix vs \<and> n < 2 ^ bits"
    then obtain v vs where vs: "digit_char radix c v" "list_all2 (digit_char radix) cs vs"
      "n = acc * radix ^ length (c # cs) + digit_sum radix (v # vs)" "n < 2 ^ bits"
      by (auto simp: list_all2_Cons1)
    then have n: "n = ?acc v * radix ^ length cs + digit_sum radix vs"
      using eq [of vs v] by (simp add: list_all2_lengthD)
    from le [OF vs(4) [unfolded n] vs(1)] have "?acc v < 2 ^ bits" .
    with vs n Cons.IH [OF Cons.prems(1) this] show "digits_val bits radix acc (c # cs) = Some n"
      using to_digit_char [OF Cons.prems(1), of c v] by auto
  qed
qed

lemma from_str_radix_iff:
  assumes "radix \<le> 36"
  shows "from_str_radix bits radix s = Some n \<longleftrightarrow>
    (\<exists>sign ds. s = sign @ ds \<and> (sign = [] \<or> sign = [43]) \<and> ds \<noteq> [] \<and> spells radix ds n) \<and> n < 2 ^ bits"
proof -
  have digits: "digits_val bits radix 0 ds = Some n \<longleftrightarrow> spells radix ds n \<and> n < 2 ^ bits" for ds
    using digits_val_sum [OF assms, of 0 bits ds n] by (auto simp: spells_def)
  have plus: "\<not> spells radix (43 # ds) n" "\<not> spells radix (45 # ds) n" for ds
    using assms by (auto simp: spells_def list_all2_Cons1 digit_char_iff split: if_splits)
  show ?thesis
  proof (cases s)
    case Nil
    then show ?thesis by (simp add: from_str_radix_def)
  next
    case (Cons c rest)
    show ?thesis
    proof (cases "c = 43")
      case True
      have "from_str_radix bits radix s = Some n \<longleftrightarrow> rest \<noteq> [] \<and> spells radix rest n \<and> n < 2 ^ bits"
        using True Cons digits [of rest] by (simp add: from_str_radix_def)
      moreover have "(\<exists>sign ds. s = sign @ ds \<and> (sign = [] \<or> sign = [43]) \<and> ds \<noteq> [] \<and>
          spells radix ds n) \<longleftrightarrow> rest \<noteq> [] \<and> spells radix rest n"
        using True Cons plus by (auto intro: exI [of _ "[43]"])
      ultimately show ?thesis by blast
    next
      case False
      have "from_str_radix bits radix s = Some n \<longleftrightarrow> spells radix s n \<and> n < 2 ^ bits"
        using False Cons digits [of s] plus
        by (auto simp: from_str_radix_def simp del: digits_val.simps)
      moreover have "(\<exists>sign ds. s = sign @ ds \<and> (sign = [] \<or> sign = [43]) \<and> ds \<noteq> [] \<and>
          spells radix ds n) \<longleftrightarrow> spells radix s n"
        using False Cons by (auto intro: exI [of _ "[]"])
      ultimately show ?thesis by blast
    qed
  qed
qed

lemma spells_char:
  "radix \<le> 36 \<Longrightarrow> spells radix s n \<Longrightarrow> c \<in> set s \<Longrightarrow> 48 \<le> c \<and> c \<le> 122"
proof -
  assume a: "radix \<le> 36" "spells radix s n" "c \<in> set s"
  then obtain vs where "list_all2 (digit_char radix) s vs" by (auto simp: spells_def)
  with a(3) obtain v where "digit_char radix c v"
    by (metis in_set_conv_nth list_all2_conv_all_nth)
  with a(1) show ?thesis
    by (auto simp: digit_char_iff split: if_splits)
qed

end
