(* ===== verification/Headers.thy ===== *)
theory Headers
  imports Rust_Std
begin

text \<open>
  Hop-by-hop header handling (\<open>cargo/src/headers.rs\<close>) and the transfer-coding test of
  \<open>cargo/src/chunked.rs\<close>. \<open>HeaderMap\<close>, \<open>HeaderValue\<close> and \<open>HeaderName\<close> belong to the
  \<open>http\<close> crate: the operations the program calls are the fields of a record that every
  definition takes as an argument, and their documented laws are the locale
  \<open>header_map\<close>.
\<close>

section \<open>The header map as a parameter\<close>

record 'h header_api =
  hm_get_all :: "'h \<Rightarrow> bytes \<Rightarrow> bytes list"      \<comment> \<open>\<open>get_all\<close>: the values of one name, in order\<close>
  hm_remove :: "'h \<Rightarrow> bytes \<Rightarrow> bytes option \<times> 'h" \<comment> \<open>\<open>remove\<close>: drops a name, returns its first value\<close>
  hm_insert :: "'h \<Rightarrow> bytes \<Rightarrow> bytes \<Rightarrow> 'h"        \<comment> \<open>\<open>insert\<close>: replaces the values of a name\<close>
  hm_iter :: "'h \<Rightarrow> (bytes \<times> bytes) list"         \<comment> \<open>iteration over name and value\<close>
  hv_to_str :: "bytes \<Rightarrow> bytes option"             \<comment> \<open>\<open>HeaderValue::to_str\<close>\<close>
  hn_from_lowercase :: "bytes \<Rightarrow> bytes option"     \<comment> \<open>\<open>HeaderName::from_lowercase\<close>\<close>

text \<open>\<open>get\<close> is the first value of the name.\<close>

definition hm_get :: "'h header_api \<Rightarrow> 'h \<Rightarrow> bytes \<Rightarrow> bytes option" where
  "hm_get H h n = (case hm_get_all H h n of [] \<Rightarrow> None | v # _ \<Rightarrow> Some v)"

locale header_map =
  fixes H :: "'h header_api"
  assumes remove_fst: "fst (hm_remove H h n) = hm_get H h n"
    and get_all_remove:
      "hm_get_all H (snd (hm_remove H h n)) m = (if m = n then [] else hm_get_all H h m)"
    and get_all_insert:
      "hm_get_all H (hm_insert H h n v) m = (if m = n then [v] else hm_get_all H h m)"
    and get_all_iter: "hm_get_all H h n = map snd (filter (\<lambda>(k, v). k = n) (hm_iter H h))"
    and to_str_id: "hv_to_str H v = Some s \<Longrightarrow> s = v \<and> ascii s"
    and from_lowercase_id: "hn_from_lowercase H n = Some m \<Longrightarrow> m = n"

section \<open>Stripping\<close>

definition ALWAYS_STRIP :: "bytes list" where
  "ALWAYS_STRIP = map asc
     [''connection'', ''keep-alive'', ''proxy-authenticate'', ''proxy-authorization'', ''te'',
      ''trailer'', ''transfer-encoding'', ''upgrade'', ''host'']"

definition is_hop_by_hop :: "bytes \<Rightarrow> bool" where
  "is_hop_by_hop n \<longleftrightarrow> list_ex (\<lambda>h. eq_ignore_case h n) ALWAYS_STRIP"

text \<open>The tokens of one \<open>Connection\<close> value: comma separated, trimmed, lower-cased, nonempty.\<close>

definition value_tokens :: "'h header_api \<Rightarrow> bytes \<Rightarrow> bytes list" where
  "value_tokens H value =
     (case hv_to_str H value of
        None \<Rightarrow> []
      | Some s \<Rightarrow>
          filter (\<lambda>t. t \<noteq> []) (map (\<lambda>tok. to_ascii_lowercase (trim_ascii tok)) (split_on 44 s)))"

text \<open>The set \<open>conditional\<close>, as a list without repetitions.\<close>

definition conditional_names :: "'h header_api \<Rightarrow> 'h \<Rightarrow> bytes list" where
  "conditional_names H h =
     remdups (concat (map (value_tokens H) (hm_get_all H h (asc ''connection''))))"

text \<open>\<open>removed += headers.remove(n).into_iter().count()\<close>: an \<open>Option\<close> yields at most one item.\<close>

definition remove_counted :: "'h header_api \<Rightarrow> bytes \<Rightarrow> nat \<times> 'h \<Rightarrow> nat \<times> 'h" where
  "remove_counted H n = (\<lambda>(removed, h).
     let (v, h') = hm_remove H h n
     in (removed + (case v of None \<Rightarrow> 0 | Some _ \<Rightarrow> 1), h'))"

definition remove_conditional :: "'h header_api \<Rightarrow> bytes \<Rightarrow> nat \<times> 'h \<Rightarrow> nat \<times> 'h" where
  "remove_conditional H name s =
     (case hn_from_lowercase H name of None \<Rightarrow> s | Some n \<Rightarrow> remove_counted H n s)"

definition strip_hop_by_hop :: "'h header_api \<Rightarrow> 'h \<Rightarrow> nat \<times> 'h" where
  "strip_hop_by_hop H h =
     (let conditional = conditional_names H h
      in fold (remove_conditional H) conditional (fold (remove_counted H) ALWAYS_STRIP (0, h)))"

section \<open>Transfer coding\<close>

definition is_chunked :: "'h header_api \<Rightarrow> 'h \<Rightarrow> bool" where
  "is_chunked H h =
     (case hm_get H h (asc ''transfer-encoding'') of
        None \<Rightarrow> False
      | Some v \<Rightarrow>
          (case hv_to_str H v of
             None \<Rightarrow> False
           | Some s \<Rightarrow>
               list_ex (\<lambda>t. eq_ignore_case (trim_ascii t) (asc ''chunked'')) (split_on 44 s)))"

section \<open>Lemmas\<close>

lemma lower_idem [simp]: "lower (lower b) = lower b"
proof -
  have "unat (b + 32) = unat b + 32" if "unat b \<le> 90"
    using that by (subst unat_add_lem [THEN iffD1]) simp_all
  then show ?thesis by (auto simp: lower_def)
qed

lemma to_ascii_lowercase_idem [simp]:
  "to_ascii_lowercase (to_ascii_lowercase s) = to_ascii_lowercase s"
  by (simp add: to_ascii_lowercase_def)

lemma always_strip_lower: "n \<in> set ALWAYS_STRIP \<Longrightarrow> map lower n = n"
  by (auto simp: ALWAYS_STRIP_def lower_def)

lemma is_hop_by_hop_iff: "is_hop_by_hop n \<longleftrightarrow> to_ascii_lowercase n \<in> set ALWAYS_STRIP"
proof -
  have "eq_ignore_case h n \<longleftrightarrow> h = map lower n" if "h \<in> set ALWAYS_STRIP" for h
    using always_strip_lower [OF that] by (simp add: eq_ignore_case_def)
  then show ?thesis by (auto simp: is_hop_by_hop_def list_ex_iff to_ascii_lowercase_def)
qed

text \<open>The names a strip removes from a map: the fixed ones and the valid ones \<open>Connection\<close> names.\<close>

definition stripped_names :: "'h header_api \<Rightarrow> 'h \<Rightarrow> bytes list" where
  "stripped_names H h =
     ALWAYS_STRIP @ filter (\<lambda>n. hn_from_lowercase H n \<noteq> None) (conditional_names H h)"

text \<open>How many of some names, taken in order and once each, a map holds.\<close>

definition present :: "'h header_api \<Rightarrow> 'h \<Rightarrow> bytes list \<Rightarrow> nat" where
  "present H h ns = card {n \<in> set ns. hm_get_all H h n \<noteq> []}"

context header_map
begin

lemma get_all_remove_fold:
  "hm_get_all H (snd (fold (remove_counted H) ns (k, h))) m =
     (if m \<in> set ns then [] else hm_get_all H h m)"
proof (induction ns arbitrary: k h)
  case (Cons n ns)
  then show ?case
    by (simp add: remove_counted_def split_beta get_all_remove)
qed simp

lemma remove_fold_count:
  "fst (fold (remove_counted H) ns (k, h)) = k + present H h ns"
proof (induction ns arbitrary: k h)
  case (Cons n ns)
  let ?h' = "snd (hm_remove H h n)"
  have split: "{x \<in> set (n # ns). hm_get_all H h x \<noteq> []} =
      (if hm_get_all H h n = [] then {} else {n}) \<union> {x \<in> set ns. hm_get_all H ?h' x \<noteq> []}"
    by (auto simp: get_all_remove)
  have "n \<notin> {x \<in> set ns. hm_get_all H ?h' x \<noteq> []}" by (simp add: get_all_remove)
  then have "present H h (n # ns) = (case hm_get H h n of None \<Rightarrow> 0 | Some _ \<Rightarrow> 1) + present H ?h' ns"
    unfolding present_def split by (simp add: hm_get_def split: list.splits)
  then show ?case
    using Cons.IH by (simp add: remove_counted_def split_beta remove_fst)
qed (simp add: present_def)

lemma remove_conditional_fold:
  "fold (remove_conditional H) ns s =
     fold (remove_counted H) (filter (\<lambda>n. hn_from_lowercase H n \<noteq> None) ns) s"
proof (induction ns arbitrary: s)
  case (Cons n ns)
  then show ?case
    by (cases "hn_from_lowercase H n")
       (auto simp: remove_conditional_def dest: from_lowercase_id)
qed simp

lemma strip_as_fold:
  "strip_hop_by_hop H h = fold (remove_counted H) (stripped_names H h) (0, h)"
  by (simp add: strip_hop_by_hop_def stripped_names_def remove_conditional_fold)

lemma get_all_strip:
  "hm_get_all H (snd (strip_hop_by_hop H h)) m =
     (if m \<in> set (stripped_names H h) then [] else hm_get_all H h m)"
  by (simp add: strip_as_fold get_all_remove_fold)

lemma strip_count: "fst (strip_hop_by_hop H h) = present H h (stripped_names H h)"
  by (simp add: strip_as_fold remove_fold_count)

lemma connection_in_strip: "asc ''connection'' \<in> set (stripped_names H h)"
  by (simp add: stripped_names_def ALWAYS_STRIP_def)

lemma conditional_after_strip: "conditional_names H (snd (strip_hop_by_hop H h)) = []"
  unfolding conditional_names_def get_all_strip using connection_in_strip by simp

lemma strip_again:
  "fst (strip_hop_by_hop H (snd (strip_hop_by_hop H h))) = 0 \<and>
   (\<forall>m. hm_get_all H (snd (strip_hop_by_hop H (snd (strip_hop_by_hop H h)))) m =
        hm_get_all H (snd (strip_hop_by_hop H h)) m)"
proof -
  let ?h = "snd (strip_hop_by_hop H h)"
  have names: "stripped_names H ?h = ALWAYS_STRIP"
    by (simp add: stripped_names_def conditional_after_strip)
  have none: "hm_get_all H ?h m = []" if "m \<in> set ALWAYS_STRIP" for m
    using that by (simp add: get_all_strip stripped_names_def)
  then have "present H ?h ALWAYS_STRIP = 0" by (auto simp: present_def)
  with none show ?thesis by (auto simp: strip_count get_all_strip [of ?h] names)
qed

end

section \<open>A header list\<close>

text \<open>
  The reading of the interface as a list of name and value pairs in arrival order, which
  is what a head on the wire is; it meets every law.
\<close>

definition visible :: "byte \<Rightarrow> bool" where
  "visible b \<longleftrightarrow> 32 \<le> unat b \<and> unat b \<le> 126 \<or> b = 9"

definition lower_name_byte :: "byte \<Rightarrow> bool" where
  "lower_name_byte b \<longleftrightarrow>
     97 \<le> unat b \<and> unat b \<le> 122 \<or> 48 \<le> unat b \<and> unat b \<le> 57 \<or>
     b \<in> set (asc ''!#$%&*+-.^_`|~'') \<or> b = 39"

definition list_headers :: "(bytes \<times> bytes) list header_api" where
  "list_headers =
     \<lparr> hm_get_all = (\<lambda>h n. map snd (filter (\<lambda>(k, v). k = n) h)),
       hm_remove = (\<lambda>h n. (map_of h n, filter (\<lambda>(k, v). k \<noteq> n) h)),
       hm_insert = (\<lambda>h n v. filter (\<lambda>(k, _). k \<noteq> n) h @ [(n, v)]),
       hm_iter = (\<lambda>h. h),
       hv_to_str = (\<lambda>v. if list_all visible v then Some v else None),
       hn_from_lowercase = (\<lambda>n. if n \<noteq> [] \<and> list_all lower_name_byte n then Some n else None) \<rparr>"

lemma map_of_first: "map_of h n = (case map snd (filter (\<lambda>(k, v). k = n) h) of [] \<Rightarrow> None | v # _ \<Rightarrow> Some v)"
  by (induction h) (auto split: list.splits)

lemma filter_other:
  "filter (\<lambda>(k, v). k = m) (filter (\<lambda>(k, v). k \<noteq> n) h) =
     (if m = n then [] else filter (\<lambda>(k, v). k = m) h)"
  by (induction h) auto

lemma visible_ascii: "list_all visible v \<Longrightarrow> ascii v"
  by (auto simp: ascii_def list_all_iff visible_def)

interpretation list_headers: header_map list_headers
proof unfold_locales
  fix h :: "(bytes \<times> bytes) list" and n m v
  show "fst (hm_remove list_headers h n) = hm_get list_headers h n"
    by (simp add: list_headers_def hm_get_def map_of_first)
  show "hm_get_all list_headers (snd (hm_remove list_headers h n)) m =
      (if m = n then [] else hm_get_all list_headers h m)"
    by (simp add: list_headers_def filter_other del: filter_filter)
  show "hm_get_all list_headers (hm_insert list_headers h n v) m =
      (if m = n then [v] else hm_get_all list_headers h m)"
    by (simp add: list_headers_def filter_other del: filter_filter)
qed (auto simp: list_headers_def visible_ascii split: if_splits)

section \<open>Properties\<close>

text \<open>
  C37: Stripping removes exactly the fixed hop-by-hop fields, whatever case a peer wrote
  their names in, and the valid names that this message's own \<open>Connection\<close> lists; every
  other field keeps all its values in order.
\<close>
theorem strip_removes_exactly:
  assumes "header_map H" "to_ascii_lowercase n = n"
  shows "hm_get_all H (snd (strip_hop_by_hop H h)) n =
    (if is_hop_by_hop n \<or>
        n \<in> set (conditional_names H h) \<and> hn_from_lowercase H n \<noteq> None
     then [] else hm_get_all H h n)"
  unfolding header_map.get_all_strip [OF assms(1)]
  by (auto simp: stripped_names_def is_hop_by_hop_iff assms(2))

theorem strip_removes_exactly_witness:
  "hm_get_all list_headers
     (snd (strip_hop_by_hop list_headers
        [(asc ''connection'', asc ''Foo''), (asc ''foo'', [1]), (asc ''bar'', [2]), (asc ''bar'', [3])]))
     (asc ''bar'') = [[2], [3]]"
proof -
  have b: "to_ascii_lowercase (asc ''bar'') = asc ''bar''"
    by (simp add: to_ascii_lowercase_def lower_def)
  have "\<not> is_hop_by_hop (asc ''bar'')"
    by (simp add: is_hop_by_hop_iff ALWAYS_STRIP_def to_ascii_lowercase_def lower_def)
  moreover have "asc ''bar'' \<notin> set (conditional_names list_headers
      [(asc ''connection'', asc ''Foo''), (asc ''foo'', [1]), (asc ''bar'', [2]), (asc ''bar'', [3])])"
    by (simp add: conditional_names_def value_tokens_def list_headers_def trim_ascii_def trim_by_def
        is_whitespace_def to_ascii_lowercase_def lower_def visible_def)
  ultimately show ?thesis
    using strip_removes_exactly [OF list_headers.header_map_axioms b]
    by (simp add: list_headers_def)
qed

text \<open>
  The number a strip reports is the number of distinct field names it removed, not
  of header lines, and a second strip removes nothing and reports zero.
\<close>
theorem strip_count_and_idempotence:
  assumes "header_map H"
  shows "fst (strip_hop_by_hop H h) = present H h (stripped_names H h) \<and>
    fst (strip_hop_by_hop H (snd (strip_hop_by_hop H h))) = 0 \<and>
    hm_get_all H (snd (strip_hop_by_hop H (snd (strip_hop_by_hop H h)))) n =
    hm_get_all H (snd (strip_hop_by_hop H h)) n"
  using header_map.strip_count [OF assms] header_map.strip_again [OF assms] by blast

theorem strip_count_and_idempotence_witness:
  "fst (strip_hop_by_hop list_headers [(asc ''te'', [1]), (asc ''te'', [2])]) = 1"
proof -
  let ?h = "[(asc ''te'', [1]), (asc ''te'', [2])] :: (bytes \<times> bytes) list"
  have "conditional_names list_headers ?h = []"
    by (simp add: conditional_names_def list_headers_def)
  then have "{n \<in> set (stripped_names list_headers ?h). hm_get_all list_headers ?h n \<noteq> []} = {asc ''te''}"
    by (auto simp: stripped_names_def ALWAYS_STRIP_def list_headers_def)
  then have "present list_headers ?h (stripped_names list_headers ?h) = 1"
    by (simp add: present_def)
  with strip_count_and_idempotence [OF list_headers.header_map_axioms, of ?h] show ?thesis by simp
qed

end
