(* ===== verification/Heads.thy ===== *)
theory Heads
  imports Headers
begin

text \<open>
  HTTP heads as bytes: locating the end of a head and parsing a response head
  (\<open>hub.rs\<close>), the request head the hub puts into OPEN (\<open>encode_request_head\<close>), the
  response head the tether puts into RESP_HEAD (\<open>forward_engine\<close>), and the historical
  \<open>reframe_head_for_tunnel\<close> of \<open>tunnel.rs\<close>. The \<open>httparse\<close> parser and the response
  builder of the \<open>http\<close> crate are arguments.
\<close>

section \<open>Locating and parsing a head\<close>

definition MAX_PENDING_HEAD :: nat where "MAX_PENDING_HEAD = 64 * 1024"

definition crlf2 :: bytes where "crlf2 = crlf @ crlf"

definition find_header_end :: "bytes \<Rightarrow> nat option" where
  "find_header_end bs =
     (case find_sub crlf2 bs of
        Some i \<Rightarrow> Some (i + 4)
      | None \<Rightarrow> (case find_sub [10, 10] bs of Some i \<Rightarrow> Some (i + 2) | None \<Rightarrow> None))"

record 'h response =
  rs_status :: nat
  rs_headers :: 'h

datatype parse_status = Partial | Complete nat

text \<open>\<open>httparse::Response::parse\<close>: a syntax error is \<open>None\<close>; code and fields as parsed so far.\<close>

record 'h head_parser =
  hp_parse :: "bytes \<Rightarrow> (parse_status \<times> nat option \<times> (bytes \<times> bytes) list) option"
  hp_build :: "nat \<Rightarrow> (bytes \<times> bytes) list \<Rightarrow> 'h response option"

definition parse_head :: "'h head_parser \<Rightarrow> bytes \<Rightarrow> ('h response \<times> bytes) option" where
  "parse_head P bs =
     (case hp_parse P bs of
        None \<Rightarrow> None
      | Some (status, code, hdrs) \<Rightarrow>
          (case status of
             Partial \<Rightarrow> None
           | Complete end \<Rightarrow>
               if end \<le> MAX_PENDING_HEAD then
                 (case code of
                    None \<Rightarrow> None
                  | Some c \<Rightarrow>
                      (case hp_build P c hdrs of
                         None \<Rightarrow> None
                       | Some r \<Rightarrow> Some (r, drop end bs)))
               else None))"

section \<open>Writing a head\<close>

definition field_line :: "bytes \<times> bytes \<Rightarrow> bytes" where
  "field_line f = fst f @ asc '': '' @ snd f @ crlf"

definition head_bytes :: "bytes \<Rightarrow> (bytes \<times> bytes) list \<Rightarrow> bytes" where
  "head_bytes start hdrs = start @ crlf @ concat (map field_line hdrs) @ crlf"

definition encode_request_head ::
    "'h header_api \<Rightarrow> bytes \<Rightarrow> bytes \<Rightarrow> 'h \<Rightarrow> bytes" where
  "encode_request_head H meth path headers =
     (let stripped = snd (strip_hop_by_hop H headers)
      in head_bytes (meth @ asc '' '' @ path @ asc '' HTTP/1.1'') (hm_iter H stripped))"

text \<open>The head of the engine's response as \<open>forward_engine\<close> writes it.\<close>

definition encode_response_head ::
    "'h header_api \<Rightarrow> nat \<Rightarrow> bytes \<Rightarrow> 'h \<Rightarrow> bytes" where
  "encode_response_head H status reason headers =
     (let stripped = snd (strip_hop_by_hop H headers)
      in head_bytes (asc ''HTTP/1.1 '' @ to_dec status @ asc '' '' @ reason) (hm_iter H stripped))"

section \<open>Reframing\<close>

definition is_te_chunked :: "bytes \<Rightarrow> bool" where
  "is_te_chunked line =
     (case position 58 line of
        None \<Rightarrow> False
      | Some colon \<Rightarrow>
          let name = take colon line; value = drop (colon + 1) line;
              is_te = (case utf8_decode name of
                         Some n \<Rightarrow> eq_ignore_case_cp (trim n) (cps ''transfer-encoding'')
                       | None \<Rightarrow> False);
              only_chunked = (case utf8_decode value of
                         Some v \<Rightarrow> v \<noteq> [] \<and>
                           list_all (\<lambda>t. eq_ignore_case_cp (trim t) (cps ''chunked'')) (split_on 44 v)
                       | None \<Rightarrow> False)
          in is_te \<and> only_chunked)"

definition strip_lf :: "nat \<times> bytes \<Rightarrow> nat \<times> bytes" where
  "strip_lf = (\<lambda>(i, line). (i, if i = 0 then line
     else (case line of [] \<Rightarrow> [] | b # r \<Rightarrow> if b = 10 then r else line)))"

definition reframed_line :: "nat \<times> bytes \<Rightarrow> bytes" where
  "reframed_line = (\<lambda>(i, line).
     if is_te_chunked line then [] else (if i > 0 then crlf else []) @ line)"

text \<open>\<open>None\<close> is a panic: \<open>head[..end - 4]\<close> with \<open>end < 4\<close> would underflow.\<close>

definition reframe_head_for_tunnel :: "bytes \<Rightarrow> bytes option" where
  "reframe_head_for_tunnel head =
     (case find_header_end head of
        None \<Rightarrow> Some head
      | Some end \<Rightarrow>
          if take (end - (end - 4)) (drop (end - 4) head) \<noteq> crlf2 then Some head
          else if end < 4 then None
          else
            let block = take (end - 4) head
            in Some (concat (map (\<lambda>x. reframed_line (strip_lf x)) (enumerate 0 (split_on 13 block)))
                     @ crlf2))"

section \<open>Lemmas\<close>

lemma find_header_end_SomeD:
  "find_header_end bs = Some e \<Longrightarrow> 2 \<le> e \<and> e \<le> length bs"
  by (auto simp: find_header_end_def crlf2_def crlf_def split: option.splits
      dest!: find_sub_SomeD)

text \<open>A byte string without line feeds holds no head terminator.\<close>

lemma find_sub_missing:
  "b \<in> set n \<Longrightarrow> b \<notin> set h \<Longrightarrow> find_sub n h = None"
proof (rule ccontr)
  assume a: "b \<in> set n" "b \<notin> set h" and "find_sub n h \<noteq> None"
  then obtain i where "find_sub n h = Some i" by auto
  from find_sub_SomeD [OF this] have "set n \<subseteq> set h"
    by (metis set_take_subset set_drop_subset subset_trans)
  with a show False by auto
qed

text \<open>
  Searching for the terminator in a line that is followed by its end: the line cannot
  hold it, and it starts at the line's end exactly when another line end follows.
\<close>

definition no_eol :: "bytes \<Rightarrow> bool" where
  "no_eol bs \<longleftrightarrow> 13 \<notin> set bs \<and> 10 \<notin> set bs"

lemma no_eol_simps [simp]:
  "no_eol []" "no_eol (b # bs) \<longleftrightarrow> b \<noteq> 13 \<and> b \<noteq> 10 \<and> no_eol bs"
  "no_eol (xs @ ys) \<longleftrightarrow> no_eol xs \<and> no_eol ys"
  by (auto simp: no_eol_def)

lemma find_crlf2_skip:
  assumes "no_eol l"
  shows "find_sub crlf2 (l @ crlf @ r) =
    (if take 2 r = crlf then Some (length l)
     else map_option (\<lambda>i. length l + 2 + i) (find_sub crlf2 r))"
  using assms
proof (induction l)
  case Nil
  have "take 4 (crlf @ r) = crlf2 \<longleftrightarrow> take 2 r = crlf"
    by (simp add: crlf2_def crlf_def)
  then show ?case
    by (cases "find_sub crlf2 r") (auto simp: crlf2_def crlf_def simp flip: numeral_2_eq_2)
next
  case (Cons b l)
  then have "take 4 (b # l @ crlf @ r) \<noteq> crlf2" by (simp add: crlf2_def crlf_def)
  moreover have "length crlf2 = 4" by (simp add: crlf2_def)
  ultimately show ?case using Cons by (auto simp: option.map_comp o_def)
qed

lemma no_crlf2_start: "no_eol l \<Longrightarrow> l \<noteq> [] \<Longrightarrow> take 2 (l @ r) \<noteq> crlf"
  by (cases l) (auto simp: crlf_def)

text \<open>
  A head written from a start line and fields without line ends, with nonempty names,
  ends exactly where the terminator is first found: no field can cut it short.
\<close>

definition clean_field :: "bytes \<times> bytes \<Rightarrow> bool" where
  "clean_field f \<longleftrightarrow> fst f \<noteq> [] \<and> no_eol (fst f) \<and> no_eol (snd f)"

lemma find_crlf2_fields:
  assumes "no_eol start" "\<forall>f \<in> set hdrs. clean_field f"
  shows "find_sub crlf2 (start @ crlf @ concat (map field_line hdrs) @ crlf @ r) =
    Some (length start + length (concat (map field_line hdrs)))"
  using assms
proof (induction hdrs arbitrary: start)
  case Nil
  then show ?case by (simp add: find_crlf2_skip)
next
  case (Cons f fs)
  let ?l = "fst f @ asc '': '' @ snd f"
  have l: "no_eol ?l" "?l \<noteq> []" using Cons.prems(2) by (auto simp: clean_field_def)
  from Cons.IH [OF l(1)] Cons.prems(2)
  have "find_sub crlf2 (?l @ crlf @ concat (map field_line fs) @ crlf @ r) =
      Some (length ?l + length (concat (map field_line fs)))" by simp
  moreover have "take 2 (?l @ crlf @ concat (map field_line fs) @ crlf @ r) \<noteq> crlf"
    using l by (rule no_crlf2_start)
  ultimately have "find_sub crlf2 (start @ crlf @ ?l @ crlf @ concat (map field_line fs) @ crlf @ r) =
      Some (length start + 2 + (length ?l + length (concat (map field_line fs))))"
    using find_crlf2_skip [OF Cons.prems(1), of "?l @ crlf @ concat (map field_line fs) @ crlf @ r"]
    by (simp only: if_False option.map)
  moreover have "start @ crlf @ concat (map field_line (f # fs)) @ crlf @ r =
      start @ crlf @ (?l @ crlf @ concat (map field_line fs) @ crlf @ r)"
    by (simp add: field_line_def)
  moreover have "length (concat (map field_line (f # fs))) = 2 + length ?l + length (concat (map field_line fs))"
    by (simp add: field_line_def)
  ultimately show ?case by (simp only: add.assoc)
qed

lemma find_header_end_head_bytes:
  assumes "no_eol start" "\<forall>f \<in> set hdrs. clean_field f"
  shows "find_header_end (head_bytes start hdrs @ body) = Some (length (head_bytes start hdrs))"
  using find_crlf2_fields [OF assms, of body]
  by (simp add: find_header_end_def head_bytes_def)


text \<open>The lines of a head, as the loop of \<open>reframe_head_for_tunnel\<close> cuts them.\<close>

definition field_text :: "bytes \<times> bytes \<Rightarrow> bytes" where
  "field_text f = fst f @ asc '': '' @ snd f"

lemma field_line_text: "field_line f = field_text f @ crlf"
  by (simp add: field_line_def field_text_def)

lemma no_eol_field_text: "clean_field f \<Longrightarrow> no_eol (field_text f)"
  by (simp add: clean_field_def field_text_def)

lemma split_on_append:
  "c \<notin> set l \<Longrightarrow> split_on c (l @ c # r) = l # split_on c r"
  by (induction l) auto

lemma head_block:
  "start @ crlf @ concat (map field_line hs) =
     (start @ concat (map (\<lambda>f. crlf @ field_text f) hs)) @ crlf"
  by (induction hs arbitrary: start) (simp_all add: field_line_text)

lemma split_block:
  "no_eol start \<Longrightarrow> \<forall>f \<in> set hs. clean_field f \<Longrightarrow>
   split_on 13 (start @ concat (map (\<lambda>f. crlf @ field_text f) hs)) =
     start # map (\<lambda>f. 10 # field_text f) hs"
proof (induction hs arbitrary: start)
  case Nil
  then show ?case by (simp add: split_on_notin no_eol_def)
next
  case (Cons f hs)
  have "no_eol (10 # field_text f) \<or> 13 \<notin> set (10 # field_text f)"
    using Cons.prems no_eol_field_text [of f] by (auto simp: no_eol_def)
  then have "split_on 13 (field_text f @ concat (map (\<lambda>f. crlf @ field_text f) hs)) =
      field_text f # map (\<lambda>f. 10 # field_text f) hs"
    using Cons.IH [of "field_text f"] Cons.prems no_eol_field_text [of f] by simp
  then show ?case
    using Cons.prems by (simp add: crlf_def split_on_append no_eol_def)
qed

lemma reframed_fields:
  "concat (map (\<lambda>x. reframed_line (strip_lf x)) (enumerate (Suc n) (map (\<lambda>f. 10 # field_text f) hs))) =
     concat (map (\<lambda>f. crlf @ field_text f) (filter (\<lambda>f. \<not> is_te_chunked (field_text f)) hs))"
  by (induction hs arbitrary: n) (simp_all add: strip_lf_def reframed_line_def)

lemma crlf2_at_end:
  "take 4 (drop (length (head_bytes start hs) - 4) (head_bytes start hs @ body)) = crlf2 \<and>
   take (length (head_bytes start hs) - 4) (head_bytes start hs @ body) =
     start @ concat (map (\<lambda>f. crlf @ field_text f) hs) \<and> 4 \<le> length (head_bytes start hs)"
proof -
  let ?b = "start @ concat (map (\<lambda>f. crlf @ field_text f) hs)"
  have "head_bytes start hs = (start @ crlf @ concat (map field_line hs)) @ crlf"
    by (simp add: head_bytes_def)
  then have h: "head_bytes start hs = ?b @ crlf2"
    by (simp only: head_block crlf2_def append_assoc)
  then show ?thesis by (simp add: crlf2_def crlf_def)
qed

section \<open>Properties\<close>



lemma crlf2_not_found:
  "find_sub crlf2 head = None \<Longrightarrow> take (length crlf2) (drop i head) \<noteq> crlf2"
  using find_sub_None_iff [of crlf2 head] by (simp add: crlf2_def crlf_def)

text \<open>
  Reframing cannot panic, on any bytes: the slice bound \<open>end - 4\<close> is only computed
  once the terminator is known to be four bytes long. Heads without a CRLF terminator
  come back unchanged.
\<close>
theorem reframe_total:
  "reframe_head_for_tunnel head \<noteq> None \<and>
   (find_sub crlf2 head = None \<longrightarrow> reframe_head_for_tunnel head = Some head)"
proof (cases "find_header_end head")
  case None
  then show ?thesis by (simp add: reframe_head_for_tunnel_def)
next
  case (Some e)
  let ?t = "take (e - (e - 4)) (drop (e - 4) head)"
  show ?thesis
  proof (cases "?t = crlf2")
    case False
    then have "reframe_head_for_tunnel head = Some head"
      unfolding reframe_head_for_tunnel_def Some option.case by (rule if_P)
    then show ?thesis by simp
  next
    case True
    have "length ?t \<le> e - (e - 4)" by simp
    then have e: "4 \<le> e - (e - 4)" unfolding True by (simp add: crlf2_def)
    then have "e - (e - 4) = length crlf2" by (simp add: crlf2_def)
    with True have "find_sub crlf2 head \<noteq> None" using crlf2_not_found [of head "e - 4"] by metis
    moreover from e have "\<not> e < 4" by simp
    then have "reframe_head_for_tunnel head \<noteq> None"
      unfolding reframe_head_for_tunnel_def Some option.case True
      by (simp only: simp_thms if_False Let_def option.distinct)
    ultimately show ?thesis by blast
  qed
qed

text \<open>
  On a head of a start line and fields, reframing removes exactly the fields that are
  \<open>transfer-encoding\<close> with only \<open>chunked\<close> codings, keeps every other field byte for byte in
  order, and drops whatever follows the head.
\<close>
lemma reframe_removes_chunked:
  assumes "no_eol start" "\<not> is_te_chunked start" "\<forall>f \<in> set hs. clean_field f"
  shows "reframe_head_for_tunnel (head_bytes start hs @ body) =
    Some (head_bytes start (filter (\<lambda>f. \<not> is_te_chunked (field_text f)) hs))"
proof -
  let ?e = "length (head_bytes start hs)"
  have e: "find_header_end (head_bytes start hs @ body) = Some ?e"
    using assms(1,3) by (rule find_header_end_head_bytes)
  note c = crlf2_at_end [of start hs body]
  then have "?e - (?e - 4) = 4" "\<not> ?e < 4" by simp_all
  moreover have "map (\<lambda>x. reframed_line (strip_lf x)) (enumerate 0 (start # map (\<lambda>f. 10 # field_text f) hs))
      = start # map (\<lambda>x. reframed_line (strip_lf x)) (enumerate (Suc 0) (map (\<lambda>f. 10 # field_text f) hs))"
    using assms(2) by (simp add: strip_lf_def reframed_line_def)
  ultimately have "reframe_head_for_tunnel (head_bytes start hs @ body) =
      Some (concat (start # map (\<lambda>x. reframed_line (strip_lf x))
         (enumerate (Suc 0) (map (\<lambda>f. 10 # field_text f) hs))) @ crlf2)"
    unfolding reframe_head_for_tunnel_def e option.case Let_def
    by (simp only: c split_block [OF assms(1,3)] if_False simp_thms)
  also have "\<dots> = Some ((start @ concat (map (\<lambda>f. crlf @ field_text f)
         (filter (\<lambda>f. \<not> is_te_chunked (field_text f)) hs))) @ crlf2)"
    by (simp only: concat.simps reframed_fields append_assoc)
  also have "\<dots> = Some (head_bytes start (filter (\<lambda>f. \<not> is_te_chunked (field_text f)) hs))"
    using head_block [of start "filter (\<lambda>f. \<not> is_te_chunked (field_text f)) hs"]
    by (simp only: head_bytes_def crlf2_def append_assoc) (metis append_assoc)
  finally show ?thesis .
qed

lemma reframe_removes_chunked_witness:
  "reframe_head_for_tunnel (head_bytes (asc ''HTTP/1.1 200 OK'')
      [(asc ''TE'', asc ''x''), (asc ''Transfer-Encoding'', asc ''chunked'')] @ [7]) =
   Some (head_bytes (asc ''HTTP/1.1 200 OK'') [(asc ''TE'', asc ''x'')])"
proof -
  let ?te = "(asc ''Transfer-Encoding'', asc ''chunked'')"
  have "\<not> is_te_chunked (asc ''HTTP/1.1 200 OK'')" by (simp add: is_te_chunked_def)
  moreover have "\<not> is_te_chunked (field_text (asc ''TE'', asc ''x''))"
    by (simp add: is_te_chunked_def field_text_def utf8_decode_ascii ascii_def trim_def trim_by_def
        is_whitespace_def eq_ignore_case_cp_def lower_cp_def)
  moreover have "is_te_chunked (field_text ?te)"
    by (simp add: is_te_chunked_def field_text_def utf8_decode_ascii ascii_def trim_def trim_by_def
        is_whitespace_def eq_ignore_case_cp_def lower_cp_def)
  ultimately show ?thesis
    using reframe_removes_chunked
      [of "asc ''HTTP/1.1 200 OK''" "[(asc ''TE'', asc ''x''), ?te]" "[7]"]
    by (simp add: clean_field_def)
qed

text \<open>A parser that accepts nothing, for the applications.\<close>

definition deaf_parser :: "unit head_parser" where
  "deaf_parser = \<lparr>hp_parse = \<lambda>_. None, hp_build = \<lambda>_ _. None\<rparr>"

end
