(* ===== verification/Streams.thy ===== *)
theory Streams
  imports Heads
begin

text \<open>
  One in-flight caller request at the hub: \<open>StreamState\<close> and \<open>StreamFailure\<close> of
  \<open>hub.rs\<close>. The session task finishes a stream while the forwarding task installs the
  handle of the upload task; the two run on different threads, so the operations are
  given as sequences of the atomic steps the code takes, and the property is about every
  interleaving of them. The chunk channel is recorded by what it accepted.
\<close>

section \<open>State\<close>

type_synonym task = nat

definition MAX_CONCURRENT_STREAMS :: nat where "MAX_CONCURRENT_STREAMS = 64"

datatype send_result = Sent | Full | Closed

datatype chunk_or_end = Chunk bytes | ChunkEnd

record 'h stream_state =
  ss_method :: bytes
  ss_path :: bytes
  ss_headers :: 'h
  ss_chunks :: "chunk_or_end list"        \<comment> \<open>accepted by \<open>chunk_tx\<close>, in order\<close>
  ss_rx_taken :: bool                     \<comment> \<open>\<open>chunks\<close> is \<open>None\<close>: the receiver was handed over\<close>
  ss_head :: "'h response option"
  ss_completed :: bool
  ss_outcome :: "8 word"                  \<comment> \<open>\<open>StreamFailure::outcome\<close>: 0 open, 1 complete, 2 failed\<close>
  ss_upload :: "task option"
  ss_aborted :: "task list"               \<comment> \<open>\<open>abort\<close> calls on upload tasks, in order\<close>

definition stream_state_new :: "bytes \<Rightarrow> bytes \<Rightarrow> 'h \<Rightarrow> 'h stream_state" where
  "stream_state_new meth path headers =
     \<lparr>ss_method = meth, ss_path = path, ss_headers = headers, ss_chunks = [], ss_rx_taken = False,
      ss_head = None, ss_completed = False, ss_outcome = 0, ss_upload = None, ss_aborted = []\<rparr>"

section \<open>Atomic steps\<close>

datatype micro =
    StoreCompleted
  | TakeUpload
  | StoreOutcome "8 word"
  | InstallUpload task

fun exec :: "micro \<Rightarrow> 'h stream_state \<Rightarrow> 'h stream_state" where
  "exec StoreCompleted st = st\<lparr>ss_completed := True\<rparr>"
| "exec TakeUpload st =
     (case ss_upload st of
        Some t \<Rightarrow> st\<lparr>ss_upload := None, ss_aborted := ss_aborted st @ [t]\<rparr>
      | None \<Rightarrow> st)"
| "exec (StoreOutcome n) st = st\<lparr>ss_outcome := n\<rparr>"
| "exec (InstallUpload t) st =
     (if ss_completed st then st\<lparr>ss_aborted := ss_aborted st @ [t]\<rparr>
      else st\<lparr>ss_upload := Some t\<rparr>)"

text \<open>\<open>finish_upload\<close>: the flag is stored first, then the handle is taken under its lock.\<close>

definition finish_upload :: "micro list" where
  "finish_upload = [StoreCompleted, TakeUpload]"

definition complete_steps :: "micro list" where
  "complete_steps = finish_upload @ [StoreOutcome 1]"

definition fail_steps :: "micro list" where
  "fail_steps = finish_upload @ [StoreOutcome 2]"

definition stream_complete :: "'h stream_state \<Rightarrow> 'h stream_state" where
  "stream_complete = fold exec complete_steps"

definition stream_fail :: "'h stream_state \<Rightarrow> 'h stream_state" where
  "stream_fail = fold exec fail_steps"

definition install_upload :: "task \<Rightarrow> 'h stream_state \<Rightarrow> 'h stream_state" where
  "install_upload t = exec (InstallUpload t)"

definition is_complete :: "'h stream_state \<Rightarrow> bool" where
  "is_complete st \<longleftrightarrow> ss_outcome st = 1"

definition poll_failed :: "'h stream_state \<Rightarrow> bool" where
  "poll_failed st \<longleftrightarrow> ss_outcome st = 2"

text \<open>One pass of the loop in \<open>Forwarded::head\<close>; \<open>HeadPending\<close> sleeps and polls again.\<close>

datatype 'h head_poll = HeadReady "'h response" | HeadGone | HeadPending

definition poll_head :: "'h stream_state \<Rightarrow> 'h head_poll" where
  "poll_head st =
     (case ss_head st of
        Some r \<Rightarrow> HeadReady r
      | None \<Rightarrow> if ss_completed st then HeadGone else HeadPending)"

definition take_rx :: "'h stream_state \<Rightarrow> bool \<times> 'h stream_state" where
  "take_rx st = (\<not> ss_rx_taken st, st\<lparr>ss_rx_taken := True\<rparr>)"

lemmas finisher_defs = complete_steps_def fail_steps_def finish_upload_def

lemma stream_fail_simps [simp]:
  "ss_completed (stream_fail st)" "ss_outcome (stream_fail st) = 2"
  "ss_upload (stream_fail st) = None" "ss_head (stream_fail st) = ss_head st"
  "ss_chunks (stream_fail st) = ss_chunks st"
  by (simp_all add: stream_fail_def finisher_defs split: option.splits)

lemma stream_complete_simps [simp]:
  "ss_completed (stream_complete st)" "ss_outcome (stream_complete st) = 1"
  "ss_upload (stream_complete st) = None" "ss_head (stream_complete st) = ss_head st"
  "ss_chunks (stream_complete st) = ss_chunks st"
  by (simp_all add: stream_complete_def finisher_defs split: option.splits)

lemma stream_state_new_simps [simp]:
  "ss_completed (stream_state_new m p h) = False" "ss_outcome (stream_state_new m p h) = 0"
  "ss_upload (stream_state_new m p h) = None" "ss_head (stream_state_new m p h) = None"
  "ss_chunks (stream_state_new m p h) = []" "ss_aborted (stream_state_new m p h) = []"
  by (simp_all add: stream_state_new_def)

section \<open>Interleavings\<close>

text \<open>All ways in which the steps of some threads can follow one another.\<close>

inductive interleaving :: "'a list list \<Rightarrow> 'a list \<Rightarrow> bool" where
  inter_done: "\<forall>p \<in> set ps. p = [] \<Longrightarrow> interleaving ps []"
| inter_step: "i < length ps \<Longrightarrow> ps ! i = x # xs \<Longrightarrow> interleaving (ps[i := xs]) ys \<Longrightarrow>
    interleaving ps (x # ys)"

inductive_simps interleaving_Nil: "interleaving ps []"
inductive_cases interleaving_ConsE: "interleaving ps (x # ys)"

text \<open>Singling out the first thread.\<close>

lemma interleaving_first:
  "interleaving ps ys \<Longrightarrow> ps = p # qs \<Longrightarrow> \<exists>zs. interleaving qs zs \<and> ys \<in> shuffles p zs"
proof (induction arbitrary: p qs rule: interleaving.induct)
  case (inter_done ps)
  then have "interleaving qs []" "p = []" by (auto intro: interleaving.inter_done)
  then show ?case by auto
next
  case (inter_step i ps x xs ys)
  show ?case
  proof (cases i)
    case 0
    with inter_step have "p = x # xs" "ps[i := xs] = xs # qs" by auto
    with inter_step.IH obtain zs where "interleaving qs zs" "ys \<in> shuffles xs zs" by blast
    with \<open>p = x # xs\<close> show ?thesis by (auto intro!: Cons_in_shuffles_leftI)
  next
    case (Suc j)
    with inter_step have q: "j < length qs" "qs ! j = x # xs" "ps[i := xs] = p # qs[j := xs]"
      by auto
    with inter_step.IH obtain zs where "interleaving (qs[j := xs]) zs" "ys \<in> shuffles p zs" by blast
    with q(1,2) have "interleaving qs (x # zs) \<and> x # ys \<in> shuffles p (x # zs)"
      by (auto intro: interleaving.inter_step Cons_in_shuffles_rightI)
    then show ?thesis by blast
  qed
qed

lemma shuffles_single: "ys \<in> shuffles [x] zs \<Longrightarrow> \<exists>as bs. zs = as @ bs \<and> ys = as @ x # bs"
proof (induction zs arbitrary: ys)
  case (Cons z zs)
  from Cons.prems consider "ys = x # z # zs" | ys' where "ys = z # ys'" "ys' \<in> shuffles [x] zs"
    by (auto simp: shuffles.simps)
  then show ?case
  proof cases
    case 1
    then show ?thesis by (intro exI [of _ "[]"] exI [of _ "z # zs"]) simp
  next
    case 2
    from Cons.IH [OF 2(2)] obtain as bs where "zs = as @ bs" "ys' = as @ x # bs" by blast
    with 2 show ?thesis by (intro exI [of _ "z # as"] exI [of _ bs]) simp
  qed
qed simp

lemma interleaving_set: "interleaving ps ys \<Longrightarrow> set ys = \<Union> (set ` set ps)"
proof (induction rule: interleaving.induct)
  case (inter_step i ps x xs ys)
  then have ps: "ps = take i ps @ (x # xs) # drop (Suc i) ps"
    by (metis id_take_nth_drop)
  have "\<Union> (set ` set (take i ps @ (x # xs) # drop (Suc i) ps)) =
      insert x (\<Union> (set ` set (take i ps @ xs # drop (Suc i) ps)))" by auto
  also have "take i ps @ xs # drop (Suc i) ps = ps[i := xs]"
    using inter_step(1) by (simp add: upd_conv_take_nth_drop)
  finally show ?case using inter_step.IH ps by simp
qed auto

lemma interleaving_hd:
  "interleaving ps (x # ys) \<Longrightarrow> \<exists>p \<in> set ps. \<exists>xs. p = x # xs"
  by (erule interleaving_ConsE) (metis nth_mem)

section \<open>Finishing\<close>

text \<open>What a run of finishing steps does, in any order.\<close>

definition is_finish_step :: "micro \<Rightarrow> bool" where
  "is_finish_step m \<longleftrightarrow> (\<forall>t. m \<noteq> InstallUpload t)"

lemma exec_finish_steps:
  "list_all is_finish_step ms \<Longrightarrow>
     ss_completed (fold exec ms st) = (ss_completed st \<or> StoreCompleted \<in> set ms) \<and>
     ss_upload (fold exec ms st) = (if TakeUpload \<in> set ms then None else ss_upload st) \<and>
     ss_aborted (fold exec ms st) = ss_aborted st @
       (if TakeUpload \<in> set ms then (case ss_upload st of None \<Rightarrow> [] | Some t \<Rightarrow> [t]) else [])"
proof (induction ms arbitrary: st)
  case (Cons m ms)
  then show ?case by (cases m) (auto simp: is_finish_step_def split: option.splits)
qed simp

lemma exec_outcome:
  "ss_outcome (fold exec ms st) \<in> insert (ss_outcome st) {n. StoreOutcome n \<in> set ms}"
proof (induction ms arbitrary: st)
  case (Cons m ms)
  from Cons.IH [of "exec m st"] show ?case by (cases m) (auto split: option.splits)
qed simp

lemma exec_outcome_stored:
  "StoreOutcome n \<in> set ms \<Longrightarrow> ss_outcome (fold exec ms st) \<in> {n. StoreOutcome n \<in> set ms}"
proof (induction ms arbitrary: st)
  case (Cons m ms)
  show ?case
  proof (cases "StoreOutcome n \<in> set ms")
    case True
    with Cons.IH show ?thesis by auto
  next
    case False
    with Cons.prems have "m = StoreOutcome n" by auto
    then show ?thesis using exec_outcome [of ms "exec m st"] by auto
  qed
qed simp

text \<open>Threads that finish a stream, completing or failing it.\<close>

definition finishers :: "micro list list \<Rightarrow> bool" where
  "finishers ps \<longleftrightarrow> ps \<noteq> [] \<and> set ps \<subseteq> {complete_steps, fail_steps}"

lemma finishers_run:
  assumes "finishers ps" "interleaving ps zs"
  shows "list_all is_finish_step zs" "TakeUpload \<in> set zs" "\<exists>ws. zs = StoreCompleted # ws"
    "{n. StoreOutcome n \<in> set zs} \<subseteq> {1, 2}" "\<exists>n. StoreOutcome n \<in> set zs"
proof -
  from assms(1) have ps: "ps \<noteq> []" "\<And>p. p \<in> set ps \<Longrightarrow> p = complete_steps \<or> p = fail_steps"
    by (auto simp: finishers_def)
  note set_zs = interleaving_set [OF assms(2)]
  from ps obtain p where p: "p \<in> set ps" by (cases ps) auto
  show "list_all is_finish_step zs"
    using ps(2) by (fastforce simp: list_all_iff set_zs is_finish_step_def finisher_defs)
  show take: "TakeUpload \<in> set zs"
  proof -
    have "TakeUpload \<in> set p" using ps(2) [OF p] by (auto simp: finisher_defs)
    with p show ?thesis by (auto simp: set_zs)
  qed
  show "{n. StoreOutcome n \<in> set zs} \<subseteq> {1, 2}"
    using ps(2) by (fastforce simp: set_zs finisher_defs)
  show "\<exists>n. StoreOutcome n \<in> set zs"
  proof -
    have "\<exists>n. StoreOutcome n \<in> set p" using ps(2) [OF p] by (auto simp: finisher_defs)
    with p show ?thesis by (auto simp: set_zs)
  qed
  from take obtain z ws where zs: "zs = z # ws" by (cases zs) auto
  from interleaving_hd [OF assms(2) [unfolded zs]] obtain q xs where "q \<in> set ps" "q = z # xs"
    by (elim bexE exE)
  with ps(2) [of q] have "z = StoreCompleted" by (auto simp: finisher_defs)
  with zs show "\<exists>ws. zs = StoreCompleted # ws" by blast
qed

section \<open>Properties\<close>

text \<open>
  C25: Whatever the timing, an upload task does not outlive its stream: if any threads
  complete or fail the stream while another installs the upload's handle, then after
  every interleaving of their atomic steps the task has been aborted exactly once, no
  handle is left behind, and the stream is marked completed with a final outcome.
\<close>
theorem upload_never_outlives_stream:
  assumes "finishers ps" "interleaving ([InstallUpload t] # ps) ms"
  shows "let st = fold exec ms (stream_state_new meth path headers) in
    ss_aborted st = [t] \<and> ss_upload st = None \<and> ss_completed st \<and>
    (is_complete st \<or> poll_failed st)"
proof -
  obtain zs where zs: "interleaving ps zs" "ms \<in> shuffles [InstallUpload t] zs"
    using interleaving_first [OF assms(2) refl] by blast
  from shuffles_single [OF zs(2)] obtain as bs where
    ab: "zs = as @ bs" "ms = as @ InstallUpload t # bs" by (elim exE conjE)
  note run = finishers_run [OF assms(1) zs(1)]
  let ?n = "stream_state_new meth path headers"
  let ?a = "fold exec as ?n" and ?i = "fold exec (as @ [InstallUpload t]) ?n"
  have fin: "list_all is_finish_step as" "list_all is_finish_step bs"
    using run(1) by (simp_all add: ab)
  note a = exec_finish_steps [OF fin(1), of ?n] and b = exec_finish_steps [OF fin(2), of ?i]
  have same: "StoreOutcome n \<in> set ms \<longleftrightarrow> StoreOutcome n \<in> set zs" for n by (simp add: ab)
  from run(5) obtain n where "StoreOutcome n \<in> set ms" unfolding same by (elim exE)
  note exec_outcome_stored [OF this, of ?n]
  also have "{n. StoreOutcome n \<in> set ms} \<subseteq> {1, 2}" unfolding same by (rule run(4))
  finally
  have out: "ss_outcome (fold exec ms ?n) \<in> {1, 2}" .
  have "ss_aborted (fold exec ms ?n) = [t] \<and> ss_upload (fold exec ms ?n) = None \<and>
      ss_completed (fold exec ms ?n)"
  proof (cases "as = []")
    case True
    with run(2,3) have "TakeUpload \<in> set bs" "StoreCompleted \<in> set bs" by (auto simp: ab)
    with b True show ?thesis by (simp add: ab)
  next
    case False
    with run(3) have "StoreCompleted \<in> set as" by (cases as) (auto simp: ab)
    with a b show ?thesis by (simp add: ab)
  qed
  with out show ?thesis by (auto simp: Let_def is_complete_def poll_failed_def)
qed

theorem upload_never_outlives_stream_witness:
  "let st = fold exec [StoreCompleted, InstallUpload 7, TakeUpload, StoreOutcome 1]
       (stream_state_new [] [] ()) in
    ss_aborted st = [7] \<and> ss_upload st = None \<and> ss_completed st \<and> (is_complete st \<or> poll_failed st)"
proof -
  have "interleaving [[InstallUpload 7], complete_steps]
      [StoreCompleted, InstallUpload 7, TakeUpload, StoreOutcome 1]"
    by (rule inter_step [of 1 _ _ "[TakeUpload, StoreOutcome 1]"],
        simp, simp add: finisher_defs,
        rule inter_step [of 0 _ _ "[]"], simp, simp,
        rule inter_step [of 1 _ _ "[StoreOutcome 1]"], simp, simp,
        rule inter_step [of 1 _ _ "[]"], simp, simp, rule inter_done, simp)
  moreover have "finishers [complete_steps]" by (simp add: finishers_def)
  ultimately show ?thesis by (intro upload_never_outlives_stream)
qed

end
