(* ===== verification/Credentials.thy ===== *)
theory Credentials
  imports Rust_Std
begin

text \<open>
  What the hub and its administration share: the hexadecimal digest under which a
  credential is stored (\<open>digest\<close> of \<open>hub.rs\<close>, the digest line of \<open>issue\<close> in
  \<open>admin.rs\<close>), the durable record of a registration, and durations. SHA-256 itself is an
  argument \<open>sha\<close> of every definition that uses it.
\<close>

section \<open>Durations\<close>

text \<open>Durations and instants are nanoseconds; \<open>Duration::MAX\<close> is \<open>2 ^ 64\<close> seconds less one nanosecond.\<close>

definition secs :: "nat \<Rightarrow> nat" where
  "secs n = n * 10 ^ 9"

definition millis :: "nat \<Rightarrow> nat" where
  "millis n = n * 10 ^ 6"

definition DURATION_MAX :: nat where
  "DURATION_MAX = secs (2 ^ 64) - 1"

lemma secs_mono [simp]: "secs a \<le> secs b \<longleftrightarrow> a \<le> b" "secs a < secs b \<longleftrightarrow> a < b"
  by (simp_all add: secs_def)

lemma secs_0 [simp]: "secs 0 = 0" by (simp add: secs_def)

section \<open>Digests\<close>

definition hex_digit :: "nat \<Rightarrow> byte" where
  "hex_digit n = (if n < 10 then of_nat (48 + n) else of_nat (87 + n))"

text \<open>\<open>{b:02x}\<close>\<close>

definition hex2 :: "byte \<Rightarrow> bytes" where
  "hex2 b = [hex_digit (unat b div 16), hex_digit (unat b mod 16)]"

definition digest :: "(bytes \<Rightarrow> bytes) \<Rightarrow> bytes \<Rightarrow> bytes" where
  "digest sha input = concat (map hex2 (sha input))"

definition is_hex_lower :: "byte \<Rightarrow> bool" where
  "is_hex_lower b \<longleftrightarrow> 48 \<le> unat b \<and> unat b \<le> 57 \<or> 97 \<le> unat b \<and> unat b \<le> 102"

lemma hex_digit_val: "n < 16 \<Longrightarrow> unat (hex_digit n) = (if n < 10 then 48 + n else 87 + n)"
proof -
  assume "n < 16"
  moreover have "hex_digit n = of_nat (if n < 10 then 48 + n else 87 + n)"
    by (simp add: hex_digit_def)
  ultimately show ?thesis by (simp only: unat_byte_of_nat) auto
qed

lemma hex_digit_inj: "m < 16 \<Longrightarrow> n < 16 \<Longrightarrow> hex_digit m = hex_digit n \<Longrightarrow> m = n"
  by (drule arg_cong [where f = unat]) (auto simp: hex_digit_val split: if_splits)

lemma hex_digit_lower: "n < 16 \<Longrightarrow> is_hex_lower (hex_digit n)"
  by (auto simp: is_hex_lower_def hex_digit_val)

lemma nibbles: "unat (b :: byte) div 16 < 16" "unat (b :: byte) mod 16 < 16"
  using byte_lt_256 [of b] by auto

lemma hex2_inj: "hex2 a = hex2 b \<Longrightarrow> a = b"
proof -
  assume "hex2 a = hex2 b"
  then have "unat a div 16 = unat b div 16" "unat a mod 16 = unat b mod 16"
    using nibbles hex_digit_inj unfolding hex2_def by blast+
  then have "unat a = unat b" by (metis div_mult_mod_eq)
  then show ?thesis by (rule word_unat_eq_iff [THEN iffD2])
qed

lemma hex_inj: "concat (map hex2 xs) = concat (map hex2 ys) \<Longrightarrow> xs = ys"
proof (induction xs arbitrary: ys)
  case Nil
  then show ?case by (cases ys) (simp_all add: hex2_def)
next
  case (Cons x xs)
  then obtain y zs where y: "ys = y # zs" by (cases ys) (simp_all add: hex2_def)
  with Cons.prems have "hex2 x @ concat (map hex2 xs) = hex2 y @ concat (map hex2 zs)" by simp
  then have "hex2 x = hex2 y \<and> concat (map hex2 xs) = concat (map hex2 zs)"
    by (simp add: hex2_def)
  with Cons.IH y hex2_inj show ?case by blast
qed

text \<open>Hexadecimal loses nothing: two digests agree only when the hashes do.\<close>

lemma digest_eq_iff: "digest sha a = digest sha b \<longleftrightarrow> sha a = sha b"
  by (auto simp: digest_def dest: hex_inj)

lemma digest_format:
  "length (sha c) = 32 \<Longrightarrow> length (digest sha c) = 64 \<and> list_all is_hex_lower (digest sha c)"
proof
  have "length (concat (map hex2 xs)) = 2 * length xs" for xs
    by (induction xs) (simp_all add: hex2_def)
  then show "length (sha c) = 32 \<Longrightarrow> length (digest sha c) = 64" by (simp add: digest_def)
  show "list_all is_hex_lower (digest sha c)"
    by (auto simp: digest_def list_all_iff hex2_def intro!: hex_digit_lower nibbles)
qed

section \<open>Registrations\<close>

record admin_record =
  ar_id :: bytes
  ar_label :: bytes
  ar_credential_hash :: bytes
  ar_active :: bool
  ar_expires_at :: "64 word"

end
