(* ===== verification/Frames.thy ===== *)
theory Frames
  imports Rust_Std
begin

text \<open>
  The wire codec of \<open>cargo/src/frames.rs\<close>: the frame type, its encoder and its
  incremental decoder, and the interface \<open>wire_codec\<close> through which the session
  theories use it.
\<close>

section \<open>Constants and types\<close>

definition HEADER_LEN :: nat where "HEADER_LEN = 7"

definition MAX_PAYLOAD :: "32 word" where "MAX_PAYLOAD = push_bit 20 1"

definition T_HELLO :: byte where "T_HELLO = 0x01"
definition T_WELCOME :: byte where "T_WELCOME = 0x02"
definition T_OPEN :: byte where "T_OPEN = 0x03"
definition T_DATA :: byte where "T_DATA = 0x04"
definition T_END :: byte where "T_END = 0x05"
definition T_PING :: byte where "T_PING = 0x06"
definition T_PONG :: byte where "T_PONG = 0x07"
definition T_GOAWAY :: byte where "T_GOAWAY = 0x08"
definition T_HALF_END :: byte where "T_HALF_END = 0x09"
definition T_RESP_HEAD :: byte where "T_RESP_HEAD = 0x0A"

lemmas tag_defs = T_HELLO_def T_WELCOME_def T_OPEN_def T_DATA_def T_END_def T_PING_def
  T_PONG_def T_GOAWAY_def T_HALF_END_def T_RESP_HEAD_def

type_synonym stream_id = "16 word"

datatype frame =
    Hello bytes
  | Welcome "64 word"
  | Open stream_id bytes
  | Data stream_id bytes
  | RespHead stream_id bytes
  | End stream_id bytes
  | HalfEnd stream_id
  | Ping
  | Pong
  | GoAway bytes

datatype frame_error =
    TooLong "32 word"
  | UnknownType byte
  | Malformed string

section \<open>Encoder\<close>

fun type_tag :: "frame \<Rightarrow> byte" where
  "type_tag (Hello _) = T_HELLO"
| "type_tag (Welcome _) = T_WELCOME"
| "type_tag (Open _ _) = T_OPEN"
| "type_tag (RespHead _ _) = T_RESP_HEAD"
| "type_tag (Data _ _) = T_DATA"
| "type_tag (End _ _) = T_END"
| "type_tag Ping = T_PING"
| "type_tag Pong = T_PONG"
| "type_tag (GoAway _) = T_GOAWAY"
| "type_tag (HalfEnd _) = T_HALF_END"

text \<open>\<open>Frame::stream\<close>: its match has no arm for \<open>HalfEnd\<close>, which falls to the default.\<close>

fun frame_stream :: "frame \<Rightarrow> stream_id" where
  "frame_stream (Open s _) = s"
| "frame_stream (Data s _) = s"
| "frame_stream (RespHead s _) = s"
| "frame_stream (End s _) = s"
| "frame_stream _ = 0"

definition with_header :: "byte \<Rightarrow> stream_id \<Rightarrow> bytes \<Rightarrow> bytes" where
  "with_header kind stream payload =
     kind # u16_to_be stream @ u32_to_be (of_nat (length payload)) @ payload"

fun encode_parts :: "frame \<Rightarrow> bytes \<times> stream_id" where
  "encode_parts (Hello credential) = (credential, 0)"
| "encode_parts (Welcome lease_secs) = (to_dec (unat lease_secs), 0)"
| "encode_parts (Open stream head) = (head, stream)"
| "encode_parts (Data stream bs) = (bs, stream)"
| "encode_parts (RespHead stream head) = (head, stream)"
| "encode_parts (HalfEnd stream) = ([], stream)"
| "encode_parts (End stream reason) = (reason, stream)"
| "encode_parts Ping = ([], 0)"
| "encode_parts Pong = ([], 0)"
| "encode_parts (GoAway reason) = (reason, 0)"

definition encode :: "frame \<Rightarrow> bytes" where
  "encode f = (let (payload, stream) = encode_parts f in with_header (type_tag f) stream payload)"

section \<open>Decoder\<close>

definition decode_welcome :: "bytes \<Rightarrow> frame_error + frame" where
  "decode_welcome payload =
     (case utf8_decode payload of
        None \<Rightarrow> Inl (Malformed ''welcome not utf8'')
      | Some s \<Rightarrow>
          (case parse_uint 64 s of
             None \<Rightarrow> Inl (Malformed ''bad lease'')
           | Some n \<Rightarrow> Inr (Welcome (of_nat n))))"

definition decode_body :: "byte \<Rightarrow> stream_id \<Rightarrow> bytes \<Rightarrow> frame_error + frame" where
  "decode_body kind stream payload =
     (if kind = T_HELLO then Inr (Hello payload)
      else if kind = T_WELCOME then decode_welcome payload
      else if kind = T_OPEN then Inr (Open stream payload)
      else if kind = T_DATA then Inr (Data stream payload)
      else if kind = T_RESP_HEAD then Inr (RespHead stream payload)
      else if kind = T_HALF_END then
        (if payload \<noteq> [] then Inl (Malformed ''HALF_END must be empty'') else Inr (HalfEnd stream))
      else if kind = T_END then Inr (End stream payload)
      else if kind = T_PING then Inr Ping
      else if kind = T_PONG then Inr Pong
      else if kind = T_GOAWAY then Inr (GoAway payload)
      else Inl (UnknownType kind))"

fun is_control_frame :: "frame \<Rightarrow> bool" where
  "is_control_frame (Hello _) = True"
| "is_control_frame (Welcome _) = True"
| "is_control_frame Ping = True"
| "is_control_frame Pong = True"
| "is_control_frame (GoAway _) = True"
| "is_control_frame _ = False"

text \<open>The check of the parsed frame against the header's stream id.\<close>

definition accept_frame ::
    "byte \<Rightarrow> stream_id \<Rightarrow> bytes \<Rightarrow> nat \<Rightarrow> frame_error + (frame \<times> nat) option" where
  "accept_frame kind stream payload consumed =
     (case decode_body kind stream payload of
        Inl e \<Rightarrow> Inl e
      | Inr f \<Rightarrow>
          if is_control_frame f \<and> stream \<noteq> 0
          then Inl (Malformed ''control frame with nonzero stream id'')
          else Inr (Some (f, consumed)))"

definition decode :: "bytes \<Rightarrow> frame_error + (frame \<times> nat) option" where
  "decode buf =
     (if length buf < HEADER_LEN then Inr None
      else
        let kind = buf ! 0;
            stream = u16_from_be (buf ! 1) (buf ! 2);
            len = u32_from_be (buf ! 3) (buf ! 4) (buf ! 5) (buf ! 6)
        in if MAX_PAYLOAD < len then Inl (TooLong len)
        else
          let total = HEADER_LEN + unat len
          in if length buf < total then Inr None
          else accept_frame kind stream (take (unat len) (drop HEADER_LEN buf)) total)"

section \<open>Lemmas\<close>

text \<open>
  A frame fits when its payload does: the encoder writes any length modulo \<open>2 ^ 32\<close>,
  and the decoder takes at most a mebibyte.
\<close>

definition payload_len :: "frame \<Rightarrow> nat" where
  "payload_len f = length (fst (encode_parts f))"

definition fits :: "frame \<Rightarrow> bool" where
  "fits f \<longleftrightarrow> payload_len f \<le> 2 ^ 20"

lemma unat_MAX_PAYLOAD: "unat MAX_PAYLOAD = 2 ^ 20"
  by (simp add: MAX_PAYLOAD_def)

lemma encode_unfold:
  "encode f = with_header (type_tag f) (snd (encode_parts f)) (fst (encode_parts f))"
  by (simp add: encode_def split: prod.splits)

lemma length_encode: "length (encode f) = HEADER_LEN + payload_len f"
  by (simp add: encode_unfold with_header_def payload_len_def HEADER_LEN_def)

text \<open>The decoder on a header followed by at least the payload it declares.\<close>

lemma decode_header:
  assumes "length payload \<le> 2 ^ 20"
  shows "decode (with_header kind stream payload @ rest) =
    accept_frame kind stream payload (HEADER_LEN + length payload)"
proof -
  let ?n = "of_nat (length payload) :: 32 word"
  have n: "unat ?n = length payload"
    unfolding unat_of_nat using assms by (intro mod_less) simp
  then have ok: "\<not> MAX_PAYLOAD < ?n"
    using assms by (simp add: word_less_nat_alt unat_MAX_PAYLOAD)
  obtain s1 s2 where s: "u16_to_be stream = [s1, s2]" "u16_from_be s1 s2 = stream"
    by (rule u16_to_be_cases)
  obtain a b c d where l: "u32_to_be ?n = [a, b, c, d]" "u32_from_be a b c d = ?n"
    by (rule u32_to_be_cases)
  show ?thesis
    by (simp add: decode_def with_header_def s l n ok HEADER_LEN_def nth_Cons' Let_def)
qed

lemma decode_welcome_to_dec: "decode_welcome (to_dec (unat w)) = Inr (Welcome w)"
proof -
  have "unat w < 2 ^ LENGTH(64)" by (rule unsigned_less)
  then have "parse_uint 64 (dec_digits (unat w)) = Some (unat w)"
    by (intro parse_uint_dec) simp
  then show ?thesis by (simp add: decode_welcome_def utf8_decode_to_dec)
qed

lemma decode_body_encode_parts:
  "decode_body (type_tag f) (snd (encode_parts f)) (fst (encode_parts f)) = Inr f"
  by (cases f) (simp_all add: decode_body_def tag_defs decode_welcome_to_dec)

lemma control_stream_zero: "is_control_frame f \<Longrightarrow> snd (encode_parts f) = 0"
  by (cases f) simp_all

lemma decode_encode_append:
  assumes "fits f"
  shows "decode (encode f @ rest) = Inr (Some (f, length (encode f)))"
proof -
  have "length (fst (encode_parts f)) \<le> 2 ^ 20"
    using assms by (simp add: fits_def payload_len_def)
  from decode_header [OF this] show ?thesis
    by (simp add: encode_unfold accept_frame_def decode_body_encode_parts control_stream_zero
        length_encode [unfolded encode_unfold] payload_len_def)
qed

lemma decode_short: "length buf < HEADER_LEN \<Longrightarrow> decode buf = Inr None"
  by (simp add: decode_def)

text \<open>The fields of the header, read from a buffer that holds all seven bytes of it.\<close>

definition declared_len :: "bytes \<Rightarrow> 32 word" where
  "declared_len buf = u32_from_be (buf ! 3) (buf ! 4) (buf ! 5) (buf ! 6)"

definition declared_stream :: "bytes \<Rightarrow> stream_id" where
  "declared_stream buf = u16_from_be (buf ! 1) (buf ! 2)"

definition declared_payload :: "bytes \<Rightarrow> bytes" where
  "declared_payload buf = take (unat (declared_len buf)) (drop HEADER_LEN buf)"

lemmas header_defs = declared_len_def declared_stream_def declared_payload_def

lemma decode_too_long:
  "HEADER_LEN \<le> length buf \<Longrightarrow> MAX_PAYLOAD < declared_len buf \<Longrightarrow>
   decode buf = Inl (TooLong (declared_len buf))"
  by (simp add: decode_def declared_len_def Let_def)

lemma decode_incomplete:
  "HEADER_LEN \<le> length buf \<Longrightarrow> declared_len buf \<le> MAX_PAYLOAD \<Longrightarrow>
   length buf < HEADER_LEN + unat (declared_len buf) \<Longrightarrow> decode buf = Inr None"
  by (auto simp: decode_def declared_len_def Let_def)

lemma decode_complete:
  "HEADER_LEN \<le> length buf \<Longrightarrow> declared_len buf \<le> MAX_PAYLOAD \<Longrightarrow>
   HEADER_LEN + unat (declared_len buf) \<le> length buf \<Longrightarrow>
   decode buf = accept_frame (buf ! 0) (declared_stream buf) (declared_payload buf)
                  (HEADER_LEN + unat (declared_len buf))"
  unfolding decode_def header_defs Let_def by (simp only: not_less [symmetric] if_False)

text \<open>The decoder by the four outcomes its length checks separate.\<close>

lemma decode_cases:
  obtains (short) "length buf < HEADER_LEN" "decode buf = Inr None"
  | (long) "HEADER_LEN \<le> length buf" "MAX_PAYLOAD < declared_len buf"
      "decode buf = Inl (TooLong (declared_len buf))"
  | (wait) "HEADER_LEN \<le> length buf" "declared_len buf \<le> MAX_PAYLOAD"
      "length buf < HEADER_LEN + unat (declared_len buf)" "decode buf = Inr None"
  | (full) "HEADER_LEN \<le> length buf" "declared_len buf \<le> MAX_PAYLOAD"
      "HEADER_LEN + unat (declared_len buf) \<le> length buf"
      "decode buf = accept_frame (buf ! 0) (declared_stream buf) (declared_payload buf)
                  (HEADER_LEN + unat (declared_len buf))"
  by (meson decode_short decode_too_long decode_incomplete decode_complete not_less)

lemma header_append:
  assumes "HEADER_LEN \<le> length buf"
  shows "(buf @ t) ! 0 = buf ! 0" "declared_len (buf @ t) = declared_len buf"
    "declared_stream (buf @ t) = declared_stream buf"
    "HEADER_LEN + unat (declared_len buf) \<le> length buf \<Longrightarrow>
       declared_payload (buf @ t) = declared_payload buf"
proof -
  have i: "i < 7 \<Longrightarrow> (buf @ t) ! i = buf ! i" for i
    using assms by (simp add: nth_append HEADER_LEN_def)
  show "(buf @ t) ! 0 = buf ! 0" and l: "declared_len (buf @ t) = declared_len buf"
    and "declared_stream (buf @ t) = declared_stream buf"
    by (simp_all add: header_defs i)
  assume "HEADER_LEN + unat (declared_len buf) \<le> length buf"
  then show "declared_payload (buf @ t) = declared_payload buf"
    by (simp add: declared_payload_def l)
qed

lemma decode_append:
  assumes "decode buf \<noteq> Inr None"
  shows "decode (buf @ t) = decode buf"
proof (cases buf rule: decode_cases)
  case full
  then have "decode (buf @ t) =
      accept_frame ((buf @ t) ! 0) (declared_stream (buf @ t)) (declared_payload (buf @ t))
        (HEADER_LEN + unat (declared_len (buf @ t)))"
    by (intro decode_complete) (simp_all add: header_append)
  with full show ?thesis by (simp add: header_append)
next
  case long
  then show ?thesis by (simp add: decode_too_long header_append)
qed (use assms in simp_all)

text \<open>Any complete header is a header the encoder could write.\<close>

lemma header_shape:
  assumes "HEADER_LEN + unat (declared_len buf) \<le> length buf"
  shows "take (HEADER_LEN + unat (declared_len buf)) buf =
         with_header (buf ! 0) (declared_stream buf) (declared_payload buf)"
proof -
  obtain b0 b1 b2 b3 b4 b5 b6 r where buf: "buf = b0 # b1 # b2 # b3 # b4 # b5 # b6 # r"
    using assms by (auto simp: HEADER_LEN_def numeral_eq_Suc Suc_le_length_iff)
  have "unat (declared_len buf) \<le> length r" using assms by (simp add: buf HEADER_LEN_def)
  then have p: "length (declared_payload buf) = unat (declared_len buf)"
    by (simp add: declared_payload_def buf HEADER_LEN_def)
  have q: "declared_payload buf = take (unat (declared_len buf)) r"
    by (simp add: declared_payload_def buf HEADER_LEN_def)
  have "u32_to_be (declared_len buf) = [b3, b4, b5, b6]" "u16_to_be (declared_stream buf) = [b1, b2]"
    by (simp_all add: header_defs buf nth_Cons' u32_to_from_be u16_to_from_be)
  then show ?thesis
    unfolding with_header_def p of_nat_unat
    unfolding q
    by (simp add: buf HEADER_LEN_def eval_nat_numeral)
qed

lemma accept_frame_Some:
  "accept_frame k s p n = Inr (Some (f, m)) \<longleftrightarrow>
     decode_body k s p = Inr f \<and> (is_control_frame f \<longrightarrow> s = 0) \<and> m = n"
  by (auto simp: accept_frame_def split: sum.splits)

lemma accept_frame_not_wait [simp]: "accept_frame k s p n \<noteq> Inr None"
  by (auto simp: accept_frame_def split: sum.splits)

lemma decode_prefix:
  assumes "fits f" "k < length (encode f)"
  shows "decode (take k (encode f)) = Inr None"
proof (rule ccontr)
  assume "decode (take k (encode f)) \<noteq> Inr None"
  from decode_append [OF this, of "drop k (encode f)"]
  have "decode (take k (encode f)) = Inr (Some (f, length (encode f)))"
    using decode_encode_append [OF assms(1), of "[]"] by simp
  then show False
    using assms(2)
    by (cases "take k (encode f)" rule: decode_cases) (auto simp: accept_frame_Some)
qed

section \<open>The codec as an interface\<close>

text \<open>
  What the session layers use of the codec: a prefix-free encoding whose decoder, given
  the front of a buffer, returns the frame and how many bytes it consumed, and waits
  while the frame is incomplete. Draining a buffer by the consumed count then recovers
  every frame, and leaves a trailing partial frame in place.
\<close>

primrec drain ::
    "(bytes \<Rightarrow> 'e + ('f \<times> nat) option) \<Rightarrow> nat \<Rightarrow> bytes \<Rightarrow> 'e + 'f list \<times> bytes" where
  "drain dec 0 buf = Inr ([], buf)"
| "drain dec (Suc n) buf =
     (case dec buf of
        Inl e \<Rightarrow> Inl e
      | Inr None \<Rightarrow> Inr ([], buf)
      | Inr (Some (f, k)) \<Rightarrow>
          try_then (drain dec n (drop k buf)) (\<lambda>(fs, rest). Inr (f # fs, rest)))"

locale wire_codec =
  fixes enc :: "'f \<Rightarrow> bytes"
    and dec :: "bytes \<Rightarrow> 'e + ('f \<times> nat) option"
    and wf :: "'f \<Rightarrow> bool"
  assumes dec_enc: "wf f \<Longrightarrow> dec (enc f @ rest) = Inr (Some (f, length (enc f)))"
    and dec_prefix: "wf f \<Longrightarrow> k < length (enc f) \<Longrightarrow> dec (take k (enc f)) = Inr None"
begin

lemma enc_inj: "wf f \<Longrightarrow> wf g \<Longrightarrow> enc f = enc g \<Longrightarrow> f = g"
  using dec_enc [of f "[]"] dec_enc [of g "[]"] by simp

lemma enc_prefix_free:
  assumes "wf f" "wf g" "enc f @ xs = enc g @ ys"
  shows "f = g \<and> xs = ys"
proof -
  have "f = g" using dec_enc [OF assms(1), of xs] dec_enc [OF assms(2), of ys] assms(3) by simp
  with assms(3) show ?thesis by simp
qed

lemma drain_all:
  assumes "\<forall>f \<in> set fs. wf f" "wf g" "k < length (enc g)" "length fs < n"
  shows "drain dec n (concat (map enc fs) @ take k (enc g)) = Inr (fs, take k (enc g))"
  using assms(1,4)
proof (induction fs arbitrary: n)
  case Nil
  then obtain m where "n = Suc m" by (cases n) auto
  with dec_prefix [OF assms(2,3)] show ?case by simp
next
  case (Cons f fs)
  then obtain m where m: "n = Suc m" "length fs < m" by (cases n) auto
  from Cons.prems(1) have "wf f" by simp
  from dec_enc [OF this] have "dec (concat (map enc (f # fs)) @ take k (enc g)) =
      Inr (Some (f, length (enc f)))" by simp
  moreover have "drain dec m (concat (map enc fs) @ take k (enc g)) = Inr (fs, take k (enc g))"
    using Cons.prems(1) m(2) by (intro Cons.IH) auto
  ultimately show ?case by (simp add: m(1))
qed

end

interpretation ring_codec: wire_codec encode decode fits
  by unfold_locales (auto intro: decode_encode_append decode_prefix)

section \<open>Properties\<close>

text \<open>
  C33: Encoding then decoding returns the same frame and the exact number of bytes
  written, whatever bytes follow it, for every frame whose payload is within the cap
  the decoder enforces.
\<close>
theorem decode_encode_roundtrip:
  assumes "payload_len f \<le> unat MAX_PAYLOAD"
  shows "decode (encode f @ rest) = Inr (Some (f, HEADER_LEN + payload_len f))"
proof -
  have "fits f" using assms by (simp add: fits_def unat_MAX_PAYLOAD)
  from ring_codec.dec_enc [OF this] show ?thesis by (simp add: length_encode)
qed

theorem decode_encode_roundtrip_witness:
  "decode (encode (Welcome 900) @ [1, 2]) = Inr (Some (Welcome 900, 10))"
proof -
  have len: "payload_len (Welcome 900) = 3"
    by (simp add: payload_len_def to_dec_def dec_digits.simps)
  then have "payload_len (Welcome 900) \<le> unat MAX_PAYLOAD" by (simp add: unat_MAX_PAYLOAD)
  from decode_encode_roundtrip [OF this, of "[1, 2]"] show ?thesis
    by (simp add: len HEADER_LEN_def)
qed

text \<open>
  A buffer holding any number of encoded frames and then a part of one more is
  drained, by advancing the consumed count, to exactly those frames in order, and the
  incomplete tail is left unconsumed.
\<close>
theorem drain_coalesced_frames:
  assumes "\<forall>f \<in> set fs. fits f" "fits g" "k < length (encode g)" "length fs < n"
  shows "drain decode n (concat (map encode fs) @ take k (encode g)) = Inr (fs, take k (encode g))"
  using assms by (rule ring_codec.drain_all)

theorem drain_coalesced_frames_witness:
  "drain decode 3 (encode (Data 1 [97, 97]) @ encode (Data 2 [98, 98]) @ take 4 (encode Ping)) =
     Inr ([Data 1 [97, 97], Data 2 [98, 98]], take 4 (encode Ping))"
proof -
  have a: "\<forall>f \<in> set [Data 1 [97, 97], Data 2 [98, 98]]. fits f" "fits Ping"
    by (simp_all add: fits_def payload_len_def)
  have b: "4 < length (encode Ping)" "length [Data 1 [97, 97], Data 2 [98, 98]] < 3"
    by (simp_all add: length_encode HEADER_LEN_def)
  from drain_coalesced_frames [OF a b] show ?thesis by simp
qed

text \<open>
  C34: Whatever a peer sends, a decoded frame is taken from the front of the buffer
  without reading past it, is at most seven bytes plus a mebibyte long, carries stream
  id zero when it is a control frame, and is re-encoded to the very bytes it was read
  from, unless it is a Welcome (whose number has several spellings) or a Ping or Pong
  that came with a payload (which the decoder drops).
\<close>
theorem decode_sound:
  assumes "decode buf = Inr (Some (f, n))"
  shows "n \<le> length buf \<and> HEADER_LEN \<le> n \<and> n \<le> HEADER_LEN + 2 ^ 20 \<and>
    (is_control_frame f \<longrightarrow> declared_stream buf = 0) \<and>
    ((\<forall>l. f \<noteq> Welcome l) \<and> (f \<in> {Ping, Pong} \<longrightarrow> n = HEADER_LEN) \<longrightarrow> encode f = take n buf)"
  using assms
proof (cases buf rule: decode_cases)
  case full
  let ?s = "declared_stream buf" and ?p = "declared_payload buf"
  from assms full(4) have f: "decode_body (buf ! 0) ?s ?p = Inr f"
      "is_control_frame f \<longrightarrow> ?s = 0" "n = HEADER_LEN + unat (declared_len buf)"
    by (simp_all add: accept_frame_Some)
  have bound: "unat (declared_len buf) \<le> 2 ^ 20"
    using full(2) by (simp add: word_le_nat_alt unat_MAX_PAYLOAD)
  have "take n buf = with_header (buf ! 0) ?s ?p"
    using header_shape [OF full(3)] f(3) by simp
  moreover have "with_header (buf ! 0) ?s ?p = encode f"
    if "\<forall>l. f \<noteq> Welcome l" "f \<in> {Ping, Pong} \<longrightarrow> n = HEADER_LEN"
  proof -
    have "f \<in> {Ping, Pong} \<longrightarrow> ?p = []" using that(2) f(3) by (simp add: declared_payload_def)
    with f(1,2) that(1) show ?thesis unfolding decode_body_def
      by (auto simp: encode_def decode_welcome_def split: if_splits option.splits)
  qed
  ultimately show ?thesis using f full(3) bound by auto
qed simp_all

theorem decode_sound_witness:
  "encode (Data 5 [1]) = take 8 (encode (Data 5 [1]) @ [9])"
proof -
  have "fits (Data 5 [1])" by (simp add: fits_def payload_len_def)
  from decode_encode_append [OF this, of "[9]"]
  have "decode (encode (Data 5 [1]) @ [9]) = Inr (Some (Data 5 [1], 8))"
    by (simp add: length_encode HEADER_LEN_def payload_len_def)
  from decode_sound [OF this] show ?thesis by simp
qed

text \<open>
  The decoder's answer on a stream is final: once it has reported a frame or an
  error, no later byte changes it; and a length field above the cap is refused as soon
  as the seven header bytes are there, before any payload is held.
\<close>
lemma decode_final:
  "(decode buf \<noteq> Inr None \<longrightarrow> decode (buf @ more) = decode buf) \<and>
   (HEADER_LEN \<le> length buf \<and> MAX_PAYLOAD < declared_len buf \<longrightarrow>
      decode (take HEADER_LEN buf) = Inl (TooLong (declared_len buf)))"
proof (intro conjI impI)
  assume a: "HEADER_LEN \<le> length buf \<and> MAX_PAYLOAD < declared_len buf"
  then have h: "HEADER_LEN \<le> length (take HEADER_LEN buf)" by simp
  from header_append(2) [OF h, of "drop HEADER_LEN buf"]
  have "declared_len (take HEADER_LEN buf) = declared_len buf" by simp
  with a h show "decode (take HEADER_LEN buf) = Inl (TooLong (declared_len buf))"
    by (simp add: decode_too_long)
qed (rule decode_append)

lemma decode_final_witness:
  "decode [4, 0, 1, 255, 255, 255, 255] = Inl (TooLong 0xFFFFFFFF)"
proof -
  let ?b = "[4, 0, 1, 255, 255, 255, 255, 116] :: bytes"
  have l: "declared_len ?b = 0xFFFFFFFF"
    by (simp add: declared_len_def u32_from_be_def)
  then have "HEADER_LEN \<le> length ?b \<and> MAX_PAYLOAD < declared_len ?b"
    by (simp add: HEADER_LEN_def MAX_PAYLOAD_def)
  with decode_final [of ?b "[]"] show ?thesis by (simp add: l HEADER_LEN_def)
qed

text \<open>
  The three places where the codec is looser than its comments: a Ping or Pong
  with a payload is accepted and the payload dropped, a frame of a request stream may
  carry the reserved stream id zero, and \<open>Frame::stream\<close> reports zero for a half-close
  of any stream.
\<close>
theorem codec_looseness:
  "decode (with_header T_PING 0 [1]) = Inr (Some (Ping, 8)) \<and>
   decode (encode (Data 0 [])) = Inr (Some (Data 0 [], 7)) \<and>
   frame_stream (HalfEnd s) = 0"
proof -
  have "decode (with_header T_PING 0 [1] @ []) = Inr (Some (Ping, 8))"
    by (subst decode_header) (simp_all add: accept_frame_def decode_body_def tag_defs HEADER_LEN_def)
  moreover have "fits (Data 0 [])" by (simp add: fits_def payload_len_def)
  from decode_encode_append [OF this, of "[]"]
  have "decode (encode (Data 0 [])) = Inr (Some (Data 0 [], 7))"
    by (simp add: length_encode HEADER_LEN_def payload_len_def)
  ultimately show ?thesis by simp
qed

end
