(* ===== verification/Registry.thy ===== *)
theory Registry
  imports Streams Credentials Frames
begin

text \<open>
  The hub's authority (\<open>Tether\<close>, \<open>LiveSession\<close>, \<open>Registry\<close> of \<open>hub.rs\<close>): registrations,
  authorization decisions and live sessions. Sessions and streams are shared objects
  (\<open>Arc\<close>s cloned into the session task, the registry and the caller's handle), so they
  live in stores and are referred to by their index; the registry's map \<open>live\<close> and a
  session's stream table hold references. A hash map the code iterates is an association
  list with distinct keys; the wall clock and the monotonic clock are arguments, read
  once per operation.
\<close>

section \<open>Data\<close>

type_synonym sref = nat
type_synonym xref = nat

definition DEFAULT_LEASE :: nat where "DEFAULT_LEASE = secs (15 * 60)"
definition TETHER_TICK :: nat where "TETHER_TICK = secs 5"
definition TETHER_PING_INTERVAL :: nat where "TETHER_PING_INTERVAL = secs 10"
definition TETHER_SILENCE :: nat where "TETHER_SILENCE = secs 45"

record tether =
  t_id :: bytes
  t_label :: bytes
  t_credential_hash :: bytes
  t_active :: bool
  t_expires_at :: "64 word option"

text \<open>\<open>UNIX_EPOCH.checked_add\<close> fails beyond the signed 64-bit seconds of \<open>SystemTime\<close>.\<close>

definition remaining :: "nat \<Rightarrow> tether \<Rightarrow> nat option" where
  "remaining wall t =
     (if \<not> t_active t then None
      else (case t_expires_at t of
              None \<Rightarrow> Some DURATION_MAX
            | Some s \<Rightarrow>
                if 2 ^ 63 \<le> unat s then None
                else if secs (unat s) \<le> wall then None
                else Some (secs (unat s) - wall)))"

record auth_lease =
  l_tether_id :: bytes
  l_ttl :: nat

datatype forward_error = NoTether | Revoked | Idhausted | TetherGone | TetherBusy | CallerBody

record live_session =
  ls_generation :: "64 word"
  ls_sent :: "frame list"                 \<comment> \<open>accepted by \<open>tx\<close>, in order\<close>
  ls_aborted :: bool                      \<comment> \<open>the value of the \<open>abort_tx\<close> watch\<close>
  ls_last_seen :: nat
  ls_streams :: "(stream_id \<times> xref) list"
  ls_closed :: bool
  ls_next_id :: "32 word"

record 'h registry =
  rg_by_credential :: "bytes \<Rightarrow> bytes option"
  rg_by_id :: "(bytes \<times> tether) list"
  rg_live :: "(bytes \<times> sref) list"
  rg_next_generation :: "64 word"
  rg_lease :: nat
  rg_sessions :: "live_session list"      \<comment> \<open>store of sessions\<close>
  rg_streams :: "'h stream_state list"    \<comment> \<open>store of streams\<close>

definition registry_new :: "nat \<Rightarrow> 'h registry" where
  "registry_new lease =
     \<lparr>rg_by_credential = Map.empty, rg_by_id = [], rg_live = [], rg_next_generation = 1,
      rg_lease = max lease (secs 5), rg_sessions = [], rg_streams = []\<rparr>"

section \<open>Sessions\<close>

definition upd_session :: "sref \<Rightarrow> (live_session \<Rightarrow> live_session) \<Rightarrow> 'h registry \<Rightarrow> 'h registry" where
  "upd_session s f r = r\<lparr>rg_sessions := (rg_sessions r)[s := f (rg_sessions r ! s)]\<rparr>"

definition upd_stream :: "xref \<Rightarrow> ('h stream_state \<Rightarrow> 'h stream_state) \<Rightarrow> 'h registry \<Rightarrow> 'h registry" where
  "upd_stream x f r = r\<lparr>rg_streams := (rg_streams r)[x := f (rg_streams r ! x)]\<rparr>"

text \<open>\<open>LiveSession::admit\<close>\<close>

definition admit :: "stream_id \<Rightarrow> xref \<Rightarrow> live_session \<Rightarrow> forward_error + live_session" where
  "admit sid x ls =
     (if ls_closed ls then Inl TetherGone
      else if MAX_CONCURRENT_STREAMS \<le> length (ls_streams ls) then Inl TetherBusy
      else Inr (ls\<lparr>ls_streams := AList.update sid x (ls_streams ls)\<rparr>))"

text \<open>\<open>LiveSession::close\<close>: marked closed and drained under the lock, then every stream fails.\<close>

definition close_session :: "sref \<Rightarrow> 'h registry \<Rightarrow> 'h registry" where
  "close_session s r =
     (let abandoned = map snd (ls_streams (rg_sessions r ! s));
          r = upd_session s (\<lambda>ls. ls\<lparr>ls_closed := True, ls_streams := []\<rparr>) r
      in fold (\<lambda>x. upd_stream x stream_fail) abandoned r)"

text \<open>\<open>previous.close(); previous.abort_tx.send(true)\<close>\<close>

definition cancel_session :: "sref \<Rightarrow> 'h registry \<Rightarrow> 'h registry" where
  "cancel_session s r = upd_session s (\<lambda>ls. ls\<lparr>ls_aborted := True\<rparr>) (close_session s r)"

text \<open>\<open>if let Some(s) = live.remove(id)\<close> with the cancellation of what was there.\<close>

definition evict :: "bytes \<Rightarrow> 'h registry \<Rightarrow> 'h registry" where
  "evict tid r =
     (case map_of (rg_live r) tid of
        None \<Rightarrow> r
      | Some s \<Rightarrow> cancel_session s (r\<lparr>rg_live := AList.delete tid (rg_live r)\<rparr>))"

section \<open>Registrations\<close>

definition register_tether ::
    "(bytes \<Rightarrow> bytes) \<Rightarrow> bytes \<Rightarrow> bytes \<Rightarrow> bytes \<Rightarrow> 'h registry \<Rightarrow> tether \<times> 'h registry" where
  "register_tether sha tid label credential r =
     (let t = \<lparr>t_id = tid, t_label = label, t_credential_hash = digest sha credential,
               t_active = True, t_expires_at = None\<rparr>;
          credentials = rg_by_credential r;
          credentials =
            (case map_of (rg_by_id r) tid of
               Some previous \<Rightarrow>
                 if credentials (t_credential_hash previous) = Some (t_id previous)
                 then credentials(t_credential_hash previous := None) else credentials
             | None \<Rightarrow> credentials);
          credentials = credentials(t_credential_hash t \<mapsto> tid);
          r = r\<lparr>rg_by_id := AList.update tid t (rg_by_id r), rg_by_credential := credentials\<rparr>
      in (t, evict tid r))"

definition tether_of_record :: "admin_record \<Rightarrow> tether" where
  "tether_of_record rec =
     \<lparr>t_id = ar_id rec, t_label = ar_label rec, t_credential_hash = ar_credential_hash rec,
      t_active = ar_active rec, t_expires_at = Some (ar_expires_at rec)\<rparr>"

definition replacement_of :: "admin_record list \<Rightarrow> (bytes \<times> tether) list" where
  "replacement_of recs = fold (\<lambda>rec. AList.update (ar_id rec) (tether_of_record rec)) recs []"

text \<open>The test \<open>unchanged\<close> of the \<open>retain\<close> in \<open>replace_records\<close>.\<close>

definition unchanged ::
    "nat \<Rightarrow> (bytes \<times> tether) list \<Rightarrow> (bytes \<times> tether) list \<Rightarrow> bytes \<Rightarrow> bool" where
  "unchanged wall replacement tethers tid =
     (case (map_of replacement tid, map_of tethers tid) of
        (Some next, Some old) \<Rightarrow>
          remaining wall next \<noteq> None \<and> t_credential_hash next = t_credential_hash old \<and>
          t_expires_at next = t_expires_at old
      | _ \<Rightarrow> False)"

definition credentials_of :: "(bytes \<times> tether) list \<Rightarrow> bytes \<Rightarrow> bytes option" where
  "credentials_of ts = fold (\<lambda>(_, t) m. m(t_credential_hash t \<mapsto> t_id t)) ts Map.empty"

definition replace_records :: "nat \<Rightarrow> admin_record list \<Rightarrow> 'h registry \<Rightarrow> 'h registry" where
  "replace_records wall recs r =
     (let replacement = replacement_of recs;
          keep = unchanged wall replacement (rg_by_id r);
          r' = fold (\<lambda>(tid, s) r. if keep tid then r else cancel_session s r) (rg_live r) r
      in r'\<lparr>rg_live := filter (\<lambda>(tid, _). keep tid) (rg_live r),
            rg_by_credential := credentials_of replacement,
            rg_by_id := replacement\<rparr>)"

definition clear_records :: "nat \<Rightarrow> 'h registry \<Rightarrow> 'h registry" where
  "clear_records wall = replace_records wall []"

definition authorize :: "(bytes \<Rightarrow> bytes) \<Rightarrow> nat \<Rightarrow> bytes \<Rightarrow> 'h registry \<Rightarrow> auth_lease option" where
  "authorize sha wall credential r =
     (case rg_by_credential r (digest sha credential) of
        None \<Rightarrow> None
      | Some tid \<Rightarrow>
          (case map_of (rg_by_id r) tid of
             None \<Rightarrow> None
           | Some t \<Rightarrow>
               (case remaining wall t of
                  None \<Rightarrow> None
                | Some rem \<Rightarrow>
                    if rem < secs 1 then None
                    else Some \<lparr>l_tether_id = tid, l_ttl = min (rg_lease r) rem\<rparr>)))"

definition is_active :: "nat \<Rightarrow> bytes \<Rightarrow> 'h registry \<Rightarrow> bool" where
  "is_active wall tid r =
     (case map_of (rg_by_id r) tid of Some t \<Rightarrow> remaining wall t \<noteq> None | None \<Rightarrow> False)"

definition revoke :: "bytes \<Rightarrow> 'h registry \<Rightarrow> bool \<times> 'h registry" where
  "revoke tid r =
     (let (changed, r) =
        (case map_of (rg_by_id r) tid of
           Some t \<Rightarrow>
             if t_active t
             then (True, r\<lparr>rg_by_id := AList.update tid (t\<lparr>t_active := False\<rparr>) (rg_by_id r)\<rparr>)
             else (False, r)
         | None \<Rightarrow> (False, r))
      in (changed, evict tid r))"

section \<open>Live sessions\<close>

definition session_new :: "64 word \<Rightarrow> nat \<Rightarrow> live_session" where
  "session_new gen now =
     \<lparr>ls_generation = gen, ls_sent = [], ls_aborted = False, ls_last_seen = now,
      ls_streams = [], ls_closed = False, ls_next_id = 1\<rparr>"

definition attach ::
    "(bytes \<Rightarrow> bytes) \<Rightarrow> nat \<Rightarrow> nat \<Rightarrow> bytes \<Rightarrow> bytes \<Rightarrow> 'h registry \<Rightarrow> sref option \<times> 'h registry" where
  "attach sha wall now tid credential r =
     (case map_of (rg_by_id r) tid of
        None \<Rightarrow> (None, r)
      | Some t \<Rightarrow>
          let hash = digest sha credential in
          if remaining wall t = None \<or> t_credential_hash t \<noteq> hash \<or> rg_by_credential r hash \<noteq> Some tid
          then (None, r)
          else
            let s = length (rg_sessions r);
                previous = map_of (rg_live r) tid;
                r = r\<lparr>rg_sessions := rg_sessions r @ [session_new (rg_next_generation r) now],
                      rg_next_generation := rg_next_generation r + 1,
                      rg_live := AList.update tid s (rg_live r)\<rparr>
            in (Some s, case previous of None \<Rightarrow> r | Some p \<Rightarrow> cancel_session p r))"

definition detach :: "bytes \<Rightarrow> sref \<Rightarrow> 'h registry \<Rightarrow> 'h registry" where
  "detach tid s r =
     (case map_of (rg_live r) tid of
        None \<Rightarrow> r
      | Some c \<Rightarrow>
          if ls_generation (rg_sessions r ! c) = ls_generation (rg_sessions r ! s)
          then r\<lparr>rg_live := AList.delete tid (rg_live r)\<rparr> else r)"

section \<open>Status\<close>

datatype tether_state = Up nat | Stale nat | Down

definition tether_status :: "nat \<Rightarrow> nat \<Rightarrow> 'h registry \<Rightarrow> tether \<Rightarrow> tether_state" where
  "tether_status wall now r t =
     (case (if remaining wall t \<noteq> None then map_of (rg_live r) (t_id t) else None) of
        Some s \<Rightarrow>
          let idle = now - ls_last_seen (rg_sessions r ! s)
          in if TETHER_SILENCE < idle then Stale idle else Up idle
      | None \<Rightarrow> Down)"

definition status :: "nat \<Rightarrow> nat \<Rightarrow> 'h registry \<Rightarrow> (bytes \<times> bytes \<times> tether_state) list" where
  "status wall now r =
     map (\<lambda>(_, t). (t_id t, t_label t, tether_status wall now r t)) (rg_by_id r)"


section \<open>What the updates change\<close>

lemma upd_session_simps [simp]:
  "rg_by_credential (upd_session s f r) = rg_by_credential r"
  "rg_by_id (upd_session s f r) = rg_by_id r" "rg_live (upd_session s f r) = rg_live r"
  "rg_next_generation (upd_session s f r) = rg_next_generation r"
  "rg_lease (upd_session s f r) = rg_lease r" "rg_streams (upd_session s f r) = rg_streams r"
  "length (rg_sessions (upd_session s f r)) = length (rg_sessions r)"
  by (simp_all add: upd_session_def)

lemma upd_session_nth:
  "rg_sessions (upd_session s f r) ! i =
     (if i = s \<and> s < length (rg_sessions r) then f (rg_sessions r ! s) else rg_sessions r ! i)"
  by (auto simp: upd_session_def nth_list_update not_less list_update_beyond)

lemma upd_stream_simps [simp]:
  "rg_by_credential (upd_stream x g r) = rg_by_credential r"
  "rg_by_id (upd_stream x g r) = rg_by_id r" "rg_live (upd_stream x g r) = rg_live r"
  "rg_next_generation (upd_stream x g r) = rg_next_generation r"
  "rg_lease (upd_stream x g r) = rg_lease r" "rg_sessions (upd_stream x g r) = rg_sessions r"
  "length (rg_streams (upd_stream x g r)) = length (rg_streams r)"
  by (simp_all add: upd_stream_def)

lemma upd_stream_nth:
  "rg_streams (upd_stream x g r) ! i =
     (if i = x \<and> x < length (rg_streams r) then g (rg_streams r ! x) else rg_streams r ! i)"
  by (auto simp: upd_stream_def nth_list_update not_less list_update_beyond)

lemma fold_upd_stream:
  "rg_by_credential (fold (\<lambda>x. upd_stream x g) xs r) = rg_by_credential r"
  "rg_by_id (fold (\<lambda>x. upd_stream x g) xs r) = rg_by_id r"
  "rg_live (fold (\<lambda>x. upd_stream x g) xs r) = rg_live r"
  "rg_next_generation (fold (\<lambda>x. upd_stream x g) xs r) = rg_next_generation r"
  "rg_lease (fold (\<lambda>x. upd_stream x g) xs r) = rg_lease r"
  "rg_sessions (fold (\<lambda>x. upd_stream x g) xs r) = rg_sessions r"
  "length (rg_streams (fold (\<lambda>x. upd_stream x g) xs r)) = length (rg_streams r)"
  by (induction xs arbitrary: r) simp_all

lemma fold_upd_stream_other:
  "i \<notin> set xs \<Longrightarrow> rg_streams (fold (\<lambda>x. upd_stream x g) xs r) ! i = rg_streams r ! i"
  by (induction xs arbitrary: r) (simp_all add: upd_stream_nth)

lemma fold_upd_stream_in:
  assumes "i \<in> set xs" "i < length (rg_streams r)" "\<And>st. P (g st)"
  shows "P (rg_streams (fold (\<lambda>x. upd_stream x g) xs r) ! i)"
  using assms(1,2)
proof (induction xs arbitrary: r)
  case (Cons x xs)
  show ?case
  proof (cases "i \<in> set xs")
    case True
    with Cons show ?thesis by simp
  next
    case False
    with Cons.prems have "x = i" by simp
    with False Cons.prems show ?thesis
      by (simp add: fold_upd_stream_other upd_stream_nth assms(3))
  qed
qed simp

text \<open>Nothing of the registry's tables changes when a session closes.\<close>

lemma close_session_simps [simp]:
  "rg_by_credential (close_session s r) = rg_by_credential r"
  "rg_by_id (close_session s r) = rg_by_id r" "rg_live (close_session s r) = rg_live r"
  "rg_next_generation (close_session s r) = rg_next_generation r"
  "rg_lease (close_session s r) = rg_lease r"
  "length (rg_sessions (close_session s r)) = length (rg_sessions r)"
  "length (rg_streams (close_session s r)) = length (rg_streams r)"
  by (simp_all add: close_session_def Let_def fold_upd_stream)

lemma close_session_nth:
  "rg_sessions (close_session s r) ! i =
     (if i = s \<and> s < length (rg_sessions r)
      then (rg_sessions r ! s)\<lparr>ls_closed := True, ls_streams := []\<rparr> else rg_sessions r ! i)"
  by (simp add: close_session_def Let_def fold_upd_stream upd_session_nth)

lemma cancel_session_simps [simp]:
  "rg_by_credential (cancel_session s r) = rg_by_credential r"
  "rg_by_id (cancel_session s r) = rg_by_id r" "rg_live (cancel_session s r) = rg_live r"
  "rg_next_generation (cancel_session s r) = rg_next_generation r"
  "rg_lease (cancel_session s r) = rg_lease r"
  "length (rg_sessions (cancel_session s r)) = length (rg_sessions r)"
  "length (rg_streams (cancel_session s r)) = length (rg_streams r)"
  "rg_streams (cancel_session s r) = rg_streams (close_session s r)"
  by (simp_all add: cancel_session_def)

lemma cancel_session_nth:
  "rg_sessions (cancel_session s r) ! i =
     (if i = s \<and> s < length (rg_sessions r)
      then (rg_sessions r ! s)\<lparr>ls_closed := True, ls_streams := [], ls_aborted := True\<rparr>
      else rg_sessions r ! i)"
  by (simp add: cancel_session_def upd_session_nth close_session_nth)

lemma close_session_fails:
  "(a, x) \<in> set (ls_streams (rg_sessions r ! s)) \<Longrightarrow> x < length (rg_streams r) \<Longrightarrow>
   poll_failed (rg_streams (close_session s r) ! x) \<and> ss_completed (rg_streams (close_session s r) ! x)"
  unfolding close_session_def Let_def
  by (rule fold_upd_stream_in) (force simp: poll_failed_def)+

lemma close_session_other_stream:
  "x \<notin> snd ` set (ls_streams (rg_sessions r ! s)) \<Longrightarrow>
   rg_streams (close_session s r) ! x = rg_streams r ! x"
  unfolding close_session_def Let_def by (simp add: fold_upd_stream_other)

text \<open>A session that was cancelled: closed, without streams, and told to stop.\<close>

definition cancelled :: "live_session \<Rightarrow> bool" where
  "cancelled ls \<longleftrightarrow> ls_closed ls \<and> ls_streams ls = [] \<and> ls_aborted ls"

lemma cancel_session_cancelled:
  "s < length (rg_sessions r) \<Longrightarrow> cancelled (rg_sessions (cancel_session s r) ! s)"
  by (simp add: cancelled_def cancel_session_nth)

lemma cancelled_stays: "cancelled (rg_sessions r ! i) \<Longrightarrow> cancelled (rg_sessions (cancel_session s r) ! i)"
  by (simp add: cancelled_def cancel_session_nth)

section \<open>The invariant\<close>

text \<open>
  \<open>cred_ok\<close>: every credential leads to a registration that has that digest.
  \<open>keys_ok\<close>: the tables are maps, keyed by the identity they store,
  and no session is live under two identities.
  \<open>gens_ok\<close>: sessions are numbered from 1 in the order they were attached.
  \<open>session_ok\<close>: a session has at most 64 streams, with distinct identifiers below the next
  one to hand out, and none once it is closed; the streams it opened have increasing
  identifiers, so that none is used twice.
  \<open>owner_ok\<close>: a stream is in one table of one session under one identifier at most.
\<close>

definition cred_ok :: "'h registry \<Rightarrow> bool" where
  "cred_ok r \<longleftrightarrow> (\<forall>h tid. rg_by_credential r h = Some tid \<longrightarrow>
     (\<exists>t. map_of (rg_by_id r) tid = Some t \<and> t_credential_hash t = h))"

definition keys_ok :: "'h registry \<Rightarrow> bool" where
  "keys_ok r \<longleftrightarrow> distinct (map fst (rg_by_id r)) \<and> distinct (map fst (rg_live r)) \<and>
     (\<forall>tid t. map_of (rg_by_id r) tid = Some t \<longrightarrow> t_id t = tid) \<and>
     (\<forall>tid s. map_of (rg_live r) tid = Some s \<longrightarrow> s < length (rg_sessions r)) \<and>
     (\<forall>a b s. map_of (rg_live r) a = Some s \<longrightarrow> map_of (rg_live r) b = Some s \<longrightarrow> a = b)"

definition gens_ok :: "'h registry \<Rightarrow> bool" where
  "gens_ok r \<longleftrightarrow> rg_next_generation r = of_nat (Suc (length (rg_sessions r))) \<and>
     (\<forall>i < length (rg_sessions r). ls_generation (rg_sessions r ! i) = of_nat (Suc i))"

fun opened :: "frame \<Rightarrow> stream_id option" where
  "opened (Open sid _) = Some sid"
| "opened _ = None"

text \<open>The identifiers of the streams a session has opened, in order.\<close>

definition opens_of :: "live_session \<Rightarrow> stream_id list" where
  "opens_of ls = List.map_filter opened (ls_sent ls)"

definition session_ok :: "nat \<Rightarrow> live_session \<Rightarrow> bool" where
  "session_ok n ls \<longleftrightarrow>
     distinct (map fst (ls_streams ls)) \<and> length (ls_streams ls) \<le> MAX_CONCURRENT_STREAMS \<and>
     1 \<le> unat (ls_next_id ls) \<and> unat (ls_next_id ls) \<le> 65536 \<and>
     (\<forall>(a, x) \<in> set (ls_streams ls). a \<noteq> 0 \<and> unat a < unat (ls_next_id ls) \<and> x < n) \<and>
     (ls_closed ls \<longrightarrow> ls_streams ls = []) \<and>
     sorted_wrt (<) (map unat (opens_of ls)) \<and>
     (\<forall>a \<in> set (opens_of ls). unat a < unat (ls_next_id ls))"

definition owner_ok :: "'h registry \<Rightarrow> bool" where
  "owner_ok r \<longleftrightarrow> (\<forall>i j a b x.
     i < length (rg_sessions r) \<longrightarrow> j < length (rg_sessions r) \<longrightarrow>
     (a, x) \<in> set (ls_streams (rg_sessions r ! i)) \<longrightarrow>
     (b, x) \<in> set (ls_streams (rg_sessions r ! j)) \<longrightarrow> i = j \<and> a = b)"

definition sessions_ok :: "'h registry \<Rightarrow> bool" where
  "sessions_ok r \<longleftrightarrow>
     (\<forall>i < length (rg_sessions r). session_ok (length (rg_streams r)) (rg_sessions r ! i))"

definition registry_ok :: "'h registry \<Rightarrow> bool" where
  "registry_ok r \<longleftrightarrow> cred_ok r \<and> keys_ok r \<and> gens_ok r \<and> sessions_ok r \<and> owner_ok r"

lemmas registry_ok_defs =
  registry_ok_def cred_ok_def keys_ok_def gens_ok_def sessions_ok_def owner_ok_def

lemma registry_ok_new: "registry_ok (registry_new lease)"
  by (simp add: registry_ok_defs registry_new_def)

text \<open>
  Most updates only remove streams from tables, close sessions, and change what the
  invariant does not read. One relation covers them all.
\<close>

definition session_shrinks :: "live_session \<Rightarrow> live_session \<Rightarrow> bool" where
  "session_shrinks a b \<longleftrightarrow>
     ls_generation b = ls_generation a \<and> ls_next_id b = ls_next_id a \<and>
     (\<exists>P. ls_streams b = filter P (ls_streams a)) \<and> opens_of b = opens_of a \<and>
     (ls_closed b \<longrightarrow> ls_closed a \<or> ls_streams b = []) \<and> (ls_closed a \<longrightarrow> ls_closed b)"

definition shrinks :: "'h registry \<Rightarrow> 'h registry \<Rightarrow> bool" where
  "shrinks r r' \<longleftrightarrow>
     length (rg_sessions r') = length (rg_sessions r) \<and>
     length (rg_streams r') = length (rg_streams r) \<and>
     rg_next_generation r' = rg_next_generation r \<and>
     (\<forall>i < length (rg_sessions r). session_shrinks (rg_sessions r ! i) (rg_sessions r' ! i))"

lemma session_shrinks_refl [simp]: "session_shrinks a a"
  unfolding session_shrinks_def by (auto intro: exI [of _ "\<lambda>_. True"])

lemma session_shrinks_trans: "session_shrinks a b \<Longrightarrow> session_shrinks b c \<Longrightarrow> session_shrinks a c"
  unfolding session_shrinks_def by (auto simp: filter_filter)

lemma shrinks_refl [simp]: "shrinks r r"
  by (simp add: shrinks_def)

lemma shrinks_trans: "shrinks a b \<Longrightarrow> shrinks b c \<Longrightarrow> shrinks a c"
  unfolding shrinks_def by (auto intro: session_shrinks_trans)

lemma shrinks_upd_stream [simp]: "shrinks r (upd_stream x g r)"
  by (simp add: shrinks_def)

lemma shrinks_upd_session:
  "session_shrinks (rg_sessions r ! s) (f (rg_sessions r ! s)) \<Longrightarrow> shrinks r (upd_session s f r)"
  by (auto simp: shrinks_def upd_session_nth)

lemma session_shrinks_close: "session_shrinks a (a\<lparr>ls_closed := True, ls_streams := []\<rparr>)"
  unfolding session_shrinks_def by (auto simp: opens_of_def intro: exI [of _ "\<lambda>_. False"])

lemma shrinks_fold:
  assumes "\<And>x r. shrinks r (f x r)"
  shows "shrinks r (fold f xs r)"
  by (induction xs arbitrary: r) (auto intro: shrinks_trans assms)

lemma shrinks_close [simp]: "shrinks r (close_session s r)"
  unfolding close_session_def Let_def
  by (rule shrinks_trans [OF shrinks_upd_session shrinks_fold])
     (simp_all only: session_shrinks_close shrinks_upd_stream)

lemma shrinks_cancel [simp]: "shrinks r (cancel_session s r)"
  unfolding cancel_session_def
  by (rule shrinks_trans [OF shrinks_close shrinks_upd_session])
     (auto simp: session_shrinks_def opens_of_def intro: exI [of _ "\<lambda>_. True"])

lemma session_ok_shrinks:
  assumes "session_shrinks a b" "session_ok n a"
  shows "session_ok n b"
proof -
  from assms(1) obtain P where P: "ls_streams b = filter P (ls_streams a)"
    by (auto simp: session_shrinks_def)
  have "length (ls_streams a) \<le> MAX_CONCURRENT_STREAMS" using assms(2) by (simp add: session_ok_def)
  then have "length (filter P (ls_streams a)) \<le> MAX_CONCURRENT_STREAMS"
    using length_filter_le le_trans by blast
  moreover have "distinct (map fst (filter P (ls_streams a)))"
    using assms(2) by (auto simp: session_ok_def intro: distinct_map_filter)
  ultimately show ?thesis
    using assms by (auto simp: session_ok_def session_shrinks_def P case_prod_beta)
qed

lemma shrinks_gens_ok: "shrinks r r' \<Longrightarrow> gens_ok r \<Longrightarrow> gens_ok r'"
  by (auto simp: shrinks_def gens_ok_def session_shrinks_def)

lemma shrinks_sessions_ok: "shrinks r r' \<Longrightarrow> sessions_ok r \<Longrightarrow> sessions_ok r'"
  by (auto simp: shrinks_def sessions_ok_def intro: session_ok_shrinks)

lemma shrinks_streams_subset:
  "shrinks r r' \<Longrightarrow> i < length (rg_sessions r) \<Longrightarrow>
   set (ls_streams (rg_sessions r' ! i)) \<subseteq> set (ls_streams (rg_sessions r ! i))"
  by (fastforce simp: shrinks_def session_shrinks_def)

lemma shrinks_owner_ok:
  assumes "shrinks r r'" "owner_ok r"
  shows "owner_ok r'"
proof -
  have len: "length (rg_sessions r') = length (rg_sessions r)"
    using assms(1) by (simp add: shrinks_def)
  note own = assms(2) [unfolded owner_ok_def, rule_format]
  show ?thesis
    unfolding owner_ok_def len
  proof (intro allI impI)
    fix i j a b x
    assume ij: "i < length (rg_sessions r)" "j < length (rg_sessions r)"
      and "(a, x) \<in> set (ls_streams (rg_sessions r' ! i))"
        "(b, x) \<in> set (ls_streams (rg_sessions r' ! j))"
    with shrinks_streams_subset [OF assms(1)]
    have "(a, x) \<in> set (ls_streams (rg_sessions r ! i))"
      "(b, x) \<in> set (ls_streams (rg_sessions r ! j))" by auto
    with ij show "i = j \<and> a = b" by (rule own)
  qed
qed

text \<open>An update that only shrinks and leaves the credential tables and \<open>live\<close> alone.\<close>

lemma registry_ok_shrinks:
  assumes "shrinks r r'" "registry_ok r" "rg_by_credential r' = rg_by_credential r"
    "rg_by_id r' = rg_by_id r" "\<exists>P. rg_live r' = filter P (rg_live r)"
  shows "registry_ok r'"
proof -
  from assms(5) obtain P where P: "rg_live r' = filter P (rg_live r)" by blast
  have d: "distinct (map fst (rg_live r))" using assms(2) by (simp add: registry_ok_def keys_ok_def)
  then have "keys_ok r'"
    using assms(1,2) unfolding registry_ok_def keys_ok_def P assms(4) shrinks_def
    by (auto intro: distinct_map_filter dest!: map_of_filterD [OF d])
  then show ?thesis
    using assms(1-4) shrinks_gens_ok shrinks_sessions_ok shrinks_owner_ok
    by (auto simp: registry_ok_def cred_ok_def)
qed

lemma registry_ok_upd_stream: "registry_ok r \<Longrightarrow> registry_ok (upd_stream x g r)"
  by (rule registry_ok_shrinks) (auto intro: exI [of _ "\<lambda>_. True"])

lemma registry_ok_close: "registry_ok r \<Longrightarrow> registry_ok (close_session s r)"
  by (rule registry_ok_shrinks) (auto intro: exI [of _ "\<lambda>_. True"])

lemma registry_ok_cancel: "registry_ok r \<Longrightarrow> registry_ok (cancel_session s r)"
  by (rule registry_ok_shrinks) (auto intro: exI [of _ "\<lambda>_. True"])

lemma registry_ok_upd_session:
  "registry_ok r \<Longrightarrow> session_shrinks (rg_sessions r ! s) (f (rg_sessions r ! s)) \<Longrightarrow>
   registry_ok (upd_session s f r)"
  by (rule registry_ok_shrinks) (auto intro: exI [of _ "\<lambda>_. True"] shrinks_upd_session)

lemma shrinks_live [simp]: "shrinks r (r\<lparr>rg_live := l\<rparr>)"
  by (simp add: shrinks_def)

lemma delete_filter: "AList.delete k al = filter (\<lambda>(k', _). k \<noteq> k') al"
  by (simp add: AList.delete_eq)

lemma registry_ok_delete_live:
  "registry_ok r \<Longrightarrow> registry_ok (r\<lparr>rg_live := AList.delete tid (rg_live r)\<rparr>)"
  by (rule registry_ok_shrinks) (auto simp: shrinks_def delete_filter)

lemma registry_ok_evict: "registry_ok r \<Longrightarrow> registry_ok (evict tid r)"
  by (auto simp: evict_def registry_ok_cancel registry_ok_delete_live split: option.splits)

lemma registry_ok_detach: "registry_ok r \<Longrightarrow> registry_ok (detach tid s r)"
  by (auto simp: detach_def registry_ok_delete_live split: option.splits)


section \<open>Operations keep the invariant\<close>

lemma registry_ok_tables:
  assumes "registry_ok r" "distinct (map fst ts)" "\<And>tid t. map_of ts tid = Some t \<Longrightarrow> t_id t = tid"
    and "\<And>h tid. cs h = Some tid \<Longrightarrow> \<exists>t. map_of ts tid = Some t \<and> t_credential_hash t = h"
  shows "registry_ok (r\<lparr>rg_by_id := ts, rg_by_credential := cs\<rparr>)"
  using assms by (auto simp: registry_ok_defs)

lemma registry_ok_register: "registry_ok r \<Longrightarrow> registry_ok (snd (register_tether sha tid label c r))"
proof -
  assume ok: "registry_ok r"
  then have keys: "distinct (map fst (rg_by_id r))"
    "\<And>tid t. map_of (rg_by_id r) tid = Some t \<Longrightarrow> t_id t = tid"
    and cred: "\<And>h tid. rg_by_credential r h = Some tid \<Longrightarrow>
      \<exists>t. map_of (rg_by_id r) tid = Some t \<and> t_credential_hash t = h"
    by (auto simp: registry_ok_def cred_ok_def keys_ok_def)
  show ?thesis
    unfolding register_tether_def Let_def snd_conv
  proof (intro registry_ok_evict registry_ok_tables [OF ok], goal_cases)
    case 1
    show ?case using keys(1) by (simp add: distinct_update)
  next
    case (2 a t)
    then show ?case using keys(2) [of a t] by (auto simp: update_conv' split: if_splits)
  next
    case (3 h a)
    then show ?case
      using keys(2) [of tid] cred [of h a]
      by (cases "map_of (rg_by_id r) tid") (auto simp: update_conv' split: if_splits)
  qed
qed

lemma map_of_replacement:
  "map_of (replacement_of recs) tid =
     map_option tether_of_record (find (\<lambda>rec. ar_id rec = tid) (rev recs))"
proof -
  have "map_of (fold (\<lambda>rec. AList.update (ar_id rec) (tether_of_record rec)) recs al) tid =
      (case find (\<lambda>rec. ar_id rec = tid) (rev recs) of
         Some rec \<Rightarrow> Some (tether_of_record rec) | None \<Rightarrow> map_of al tid)" for al
  proof (induction recs arbitrary: al)
    case (Cons rec recs)
    then show ?case by (simp add: update_conv' find_append split: option.split)
  qed simp
  from this [of "[]"] show ?thesis by (simp add: replacement_of_def split: option.split)
qed

lemma replacement_keys:
  "distinct (map fst (replacement_of recs))"
  "map_of (replacement_of recs) tid = Some t \<Longrightarrow> t_id t = tid"
proof -
  have "distinct (map fst al) \<Longrightarrow>
    distinct (map fst (fold (\<lambda>rec. AList.update (ar_id rec) (tether_of_record rec)) recs al))" for al
    by (induction recs arbitrary: al) (simp_all add: distinct_update)
  then show "distinct (map fst (replacement_of recs))" by (simp add: replacement_of_def)
  show "map_of (replacement_of recs) tid = Some t \<Longrightarrow> t_id t = tid"
    by (auto simp: map_of_replacement tether_of_record_def find_Some_iff)
qed

lemma credentials_of_SomeD:
  "credentials_of ts h = Some tid \<Longrightarrow> \<exists>k t. (k, t) \<in> set ts \<and> t_credential_hash t = h \<and> t_id t = tid"
proof -
  have "fold (\<lambda>(_, t) m. m(t_credential_hash t \<mapsto> t_id t)) ts m h = Some tid \<Longrightarrow>
      m h = Some tid \<or> (\<exists>k t. (k, t) \<in> set ts \<and> t_credential_hash t = h \<and> t_id t = tid)" for m
    by (induction ts arbitrary: m) (fastforce split: if_splits)+
  then show "credentials_of ts h = Some tid \<Longrightarrow> ?thesis" by (fastforce simp: credentials_of_def)
qed

text \<open>The cancellations of \<open>replace_records\<close>.\<close>

definition drop_changed :: "(bytes \<Rightarrow> bool) \<Rightarrow> (bytes \<times> sref) list \<Rightarrow> 'h registry \<Rightarrow> 'h registry" where
  "drop_changed keep l r = fold (\<lambda>(tid, s) r. if keep tid then r else cancel_session s r) l r"

lemma drop_changed_simps [simp]:
  "rg_by_credential (drop_changed keep l r) = rg_by_credential r"
  "rg_by_id (drop_changed keep l r) = rg_by_id r" "rg_live (drop_changed keep l r) = rg_live r"
  "rg_lease (drop_changed keep l r) = rg_lease r"
  "length (rg_sessions (drop_changed keep l r)) = length (rg_sessions r)"
  unfolding drop_changed_def by (induction l arbitrary: r) auto

lemma shrinks_drop_changed [simp]: "shrinks r (drop_changed keep l r)"
  unfolding drop_changed_def by (rule shrinks_fold) (auto split: prod.splits)

lemma drop_changed_nth_other:
  "\<forall>(tid, s) \<in> set l. s = i \<longrightarrow> keep tid \<Longrightarrow>
   rg_sessions (drop_changed keep l r) ! i = rg_sessions r ! i"
proof (induction l arbitrary: r)
  case (Cons p l)
  then show ?case by (cases p) (auto simp: drop_changed_def cancel_session_nth)
qed (simp add: drop_changed_def)

lemma drop_changed_cancelled:
  "(tid, s) \<in> set l \<Longrightarrow> \<not> keep tid \<Longrightarrow> s < length (rg_sessions r) \<Longrightarrow>
   cancelled (rg_sessions (drop_changed keep l r) ! s)"
proof -
  have stays: "cancelled (rg_sessions r ! s) \<Longrightarrow> cancelled (rg_sessions (drop_changed keep l r) ! s)" for l r
    unfolding drop_changed_def
    by (induction l arbitrary: r) (auto simp: cancelled_stays)
  show "(tid, s) \<in> set l \<Longrightarrow> \<not> keep tid \<Longrightarrow> s < length (rg_sessions r) \<Longrightarrow> ?thesis"
  proof (induction l arbitrary: r)
    case (Cons p l)
    show ?case
    proof (cases "(tid, s) = p")
      case True
      with Cons.prems stays [OF cancel_session_cancelled] show ?thesis
        by (auto simp: drop_changed_def)
    next
      case False
      with Cons show ?thesis by (cases p) (auto simp: drop_changed_def)
    qed
  qed simp
qed

lemma replace_records_alt:
  "replace_records wall recs r =
     (let keep = unchanged wall (replacement_of recs) (rg_by_id r)
      in (drop_changed keep (rg_live r) r)
           \<lparr>rg_live := filter (\<lambda>(tid, _). keep tid) (rg_live r),
            rg_by_credential := credentials_of (replacement_of recs),
            rg_by_id := replacement_of recs\<rparr>)"
  by (simp add: replace_records_def drop_changed_def Let_def)

lemma swap_tables:
  "r\<lparr>rg_by_credential := cs, rg_by_id := ts\<rparr> = r\<lparr>rg_by_id := ts, rg_by_credential := cs\<rparr>"
  by (cases r) simp

lemma registry_ok_replace: "registry_ok r \<Longrightarrow> registry_ok (replace_records wall recs r)"
proof -
  assume ok: "registry_ok r"
  let ?keep = "unchanged wall (replacement_of recs) (rg_by_id r)"
  have "registry_ok ((drop_changed ?keep (rg_live r) r)\<lparr>rg_live := filter (\<lambda>(tid, _). ?keep tid) (rg_live r)\<rparr>)"
    using ok by (rule registry_ok_shrinks [rotated]) (auto intro: shrinks_trans [OF shrinks_drop_changed shrinks_live])
  note tables = registry_ok_tables [OF this replacement_keys(1) [of recs], of "credentials_of (replacement_of recs)"]
  have "registry_ok (drop_changed ?keep (rg_live r) r
      \<lparr>rg_live := filter (\<lambda>(tid, _). ?keep tid) (rg_live r), rg_by_id := replacement_of recs,
       rg_by_credential := credentials_of (replacement_of recs)\<rparr>)"
  proof (rule tables, goal_cases)
    case (1 a t)
    then show ?case by (rule replacement_keys(2))
  next
    case (2 h a)
    then obtain k t where t: "(k, t) \<in> set (replacement_of recs)" "t_credential_hash t = h" "t_id t = a"
      using credentials_of_SomeD by blast
    then have "map_of (replacement_of recs) k = Some t" using replacement_keys(1) by simp
    with t replacement_keys(2) show ?case by metis
  qed
  then show ?thesis unfolding replace_records_alt Let_def by (simp only: swap_tables)
qed

lemma registry_ok_deactivate:
  assumes ok: "registry_ok r" and t: "map_of (rg_by_id r) tid = Some t"
  shows "registry_ok (r\<lparr>rg_by_id := AList.update tid (t\<lparr>t_active := False\<rparr>) (rg_by_id r)\<rparr>)"
proof (rule registry_ok_tables [OF ok, of _ "rg_by_credential r", simplified], goal_cases)
  case 1
  show ?case using ok by (simp add: registry_ok_def keys_ok_def distinct_update)
next
  case (2 a u)
  with ok t show ?case
    by (auto simp: registry_ok_def keys_ok_def update_conv' split: if_splits)
next
  case (3 h a)
  with ok obtain u where "map_of (rg_by_id r) a = Some u" "t_credential_hash u = h"
    by (auto simp: registry_ok_def cred_ok_def)
  with t show ?case by (cases "a = tid") (auto simp: update_conv')
qed

lemma registry_ok_revoke: "registry_ok r \<Longrightarrow> registry_ok (snd (revoke tid r))"
  by (auto simp: revoke_def registry_ok_evict registry_ok_deactivate split: option.splits)

lemma session_ok_new: "session_ok n (session_new gen now)"
  by (simp add: session_ok_def session_new_def opens_of_def map_filter_simps)

lemma registry_ok_add_session:
  assumes ok: "registry_ok r"
  shows "registry_ok (r\<lparr>rg_sessions := rg_sessions r @ [session_new (rg_next_generation r) now],
           rg_next_generation := rg_next_generation r + 1,
           rg_live := AList.update tid (length (rg_sessions r)) (rg_live r)\<rparr>)"
    (is "registry_ok ?r")
proof -
  have "keys_ok ?r"
    using ok unfolding registry_ok_def keys_ok_def
    by (auto simp: distinct_update update_conv' less_Suc_eq split: if_splits) fastforce+
  moreover have "gens_ok ?r"
    using ok by (auto simp: registry_ok_def gens_ok_def nth_append session_new_def less_Suc_eq)
  moreover have "sessions_ok ?r"
    using ok session_ok_new by (auto simp: registry_ok_def sessions_ok_def nth_append less_Suc_eq)
  moreover have "owner_ok ?r"
    using ok by (auto simp: registry_ok_def owner_ok_def nth_append session_new_def less_Suc_eq)
  ultimately show ?thesis using ok by (simp add: registry_ok_def cred_ok_def)
qed

lemma registry_ok_attach: "registry_ok r \<Longrightarrow> registry_ok (snd (attach sha wall now tid c r))"
  by (auto simp: attach_def Let_def registry_ok_cancel registry_ok_add_session split: option.splits)


section \<open>Effects\<close>

lemma map_of_live_filter:
  "map_of (filter (\<lambda>(tid, _). P tid) al) k = (if P k then map_of al k else None)"
  by (induction al) auto

lemma evict_tables [simp]:
  "rg_by_id (evict tid r) = rg_by_id r" "rg_by_credential (evict tid r) = rg_by_credential r"
  "rg_lease (evict tid r) = rg_lease r"
  "map_of (rg_live (evict tid r)) = (map_of (rg_live r))(tid := None)"
  by (auto simp: evict_def delete_conv' fun_upd_idem split: option.splits)

lemma evict_cancels:
  assumes "registry_ok r" "map_of (rg_live r) tid = Some s"
  shows "cancelled (rg_sessions (evict tid r) ! s)"
    "\<And>a x. (a, x) \<in> set (ls_streams (rg_sessions r ! s)) \<Longrightarrow> poll_failed (rg_streams (evict tid r) ! x)"
proof -
  have s: "s < length (rg_sessions r)" using assms by (auto simp: registry_ok_def keys_ok_def)
  then show "cancelled (rg_sessions (evict tid r) ! s)"
    by (simp add: evict_def assms(2) cancel_session_cancelled)
  fix a x assume x: "(a, x) \<in> set (ls_streams (rg_sessions r ! s))"
  then have "x < length (rg_streams r)"
    using assms(1) s by (auto simp: registry_ok_def sessions_ok_def session_ok_def)
  with x close_session_fails [of a x "r\<lparr>rg_live := AList.delete tid (rg_live r)\<rparr>" s]
  show "poll_failed (rg_streams (evict tid r) ! x)"
    by (simp add: evict_def assms(2))
qed

lemma evict_keeps:
  assumes "registry_ok r" "map_of (rg_live r) a = Some s" "a \<noteq> tid"
  shows "rg_sessions (evict tid r) ! s = rg_sessions r ! s"
proof (cases "map_of (rg_live r) tid")
  case None
  then show ?thesis by (simp add: evict_def)
next
  case (Some p)
  with assms have "p \<noteq> s" by (auto simp: registry_ok_def keys_ok_def)
  with Some show ?thesis by (simp add: evict_def cancel_session_nth)
qed

lemma authorize_iff:
  "authorize sha wall c r = Some l \<longleftrightarrow>
     (\<exists>t rem. rg_by_credential r (digest sha c) = Some (l_tether_id l) \<and>
        map_of (rg_by_id r) (l_tether_id l) = Some t \<and> remaining wall t = Some rem \<and>
        secs 1 \<le> rem \<and> l_ttl l = min (rg_lease r) rem)"
  by (cases l) (auto simp: authorize_def not_less split: option.splits)

lemma remaining_SomeD:
  "remaining wall t = Some rem \<Longrightarrow>
     t_active t \<and> 0 < rem \<and> (\<forall>e. t_expires_at t = Some e \<longrightarrow> wall + rem = secs (unat e))"
  by (auto simp: remaining_def DURATION_MAX_def secs_def split: if_splits option.splits)

lemma registry_ok_hash:
  "registry_ok r \<Longrightarrow> rg_by_credential r h = Some tid \<Longrightarrow> map_of (rg_by_id r) tid = Some t \<Longrightarrow>
   t_credential_hash t = h"
  by (fastforce simp: registry_ok_def cred_ok_def)

section \<open>Properties\<close>

lemma authorize_bounded_base:
  assumes "registry_ok r" "authorize sha wall c r = Some l"
  shows "\<exists>t. map_of (rg_by_id r) (l_tether_id l) = Some t \<and> t_active t \<and>
      t_credential_hash t = digest sha c \<and> l_ttl l \<le> rg_lease r \<and>
      (\<forall>e. t_expires_at t = Some e \<longrightarrow> wall + l_ttl l \<le> secs (unat e)) \<and>
      (secs 1 \<le> rg_lease r \<longrightarrow> secs 1 \<le> l_ttl l)"
proof -
  from assms(2) obtain t rem where t: "rg_by_credential r (digest sha c) = Some (l_tether_id l)"
    "map_of (rg_by_id r) (l_tether_id l) = Some t" "remaining wall t = Some rem"
    "secs 1 \<le> rem" "l_ttl l = min (rg_lease r) rem" by (auto simp: authorize_iff)
  with registry_ok_hash [OF assms(1)] remaining_SomeD [OF t(3)] show ?thesis by fastforce
qed

text \<open>
  C4: A credential is authorized only as the digest of a registration that is active, and
  the lease it gets is at most the hub's lease and never outlives the registration's
  expiry; it lasts at least a second when the hub's lease does.
\<close>
theorem authorize_bounded:
  assumes "registry_ok r" "authorize sha wall c r = Some l"
  shows "\<exists>t. map_of (rg_by_id r) (l_tether_id l) = Some t \<and> t_active t \<and>
      t_credential_hash t = digest sha c \<and> l_ttl l \<le> rg_lease r \<and>
      (\<forall>e. t_expires_at t = Some e \<longrightarrow> wall + l_ttl l \<le> secs (unat e)) \<and>
      (secs 1 \<le> rg_lease r \<longrightarrow> secs 1 \<le> l_ttl l)"
  using assms by (rule authorize_bounded_base)

lemma example_registered:
  "authorize (\<lambda>x. x) 0 [1]
     (snd (register_tether (\<lambda>x. x) [97] [98] [1] (registry_new (secs 60) :: 'h registry))) =
   Some \<lparr>l_tether_id = [97], l_ttl = secs 60\<rparr>"
  by (simp add: authorize_def register_tether_def registry_new_def Let_def remaining_def
      DURATION_MAX_def secs_def)

theorem authorize_bounded_witness:
  "\<exists>t. map_of (rg_by_id (snd (register_tether (\<lambda>x. x) [97] [98] [1] (registry_new (secs 60) :: unit registry))))
      [97] = Some t \<and> t_active t \<and> t_credential_hash t = digest (\<lambda>x. x) [1]"
  using authorize_bounded [OF registry_ok_register [OF registry_ok_new] example_registered] by auto

text \<open>
  C5: Revocation takes effect at once: after it no credential is authorized as that tether
  and none can attach to it, its live session is closed and told to stop, and every
  request that was in flight on it has failed. Other tethers keep their registrations and
  sessions, and the result tells whether the tether was active.
\<close>
theorem revoke_cuts_off:
  assumes "registry_ok r" "revoke tid r = (changed, r')"
  shows "(\<forall>sha wall c l. authorize sha wall c r' = Some l \<longrightarrow> l_tether_id l \<noteq> tid) \<and>
    (\<forall>sha wall now c. fst (attach sha wall now tid c r') = None) \<and>
    map_of (rg_live r') tid = None \<and>
    (\<forall>s. map_of (rg_live r) tid = Some s \<longrightarrow> cancelled (rg_sessions r' ! s) \<and>
       (\<forall>(a, x) \<in> set (ls_streams (rg_sessions r ! s)). poll_failed (rg_streams r' ! x))) \<and>
    (\<forall>a. a \<noteq> tid \<longrightarrow> map_of (rg_by_id r') a = map_of (rg_by_id r) a \<and>
       map_of (rg_live r') a = map_of (rg_live r) a \<and>
       (\<forall>s. map_of (rg_live r) a = Some s \<longrightarrow> rg_sessions r' ! s = rg_sessions r ! s)) \<and>
    (changed \<longleftrightarrow> (\<exists>t. map_of (rg_by_id r) tid = Some t \<and> t_active t))"
proof -
  obtain q where q: "r' = evict tid q" "rg_live q = rg_live r" "rg_sessions q = rg_sessions r"
      "rg_streams q = rg_streams r" "registry_ok q"
    and c: "changed \<longleftrightarrow> (\<exists>t. map_of (rg_by_id r) tid = Some t \<and> t_active t)"
    and by_id: "\<forall>a. a \<noteq> tid \<longrightarrow> map_of (rg_by_id q) a = map_of (rg_by_id r) a"
    and off: "\<forall>t. map_of (rg_by_id q) tid = Some t \<longrightarrow> \<not> t_active t"
  proof -
    let ?q = "(case map_of (rg_by_id r) tid of
        Some t \<Rightarrow> if t_active t then r\<lparr>rg_by_id := AList.update tid (t\<lparr>t_active := False\<rparr>) (rg_by_id r)\<rparr> else r
      | None \<Rightarrow> r)"
    have "registry_ok ?q"
      using assms(1) registry_ok_deactivate by (auto split: option.splits)
    with assms(2) show ?thesis
      by (intro that [of ?q]) (auto simp: revoke_def update_conv' split: option.splits if_splits)
  qed
  have "\<forall>wall t. map_of (rg_by_id r') tid = Some t \<longrightarrow> remaining wall t = None"
    using off by (simp add: q(1) remaining_def)
  then have "\<forall>sha wall c l. authorize sha wall c r' = Some l \<longrightarrow> l_tether_id l \<noteq> tid"
    "\<forall>sha wall now c. fst (attach sha wall now tid c r') = None"
    by (fastforce simp: authorize_iff, fastforce simp: attach_def split: option.splits)
  with c by_id evict_cancels [OF q(5)] evict_keeps [OF q(5)] show ?thesis
    unfolding q(1) by (auto simp: q(2-4))
qed


text \<open>A registry with one attached tether, on which the properties are applied.\<close>

definition example_registry :: "unit registry" where
  "example_registry = snd (attach (\<lambda>x. x) 0 0 [97] [1]
     (snd (register_tether (\<lambda>x. x) [97] [98] [1] (registry_new (secs 60)))))"

lemma example_registry_eq:
  "example_registry =
     \<lparr>rg_by_credential = [digest (\<lambda>x. x) [1] \<mapsto> [97]],
      rg_by_id = [([97], \<lparr>t_id = [97], t_label = [98], t_credential_hash = digest (\<lambda>x. x) [1],
                          t_active = True, t_expires_at = None\<rparr>)],
      rg_live = [([97], 0)], rg_next_generation = 2, rg_lease = secs 60,
      rg_sessions = [session_new 1 0], rg_streams = []\<rparr>"
  by (simp add: example_registry_def attach_def register_tether_def registry_new_def evict_def
      remaining_def DURATION_MAX_def secs_def Let_def)

lemma example_registry_ok: "registry_ok example_registry"
  unfolding example_registry_def by (intro registry_ok_attach registry_ok_register registry_ok_new)

theorem revoke_cuts_off_witness:
  "map_of (rg_live (snd (revoke [97] example_registry))) [97] = None \<and>
   cancelled (rg_sessions (snd (revoke [97] example_registry)) ! 0) \<and>
   fst (revoke [97] example_registry)"
  using revoke_cuts_off [OF example_registry_ok prod.collapse [symmetric], of "[97]"]
  by (simp add: example_registry_eq)

text \<open>
  C8: Rotation: registering a tether again invalidates its previous credential at once,
  cancels its live session and authorizes the new credential for the full lease; a
  credential with another digest is authorized as before, as long as it is not the
  tether's own.
\<close>
theorem register_rotates:
  assumes "registry_ok r" "register_tether sha tid label c r = (t, r')"
  shows "(\<forall>wall c' l. authorize sha wall c' r' = Some l \<and> l_tether_id l = tid \<longrightarrow>
        digest sha c' = digest sha c) \<and>
    authorize sha wall c r' = Some \<lparr>l_tether_id = tid, l_ttl = min (rg_lease r) DURATION_MAX\<rparr> \<and>
    map_of (rg_live r') tid = None \<and>
    (\<forall>s. map_of (rg_live r) tid = Some s \<longrightarrow> cancelled (rg_sessions r' ! s)) \<and>
    (\<forall>wall c' l. digest sha c' \<noteq> digest sha c \<and> l_tether_id l \<noteq> tid \<longrightarrow>
       (authorize sha wall c' r' = Some l \<longleftrightarrow> authorize sha wall c' r = Some l))"
proof -
  define q where "q = r\<lparr>rg_by_id := rg_by_id r', rg_by_credential := rg_by_credential r'\<rparr>"
  have r': "r' = evict tid q" and id: "map_of (rg_by_id r') = (map_of (rg_by_id r))(tid \<mapsto> t)"
    and t: "t_credential_hash t = digest sha c" "t_active t" "t_expires_at t = None"
    and lease: "rg_lease r' = rg_lease r"
    using assms(2) by (auto simp: register_tether_def Let_def q_def update_conv')
  have ok': "registry_ok r'" using registry_ok_register [OF assms(1), of sha tid label c] assms(2) by simp
  have cred: "rg_by_credential r' (digest sha c) = Some tid"
    using assms(2) by (auto simp: register_tether_def Let_def)
  have other: "rg_by_credential r' h = Some a \<longleftrightarrow> rg_by_credential r h = Some a"
    if "h \<noteq> digest sha c" "a \<noteq> tid" for h a
    using assms that
    by (auto simp: register_tether_def Let_def registry_ok_def keys_ok_def split: option.splits if_splits)
  have own: "h = digest sha c" if "rg_by_credential r' h = Some tid" for h
    using registry_ok_hash [OF ok' that] t(1) id by simp
  have rem: "remaining wall t = Some DURATION_MAX" using t by (simp add: remaining_def)
  have max: "secs 1 \<le> DURATION_MAX" by (simp add: DURATION_MAX_def secs_def)
  have live: "rg_live q = rg_live r" "rg_sessions q = rg_sessions r" by (simp_all add: q_def)
  have okq: "registry_ok q"
    using ok' assms(1) by (auto simp: q_def registry_ok_defs simp del: evict_tables)
  have "(authorize sha wall c' r' = Some l \<longleftrightarrow> authorize sha wall c' r = Some l)"
    if "digest sha c' \<noteq> digest sha c" "l_tether_id l \<noteq> tid" for wall c' l
    using that other id lease by (simp add: authorize_iff)
  moreover have "authorize sha wall c r' = Some \<lparr>l_tether_id = tid, l_ttl = min (rg_lease r) DURATION_MAX\<rparr>"
    using cred id rem max lease by (simp add: authorize_iff)
  moreover have "\<forall>s. map_of (rg_live r) tid = Some s \<longrightarrow> cancelled (rg_sessions r' ! s)"
    using evict_cancels(1) [OF okq, of tid] unfolding live r' by simp
  ultimately show ?thesis using own by (auto simp: authorize_iff r' live)
qed

theorem register_rotates_witness:
  "authorize (\<lambda>x. x) 5 [1] (snd (register_tether (\<lambda>x. x) [97] [98] [2] example_registry)) = None \<and>
   cancelled (rg_sessions (snd (register_tether (\<lambda>x. x) [97] [98] [2] example_registry)) ! 0)"
proof -
  let ?r = "snd (register_tether (\<lambda>x. x) [97] [98] [2] example_registry)"
  note rot = register_rotates [OF example_registry_ok prod.collapse [symmetric], of "\<lambda>x. x" "[97]" "[98]" "[2]"]
  have d: "digest (\<lambda>x. x) [1] \<noteq> digest (\<lambda>x. x) [2]" by (simp add: digest_eq_iff)
  have "rg_by_credential ?r (digest (\<lambda>x. x) [1]) = None"
    using d by (simp add: register_tether_def example_registry_eq Let_def)
  then have "authorize (\<lambda>x. x) 5 [1] ?r = None" by (simp add: authorize_def)
  moreover have "map_of (rg_live example_registry) [97] = Some 0" by (simp add: example_registry_eq)
  ultimately show ?thesis using rot by blast
qed


lemma snapshot_governs_base:
  assumes "registry_ok r" "replace_records wall recs r = r'"
  shows "(\<forall>sha now c l. authorize sha now c r' = Some l \<longrightarrow>
       (\<exists>rec \<in> set recs. ar_id rec = l_tether_id l \<and> ar_active rec \<and>
          ar_credential_hash rec = digest sha c \<and> now + l_ttl l \<le> secs (unat (ar_expires_at rec)))) \<and>
    (\<forall>tid s. map_of (rg_live r) tid = Some s \<longrightarrow>
       (if unchanged wall (replacement_of recs) (rg_by_id r) tid
        then map_of (rg_live r') tid = Some s \<and> rg_sessions r' ! s = rg_sessions r ! s
        else map_of (rg_live r') tid = None \<and> cancelled (rg_sessions r' ! s))) \<and>
    (recs = [] \<longrightarrow> rg_live r' = [] \<and> (\<forall>sha now c. authorize sha now c r' = None))"
proof -
  let ?keep = "unchanged wall (replacement_of recs) (rg_by_id r)"
  have r': "rg_by_id r' = replacement_of recs" "rg_by_credential r' = credentials_of (replacement_of recs)"
    "rg_live r' = filter (\<lambda>(tid, _). ?keep tid) (rg_live r)"
    "rg_sessions r' = rg_sessions (drop_changed ?keep (rg_live r) r)"
    using assms(2) by (auto simp: replace_records_alt Let_def)
  have ok': "registry_ok r'" using registry_ok_replace [OF assms(1)] assms(2) by blast
  have "\<exists>rec \<in> set recs. ar_id rec = l_tether_id l \<and> ar_active rec \<and>
      ar_credential_hash rec = digest sha c \<and> now + l_ttl l \<le> secs (unat (ar_expires_at rec))"
    if a: "authorize sha now c r' = Some l" for sha now c l
  proof -
    from authorize_bounded_base [OF ok' a] obtain t where
      t: "map_of (replacement_of recs) (l_tether_id l) = Some t" "t_active t"
        "t_credential_hash t = digest sha c" "\<forall>e. t_expires_at t = Some e \<longrightarrow> now + l_ttl l \<le> secs (unat e)"
      by (auto simp: r')
    then obtain rec where "find (\<lambda>rec. ar_id rec = l_tether_id l) (rev recs) = Some rec"
      "t = tether_of_record rec" by (auto simp: map_of_replacement)
    moreover from this(1) have "rec \<in> set recs" "ar_id rec = l_tether_id l"
      by (auto simp: find_Some_iff rev_nth)
    ultimately show ?thesis using t by (intro bexI [of _ rec]) (auto simp: tether_of_record_def)
  qed
  moreover have "if ?keep tid
      then map_of (rg_live r') tid = Some s \<and> rg_sessions r' ! s = rg_sessions r ! s
      else map_of (rg_live r') tid = None \<and> cancelled (rg_sessions r' ! s)"
    if live: "map_of (rg_live r) tid = Some s" for tid s
  proof (cases "?keep tid")
    case True
    have "a = tid" if "(a, s) \<in> set (rg_live r)" for a
      using assms(1) live that by (force simp: registry_ok_def keys_ok_def)
    then have "rg_sessions (drop_changed ?keep (rg_live r) r) ! s = rg_sessions r ! s"
      using True by (intro drop_changed_nth_other) auto
    with True live show ?thesis by (simp add: r' map_of_live_filter)
  next
    case False
    have "s < length (rg_sessions r)" using assms(1) live by (auto simp: registry_ok_def keys_ok_def)
    with False live show ?thesis
      by (auto simp: r' map_of_live_filter intro!: drop_changed_cancelled dest: map_of_SomeD)
  qed
  moreover have "rg_live r' = [] \<and> (\<forall>sha now c. authorize sha now c r' = None)" if "recs = []"
    using that by (auto simp: r' replacement_of_def credentials_of_def authorize_def unchanged_def)
  ultimately show ?thesis by blast
qed

text \<open>
  C6: A snapshot replaces everything: afterwards a credential is authorized only through a
  record of the snapshot that is active, has its digest and outlives the lease; the live
  sessions are those whose record kept its digest and its expiry and is still valid, and
  they are untouched; every other live session is cancelled. So an empty snapshot, which is
  what a failed read is replaced by, leaves nothing authorized and nothing running.
\<close>
theorem snapshot_governs:
  assumes "registry_ok r" "replace_records wall recs r = r'"
  shows "(\<forall>sha now c l. authorize sha now c r' = Some l \<longrightarrow>
       (\<exists>rec \<in> set recs. ar_id rec = l_tether_id l \<and> ar_active rec \<and>
          ar_credential_hash rec = digest sha c \<and> now + l_ttl l \<le> secs (unat (ar_expires_at rec)))) \<and>
    (\<forall>tid s. map_of (rg_live r) tid = Some s \<longrightarrow>
       (if unchanged wall (replacement_of recs) (rg_by_id r) tid
        then map_of (rg_live r') tid = Some s \<and> rg_sessions r' ! s = rg_sessions r ! s
        else map_of (rg_live r') tid = None \<and> cancelled (rg_sessions r' ! s))) \<and>
    (recs = [] \<longrightarrow> rg_live r' = [] \<and> (\<forall>sha now c. authorize sha now c r' = None))"
  using assms by (rule snapshot_governs_base)

theorem snapshot_governs_witness:
  "rg_live (clear_records 7 example_registry) = [] \<and>
   cancelled (rg_sessions (clear_records 7 example_registry) ! 0)"
proof -
  have "map_of (rg_live example_registry) [97] = Some 0" by (simp add: example_registry_eq)
  moreover have "\<not> unchanged 7 (replacement_of []) (rg_by_id example_registry) [97]"
    by (simp add: unchanged_def replacement_of_def)
  ultimately show ?thesis
    using snapshot_governs [OF example_registry_ok refl, of 7 "[]"]
    by (auto simp: clear_records_def)
qed

text \<open>
  C7: Attaching re-checks the credential against the current registration; the new session
  replaces the one that was live, which is cancelled, and carries a generation no earlier
  session has, so that when the old session's loop leaves, its detach cannot remove its
  successor, while the successor's own does. The bound says that fewer than \<open>2 ^ 64 - 1\<close>
  sessions were attached before.
\<close>
theorem attach_replaces_safely:
  assumes "registry_ok r" "attach sha wall now tid c r = (Some s, r')"
    and "length (rg_sessions r) < 2 ^ 64 - 1"
  shows "(\<exists>t. map_of (rg_by_id r) tid = Some t \<and> remaining wall t \<noteq> None \<and>
        t_credential_hash t = digest sha c \<and> rg_by_credential r (digest sha c) = Some tid) \<and>
    map_of (rg_live r') tid = Some s \<and> \<not> cancelled (rg_sessions r' ! s) \<and>
    (\<forall>p. map_of (rg_live r) tid = Some p \<longrightarrow> cancelled (rg_sessions r' ! p)) \<and>
    (\<forall>p < length (rg_sessions r). detach tid p r' = r') \<and>
    map_of (rg_live (detach tid s r')) tid = None"
proof -
  obtain t where t: "map_of (rg_by_id r) tid = Some t" "remaining wall t \<noteq> None"
      "t_credential_hash t = digest sha c" "rg_by_credential r (digest sha c) = Some tid"
    and s: "s = length (rg_sessions r)"
    and live: "rg_live r' = AList.update tid s (rg_live r)"
    and len: "length (rg_sessions r') = Suc (length (rg_sessions r))"
    and new: "rg_sessions r' ! s = session_new (rg_next_generation r) now"
    using assms(1,2)
    by (fastforce simp: attach_def Let_def cancel_session_nth nth_append registry_ok_def keys_ok_def
        split: option.splits if_splits)
  have ok': "gens_ok r'" using registry_ok_attach [OF assms(1), of sha wall now tid c] assms(2)
    by (simp add: registry_ok_def)
  have gen: "ls_generation (rg_sessions r' ! p) \<noteq> ls_generation (rg_sessions r' ! s)"
    if "p < length (rg_sessions r)" for p
  proof
    assume "ls_generation (rg_sessions r' ! p) = ls_generation (rg_sessions r' ! s)"
    then have "(of_nat (Suc p) :: 64 word) = of_nat (Suc s)"
      using ok' that s len by (simp add: gens_ok_def)
    then have "unat (of_nat (Suc p) :: 64 word) = unat (of_nat (Suc s) :: 64 word)" by simp
    then have "Suc p mod 2 ^ 64 = Suc s mod 2 ^ 64" by (simp only: unat_of_nat) simp
    with that s assms(3) show False by simp
  qed
  have "cancelled (rg_sessions r' ! p)" if "map_of (rg_live r) tid = Some p" for p
  proof -
    have "p < length (rg_sessions r)" using assms(1) that by (auto simp: registry_ok_def keys_ok_def)
    with assms(2) t that show ?thesis
      by (auto simp: attach_def Let_def intro!: cancel_session_cancelled split: if_splits)
  qed
  moreover have "\<not> cancelled (rg_sessions r' ! s)" by (simp add: new cancelled_def session_new_def)
  moreover have "map_of (rg_live r') tid = Some s" by (simp add: live update_conv')
  moreover from this have "\<forall>p < length (rg_sessions r). detach tid p r' = r'"
    using gen by (auto simp: detach_def dest: not_sym)
  moreover have "map_of (rg_live (detach tid s r')) tid = None"
    using \<open>map_of (rg_live r') tid = Some s\<close> by (simp add: detach_def delete_conv')
  ultimately show ?thesis using t by blast
qed

theorem attach_replaces_safely_witness:
  "map_of (rg_live (snd (attach (\<lambda>x. x) 3 3 [97] [1] example_registry))) [97] = Some 1 \<and>
   detach [97] 0 (snd (attach (\<lambda>x. x) 3 3 [97] [1] example_registry)) =
     snd (attach (\<lambda>x. x) 3 3 [97] [1] example_registry)"
proof -
  have "fst (attach (\<lambda>x. x) 3 3 [97] [1] example_registry) = Some 1"
    by (simp add: attach_def example_registry_eq Let_def remaining_def)
  then have "attach (\<lambda>x. x) 3 3 [97] [1] example_registry =
      (Some 1, snd (attach (\<lambda>x. x) 3 3 [97] [1] example_registry))" by (metis prod.collapse)
  from attach_replaces_safely [OF example_registry_ok this] show ?thesis
    by (simp add: example_registry_eq)
qed

end
