(* ===== verification/Routing.thy ===== *)
theory Routing
  imports Registry
begin

text \<open>
  How the hub puts a caller's request on a tether (\<open>reserve_route\<close>, \<open>start_forward\<close>,
  \<open>forward\<close>, \<open>forward_any\<close>, the upload task and \<open>StreamGuard\<close> of \<open>hub.rs\<close>). What the
  bounded command queue of a session answers is an argument: a function of the session for
  the reservations of one call, one outcome for a single send.
\<close>

section \<open>Selecting a session\<close>

text \<open>The closure of the \<open>filter_map\<close>: the candidates with their number of open streams.\<close>

definition candidate ::
    "nat \<Rightarrow> nat \<Rightarrow> (sref \<Rightarrow> bool) \<Rightarrow> 'h registry \<Rightarrow> bytes \<times> sref \<Rightarrow> (nat \<times> bytes \<times> sref) option" where
  "candidate wall now tx_closed r = (\<lambda>(tid, s).
     case map_of (rg_by_id r) tid of
       None \<Rightarrow> None
     | Some t \<Rightarrow>
         let ls = rg_sessions r ! s in
         if remaining wall t = None \<or> ls_closed ls \<or> tx_closed s \<or>
            TETHER_SILENCE < now - ls_last_seen ls
         then None else Some (length (ls_streams ls), tid, s))"

definition candidates ::
    "nat \<Rightarrow> nat \<Rightarrow> (sref \<Rightarrow> bool) \<Rightarrow> 'h registry \<Rightarrow> (nat \<times> bytes \<times> sref) list" where
  "candidates wall now tx_closed r =
     sort_key (\<lambda>(count, tid, _). (count, tid))
       (List.map_filter (candidate wall now tx_closed r) (rg_live r))"

definition reserve_stream_start :: "send_result \<Rightarrow> forward_error + unit" where
  "reserve_stream_start res =
     (case res of Sent \<Rightarrow> Inr () | Full \<Rightarrow> Inl TetherBusy | Closed \<Rightarrow> Inl TetherGone)"

text \<open>The loop over the sorted candidates, with its flag \<open>busy\<close>.\<close>

fun try_candidates ::
    "(sref \<Rightarrow> send_result) \<Rightarrow> 'h registry \<Rightarrow> bool \<Rightarrow> (nat \<times> bytes \<times> sref) list \<Rightarrow>
     forward_error + bytes \<times> sref" where
  "try_candidates reserve r busy [] = Inl (if busy then TetherBusy else NoTether)"
| "try_candidates reserve r busy ((count, tid, s) # cs) =
     (if MAX_CONCURRENT_STREAMS \<le> count \<or> 65535 < unat (ls_next_id (rg_sessions r ! s))
      then try_candidates reserve r True cs
      else (case reserve_stream_start (reserve s) of
              Inr _ \<Rightarrow> Inr (tid, s)
            | Inl e \<Rightarrow> try_candidates reserve r (busy \<or> e = TetherBusy) cs))"

definition reserve_route ::
    "nat \<Rightarrow> nat \<Rightarrow> (sref \<Rightarrow> bool) \<Rightarrow> (sref \<Rightarrow> send_result) \<Rightarrow> 'h registry \<Rightarrow>
     forward_error + bytes \<times> sref" where
  "reserve_route wall now tx_closed reserve r =
     try_candidates reserve r False (candidates wall now tx_closed r)"

section \<open>Opening a stream\<close>

record 'h request =
  rq_method :: bytes
  rq_path_and_query :: "bytes option"
  rq_headers :: 'h

record forwarded =
  fw_id :: stream_id
  fw_stream :: xref
  fw_session :: sref

definition push_sent :: "frame \<Rightarrow> live_session \<Rightarrow> live_session" where
  "push_sent f ls = ls\<lparr>ls_sent := ls_sent ls @ [f]\<rparr>"

text \<open>
  The reservation's permit sends OPEN without failing. The upload task carries the
  reference of its stream as its name.
\<close>

definition start_forward ::
    "'h header_api \<Rightarrow> sref \<Rightarrow> 'h request \<Rightarrow> 'h registry \<Rightarrow> (forward_error + forwarded) \<times> 'h registry"
where
  "start_forward H s req r =
     (let ls = rg_sessions r ! s in
      if 65535 < unat (ls_next_id ls) then (Inl Idhausted, r)
      else
        let sid = ucast (ls_next_id ls);
            r = upd_session s (\<lambda>ls. ls\<lparr>ls_next_id := ls_next_id ls + 1\<rparr>) r;
            path = (case rq_path_and_query req of Some p \<Rightarrow> p | None \<Rightarrow> asc ''/'');
            st = stream_state_new (rq_method req) path (rq_headers req);
            x = length (rg_streams r)
        in (case admit sid x (rg_sessions r ! s) of
              Inl e \<Rightarrow> (Inl e, r)
            | Inr ls' \<Rightarrow>
                let open = Open sid (encode_request_head H (ss_method st) (ss_path st) (ss_headers st));
                    r = upd_session s (\<lambda>_. push_sent open ls') r;
                    r = r\<lparr>rg_streams := rg_streams r @ [install_upload x st]\<rparr>
                in (Inr \<lparr>fw_id = sid, fw_stream = x, fw_session = s\<rparr>, r)))"

text \<open>
  Both ways of forwarding choose and reserve first, under the routing lock, and admit the
  stream afterwards. The lock keeps out registration changes, attachments and other
  requests, but not the session tasks, the upload tasks and the callers' handles:
  \<open>between\<close> is what those do to the registry before the stream is admitted.
\<close>

definition forward ::
    "'h header_api \<Rightarrow> nat \<Rightarrow> send_result \<Rightarrow> ('h registry \<Rightarrow> 'h registry) \<Rightarrow> bytes \<Rightarrow> 'h request \<Rightarrow>
     'h registry \<Rightarrow> (forward_error + forwarded) \<times> 'h registry" where
  "forward H wall reserved between tid req r =
     (case map_of (rg_live r) tid of
        None \<Rightarrow> (Inl NoTether, r)
      | Some s \<Rightarrow>
          if \<not> is_active wall tid r then (Inl Revoked, r)
          else (case reserve_stream_start reserved of
                  Inl e \<Rightarrow> (Inl e, r)
                | Inr _ \<Rightarrow> start_forward H s req (between r)))"

definition forward_any ::
    "'h header_api \<Rightarrow> nat \<Rightarrow> nat \<Rightarrow> (sref \<Rightarrow> bool) \<Rightarrow> (sref \<Rightarrow> send_result) \<Rightarrow>
     ('h registry \<Rightarrow> 'h registry) \<Rightarrow> 'h request \<Rightarrow> 'h registry \<Rightarrow>
     (forward_error + forwarded) \<times> 'h registry" where
  "forward_any H wall now tx_closed reserve between req r =
     (case reserve_route wall now tx_closed reserve r of
        Inl e \<Rightarrow> (Inl e, r)
      | Inr (_, s) \<Rightarrow> start_forward H s req (between r))"

section \<open>The upload task\<close>

text \<open>
  What \<open>body.frame()\<close> yields: data, something that is not data (trailers), an error; the
  end of the body is the end of the list. \<open>n\<close> is the number of frames the command queue
  takes before it closes.
\<close>

datatype body_event = BodyData bytes | BodyTrailers | BodyError

fun upload_loop :: "stream_id \<Rightarrow> body_event list \<Rightarrow> nat \<Rightarrow> frame list \<times> (forward_error + unit)" where
  "upload_loop sid [] n = (if n = 0 then ([], Inl TetherGone) else ([HalfEnd sid], Inr ()))"
| "upload_loop sid (BodyError # _) n = ([], Inl CallerBody)"
| "upload_loop sid (BodyTrailers # evs) n = upload_loop sid evs n"
| "upload_loop sid (BodyData c # evs) n =
     (if c = [] then upload_loop sid evs n
      else if n = 0 then ([], Inl TetherGone)
      else let (fs, res) = upload_loop sid evs (n - 1) in (Data sid c # fs, res))"

text \<open>A frame offered to a session's queue, and the emergency stop when the queue is full.\<close>

definition try_send :: "sref \<Rightarrow> frame \<Rightarrow> send_result \<Rightarrow> 'h registry \<Rightarrow> 'h registry" where
  "try_send s f res r = (if res = Sent then upd_session s (push_sent f) r else r)"

definition send_or_abort :: "sref \<Rightarrow> frame \<Rightarrow> send_result \<Rightarrow> 'h registry \<Rightarrow> 'h registry" where
  "send_or_abort s f res r =
     (if res = Full then upd_session s (\<lambda>ls. ls\<lparr>ls_aborted := True\<rparr>) r else try_send s f res r)"

definition upload_finish ::
    "sref \<Rightarrow> xref \<Rightarrow> stream_id \<Rightarrow> (forward_error + unit) \<Rightarrow> send_result \<Rightarrow> 'h registry \<Rightarrow> 'h registry" where
  "upload_finish s x sid result res r =
     (if Inr () \<noteq> result \<and> \<not> ss_completed (rg_streams r ! x)
      then send_or_abort s (End sid (asc ''request upload failed'')) res (upd_stream x stream_fail r)
      else r)"

section \<open>Dropping the caller's handle\<close>

definition guard_drop :: "sref \<Rightarrow> xref \<Rightarrow> stream_id \<Rightarrow> send_result \<Rightarrow> 'h registry \<Rightarrow> 'h registry" where
  "guard_drop s x sid res r =
     (let r = upd_stream x (\<lambda>st. st\<lparr>ss_aborted := ss_aborted st @ [x]\<rparr>) r;
          r = upd_session s (\<lambda>ls. ls\<lparr>ls_streams := AList.delete sid (ls_streams ls)\<rparr>) r
      in if ss_completed (rg_streams r ! x) then r
         else send_or_abort s (End sid []) res r)"


section \<open>Lemmas on routing\<close>

definition eligible ::
    "nat \<Rightarrow> nat \<Rightarrow> (sref \<Rightarrow> bool) \<Rightarrow> 'h registry \<Rightarrow> bytes \<Rightarrow> sref \<Rightarrow> bool" where
  "eligible wall now tx_closed r tid s \<longleftrightarrow>
     (tid, s) \<in> set (rg_live r) \<and> is_active wall tid r \<and> \<not> ls_closed (rg_sessions r ! s) \<and>
     \<not> tx_closed s \<and> now - ls_last_seen (rg_sessions r ! s) \<le> TETHER_SILENCE"

definition has_room :: "'h registry \<Rightarrow> sref \<Rightarrow> bool" where
  "has_room r s \<longleftrightarrow> length (ls_streams (rg_sessions r ! s)) < MAX_CONCURRENT_STREAMS \<and>
     unat (ls_next_id (rg_sessions r ! s)) \<le> 65535"

definition load :: "'h registry \<Rightarrow> sref \<Rightarrow> nat" where
  "load r s = length (ls_streams (rg_sessions r ! s))"

lemma candidate_Some:
  "candidate wall now tx_closed r (tid, s) = Some p \<longleftrightarrow>
     is_active wall tid r \<and> \<not> ls_closed (rg_sessions r ! s) \<and> \<not> tx_closed s \<and>
     now - ls_last_seen (rg_sessions r ! s) \<le> TETHER_SILENCE \<and> p = (load r s, tid, s)"
  by (auto simp: candidate_def is_active_def load_def Let_def not_less split: option.splits)

lemma in_candidates:
  "(n, tid, s) \<in> set (candidates wall now tx_closed r) \<longleftrightarrow>
     eligible wall now tx_closed r tid s \<and> n = load r s"
proof -
  have "(n, tid, s) \<in> set (candidates wall now tx_closed r) \<longleftrightarrow>
      (\<exists>x \<in> set (rg_live r). candidate wall now tx_closed r x = Some (n, tid, s))"
    by (simp add: candidates_def set_map_filter)
  also have "\<dots> \<longleftrightarrow> eligible wall now tx_closed r tid s \<and> n = load r s"
    by (auto simp: candidate_Some eligible_def intro!: bexI [of _ "(tid, s)"])
  finally show ?thesis .
qed

lemma find_sort_key_least:
  "find P (sort_key f xs) = Some x \<Longrightarrow> y \<in> set xs \<Longrightarrow> P y \<Longrightarrow> f x \<le> f y"
proof -
  assume x: "find P (sort_key f xs) = Some x" and y: "y \<in> set xs" "P y"
  from x obtain i where i: "i < length (sort_key f xs)" "sort_key f xs ! i = x"
    "\<forall>j < i. \<not> P (sort_key f xs ! j)" by (auto simp: find_Some_iff)
  from y(1) obtain j where j: "j < length (sort_key f xs)" "sort_key f xs ! j = y"
    by (metis in_set_conv_nth set_sort)
  with i y(2) have "i \<le> j" by (meson not_le)
  then have "map f (sort_key f xs) ! i \<le> map f (sort_key f xs) ! j"
    using j(1) by (intro sorted_nth_mono) simp_all
  with i j show ?thesis by simp
qed

text \<open>The loop as a search: the first candidate with room whose queue accepts.\<close>

definition accepts :: "(sref \<Rightarrow> send_result) \<Rightarrow> 'h registry \<Rightarrow> nat \<times> bytes \<times> sref \<Rightarrow> bool" where
  "accepts reserve r = (\<lambda>(count, _, s). count < MAX_CONCURRENT_STREAMS \<and>
     unat (ls_next_id (rg_sessions r ! s)) \<le> 65535 \<and> reserve s = Sent)"

definition over_limit :: "(sref \<Rightarrow> send_result) \<Rightarrow> 'h registry \<Rightarrow> nat \<times> bytes \<times> sref \<Rightarrow> bool" where
  "over_limit reserve r = (\<lambda>(count, _, s).
     \<not> (count < MAX_CONCURRENT_STREAMS \<and> unat (ls_next_id (rg_sessions r ! s)) \<le> 65535) \<or> reserve s = Full)"

lemma try_candidates_find:
  "try_candidates reserve r busy cs =
     (case find (accepts reserve r) cs of
        Some (_, tid, s) \<Rightarrow> Inr (tid, s)
      | None \<Rightarrow> Inl (if busy \<or> list_ex (over_limit reserve r) cs then TetherBusy else NoTether))"
  by (induction reserve r busy cs rule: try_candidates.induct)
    (auto simp: accepts_def over_limit_def reserve_stream_start_def not_less not_le
       split: send_result.splits)

section \<open>Lemmas on forwarding\<close>

lemma push_sent_simps [simp]:
  "ls_streams (push_sent f ls) = ls_streams ls" "ls_closed (push_sent f ls) = ls_closed ls"
  "ls_next_id (push_sent f ls) = ls_next_id ls" "ls_generation (push_sent f ls) = ls_generation ls"
  "ls_aborted (push_sent f ls) = ls_aborted ls" "ls_last_seen (push_sent f ls) = ls_last_seen ls"
  "ls_sent (push_sent f ls) = ls_sent ls @ [f]"
  "opens_of (push_sent f ls) = opens_of ls @ (case opened f of None \<Rightarrow> [] | Some i \<Rightarrow> [i])"
  by (simp_all add: push_sent_def opens_of_def map_filter_def split: option.split)

lemma session_shrinks_push: "opened f = None \<Longrightarrow> session_shrinks a (push_sent f a)"
  by (auto simp: session_shrinks_def intro: exI [of _ "\<lambda>_. True"])

lemma session_shrinks_abort: "session_shrinks a (a\<lparr>ls_aborted := True\<rparr>)"
  by (auto simp: session_shrinks_def opens_of_def intro: exI [of _ "\<lambda>_. True"])

lemma registry_ok_try_send: "registry_ok r \<Longrightarrow> opened f = None \<Longrightarrow> registry_ok (try_send s f res r)"
  by (simp add: try_send_def registry_ok_upd_session session_shrinks_push)

lemma registry_ok_send_or_abort:
  "registry_ok r \<Longrightarrow> opened f = None \<Longrightarrow> registry_ok (send_or_abort s f res r)"
  by (simp add: send_or_abort_def registry_ok_try_send registry_ok_upd_session session_shrinks_abort)

lemma registry_ok_upload_finish: "registry_ok r \<Longrightarrow> registry_ok (upload_finish s x sid result res r)"
  by (simp add: upload_finish_def registry_ok_send_or_abort registry_ok_upd_stream)

lemma registry_ok_remove_stream:
  "registry_ok r \<Longrightarrow> registry_ok (upd_session s (\<lambda>ls. ls\<lparr>ls_streams := AList.delete sid (ls_streams ls)\<rparr>) r)"
  by (rule registry_ok_upd_session) (auto simp: session_shrinks_def opens_of_def delete_filter)

lemma registry_ok_guard_drop: "registry_ok r \<Longrightarrow> registry_ok (guard_drop s x sid res r)"
  by (simp add: guard_drop_def Let_def registry_ok_send_or_abort registry_ok_remove_stream registry_ok_upd_stream)

text \<open>A new stream enters one table under a new identifier.\<close>

lemma ucast_id:
  "unat (n :: 32 word) \<le> 65535 \<Longrightarrow> unat (ucast n :: 16 word) = unat n"
  by (simp add: unsigned_ucast_eq take_bit_nat_eq_self_iff)

lemma unat_inc: "unat (n :: 32 word) \<le> 65535 \<Longrightarrow> unat (n + 1) = unat n + 1"
  using unat_add_lem [of n 1] by simp

definition opened_session :: "stream_id \<Rightarrow> xref \<Rightarrow> bytes \<Rightarrow> live_session \<Rightarrow> live_session" where
  "opened_session sid x head ls =
     push_sent (Open sid head)
       (ls\<lparr>ls_next_id := ls_next_id ls + 1, ls_streams := AList.update sid x (ls_streams ls)\<rparr>)"

lemma session_ok_fresh_id:
  "session_ok n ls \<Longrightarrow> unat (ls_next_id ls) \<le> 65535 \<Longrightarrow>
   ucast (ls_next_id ls) \<notin> fst ` set (ls_streams ls)"
  by (fastforce simp: session_ok_def ucast_id)

lemma session_ok_opened:
  assumes "session_ok n ls" "unat (ls_next_id ls) \<le> 65535" "\<not> ls_closed ls"
    "length (ls_streams ls) < MAX_CONCURRENT_STREAMS"
  shows "session_ok (Suc n) (opened_session (ucast (ls_next_id ls)) n head ls)"
proof -
  let ?id = "ucast (ls_next_id ls) :: 16 word"
  have "?id \<noteq> 0"
  proof
    assume "?id = 0"
    then have "unat ?id = 0" by simp
    with assms show False by (simp only: ucast_id) (simp add: session_ok_def)
  qed
  then have new: "?id \<noteq> 0" "unat ?id < unat (ls_next_id ls + 1)"
    using assms(2) by (simp_all add: ucast_id unat_inc)
  have le: "unat a < unat (ls_next_id ls) \<Longrightarrow> unat a < unat (ls_next_id ls + 1)" for a :: stream_id
    using assms(2) by (simp add: unat_inc)
  have opens: "sorted_wrt (<) (map unat (opens_of ls @ [?id]))"
    "\<forall>a \<in> set (opens_of ls @ [?id]). unat a < unat (ls_next_id ls + 1)"
    using assms(1,2) new le by (auto simp: session_ok_def sorted_wrt_append ucast_id)
  have streams: "AList.update ?id n (ls_streams ls) = ls_streams ls @ [(?id, n)]"
    using session_ok_fresh_id [OF assms(1,2)] by (rule update_fresh)
  have "opens_of (opened_session ?id n head ls) = opens_of ls @ [?id]"
    by (simp add: opened_session_def) (simp add: opens_of_def)
  then show ?thesis
    using assms opens new le session_ok_fresh_id [OF assms(1,2)]
    unfolding session_ok_def by (auto simp: opened_session_def streams unat_inc)
qed


text \<open>\<open>start_forward\<close> on its three outcomes.\<close>

definition can_open :: "'h registry \<Rightarrow> sref \<Rightarrow> bool" where
  "can_open r s \<longleftrightarrow> has_room r s \<and> \<not> ls_closed (rg_sessions r ! s)"

definition open_head :: "'h header_api \<Rightarrow> 'h request \<Rightarrow> bytes" where
  "open_head H req = encode_request_head H (rq_method req)
     (case rq_path_and_query req of Some p \<Rightarrow> p | None \<Rightarrow> asc ''/'') (rq_headers req)"

lemma start_forward_cases:
  assumes "s < length (rg_sessions r)"
  obtains (exhausted) "65535 < unat (ls_next_id (rg_sessions r ! s))"
      "start_forward H s req r = (Inl Idhausted, r)"
  | (refused) e where "unat (ls_next_id (rg_sessions r ! s)) \<le> 65535"
      "ls_closed (rg_sessions r ! s) \<and> e = TetherGone \<or>
       \<not> ls_closed (rg_sessions r ! s) \<and> \<not> has_room r s \<and> e = TetherBusy"
      "start_forward H s req r =
         (Inl e, upd_session s (\<lambda>ls. ls\<lparr>ls_next_id := ls_next_id ls + 1\<rparr>) r)"
  | (opened) sid x st where "can_open r s" "sid = ucast (ls_next_id (rg_sessions r ! s))"
      "x = length (rg_streams r)" "ss_head st = None" "\<not> ss_completed st" "ss_upload st = Some x"
      "start_forward H s req r =
        (Inr \<lparr>fw_id = sid, fw_stream = x, fw_session = s\<rparr>,
         (upd_session s (opened_session sid x (open_head H req)) r)\<lparr>rg_streams := rg_streams r @ [st]\<rparr>)"
proof (cases "65535 < unat (ls_next_id (rg_sessions r ! s))")
  case True
  then show ?thesis by (intro exhausted) (simp_all add: start_forward_def Let_def)
next
  case False
  let ?ls = "rg_sessions r ! s"
  let ?id = "ucast (ls_next_id ?ls) :: stream_id"
  have nth: "rg_sessions (upd_session s f r) ! s = f ?ls" for f :: "live_session \<Rightarrow> live_session"
    using assms by (simp add: upd_session_nth)
  have twice: "upd_session s g (upd_session s f r) = upd_session s (g o f) r"
    for f g :: "live_session \<Rightarrow> live_session"
    using assms by (simp add: upd_session_def)
  consider (closed) "ls_closed ?ls" | (full) "\<not> ls_closed ?ls" "\<not> has_room r s" | (ok) "can_open r s"
    by (auto simp: can_open_def)
  then show ?thesis
  proof cases
    case closed
    with False show ?thesis
      by (intro refused [of TetherGone]) (simp_all add: start_forward_def Let_def admit_def nth)
  next
    case full
    with False show ?thesis
      by (intro refused [of TetherBusy]) (simp_all add: start_forward_def Let_def admit_def nth has_room_def)
  next
    case ok
    let ?st = "install_upload (length (rg_streams r)) (stream_state_new (rq_method req)
      (case rq_path_and_query req of Some p \<Rightarrow> p | None \<Rightarrow> asc ''/'') (rq_headers req))"
    have "admit ?id (length (rg_streams r)) (?ls\<lparr>ls_next_id := ls_next_id ?ls + 1\<rparr>) =
        Inr (?ls\<lparr>ls_next_id := ls_next_id ?ls + 1,
               ls_streams := AList.update ?id (length (rg_streams r)) (ls_streams ?ls)\<rparr>)"
      using ok by (simp add: admit_def can_open_def has_room_def)
    then have "start_forward H s req r =
        (Inr \<lparr>fw_id = ?id, fw_stream = length (rg_streams r), fw_session = s\<rparr>,
         (upd_session s (opened_session ?id (length (rg_streams r)) (open_head H req)) r)
           \<lparr>rg_streams := rg_streams r @ [?st]\<rparr>)"
      using False
      by (simp add: start_forward_def Let_def nth open_head_def stream_state_new_def)
        (simp add: upd_session_def opened_session_def assms)
    with ok show ?thesis
      by (intro opened) (simp_all add: install_upload_def stream_state_new_def)
  qed
qed


lemma session_ok_skip_id:
  assumes "session_ok n ls" "unat (ls_next_id ls) \<le> 65535"
  shows "session_ok n (ls\<lparr>ls_next_id := ls_next_id ls + 1\<rparr>)"
  using assms by (fastforce simp: session_ok_def unat_inc opens_of_def)

lemma session_ok_mono: "session_ok n ls \<Longrightarrow> n \<le> m \<Longrightarrow> session_ok m ls"
  by (fastforce simp: session_ok_def)

lemma tables_same:
  "rg_by_credential r' = rg_by_credential r \<Longrightarrow> rg_by_id r' = rg_by_id r \<Longrightarrow> rg_live r' = rg_live r \<Longrightarrow>
   length (rg_sessions r') = length (rg_sessions r) \<Longrightarrow>
   cred_ok r' = cred_ok r \<and> keys_ok r' = keys_ok r"
  by (simp add: cred_ok_def keys_ok_def)

lemma registry_ok_start_forward:
  assumes ok: "registry_ok r" and s: "s < length (rg_sessions r)"
  shows "registry_ok (snd (start_forward H s req r))"
proof (rule start_forward_cases [OF s, of H req], goal_cases exhausted refused opened)
  case exhausted
  with ok show ?thesis by simp
next
  case (refused e)
  let ?r = "upd_session s (\<lambda>ls. ls\<lparr>ls_next_id := ls_next_id ls + 1\<rparr>) r"
  have "sessions_ok ?r"
    using ok s refused(1)
    by (auto simp: registry_ok_def sessions_ok_def upd_session_nth session_ok_skip_id)
  moreover have "owner_ok ?r" using ok by (auto simp: registry_ok_def owner_ok_def upd_session_nth)
  moreover have "gens_ok ?r" using ok by (auto simp: registry_ok_def gens_ok_def upd_session_nth)
  ultimately show ?thesis
    using ok tables_same [of r ?r] by (simp add: refused(3) registry_ok_def)
next
  case (opened sid x st)
  let ?ls = "rg_sessions r ! s"
  let ?r = "(upd_session s (opened_session sid x (open_head H req)) r)\<lparr>rg_streams := rg_streams r @ [st]\<rparr>"
  have sok: "\<And>i. i < length (rg_sessions r) \<Longrightarrow> session_ok (length (rg_streams r)) (rg_sessions r ! i)"
    using ok by (simp add: registry_ok_def sessions_ok_def)
  have room: "unat (ls_next_id ?ls) \<le> 65535" "\<not> ls_closed ?ls" "length (ls_streams ?ls) < MAX_CONCURRENT_STREAMS"
    using opened(1) by (simp_all add: can_open_def has_room_def)
  have new: "ls_streams (opened_session sid x (open_head H req) ?ls) = ls_streams ?ls @ [(sid, x)]"
    using session_ok_fresh_id [OF sok [OF s] room(1)] opened(2)
    by (simp add: opened_session_def update_fresh)
  have "sessions_ok ?r"
    using sok s session_ok_opened [OF sok [OF s] room(1,2,3)] opened(2,3)
    by (auto simp: sessions_ok_def upd_session_nth intro!: session_ok_mono [OF sok])
  moreover have "owner_ok ?r"
  proof -
    have old: "y < x" if "i < length (rg_sessions r)" "(a, y) \<in> set (ls_streams (rg_sessions r ! i))" for i a y
      using sok [OF that(1)] that(2) opened(3) by (auto simp: session_ok_def)
    have own: "owner_ok r" using ok by (simp add: registry_ok_def)
    show ?thesis
      unfolding owner_ok_def
    proof (intro allI impI)
      fix i j a b y
      assume "i < length (rg_sessions ?r)" "j < length (rg_sessions ?r)"
        "(a, y) \<in> set (ls_streams (rg_sessions ?r ! i))" "(b, y) \<in> set (ls_streams (rg_sessions ?r ! j))"
      then have ij: "i < length (rg_sessions r)" "j < length (rg_sessions r)"
        and a: "(a, y) \<in> set (ls_streams (rg_sessions r ! i)) \<or> i = s \<and> a = sid \<and> y = x"
        and b: "(b, y) \<in> set (ls_streams (rg_sessions r ! j)) \<or> j = s \<and> b = sid \<and> y = x"
        by (auto simp: upd_session_nth new s split: if_splits)
      show "i = j \<and> a = b"
      proof (cases "y = x")
        case True
        with a b old [OF ij(1)] old [OF ij(2)] show ?thesis by blast
      next
        case False
        with a b own ij show ?thesis unfolding owner_ok_def by blast
      qed
    qed
  qed
  moreover have "gens_ok ?r"
    using ok by (auto simp: registry_ok_def gens_ok_def upd_session_nth opened_session_def)
  ultimately show ?thesis
    using ok tables_same [of r ?r] by (simp add: opened(7) registry_ok_def)
qed

lemma eligible_in_range:
  "registry_ok r \<Longrightarrow> eligible wall now tx_closed r tid s \<Longrightarrow> s < length (rg_sessions r)"
  by (auto simp: registry_ok_def keys_ok_def eligible_def)

section \<open>Properties\<close>

lemma route_least_loaded_base:
  "case reserve_route wall now tx_closed reserve r of
     Inr (tid, s) \<Rightarrow>
       eligible wall now tx_closed r tid s \<and> has_room r s \<and> reserve s = Sent \<and>
       (\<forall>tid' s'. eligible wall now tx_closed r tid' s' \<and> has_room r s' \<and> reserve s' = Sent \<longrightarrow>
          (load r s, tid) \<le> (load r s', tid'))
   | Inl e \<Rightarrow>
       (\<forall>tid s. eligible wall now tx_closed r tid s \<and> has_room r s \<longrightarrow> reserve s \<noteq> Sent) \<and>
       e = (if \<exists>tid s. eligible wall now tx_closed r tid s \<and> (\<not> has_room r s \<or> reserve s = Full)
            then TetherBusy else NoTether)"
proof -
  let ?cs = "candidates wall now tx_closed r"
  have acc: "accepts reserve r (n, tid, s) \<longleftrightarrow> has_room r s \<and> reserve s = Sent"
    and full: "over_limit reserve r (n, tid, s) \<longleftrightarrow> \<not> has_room r s \<or> reserve s = Full"
    if "(n, tid, s) \<in> set ?cs" for n tid s
    using that by (auto simp: accepts_def over_limit_def has_room_def in_candidates load_def)
  show ?thesis
  proof (cases "find (accepts reserve r) ?cs")
    case None
    have "\<not> accepts reserve r (load r s, tid, s)" if "eligible wall now tx_closed r tid s" for tid s
      using None that by (auto simp: find_None_iff in_candidates)
    moreover have "list_ex (over_limit reserve r) ?cs \<longleftrightarrow>
        (\<exists>tid s. eligible wall now tx_closed r tid s \<and> (\<not> has_room r s \<or> reserve s = Full))"
      using full by (force simp: list_ex_iff in_candidates)
    ultimately show ?thesis
      using None acc by (auto simp: reserve_route_def try_candidates_find in_candidates)
  next
    case (Some p)
    obtain n tid s where p: "p = (n, tid, s)" by (cases p)
    from Some p have mem: "(n, tid, s) \<in> set ?cs" "accepts reserve r (n, tid, s)"
      by (auto simp: find_Some_iff)
    have "(load r s, tid) \<le> (load r s', tid')"
      if "eligible wall now tx_closed r tid' s'" "has_room r s'" "reserve s' = Sent" for tid' s'
    proof -
      have y: "(load r s', tid', s') \<in> set ?cs" using that by (simp add: in_candidates)
      with acc [OF y] that find_sort_key_least [OF Some [unfolded candidates_def], of "(load r s', tid', s')"]
      have "(n, tid) \<le> (load r s', tid')" by (simp add: candidates_def p)
      with mem(1) show ?thesis by (simp add: in_candidates)
    qed
    with mem acc [OF mem(1)] Some p show ?thesis
      by (simp add: reserve_route_def try_candidates_find in_candidates)
  qed
qed


text \<open>
  C12: Routing: a request goes to an eligible session (live, its tether active, open and
  heard of within the silence limit) that has room and whose queue accepts, and among all
  such sessions to one with the fewest open streams, ties going to the smallest tether
  name. It is refused only when no such session exists, as overload exactly when some
  eligible session is full, and as absence otherwise.
\<close>
theorem route_least_loaded:
  "case reserve_route wall now tx_closed reserve r of
     Inr (tid, s) \<Rightarrow>
       eligible wall now tx_closed r tid s \<and> has_room r s \<and> reserve s = Sent \<and>
       (\<forall>tid' s'. eligible wall now tx_closed r tid' s' \<and> has_room r s' \<and> reserve s' = Sent \<longrightarrow>
          (load r s, tid) \<le> (load r s', tid'))
   | Inl e \<Rightarrow>
       (\<forall>tid s. eligible wall now tx_closed r tid s \<and> has_room r s \<longrightarrow> reserve s \<noteq> Sent) \<and>
       e = (if \<exists>tid s. eligible wall now tx_closed r tid s \<and> (\<not> has_room r s \<or> reserve s = Full)
            then TetherBusy else NoTether)"
  by (rule route_least_loaded_base)

lemma example_eligible:
  "eligible 0 0 (\<lambda>_. False) example_registry tid s \<longleftrightarrow> tid = [97] \<and> s = 0"
  "has_room example_registry 0"
  by (auto simp: eligible_def has_room_def example_registry_eq session_new_def is_active_def
      remaining_def MAX_CONCURRENT_STREAMS_def)

theorem route_least_loaded_witness:
  "reserve_route 0 0 (\<lambda>_. False) (\<lambda>_. Sent) example_registry = Inr ([97], 0) \<and>
   reserve_route 0 0 (\<lambda>_. False) (\<lambda>_. Full) example_registry = Inl TetherBusy"
  using route_least_loaded [of 0 0 "\<lambda>_. False" example_registry "\<lambda>_. Sent"]
    route_least_loaded [of 0 0 "\<lambda>_. False" example_registry "\<lambda>_. Full"] example_eligible
  by (auto split: sum.splits)

lemma reserve_route_InrD:
  assumes "reserve_route wall now tx_closed reserve r = Inr (tid, s)"
  shows "eligible wall now tx_closed r tid s" "can_open r s"
proof -
  obtain p where "find (accepts reserve r) (candidates wall now tx_closed r) = Some p" "snd p = (tid, s)"
    using assms by (auto simp: reserve_route_def try_candidates_find split: option.splits)
  then have "accepts reserve r (fst p, tid, s)" "(fst p, tid, s) \<in> set (candidates wall now tx_closed r)"
    by (metis find_Some_iff nth_mem prod.collapse)+
  then show "eligible wall now tx_closed r tid s" "can_open r s"
    by (auto simp: in_candidates accepts_def can_open_def has_room_def load_def eligible_def)
qed

text \<open>
  The two ends of a forwarding call, for whatever happens to sessions in between: after
  the choice the only failure is a session that closed, and it costs one identifier.
\<close>

definition spent_id :: "sref \<Rightarrow> 'h registry \<Rightarrow> 'h registry" where
  "spent_id s = upd_session s (\<lambda>ls. ls\<lparr>ls_next_id := ls_next_id ls + 1\<rparr>)"

lemma still_room:
  assumes "registry_ok r" "reserve_route wall now tx_closed reserve r = Inr (tid, s)" "shrinks r q"
  shows "s < length (rg_sessions q)" "has_room q s"
proof -
  note el = reserve_route_InrD [OF assms(2)]
  have s: "s < length (rg_sessions r)" by (rule eligible_in_range [OF assms(1) el(1)])
  then show "s < length (rg_sessions q)" using assms(3) by (simp add: shrinks_def)
  from assms(3) s obtain P where q: "ls_streams (rg_sessions q ! s) = filter P (ls_streams (rg_sessions r ! s))"
    "ls_next_id (rg_sessions q ! s) = ls_next_id (rg_sessions r ! s)"
    by (auto simp: shrinks_def session_shrinks_def)
  show "has_room q s"
    using el(2) le_less_trans [OF length_filter_le [of P]] by (auto simp: can_open_def has_room_def q)
qed

lemma forward_any_base:
  assumes ok: "registry_ok r" and q: "q = between r" "shrinks r q" "registry_ok q"
    and f: "forward_any H wall now tx_closed reserve between req r = (res, r')"
  shows "case res of
      Inl e \<Rightarrow>
        (e = NoTether \<or> e = TetherBusy) \<and> r' = r \<and> reserve_route wall now tx_closed reserve r = Inl e \<or>
        e = TetherGone \<and> (\<exists>tid s. reserve_route wall now tx_closed reserve r = Inr (tid, s) \<and>
          eligible wall now tx_closed r tid s \<and> ls_closed (rg_sessions q ! s) \<and> r' = spent_id s q)
    | Inr fw \<Rightarrow>
        registry_ok r' \<and> (\<exists>tid. eligible wall now tx_closed r tid (fw_session fw)) \<and>
        \<not> ls_closed (rg_sessions q ! fw_session fw) \<and>
        fw_id fw \<noteq> 0 \<and> fw_id fw \<notin> set (opens_of (rg_sessions q ! fw_session fw)) \<and>
        rg_sessions r' ! fw_session fw =
          opened_session (fw_id fw) (fw_stream fw) (open_head H req) (rg_sessions q ! fw_session fw) \<and>
        (\<forall>i. i \<noteq> fw_session fw \<longrightarrow> rg_sessions r' ! i = rg_sessions q ! i) \<and>
        fw_stream fw = length (rg_streams q) \<and>
        (\<exists>st. rg_streams r' = rg_streams q @ [st] \<and> \<not> ss_completed st \<and> poll_head st = HeadPending)"
proof (cases "reserve_route wall now tx_closed reserve r")
  case (Inl e)
  with route_least_loaded_base [of wall now tx_closed r reserve] f show ?thesis
    by (auto simp: forward_any_def split: if_splits)
next
  case (Inr p)
  obtain tid s where "p = (tid, s)" by (cases p)
  with Inr have route: "reserve_route wall now tx_closed reserve r = Inr (tid, s)" by simp
  note el = reserve_route_InrD [OF route]
  note s = still_room [OF ok route q(2)]
  have start: "start_forward H s req q = (res, r')" using f route by (simp add: forward_any_def q(1))
  have sok: "session_ok (length (rg_streams q)) (rg_sessions q ! s)"
    using q(3) s(1) by (simp add: registry_ok_def sessions_ok_def)
  have room: "unat (ls_next_id (rg_sessions q ! s)) \<le> 65535" using s(2) by (simp add: has_room_def)
  show ?thesis
  proof (rule start_forward_cases [OF s(1), of H req], goal_cases exhausted refused opened)
    case exhausted
    with room show ?case by simp
  next
    case (refused e)
    with s(2) have "e = TetherGone" "ls_closed (rg_sessions q ! s)" by auto
    with refused start route el(1) show ?case by (auto simp: spent_id_def)
  next
    case (opened sid x st)
    then have res: "res = Inr \<lparr>fw_id = sid, fw_stream = x, fw_session = s\<rparr>"
      and r': "r' = (upd_session s (opened_session sid x (open_head H req)) q)\<lparr>rg_streams := rg_streams q @ [st]\<rparr>"
      using start by simp_all
    have "sid \<notin> set (opens_of (rg_sessions q ! s)) \<and> sid \<noteq> 0"
    proof -
      have "unat sid = unat (ls_next_id (rg_sessions q ! s))" using room by (simp add: opened(2) ucast_id)
      with sok show ?thesis by (auto simp: session_ok_def)
    qed
    moreover have "registry_ok r'" using registry_ok_start_forward [OF q(3) s(1), of H req] start by simp
    moreover have "\<not> ls_closed (rg_sessions q ! s)" using opened(1) by (simp add: can_open_def)
    ultimately show ?case
      using el(1) opened(3-6) s(1) by (auto simp: res r' upd_session_nth poll_head_def)
  qed
qed


text \<open>The chunks of a body: its data that is not empty, up to an error.\<close>

definition chunks_of :: "body_event list \<Rightarrow> bytes list" where
  "chunks_of evs = List.map_filter
     (\<lambda>ev. case ev of BodyData c \<Rightarrow> if c = [] then None else Some c | _ \<Rightarrow> None)
     (takeWhile (\<lambda>ev. ev \<noteq> BodyError) evs)"

lemma chunks_of_nonempty: "[] \<notin> set (chunks_of evs)"
  by (auto simp: chunks_of_def set_map_filter split: body_event.splits if_splits)

lemma upload_exact_base:
  "upload_loop sid evs n =
     (take n (map (Data sid) (chunks_of evs) @ (if BodyError \<in> set evs then [] else [HalfEnd sid])),
      if BodyError \<in> set evs \<and> length (chunks_of evs) \<le> n then Inl CallerBody
      else if length (chunks_of evs) < n then Inr () else Inl TetherGone)"
proof (induction sid evs n rule: upload_loop.induct)
  case (4 sid c evs n)
  then show ?case
    by (cases n) (auto simp: chunks_of_def map_filter_simps)
qed (auto simp: chunks_of_def map_filter_simps)

text \<open>
  The upload task sends the caller's body exactly: its nonempty data in order, each in
  one DATA frame, and HALF_END once, last, and only after a body that ended without an
  error, so neither an empty DATA frame nor a cut-off body can be taken for the end of
  one. It stops at the first frame the closed queue refuses, and reports the caller's
  error when there is one and the lost tunnel otherwise.
\<close>
lemma upload_exact:
  "upload_loop sid evs n =
     (take n (map (Data sid) (chunks_of evs) @ (if BodyError \<in> set evs then [] else [HalfEnd sid])),
      if BodyError \<in> set evs \<and> length (chunks_of evs) \<le> n then Inl CallerBody
      else if length (chunks_of evs) < n then Inr () else Inl TetherGone)"
  by (rule upload_exact_base)

lemma send_or_abort_session:
  assumes "s < length (rg_sessions r)"
  shows "rg_sessions (send_or_abort s f res r) ! s =
    (case res of Sent \<Rightarrow> push_sent f (rg_sessions r ! s)
     | Full \<Rightarrow> (rg_sessions r ! s)\<lparr>ls_aborted := True\<rparr> | Closed \<Rightarrow> rg_sessions r ! s)"
  using assms by (simp add: send_or_abort_def try_send_def upd_session_nth split: send_result.split)

lemma send_or_abort_other:
  "i \<noteq> s \<Longrightarrow> rg_sessions (send_or_abort s f res r) ! i = rg_sessions r ! i"
  "rg_streams (send_or_abort s f res r) = rg_streams r"
  by (simp_all add: send_or_abort_def try_send_def upd_session_nth)

text \<open>
  C40: An abandoned caller leaves nothing behind: dropping its handle aborts the upload,
  takes exactly its stream out of the session's table, and, unless the answer had already
  ended, tells the tether with END; when the command queue is full the whole session is
  told to stop instead. Every other session, stream and table entry is untouched.
\<close>
theorem drop_cleans_up:
  assumes "registry_ok r" "s < length (rg_sessions r)" "(sid, x) \<in> set (ls_streams (rg_sessions r ! s))"
    and "guard_drop s x sid res r = r'"
  shows "registry_ok r' \<and>
    set (ls_streams (rg_sessions r' ! s)) = set (ls_streams (rg_sessions r ! s)) - {(sid, x)} \<and>
    x \<in> set (ss_aborted (rg_streams r' ! x)) \<and>
    (if ss_completed (rg_streams r ! x)
     then ls_sent (rg_sessions r' ! s) = ls_sent (rg_sessions r ! s)
     else (res = Sent \<longrightarrow> ls_sent (rg_sessions r' ! s) = ls_sent (rg_sessions r ! s) @ [End sid []]) \<and>
       (res = Full \<longrightarrow> ls_aborted (rg_sessions r' ! s))) \<and>
    (\<forall>i. i \<noteq> s \<longrightarrow> rg_sessions r' ! i = rg_sessions r ! i) \<and>
    (\<forall>y. y \<noteq> x \<longrightarrow> rg_streams r' ! y = rg_streams r ! y)"
proof -
  have sok: "session_ok (length (rg_streams r)) (rg_sessions r ! s)"
    using assms(1,2) by (simp add: registry_ok_def sessions_ok_def)
  then have x: "x < length (rg_streams r)" and d: "distinct (map fst (ls_streams (rg_sessions r ! s)))"
    using assms(3) by (auto simp: session_ok_def)
  let ?q = "upd_session s (\<lambda>ls. ls\<lparr>ls_streams := AList.delete sid (ls_streams ls)\<rparr>)
     (upd_stream x (\<lambda>st. st\<lparr>ss_aborted := ss_aborted st @ [x]\<rparr>) r)"
  have q: "rg_sessions ?q ! s = (rg_sessions r ! s)\<lparr>ls_streams := AList.delete sid (ls_streams (rg_sessions r ! s))\<rparr>"
    "s < length (rg_sessions ?q)" using assms(2) by (simp_all add: upd_session_nth)
  have del: "set (AList.delete sid (ls_streams (rg_sessions r ! s))) =
      set (ls_streams (rg_sessions r ! s)) - {(sid, x)}"
    using d assms(3) by (auto simp: delete_filter dest: eq_key_imp_eq_value)
  have r': "r' = (if ss_completed (rg_streams r ! x) then ?q else send_or_abort s (End sid []) res ?q)"
    using assms(4) x by (simp add: guard_drop_def Let_def upd_stream_nth)
  have "registry_ok r'" using registry_ok_guard_drop [OF assms(1)] assms(4) by blast
  moreover have "ls_streams (rg_sessions r' ! s) = AList.delete sid (ls_streams (rg_sessions r ! s))"
    using send_or_abort_session [OF q(2), of "End sid []" res] by (simp add: r' q(1) split: send_result.splits)
  moreover have "rg_streams r' = rg_streams ?q" by (simp add: r' send_or_abort_other)
  moreover have "\<forall>i. i \<noteq> s \<longrightarrow> rg_sessions r' ! i = rg_sessions r ! i"
    by (simp add: r' send_or_abort_other upd_session_nth)
  ultimately show ?thesis
    using send_or_abort_session [OF q(2), of "End sid []" res] x
    by (auto simp: del q(1) upd_stream_nth r' split: send_result.splits)
qed

text \<open>A registry with one open request.\<close>

definition no_headers :: "unit header_api" where
  "no_headers = \<lparr>hm_get_all = \<lambda>_ _. [], hm_remove = \<lambda>_ _. (None, ()), hm_insert = \<lambda>_ _ _. (),
     hm_iter = \<lambda>_. [], hv_to_str = \<lambda>_. None, hn_from_lowercase = \<lambda>_. None\<rparr>"

definition example_request :: "unit request" where
  "example_request = \<lparr>rq_method = asc ''GET'', rq_path_and_query = None, rq_headers = ()\<rparr>"

definition example_open :: "unit registry" where
  "example_open = snd (start_forward no_headers 0 example_request example_registry)"

lemma example_open_ok: "registry_ok example_open"
  unfolding example_open_def
  by (rule registry_ok_start_forward [OF example_registry_ok]) (simp add: example_registry_eq)

lemma example_open_eq:
  "rg_sessions example_open =
     [\<lparr>ls_generation = 1, ls_sent = [Open 1 (open_head no_headers example_request)], ls_aborted = False,
       ls_last_seen = 0, ls_streams = [(1, 0)], ls_closed = False, ls_next_id = 2\<rparr>]"
  "rg_streams example_open =
     [install_upload 0 (stream_state_new (asc ''GET'') (asc ''/'') ())]"
  "rg_live example_open = [([97], 0)]"
  by (simp_all add: example_open_def start_forward_def admit_def example_registry_eq session_new_def
      upd_session_def Let_def example_request_def open_head_def stream_state_new_def push_sent_def
      MAX_CONCURRENT_STREAMS_def)

lemma example_stream:
  "ss_completed (install_upload 0 (stream_state_new m p h)) = False"
  "ss_head (install_upload 0 (stream_state_new m p h)) = None"
  by (simp_all add: install_upload_def)

theorem drop_cleans_up_witness:
  "ls_streams (rg_sessions (guard_drop 0 0 1 Full example_open) ! 0) = [] \<and>
   ls_aborted (rg_sessions (guard_drop 0 0 1 Full example_open) ! 0)"
  using drop_cleans_up [OF example_open_ok, of 0 1 0 Full, OF _ _ refl]
  by (simp add: example_open_eq example_stream)


end
