(* ===== verification/Messages.thy ===== *)
theory Messages
  imports Frames
begin

text \<open>
  WebSocket messages as the two ends read them: \<open>decode\<close> of \<open>hub.rs\<close>, \<open>decode\<close> of
  \<open>tunnel.rs\<close>, and the one way both write a frame (\<open>ws_msg\<close>, \<open>msg\<close>). The message type is
  the one of \<open>tungstenite\<close>, with the constructors the two matches name.
\<close>

section \<open>Messages and errors\<close>

datatype ws_message =
    Binary bytes
  | Text bytes
  | WsPing bytes
  | WsPong bytes
  | Close "bytes option"
  | RawFrame bytes

datatype msg_error =
    BadFrame frame_error
  | Protocol string

definition ws_msg :: "frame \<Rightarrow> ws_message" where
  "ws_msg f = Binary (encode f)"

text \<open>
  The \<open>Binary\<close> arm, the same in both functions: one frame is read, and the count of bytes
  it took is dropped.
\<close>

definition decode_binary :: "bytes \<Rightarrow> msg_error + frame option" where
  "decode_binary b =
     (case decode b of
        Inl e \<Rightarrow> Inl (BadFrame e)
      | Inr None \<Rightarrow> Inl (Protocol ''short tunnel frame'')
      | Inr (Some (f, _)) \<Rightarrow> Inr (Some f))"

fun hub_decode :: "ws_message \<Rightarrow> msg_error + frame option" where
  "hub_decode (Binary b) = decode_binary b"
| "hub_decode (WsPing _) = Inr None"
| "hub_decode (WsPong _) = Inr None"
| "hub_decode (Text _) = Inl (Protocol ''peer sent Text; tunnel frames are binary'')"
| "hub_decode (Close _) = Inl (Protocol ''peer sent Close'')"
| "hub_decode (RawFrame _) = Inl (Protocol ''peer sent a raw frame we cannot classify'')"

fun tether_decode :: "ws_message \<Rightarrow> msg_error + frame option" where
  "tether_decode (Binary b) = decode_binary b"
| "tether_decode (WsPing _) = Inr None"
| "tether_decode (WsPong _) = Inr None"
| "tether_decode (Text _) = Inr None"
| "tether_decode (Close _) = Inl (Protocol ''peer sent Close'')"
| "tether_decode (RawFrame _) = Inr None"

section \<open>Lemmas\<close>

lemma decode_binary_append:
  "fits f \<Longrightarrow> decode_binary (encode f @ rest) = Inr (Some f)"
  by (simp add: decode_binary_def decode_encode_append)

lemma decode_binary_encode [simp]: "fits f \<Longrightarrow> decode_binary (encode f) = Inr (Some f)"
  using decode_binary_append [of f "[]"] by simp

fun_cases hub_decode_frameE: "hub_decode m = Inr (Some f)"
fun_cases tether_decode_frameE: "tether_decode m = Inr (Some f)"

lemma hub_decode_frame_iff:
  "hub_decode m = Inr (Some f) \<longleftrightarrow> (\<exists>b. m = Binary b \<and> decode_binary b = Inr (Some f))"
  by (cases m) auto

lemma tether_decode_frame_iff:
  "tether_decode m = Inr (Some f) \<longleftrightarrow> (\<exists>b. m = Binary b \<and> decode_binary b = Inr (Some f))"
  by (cases m) auto

section \<open>Properties\<close>

text \<open>
  One frame per message: whatever one end writes the other reads back, in either
  direction, and bytes packed behind the frame in the same message are ignored without an
  error; a frame is only ever read from a binary message, on either side.
\<close>
lemma message_roundtrip:
  assumes "fits f"
  shows "hub_decode (ws_msg f) = Inr (Some f) \<and> tether_decode (ws_msg f) = Inr (Some f) \<and>
    hub_decode (Binary (encode f @ rest)) = Inr (Some f) \<and>
    tether_decode (Binary (encode f @ rest)) = Inr (Some f) \<and>
    (\<forall>m g. hub_decode m = Inr (Some g) \<or> tether_decode m = Inr (Some g) \<longrightarrow> (\<exists>b. m = Binary b))"
  using assms
  by (auto simp: ws_msg_def decode_binary_append hub_decode_frame_iff tether_decode_frame_iff)

lemma message_roundtrip_witness:
  "hub_decode (Binary (encode (Data 1 [9]) @ encode (End 1 []))) = Inr (Some (Data 1 [9]))"
  using message_roundtrip [of "Data 1 [9]" "encode (End 1 [])"]
  by (simp add: fits_def payload_len_def)

end
