(* ===== verification/Session.thy ===== *)
theory Session
  imports Routing Messages
begin

text \<open>
  One tether's session at the hub (\<open>handle_tether\<close> of \<open>hub.rs\<close>): the handshake, one pass of
  the \<open>select!\<close> loop per event, and the teardown. The clocks, the answers of the two
  bounded queues involved (the session's command queue and the stream's chunk queue) and
  the response head parser are arguments.
\<close>

section \<open>Handshake\<close>

datatype first_input = HelloTimeout | HelloEof | HelloIoError | HelloMessage ws_message

definition hello_credential :: "first_input \<Rightarrow> string + bytes" where
  "hello_credential inp =
     (case inp of
        HelloTimeout \<Rightarrow> Inl ''no HELLO before timeout''
      | HelloEof \<Rightarrow> Inl ''closed before HELLO''
      | HelloIoError \<Rightarrow> Inl ''websocket error''
      | HelloMessage m \<Rightarrow>
          (case hub_decode m of
             Inl _ \<Rightarrow> Inl ''undecodable''
           | Inr (Some (Hello credential)) \<Rightarrow> Inr credential
           | Inr (Some _) \<Rightarrow> Inl ''expected HELLO''
           | Inr None \<Rightarrow> Inl ''no tunnel frame before HELLO''))"

text \<open>What the hub does on the first input: it leaves, refuses with a frame, or grants a lease.\<close>

datatype hello_outcome =
    HelloFailed string
  | Refuse frame
  | Grant bytes auth_lease frame

definition authorize_hello ::
    "(bytes \<Rightarrow> bytes) \<Rightarrow> nat \<Rightarrow> first_input \<Rightarrow> 'h registry \<Rightarrow> hello_outcome" where
  "authorize_hello sha wall inp r =
     (case hello_credential inp of
        Inl e \<Rightarrow> HelloFailed e
      | Inr credential \<Rightarrow>
          (case authorize sha wall credential r of
             None \<Rightarrow> Refuse (GoAway (asc ''unauthorized''))
           | Some l \<Rightarrow> Grant credential l (Welcome (of_nat (l_ttl l div secs 1)))))"

record session_task =
  tk_tether :: bytes
  tk_session :: sref
  tk_deadline :: nat
  tk_last_ping :: int
  tk_revoked :: bool

text \<open>After WELCOME was sent: the registry may have changed since the authorization.\<close>

definition attach_session ::
    "(bytes \<Rightarrow> bytes) \<Rightarrow> nat \<Rightarrow> nat \<Rightarrow> nat \<Rightarrow> bytes \<Rightarrow> auth_lease \<Rightarrow> 'h registry \<Rightarrow>
     session_task option \<times> 'h registry" where
  "attach_session sha wall now started credential l r =
     (case attach sha wall now (l_tether_id l) credential r of
        (None, r) \<Rightarrow> (None, r)
      | (Some s, r) \<Rightarrow>
          (Some \<lparr>tk_tether = l_tether_id l, tk_session = s, tk_deadline = started + l_ttl l,
                 tk_last_ping = int now - int TETHER_PING_INTERVAL, tk_revoked = False\<rparr>, r))"

section \<open>Frames of an established session\<close>

datatype loop_result = Continue | BreakOk | BreakErr string

definition frame_proves_liveness :: "frame \<Rightarrow> bool" where
  "frame_proves_liveness f \<longleftrightarrow> f = Pong"

definition stream_of :: "'h registry \<Rightarrow> sref \<Rightarrow> stream_id \<Rightarrow> xref option" where
  "stream_of r s sid = map_of (ls_streams (rg_sessions r ! s)) sid"

definition remove_stream :: "sref \<Rightarrow> stream_id \<Rightarrow> 'h registry \<Rightarrow> 'h registry" where
  "remove_stream s sid =
     upd_session s (\<lambda>ls. ls\<lparr>ls_streams := AList.delete sid (ls_streams ls)\<rparr>)"

text \<open>
  The end of a stream the session will not serve any more: its caller fails, it leaves the
  table, and the tether is told; if that cannot be queued the session ends.
\<close>

definition reject_stream ::
    "sref \<Rightarrow> stream_id \<Rightarrow> xref option \<Rightarrow> bytes \<Rightarrow> send_result \<Rightarrow> 'h registry \<Rightarrow> loop_result \<times> 'h registry" where
  "reject_stream s sid target reason res r =
     (let r = (case target of Some x \<Rightarrow> upd_stream x stream_fail r | None \<Rightarrow> r);
          r = remove_stream s sid r;
          r = try_send s (End sid reason) res r
      in (if res = Sent then Continue else BreakErr ''tether command queue unavailable'', r))"

definition acceptable_head ::
    "'h head_parser \<Rightarrow> bytes \<Rightarrow> 'h stream_state \<Rightarrow> 'h response option" where
  "acceptable_head P head st =
     (case parse_head P head of
        Some (res, rest) \<Rightarrow>
          if 200 \<le> rs_status res \<and> rest = [] \<and> ss_head st = None then Some res else None
      | None \<Rightarrow> None)"

definition on_resp_head ::
    "'h head_parser \<Rightarrow> send_result \<Rightarrow> sref \<Rightarrow> stream_id \<Rightarrow> bytes \<Rightarrow> 'h registry \<Rightarrow>
     loop_result \<times> 'h registry" where
  "on_resp_head P res s sid head r =
     (case stream_of r s sid of
        None \<Rightarrow> (Continue, r)
      | Some x \<Rightarrow>
          (case acceptable_head P head (rg_streams r ! x) of
             Some h \<Rightarrow> (Continue, upd_stream x (\<lambda>st. st\<lparr>ss_head := Some h\<rparr>) r)
           | None \<Rightarrow> reject_stream s sid (Some x) (asc ''invalid response head'') res r))"

definition on_data ::
    "send_result \<Rightarrow> send_result \<Rightarrow> sref \<Rightarrow> stream_id \<Rightarrow> bytes \<Rightarrow> 'h registry \<Rightarrow>
     loop_result \<times> 'h registry" where
  "on_data chunk_res res s sid bytes r =
     (let target = stream_of r s sid;
          accepted = (case target of
            Some x \<Rightarrow> ss_head (rg_streams r ! x) \<noteq> None \<and> chunk_res = Sent | None \<Rightarrow> False)
      in case (target, accepted) of
           (Some x, True) \<Rightarrow>
             (Continue, upd_stream x (\<lambda>st. st\<lparr>ss_chunks := ss_chunks st @ [Chunk bytes]\<rparr>) r)
         | _ \<Rightarrow> reject_stream s sid target (asc ''caller unavailable or response queue full'') res r)"

definition on_end ::
    "sref \<Rightarrow> stream_id \<Rightarrow> bytes \<Rightarrow> 'h registry \<Rightarrow> loop_result \<times> 'h registry" where
  "on_end s sid reason r =
     (case stream_of r s sid of
        None \<Rightarrow> (Continue, r)
      | Some x \<Rightarrow>
          (Continue, remove_stream s sid
             (upd_stream x (if reason = [] then stream_complete else stream_fail) r)))"

definition handle_frame ::
    "'h head_parser \<Rightarrow> send_result \<Rightarrow> send_result \<Rightarrow> sref \<Rightarrow> frame \<Rightarrow> 'h registry \<Rightarrow>
     loop_result \<times> 'h registry" where
  "handle_frame P chunk_res res s f r =
     (case f of
        Ping \<Rightarrow>
          (if res = Sent then Continue else BreakErr ''write PONG to tether failed'',
           try_send s Pong res r)
      | Pong \<Rightarrow> (Continue, r)
      | GoAway _ \<Rightarrow> (BreakOk, r)
      | Open _ _ \<Rightarrow> (BreakErr ''client sent OPEN; only the hub may initiate a request stream'', r)
      | HalfEnd _ \<Rightarrow> (BreakErr ''client sent HALF_END; only the hub may finish a request body'', r)
      | Hello _ \<Rightarrow> (BreakErr ''unexpected HELLO/WELCOME mid-session'', r)
      | Welcome _ \<Rightarrow> (BreakErr ''unexpected HELLO/WELCOME mid-session'', r)
      | RespHead sid head \<Rightarrow> on_resp_head P res s sid head r
      | Data sid bytes \<Rightarrow> on_data chunk_res res s sid bytes r
      | End sid reason \<Rightarrow> on_end s sid reason r)"

section \<open>One pass of the loop\<close>

datatype input = Message ws_message | InputError | InputEof

datatype session_event =
    LeaseDeadline
  | AbortChanged bool
  | Tick
  | WriterDone
  | Input input

definition on_message ::
    "'h head_parser \<Rightarrow> nat \<Rightarrow> send_result \<Rightarrow> send_result \<Rightarrow> sref \<Rightarrow> input \<Rightarrow> 'h registry \<Rightarrow>
     loop_result \<times> 'h registry" where
  "on_message P now chunk_res res s inp r =
     (case inp of
        InputError \<Rightarrow> (BreakErr ''websocket error'', r)
      | InputEof \<Rightarrow> (BreakErr ''tether closed'', r)
      | Message m \<Rightarrow>
          (case hub_decode m of
             Inl _ \<Rightarrow> (BreakErr ''undecodable'', r)
           | Inr None \<Rightarrow> (Continue, r)
           | Inr (Some f) \<Rightarrow>
               handle_frame P chunk_res res s f
                 (if frame_proves_liveness f
                  then upd_session s (\<lambda>ls. ls\<lparr>ls_last_seen := now\<rparr>) r else r)))"

definition on_tick ::
    "nat \<Rightarrow> nat \<Rightarrow> send_result \<Rightarrow> session_task \<Rightarrow> 'h registry \<Rightarrow>
     loop_result \<times> session_task \<times> 'h registry" where
  "on_tick wall now res tk r =
     (if \<not> is_active wall (tk_tether tk) r then (BreakOk, tk\<lparr>tk_revoked := True\<rparr>, r)
      else if TETHER_SILENCE < now - ls_last_seen (rg_sessions r ! tk_session tk)
      then (BreakErr ''tether silent past deadline'', tk, r)
      else if int TETHER_PING_INTERVAL \<le> int now - tk_last_ping tk then
        (if res = Sent
         then (Continue, tk\<lparr>tk_last_ping := int now\<rparr>, try_send (tk_session tk) Ping res r)
         else (BreakErr ''write liveness PING to tether failed'', tk, r))
      else (Continue, tk, r))"

definition session_step ::
    "'h head_parser \<Rightarrow> nat \<Rightarrow> nat \<Rightarrow> send_result \<Rightarrow> send_result \<Rightarrow> session_event \<Rightarrow> session_task \<Rightarrow>
     'h registry \<Rightarrow> loop_result \<times> session_task \<times> 'h registry" where
  "session_step P wall now chunk_res res ev tk r =
     (case ev of
        LeaseDeadline \<Rightarrow> (BreakErr ''authorization lease expired'', tk, r)
      | AbortChanged ok \<Rightarrow>
          if ok \<and> ls_aborted (rg_sessions r ! tk_session tk)
          then (BreakErr ''session cancelled'', tk\<lparr>tk_revoked := \<not> is_active wall (tk_tether tk) r\<rparr>, r)
          else (Continue, tk, r)
      | Tick \<Rightarrow> on_tick wall now res tk r
      | WriterDone \<Rightarrow> (BreakErr ''tether writer closed'', tk, r)
      | Input inp \<Rightarrow>
          (let (result, r) = on_message P now chunk_res res (tk_session tk) inp r
           in (result, tk, r)))"

section \<open>Teardown\<close>

datatype event_kind = TetherUp | TetherDown | TetherRevoked

definition teardown :: "session_task \<Rightarrow> 'h registry \<Rightarrow> event_kind \<times> 'h registry" where
  "teardown tk r =
     (if tk_revoked tk then TetherRevoked else TetherDown,
      detach (tk_tether tk) (tk_session tk) (close_session (tk_session tk) r))"


section \<open>What a session can touch\<close>

text \<open>
  A change confined to session \<open>s\<close>: the registrations, the routing table, every other
  session and every stream outside the session's own table stay as they are, and nothing
  is added to any table.
\<close>

definition confined :: "sref \<Rightarrow> 'h registry \<Rightarrow> 'h registry \<Rightarrow> bool" where
  "confined s r r' \<longleftrightarrow>
     shrinks r r' \<and> rg_by_credential r' = rg_by_credential r \<and> rg_by_id r' = rg_by_id r \<and>
     rg_live r' = rg_live r \<and> rg_lease r' = rg_lease r \<and>
     (\<forall>i. i \<noteq> s \<longrightarrow> rg_sessions r' ! i = rg_sessions r ! i) \<and>
     set (ls_streams (rg_sessions r' ! s)) \<subseteq> set (ls_streams (rg_sessions r ! s)) \<and>
     (\<forall>x. x \<notin> snd ` set (ls_streams (rg_sessions r ! s)) \<longrightarrow> rg_streams r' ! x = rg_streams r ! x)"

lemma confined_refl [simp]: "confined s r r"
  by (simp add: confined_def)

lemma confined_trans:
  assumes ab: "confined s a b" and bc: "confined s b c"
  shows "confined s a c"
proof -
  have "shrinks a c" using ab bc by (auto simp: confined_def intro: shrinks_trans)
  moreover have "set (ls_streams (rg_sessions c ! s)) \<subseteq> set (ls_streams (rg_sessions a ! s))"
    using ab bc by (auto simp: confined_def)
  moreover have "rg_streams c ! x = rg_streams a ! x" if "x \<notin> snd ` set (ls_streams (rg_sessions a ! s))" for x
  proof -
    have "x \<notin> snd ` set (ls_streams (rg_sessions b ! s))" using that ab by (auto simp: confined_def)
    then show ?thesis using that ab bc by (simp add: confined_def)
  qed
  ultimately show ?thesis using ab bc by (simp add: confined_def)
qed

lemma confined_upd_session:
  "session_shrinks (rg_sessions r ! s) (f (rg_sessions r ! s)) \<Longrightarrow> confined s r (upd_session s f r)"
  by (auto simp: confined_def shrinks_upd_session upd_session_nth session_shrinks_def)

lemma confined_upd_stream:
  "stream_of r s sid = Some x \<Longrightarrow> confined s r (upd_stream x g r)"
  by (force simp: confined_def upd_stream_nth stream_of_def dest: map_of_SomeD)

lemma confined_remove: "confined s r (remove_stream s sid r)"
  unfolding remove_stream_def
  by (rule confined_upd_session) (auto simp: session_shrinks_def opens_of_def delete_filter)

lemma confined_try_send: "opened f = None \<Longrightarrow> confined s r (try_send s f res r)"
  by (simp add: try_send_def confined_upd_session session_shrinks_push)

lemma confined_seen: "confined s r (upd_session s (\<lambda>ls. ls\<lparr>ls_last_seen := now\<rparr>) r)"
  by (rule confined_upd_session) (auto simp: session_shrinks_def opens_of_def intro: exI [of _ "\<lambda>_. True"])

lemma confined_reject:
  "target = stream_of r s sid \<Longrightarrow> confined s r (snd (reject_stream s sid target reason res r))"
  by (auto simp: reject_stream_def Let_def split: option.splits
      intro!: confined_trans [OF _ confined_try_send] confined_remove
        confined_trans [OF confined_upd_stream confined_remove])

lemma confined_resp_head: "confined s r (snd (on_resp_head P res s sid head r))"
  by (auto simp: on_resp_head_def confined_upd_stream split: option.splits intro!: confined_reject)

lemma confined_data: "confined s r (snd (on_data chunk_res res s sid bs r))"
  by (auto simp: on_data_def Let_def split: option.splits bool.splits intro!: confined_reject confined_upd_stream)

lemma confined_end: "confined s r (snd (on_end s sid reason r))"
  by (auto simp: on_end_def split: option.splits
      intro!: confined_trans [OF confined_upd_stream confined_remove])

lemma confined_frame: "confined s r (snd (handle_frame P chunk_res res s f r))"
  by (simp add: handle_frame_def confined_try_send confined_resp_head confined_data confined_end
      split: frame.split)

lemma confined_message: "confined s r (snd (on_message P now chunk_res res s inp r))"
  by (auto simp: on_message_def confined_frame split: input.split sum.split option.split
      intro!: confined_trans [OF confined_seen confined_frame])

lemma confined_tick: "on_tick wall now res tk r = (result, tk', r') \<Longrightarrow> confined (tk_session tk) r r'"
  by (auto simp: on_tick_def intro!: confined_try_send split: if_splits)

lemma confined_step:
  "session_step P wall now chunk_res res ev tk r = (result, tk', r') \<Longrightarrow> confined (tk_session tk) r r'"
  using confined_message [of "tk_session tk" r P now chunk_res res]
  by (cases ev) (auto simp: session_step_def split: if_splits prod.splits dest: confined_tick
      , metis snd_conv)

lemma registry_ok_confined: "confined s r r' \<Longrightarrow> registry_ok r \<Longrightarrow> registry_ok r'"
  by (rule registry_ok_shrinks) (auto simp: confined_def intro: exI [of _ "\<lambda>_. True"])

section \<open>What happens to an answer\<close>

text \<open>The changes one event can make to a stream's response.\<close>

definition answer_step :: "'h head_parser \<Rightarrow> 'h stream_state \<Rightarrow> 'h stream_state \<Rightarrow> bool" where
  "answer_step P st st' \<longleftrightarrow>
     (ss_head st' = ss_head st \<or>
       ss_head st = None \<and> (\<exists>h head. ss_head st' = Some h \<and> 200 \<le> rs_status h \<and> parse_head P head = Some (h, []))) \<and>
     (ss_chunks st' = ss_chunks st \<or>
       ss_head st \<noteq> None \<and> (\<exists>b. ss_chunks st' = ss_chunks st @ [Chunk b]))"

lemma answer_step_refl [simp]: "answer_step P st st"
  by (simp add: answer_step_def)

lemma answer_upd_stream:
  "(\<And>st. st = rg_streams r ! x \<Longrightarrow> answer_step P st (g st)) \<Longrightarrow>
   answer_step P (rg_streams r ! y) (rg_streams (upd_stream x g r) ! y)"
  by (simp add: upd_stream_nth)

lemma streams_try_send [simp]: "rg_streams (try_send s f res r) = rg_streams r"
  by (simp add: try_send_def)

lemma streams_remove [simp]: "rg_streams (remove_stream s sid r) = rg_streams r"
  by (simp add: remove_stream_def)

lemma answer_frame:
  "answer_step P (rg_streams r ! y) (rg_streams (snd (handle_frame P chunk_res res s f r)) ! y)"
proof -
  have reject: "answer_step P (rg_streams r ! y) (rg_streams (snd (reject_stream s sid t reason res r)) ! y)"
    for sid t reason
    by (auto simp: reject_stream_def Let_def upd_stream_nth answer_step_def split: option.split)
  have "answer_step P (rg_streams r ! y) (rg_streams (snd (on_resp_head P res s sid head r)) ! y)" for sid head
    using reject
    by (auto simp: on_resp_head_def acceptable_head_def upd_stream_nth answer_step_def
        split: option.split if_split prod.split)
  moreover have "answer_step P (rg_streams r ! y) (rg_streams (snd (on_data chunk_res res s sid bs r)) ! y)" for sid bs
    using reject by (auto simp: on_data_def Let_def upd_stream_nth answer_step_def split: option.split bool.split)
  moreover have "answer_step P (rg_streams r ! y) (rg_streams (snd (on_end s sid reason r)) ! y)" for sid reason
    by (auto simp: on_end_def upd_stream_nth answer_step_def split: option.split)
  ultimately show ?thesis by (cases f) (simp_all add: handle_frame_def)
qed

lemma answer_session_step:
  assumes "session_step P wall now chunk_res res ev tk r = (result, tk', r')"
  shows "answer_step P (rg_streams r ! y) (rg_streams r' ! y)"
proof (cases ev)
  case (Input inp)
  have "answer_step P (rg_streams r ! y) (rg_streams (snd (on_message P now chunk_res res (tk_session tk) inp r)) ! y)"
    using answer_frame [of P "upd_session (tk_session tk) (\<lambda>ls. ls\<lparr>ls_last_seen := now\<rparr>) r"] answer_frame [of P r]
    by (simp add: on_message_def split: input.split sum.split option.split)
  with Input assms show ?thesis by (auto simp: session_step_def split: prod.splits)
qed (use assms in \<open>auto simp: session_step_def on_tick_def split: if_splits\<close>)


section \<open>Properties\<close>

text \<open>
  C18: A tether has no authority: whatever it sends, and whatever event its session handles,
  no registration, route, lease or other session changes, no stream outside its own table
  is touched, no stream is ever added to a table and no identifier is consumed.
\<close>
theorem session_confined:
  assumes "session_step P wall now chunk_res res ev tk r = (result, tk', r')"
  shows "rg_by_credential r' = rg_by_credential r \<and> rg_by_id r' = rg_by_id r \<and>
    rg_live r' = rg_live r \<and> rg_lease r' = rg_lease r \<and>
    length (rg_sessions r') = length (rg_sessions r) \<and> length (rg_streams r') = length (rg_streams r) \<and>
    (\<forall>i. i \<noteq> tk_session tk \<longrightarrow> rg_sessions r' ! i = rg_sessions r ! i) \<and>
    (\<forall>i < length (rg_sessions r).
       set (ls_streams (rg_sessions r' ! i)) \<subseteq> set (ls_streams (rg_sessions r ! i)) \<and>
       ls_next_id (rg_sessions r' ! i) = ls_next_id (rg_sessions r ! i) \<and>
       opens_of (rg_sessions r' ! i) = opens_of (rg_sessions r ! i)) \<and>
    (\<forall>x. x \<notin> snd ` set (ls_streams (rg_sessions r ! tk_session tk)) \<longrightarrow>
       rg_streams r' ! x = rg_streams r ! x) \<and>
    tk_tether tk' = tk_tether tk \<and> tk_session tk' = tk_session tk \<and> tk_deadline tk' = tk_deadline tk"
proof -
  have c: "confined (tk_session tk) r r'" by (rule confined_step [OF assms])
  then have sh: "shrinks r r'" by (simp add: confined_def)
  have "tk_tether tk' = tk_tether tk \<and> tk_session tk' = tk_session tk \<and> tk_deadline tk' = tk_deadline tk"
    using assms
    by (auto simp: session_step_def on_tick_def split: session_event.splits prod.splits if_splits)
  with c sh shrinks_streams_subset [OF sh] show ?thesis
    by (auto simp: confined_def shrinks_def session_shrinks_def)
qed

definition example_task :: session_task where
  "example_task = \<lparr>tk_tether = [97], tk_session = 0, tk_deadline = secs 60, tk_last_ping = 0, tk_revoked = False\<rparr>"

theorem session_confined_witness:
  "rg_live (snd (snd (session_step deaf_parser 0 9 Sent Sent (Input (Message (ws_msg (Open 7 [1])))) example_task example_open))) =
     [([97], 0)]"
  using session_confined [of deaf_parser 0 9 Sent Sent "Input (Message (ws_msg (Open 7 [1])))" example_task example_open
      "fst (session_step deaf_parser 0 9 Sent Sent (Input (Message (ws_msg (Open 7 [1])))) example_task example_open)"
      "fst (snd (session_step deaf_parser 0 9 Sent Sent (Input (Message (ws_msg (Open 7 [1])))) example_task example_open))"]
  by (simp add: example_open_eq)

text \<open>
  Frames a tether must not send end its session: OPEN, HALF_END, HELLO and WELCOME are
  violations, GOAWAY is a farewell, and whatever is not a whole frame in a binary message
  is an error too; none of them changes anything else.
\<close>
theorem violations_end_session:
  assumes "session_step P wall now chunk_res res (Input (Message m)) tk r = (result, tk', r')"
    and "(\<exists>e. hub_decode m = Inl e) \<or>
      (\<exists>f. hub_decode m = Inr (Some f) \<and>
         ((\<exists>sid head. f = Open sid head) \<or> (\<exists>sid. f = HalfEnd sid) \<or> (\<exists>c. f = Hello c) \<or>
          (\<exists>n. f = Welcome n) \<or> (\<exists>reason. f = GoAway reason)))"
  shows "result \<noteq> Continue \<and> tk' = tk \<and> r' = r"
  using assms by (auto simp: session_step_def on_message_def handle_frame_def frame_proves_liveness_def)

theorem violations_end_session_witness:
  "fst (session_step P 0 9 Sent Sent (Input (Message (ws_msg (Open 7 [1])))) example_task example_open) \<noteq> Continue \<and>
   snd (snd (session_step P 0 9 Sent Sent (Input (Message (ws_msg (Open 7 [1])))) example_task example_open)) = example_open"
proof -
  have "hub_decode (ws_msg (Open 7 [1])) = Inr (Some (Open 7 [1]))"
    by (simp add: ws_msg_def fits_def payload_len_def)
  moreover let ?q = "session_step P 0 9 Sent Sent (Input (Message (ws_msg (Open 7 [1])))) example_task example_open"
  have "?q = (fst ?q, fst (snd ?q), snd (snd ?q))" by simp
  ultimately show ?thesis using violations_end_session by blast
qed



text \<open>
  C19: A session cannot outstay its welcome: it goes on after a tick only while its tether
  is active and its last PONG is at most the silence limit old, never goes on after its
  lease's deadline or a cancellation, and nothing but a PONG renews that proof of life.
\<close>
theorem session_is_bounded:
  assumes "session_step P wall now chunk_res res ev tk r = (Continue, tk', r')"
  shows "ev \<noteq> LeaseDeadline \<and> ev \<noteq> WriterDone \<and>
    (ev = AbortChanged True \<longrightarrow> \<not> ls_aborted (rg_sessions r ! tk_session tk)) \<and>
    (ev = Tick \<longrightarrow> is_active wall (tk_tether tk) r \<and>
       now - ls_last_seen (rg_sessions r ! tk_session tk) \<le> TETHER_SILENCE) \<and>
    (\<forall>i. ls_last_seen (rg_sessions r' ! i) \<noteq> ls_last_seen (rg_sessions r ! i) \<longrightarrow>
       i = tk_session tk \<and> ls_last_seen (rg_sessions r' ! i) = now \<and>
       (\<exists>b. ev = Input (Message (Binary b)) \<and> decode_binary b = Inr (Some Pong)))"
proof -
  have reject: "ls_last_seen (rg_sessions (snd (reject_stream s sid t reason res q)) ! i) = ls_last_seen (rg_sessions q ! i)"
    for s sid t reason i and q :: "'a registry"
    by (simp add: reject_stream_def Let_def try_send_def remove_stream_def upd_session_nth push_sent_def split: option.split)
  have frame: "ls_last_seen (rg_sessions (snd (handle_frame P chunk_res res s f q)) ! i) = ls_last_seen (rg_sessions q ! i)"
    for s f i and q :: "'a registry"
    using reject
    by (cases f) (auto simp: handle_frame_def try_send_def upd_session_nth push_sent_def on_resp_head_def on_data_def
        on_end_def remove_stream_def Let_def split: option.split bool.split)
  show ?thesis
  proof (cases ev)
    case (Input inp)
    with assms have r': "r' = snd (on_message P now chunk_res res (tk_session tk) inp r)"
      by (auto simp: session_step_def split: prod.splits)
    have "i = tk_session tk \<and> ls_last_seen (rg_sessions r' ! i) = now \<and>
       (\<exists>b. inp = Message (Binary b) \<and> decode_binary b = Inr (Some Pong))"
      if "ls_last_seen (rg_sessions r' ! i) \<noteq> ls_last_seen (rg_sessions r ! i)" for i
      using that unfolding r'
      by (auto simp: on_message_def frame frame_proves_liveness_def upd_session_nth hub_decode_frame_iff
          split: input.splits sum.splits option.splits if_splits)
    with Input show ?thesis by blast
  qed (use assms in \<open>auto simp: session_step_def on_tick_def try_send_def upd_session_nth push_sent_def not_less
         split: if_splits\<close>)
qed

theorem session_is_bounded_witness:
  "fst (session_step deaf_parser 0 (secs 46) Sent Sent Tick example_task example_open) \<noteq> Continue"
proof
  let ?q = "session_step deaf_parser 0 (secs 46) Sent Sent Tick example_task example_open"
  assume "fst ?q = Continue"
  then have "?q = (Continue, fst (snd ?q), snd (snd ?q))" by (metis prod.collapse)
  from session_is_bounded [OF this] show False
    by (simp add: example_task_def example_open_eq TETHER_SILENCE_def secs_def)
qed


lemma reject_stream_effect:
  assumes "registry_ok r" "s < length (rg_sessions r)" "stream_of r s sid = t"
    "reject_stream s sid t reason res r = (result, r')"
  shows "(result = Continue \<longleftrightarrow> res = Sent) \<and> stream_of r' s sid = None \<and>
    (\<forall>a. a \<noteq> sid \<longrightarrow> stream_of r' s a = stream_of r s a \<and>
       (\<forall>y. stream_of r s a = Some y \<longrightarrow> rg_streams r' ! y = rg_streams r ! y)) \<and>
    (\<forall>x. t = Some x \<longrightarrow> poll_failed (rg_streams r' ! x) \<and> ss_chunks (rg_streams r' ! x) = ss_chunks (rg_streams r ! x)) \<and>
    (res = Sent \<longrightarrow> ls_sent (rg_sessions r' ! s) = ls_sent (rg_sessions r ! s) @ [End sid reason])"
proof -
  have own: "x < length (rg_streams r)" "b = a" if "stream_of r s a = Some x" "stream_of r s b = Some x" for a b x
    using assms(1,2) that
    by (auto simp: registry_ok_def owner_ok_def sessions_ok_def session_ok_def stream_of_def dest!: map_of_SomeD)
  have sess: "rg_sessions r' ! s = (if res = Sent then push_sent (End sid reason) else (\<lambda>ls. ls))
      ((rg_sessions r ! s)\<lparr>ls_streams := AList.delete sid (ls_streams (rg_sessions r ! s))\<rparr>)"
    using assms(2,4)
    by (auto simp: reject_stream_def Let_def try_send_def remove_stream_def upd_session_nth split: option.splits)
  then have tbl: "ls_streams (rg_sessions r' ! s) = AList.delete sid (ls_streams (rg_sessions r ! s))"
    and sent: "res = Sent \<longrightarrow> ls_sent (rg_sessions r' ! s) = ls_sent (rg_sessions r ! s) @ [End sid reason]"
    by (auto split: if_splits)
  have streams: "rg_streams r' = rg_streams (case t of Some x \<Rightarrow> upd_stream x stream_fail r | None \<Rightarrow> r)"
    and result: "result = Continue \<longleftrightarrow> res = Sent"
    using assms(4) by (auto simp: reject_stream_def Let_def split: if_splits)
  have "rg_streams r' ! y = rg_streams r ! y" if "a \<noteq> sid" "stream_of r s a = Some y" for a y
    using that own [of a y sid] assms(3) by (auto simp: streams upd_stream_nth split: option.split)
  moreover have "poll_failed (rg_streams r' ! x) \<and> ss_chunks (rg_streams r' ! x) = ss_chunks (rg_streams r ! x)"
    if "t = Some x" for x
    using that own(1) [of sid x] assms(3) by (simp add: streams upd_stream_nth poll_failed_def)
  ultimately show ?thesis
    using result sent by (auto simp: stream_of_def tbl delete_conv')
qed

text \<open>
  Data that cannot be delivered ends only its own stream: when the stream is unknown,
  has no head yet, or its caller's queue is full or gone, nothing is handed over, the
  stream fails and leaves the table, and the tether is told with END; every other stream of
  the session goes on. The session ends only if that END cannot be queued.
\<close>
lemma undeliverable_data:
  assumes "registry_ok r" "s < length (rg_sessions r)"
    and "\<not> (\<exists>x. stream_of r s sid = Some x \<and> ss_head (rg_streams r ! x) \<noteq> None \<and> chunk_res = Sent)"
    and "handle_frame P chunk_res res s (Data sid bs) r = (result, r')"
  shows "(result = Continue \<longleftrightarrow> res = Sent) \<and> stream_of r' s sid = None \<and>
    (\<forall>a. a \<noteq> sid \<longrightarrow> stream_of r' s a = stream_of r s a \<and>
       (\<forall>y. stream_of r s a = Some y \<longrightarrow> rg_streams r' ! y = rg_streams r ! y)) \<and>
    (\<forall>x. stream_of r s sid = Some x \<longrightarrow> poll_failed (rg_streams r' ! x) \<and>
       ss_chunks (rg_streams r' ! x) = ss_chunks (rg_streams r ! x)) \<and>
    (res = Sent \<longrightarrow> ls_sent (rg_sessions r' ! s) = ls_sent (rg_sessions r ! s) @
       [End sid (asc ''caller unavailable or response queue full'')])"
proof -
  have "reject_stream s sid (stream_of r s sid) (asc ''caller unavailable or response queue full'') res r = (result, r')"
    using assms(3,4) unfolding handle_frame_def on_data_def frame.case Let_def
    by (cases "stream_of r s sid") (simp_all split: bool.splits)
  from reject_stream_effect [OF assms(1,2) refl this] show ?thesis .
qed

lemma undeliverable_data_witness:
  "poll_failed (rg_streams (snd (handle_frame deaf_parser Sent Sent 0 (Data 1 [5]) example_open)) ! 0)"
proof -
  have x: "stream_of example_open 0 1 = Some 0" by (simp add: stream_of_def example_open_eq)
  moreover have "ss_head (rg_streams example_open ! 0) = None" by (simp add: example_open_eq example_stream)
  ultimately show ?thesis
    using undeliverable_data [OF example_open_ok, of 0 1 Sent deaf_parser Sent "[5]", OF _ _ prod.collapse [symmetric]]
    by (simp add: example_open_eq)
qed

text \<open>
  C20: When a session ends, for any reason, no caller is left waiting: every request in its
  table has failed, its table is empty and stays closed, and it leaves the routing table,
  unless a newer session of the same tether is routed there, which is kept. The bound says
  that fewer than \<open>2 ^ 64\<close> sessions were ever attached.
\<close>
theorem teardown_fails_all:
  assumes "registry_ok r" "length (rg_sessions r) < 2 ^ 64" "s < length (rg_sessions r)"
    and "teardown tk r = (kind, r')" "tk_session tk = s" "tk_tether tk = tid"
  shows "registry_ok r' \<and>
    (\<forall>(a, x) \<in> set (ls_streams (rg_sessions r ! s)). poll_failed (rg_streams r' ! x)) \<and>
    ls_closed (rg_sessions r' ! s) \<and> ls_streams (rg_sessions r' ! s) = [] \<and>
    map_of (rg_live r') tid =
      (if map_of (rg_live r) tid = Some s then None else map_of (rg_live r) tid) \<and>
    (\<forall>a. a \<noteq> tid \<longrightarrow> map_of (rg_live r') a = map_of (rg_live r) a) \<and>
    (\<forall>i. i \<noteq> s \<longrightarrow> rg_sessions r' ! i = rg_sessions r ! i)"
proof -
  let ?q = "close_session s r"
  have r': "r' = detach tid s ?q" using assms(4-6) by (simp add: teardown_def)
  have same: "rg_sessions (detach tid s ?q) = rg_sessions ?q" "rg_streams (detach tid s ?q) = rg_streams ?q"
    by (simp_all add: detach_def split: option.split)
  have gens: "gens_ok ?q" using registry_ok_close [OF assms(1)] by (simp add: registry_ok_def)
  have gen: "ls_generation (rg_sessions ?q ! c) = ls_generation (rg_sessions ?q ! s) \<longleftrightarrow> c = s"
    if "c < length (rg_sessions r)" for c
  proof -
    have "ls_generation (rg_sessions ?q ! i) = of_nat (Suc i)" if "i < length (rg_sessions r)" for i
      using gens that by (simp add: gens_ok_def)
    then have "ls_generation (rg_sessions ?q ! c) = ls_generation (rg_sessions ?q ! s) \<longleftrightarrow>
        (of_nat (Suc c) :: 64 word) = of_nat (Suc s)" using that assms(3) by simp
    also have "\<dots> \<longleftrightarrow> Suc c mod 2 ^ 64 = Suc s mod 2 ^ 64"
      by (simp only: word_unat_eq_iff unat_of_nat) simp
    also have "\<dots> \<longleftrightarrow> c = s"
      using that assms(2,3) by (cases "Suc c = 2 ^ 64"; cases "Suc s = 2 ^ 64") auto
    finally show ?thesis .
  qed
  have "x < length (rg_streams r)" if "(a, x) \<in> set (ls_streams (rg_sessions r ! s))" for a x
    using assms(1,3) that by (auto simp: registry_ok_def sessions_ok_def session_ok_def)
  then have "\<forall>(a, x) \<in> set (ls_streams (rg_sessions r ! s)). poll_failed (rg_streams r' ! x)"
    using close_session_fails [of _ _ r s] by (auto simp: r' same)
  moreover have "map_of (rg_live r') tid = (if map_of (rg_live r) tid = Some s then None else map_of (rg_live r) tid)"
  proof (cases "map_of (rg_live r) tid")
    case (Some c)
    then have "c < length (rg_sessions r)" using assms(1) by (auto simp: registry_ok_def keys_ok_def)
    with Some gen show ?thesis by (auto simp: r' detach_def delete_conv')
  qed (simp add: r' detach_def)
  moreover have "registry_ok r'" unfolding r' by (intro registry_ok_detach registry_ok_close assms(1))
  ultimately show ?thesis
    using assms(3) same by (auto simp: r' close_session_nth detach_def delete_conv' split: option.splits)
qed

theorem teardown_fails_all_witness:
  "poll_failed (rg_streams (snd (teardown example_task example_open)) ! 0) \<and>
   map_of (rg_live (snd (teardown example_task example_open))) [97] = None"
  using teardown_fails_all [OF example_open_ok _ _ prod.collapse [symmetric], of 0 example_task "[97]"]
  by (simp add: example_open_eq example_task_def)

text \<open>
  C22: Handshake: a lease is granted only for a first message that is one HELLO frame with
  a credential the registry authorizes; WELCOME announces the whole seconds of that lease,
  never more and never zero; and the session that is attached ends at a deadline counted
  from the authorization, within the hub's lease. The hypotheses bound the lease as the
  constructor of the registry and \<open>Duration\<close> do.
\<close>
theorem handshake_grants:
  fixes r :: "'h registry"
  assumes "registry_ok r" "secs 1 \<le> rg_lease r" "rg_lease r \<le> DURATION_MAX"
    and "authorize_hello sha wall inp r = Grant credential l f"
  shows "(\<exists>m. inp = HelloMessage m \<and> hub_decode m = Inr (Some (Hello credential))) \<and>
    authorize sha wall credential r = Some l \<and>
    (\<exists>n. f = Welcome n \<and> unat n = l_ttl l div secs 1 \<and> 0 < unat n \<and> secs (unat n) \<le> l_ttl l) \<and>
    (\<forall>(q :: 'h registry) wall' now started tk q'. attach_session sha wall' now started credential l q = (Some tk, q') \<longrightarrow>
       tk_tether tk = l_tether_id l \<and> map_of (rg_live q') (l_tether_id l) = Some (tk_session tk) \<and>
       tk_deadline tk \<le> started + rg_lease r)"
proof -
  from assms(4) have auth: "authorize sha wall credential r = Some l" and f: "f = Welcome (of_nat (l_ttl l div secs 1))"
    and m: "\<exists>m. inp = HelloMessage m \<and> hub_decode m = Inr (Some (Hello credential))"
    by (auto simp: authorize_hello_def hello_credential_def
        split: sum.splits option.splits first_input.splits frame.splits)
  from authorize_bounded_base [OF assms(1) auth] assms(2) have ttl: "secs 1 \<le> l_ttl l" "l_ttl l \<le> rg_lease r"
    by auto
  have "l_ttl l div secs 1 < 2 ^ 64"
    using ttl(2) assms(3) by (simp add: DURATION_MAX_def secs_def)
  then have n: "unat (of_nat (l_ttl l div secs 1) :: 64 word) = l_ttl l div secs 1"
    unfolding unat_of_nat by simp
  moreover have "0 < l_ttl l div secs 1" "secs (l_ttl l div secs 1) \<le> l_ttl l"
    using ttl(1) by (simp_all add: secs_def div_greater_zero_iff)
  moreover have "tk_tether tk = l_tether_id l \<and> map_of (rg_live q') (l_tether_id l) = Some (tk_session tk) \<and>
       tk_deadline tk \<le> started + rg_lease r"
    if "attach_session sha wall' now started credential l q = (Some tk, q')" for q q' :: "'h registry" and wall' now started tk
    using that ttl(2)
    by (auto simp: attach_session_def attach_def Let_def update_conv' split: option.splits if_splits prod.splits)
  ultimately show ?thesis
    using auth m f by (intro conjI allI impI exI [of _ "of_nat (l_ttl l div secs 1)"]) simp_all
qed

theorem handshake_grants_witness:
  "authorize_hello (\<lambda>x. x) 0 (HelloMessage (ws_msg (Hello [1]))) example_registry =
     Grant [1] \<lparr>l_tether_id = [97], l_ttl = secs 60\<rparr> (Welcome 60) \<and> unat (60 :: 64 word) = 60"
proof -
  let ?f = "Welcome (of_nat (secs 60 div secs 1))"
  have a: "authorize (\<lambda>x. x) 0 [1] example_registry = Some \<lparr>l_tether_id = [97], l_ttl = secs 60\<rparr>"
    by (simp add: authorize_def example_registry_eq remaining_def DURATION_MAX_def secs_def)
  have "hub_decode (ws_msg (Hello [1])) = Inr (Some (Hello [1]))"
    by (simp add: ws_msg_def fits_def payload_len_def)
  then have g: "authorize_hello (\<lambda>x. x) 0 (HelloMessage (ws_msg (Hello [1]))) example_registry =
     Grant [1] \<lparr>l_tether_id = [97], l_ttl = secs 60\<rparr> ?f"
    using a by (simp add: authorize_hello_def hello_credential_def)
  moreover have "rg_lease example_registry = secs 60" by (simp add: example_registry_eq)
  ultimately show ?thesis
    using handshake_grants [OF example_registry_ok _ _ g] by (simp add: secs_def DURATION_MAX_def)
qed

end
