(* ===== verification/Hub.thy ===== *)
theory Hub
  imports Session
begin

text \<open>
  The hub as one machine: the registry, the session tasks and the callers' handles, driven
  by every event that reaches it, in any order. Each event is one critical section of the
  code; a session that ends takes three (leaving its loop, \<open>close\<close>, \<open>detach\<close>), so that
  other events can fall between them. A request that is forwarded takes two, its choice of a
  session and its admission: \<open>HForward\<close> and \<open>HForwardAny\<close> are both at once, and
  \<open>HAdmit\<close>, which may come at any time and for any session, is the admission of a request
  whose choice was made before other events. The machine is an instance of \<open>invariant_machine\<close>,
  which carries the registry's invariant to every reachable state.
\<close>

section \<open>State and events\<close>

datatype task_state =
    Running session_task
  | Leaving session_task
  | Closed_off session_task
  | Gone

record 'h hub =
  hb_registry :: "'h registry"
  hb_tasks :: "task_state list"
  hb_calls :: "forwarded option list"

definition hub_start :: "'h hub \<Rightarrow> bool" where
  "hub_start h \<longleftrightarrow> (\<exists>lease. h = \<lparr>hb_registry = registry_new lease, hb_tasks = [], hb_calls = []\<rparr>)"

datatype 'h hub_event =
    HRegister bytes bytes bytes
  | HReplace nat "admin_record list"
  | HRevoke bytes
  | HAttach nat nat nat bytes auth_lease
  | HSession nat nat nat send_result send_result session_event
  | HClose nat
  | HDetach nat
  | HForward nat send_result bytes "'h request"
  | HForwardAny nat nat "sref \<Rightarrow> bool" "sref \<Rightarrow> send_result" "'h request"
  | HAdmit sref "'h request"
  | HUploadEnd nat "forward_error + unit" send_result
  | HDrop nat send_result

text \<open>The result of a forwarding call: the handle goes to the caller.\<close>

definition add_call :: "(forward_error + forwarded) \<times> 'h registry \<Rightarrow> 'h hub \<Rightarrow> 'h hub" where
  "add_call = (\<lambda>(res, r) h.
     h\<lparr>hb_registry := r,
       hb_calls := hb_calls h @ (case res of Inr fw \<Rightarrow> [Some fw] | Inl _ \<Rightarrow> [])\<rparr>)"

definition on_session ::
    "'h head_parser \<Rightarrow> nat \<Rightarrow> nat \<Rightarrow> nat \<Rightarrow> send_result \<Rightarrow> send_result \<Rightarrow> session_event \<Rightarrow> 'h hub \<Rightarrow> 'h hub"
where
  "on_session P i wall now chunk_res res ev h =
     (case hb_tasks h ! i of
        Running tk \<Rightarrow>
          (let (result, tk', r) = session_step P wall now chunk_res res ev tk (hb_registry h)
           in h\<lparr>hb_registry := r,
                hb_tasks := (hb_tasks h)[i := if result = Continue then Running tk' else Leaving tk']\<rparr>)
      | _ \<Rightarrow> h)"

definition hub_step ::
    "'h head_parser \<Rightarrow> 'h header_api \<Rightarrow> (bytes \<Rightarrow> bytes) \<Rightarrow> 'h hub \<Rightarrow> 'h hub_event \<Rightarrow> 'h hub" where
  "hub_step P H sha h e =
     (let r = hb_registry h in
      case e of
        HRegister tid label credential \<Rightarrow> h\<lparr>hb_registry := snd (register_tether sha tid label credential r)\<rparr>
      | HReplace wall recs \<Rightarrow> h\<lparr>hb_registry := replace_records wall recs r\<rparr>
      | HRevoke tid \<Rightarrow> h\<lparr>hb_registry := snd (revoke tid r)\<rparr>
      | HAttach wall now started credential l \<Rightarrow>
          (case attach_session sha wall now started credential l r of
             (Some tk, r) \<Rightarrow> h\<lparr>hb_registry := r, hb_tasks := hb_tasks h @ [Running tk]\<rparr>
           | (None, r) \<Rightarrow> h\<lparr>hb_registry := r\<rparr>)
      | HSession i wall now chunk_res res ev \<Rightarrow>
          if i < length (hb_tasks h) then on_session P i wall now chunk_res res ev h else h
      | HClose i \<Rightarrow>
          if i < length (hb_tasks h) then
            (case hb_tasks h ! i of
               Leaving tk \<Rightarrow>
                 h\<lparr>hb_registry := close_session (tk_session tk) r,
                   hb_tasks := (hb_tasks h)[i := Closed_off tk]\<rparr>
             | _ \<Rightarrow> h)
          else h
      | HDetach i \<Rightarrow>
          if i < length (hb_tasks h) then
            (case hb_tasks h ! i of
               Closed_off tk \<Rightarrow>
                 h\<lparr>hb_registry := detach (tk_tether tk) (tk_session tk) r,
                   hb_tasks := (hb_tasks h)[i := Gone]\<rparr>
             | _ \<Rightarrow> h)
          else h
      | HForward wall reserved tid req \<Rightarrow> add_call (forward H wall reserved (\<lambda>r. r) tid req r) h
      | HForwardAny wall now tx_closed reserve req \<Rightarrow>
          add_call (forward_any H wall now tx_closed reserve (\<lambda>r. r) req r) h
      | HAdmit s req \<Rightarrow>
          if s < length (rg_sessions r) then add_call (start_forward H s req r) h else h
      | HUploadEnd k result res \<Rightarrow>
          (case (if k < length (hb_calls h) then hb_calls h ! k else None) of
             Some fw \<Rightarrow>
               h\<lparr>hb_registry := upload_finish (fw_session fw) (fw_stream fw) (fw_id fw) result res r\<rparr>
           | None \<Rightarrow> h)
      | HDrop k res \<Rightarrow>
          (case (if k < length (hb_calls h) then hb_calls h ! k else None) of
             Some fw \<Rightarrow>
               h\<lparr>hb_registry := guard_drop (fw_session fw) (fw_stream fw) (fw_id fw) res r,
                 hb_calls := (hb_calls h)[k := None]\<rparr>
           | None \<Rightarrow> h))"

section \<open>The invariant of the machine\<close>

definition hub_ok :: "'h hub \<Rightarrow> bool" where
  "hub_ok h \<longleftrightarrow> registry_ok (hb_registry h)"

lemma live_in_range: "registry_ok r \<Longrightarrow> map_of (rg_live r) tid = Some s \<Longrightarrow> s < length (rg_sessions r)"
  unfolding registry_ok_def keys_ok_def by blast

lemma hb_registry_add_call [simp]: "hb_registry (add_call p h) = snd p"
  by (simp add: add_call_def split: prod.split)

lemma registry_ok_forward: "registry_ok r \<Longrightarrow> registry_ok (snd (forward H wall reserved (\<lambda>r. r) tid req r))"
  using live_in_range [of r tid]
  by (simp add: forward_def registry_ok_start_forward split: option.split sum.split)

lemma registry_ok_forward_any:
  "registry_ok r \<Longrightarrow> registry_ok (snd (forward_any H wall now tx_closed reserve (\<lambda>r. r) req r))"
  using eligible_in_range reserve_route_InrD(1)
  by (fastforce simp: forward_any_def split: sum.splits intro: registry_ok_start_forward)

lemma registry_ok_attach_session:
  "registry_ok r \<Longrightarrow> attach_session sha wall now started c l r = (tk, r') \<Longrightarrow> registry_ok r'"
  using registry_ok_attach [of r sha wall now "l_tether_id l" c]
  by (auto simp: attach_session_def split: prod.splits option.splits)

lemma registry_ok_session_step:
  "registry_ok r \<Longrightarrow> session_step P wall now chunk_res res ev tk r = (result, tk', r') \<Longrightarrow> registry_ok r'"
  using confined_step registry_ok_confined by blast

lemmas registry_ok_ops =
  registry_ok_register registry_ok_replace registry_ok_revoke registry_ok_close registry_ok_detach
  registry_ok_forward registry_ok_forward_any registry_ok_start_forward registry_ok_upload_finish registry_ok_guard_drop

lemma hub_ok_step: "hub_ok h \<Longrightarrow> hub_ok (hub_step P H sha h e)"
  unfolding hub_ok_def
  by (cases e)
    (auto simp: hub_step_def Let_def on_session_def registry_ok_ops
      split: prod.splits option.splits task_state.splits
      dest: registry_ok_attach_session registry_ok_session_step)


interpretation hub_machine: invariant_machine "hub_step P H sha" hub_start hub_ok
proof unfold_locales
  fix h :: "'a hub" and e :: "'a hub_event"
  show "hub_start h \<Longrightarrow> hub_ok h" by (auto simp: hub_start_def hub_ok_def registry_ok_new)
  show "hub_ok h \<Longrightarrow> hub_ok (hub_step P H sha h e)" by (rule hub_ok_step)
qed

section \<open>Properties\<close>

lemma gens_distinct:
  assumes "gens_ok r" "length (rg_sessions r) < 2 ^ 64" "i < length (rg_sessions r)" "j < length (rg_sessions r)"
    "ls_generation (rg_sessions r ! i) = ls_generation (rg_sessions r ! j)"
  shows "i = j"
proof -
  from assms have "(of_nat (Suc i) :: 64 word) = of_nat (Suc j)" by (simp add: gens_ok_def)
  then have "unat (of_nat (Suc i) :: 64 word) = unat (of_nat (Suc j) :: 64 word)" by simp
  then have "Suc i mod 2 ^ 64 = Suc j mod 2 ^ 64" by (simp only: unat_of_nat) simp
  with assms(2-4) show ?thesis by (cases "Suc i = 2 ^ 64"; cases "Suc j = 2 ^ 64") auto
qed

text \<open>
  C1: In every reachable state of the hub, whatever the order of control-plane changes,
  session events, requests, uploads and dropped callers: every credential leads to the
  registration with its digest; a session has at most 64 open streams, none once closed,
  and never opened two streams under one identifier; no stream is served by two sessions
  or under two identifiers; and no two sessions share a generation (below \<open>2 ^ 64\<close>
  attached sessions).
\<close>
theorem hub_invariant:
  assumes "reach (hub_step P H sha) hub_start h"
    and "r = hb_registry h"
  shows "(\<forall>hash tid. rg_by_credential r hash = Some tid \<longrightarrow>
       (\<exists>t. map_of (rg_by_id r) tid = Some t \<and> t_credential_hash t = hash)) \<and>
    (\<forall>i < length (rg_sessions r).
       length (ls_streams (rg_sessions r ! i)) \<le> MAX_CONCURRENT_STREAMS \<and>
       (ls_closed (rg_sessions r ! i) \<longrightarrow> ls_streams (rg_sessions r ! i) = []) \<and>
       distinct (opens_of (rg_sessions r ! i)) \<and> 0 \<notin> set (map fst (ls_streams (rg_sessions r ! i)))) \<and>
    (\<forall>i < length (rg_sessions r). \<forall>j < length (rg_sessions r). \<forall>a b x.
       (a, x) \<in> set (ls_streams (rg_sessions r ! i)) \<and> (b, x) \<in> set (ls_streams (rg_sessions r ! j)) \<longrightarrow>
       i = j \<and> a = b) \<and>
    (length (rg_sessions r) < 2 ^ 64 \<longrightarrow>
       (\<forall>i < length (rg_sessions r). \<forall>j < length (rg_sessions r).
          ls_generation (rg_sessions r ! i) = ls_generation (rg_sessions r ! j) \<longrightarrow> i = j))"
proof -
  have ok: "registry_ok r" using hub_machine.inv_reach [OF assms(1)] assms(2) by (simp add: hub_ok_def)
  have sok: "session_ok (length (rg_streams r)) (rg_sessions r ! i)" if "i < length (rg_sessions r)" for i
    using ok that by (simp add: registry_ok_def sessions_ok_def)
  have "distinct (opens_of (rg_sessions r ! i))" if "i < length (rg_sessions r)" for i
  proof -
    have "sorted_wrt (<) (map unat (opens_of (rg_sessions r ! i)))"
      using sok [OF that] by (simp add: session_ok_def)
    then have "distinct (map unat (opens_of (rg_sessions r ! i)))"
      by (simp add: strict_sorted_iff)
    then show ?thesis by (simp add: distinct_map)
  qed
  moreover have "length (ls_streams (rg_sessions r ! i)) \<le> MAX_CONCURRENT_STREAMS \<and>
      (ls_closed (rg_sessions r ! i) \<longrightarrow> ls_streams (rg_sessions r ! i) = []) \<and>
      0 \<notin> set (map fst (ls_streams (rg_sessions r ! i)))" if "i < length (rg_sessions r)" for i
    using sok [OF that] by (force simp: session_ok_def)
  moreover have "cred_ok r" "owner_ok r" "gens_ok r" using ok by (simp_all add: registry_ok_def)
  ultimately show ?thesis
    using gens_distinct unfolding cred_ok_def owner_ok_def by blast
qed

theorem hub_invariant_witness:
  "\<exists>h :: unit hub. reach (hub_step deaf_parser no_headers (\<lambda>x. x)) hub_start h \<and>
     length (rg_sessions (hb_registry h)) = 1 \<and>
     length (ls_streams (rg_sessions (hb_registry h) ! 0)) \<le> MAX_CONCURRENT_STREAMS"
proof -
  let ?start = "\<lparr>hb_registry = registry_new (secs 60), hb_tasks = [], hb_calls = []\<rparr> :: unit hub"
  let ?h = "foldl (hub_step deaf_parser no_headers (\<lambda>x. x)) ?start
     [HRegister [97] [98] [1], HAttach 0 0 0 [1] \<lparr>l_tether_id = [97], l_ttl = secs 60\<rparr>]"
  have "hub_start ?start" by (auto simp: hub_start_def)
  then have r: "reach (hub_step deaf_parser no_headers (\<lambda>x. x)) hub_start ?h" by (intro reach_foldl reach_start)
  moreover have "hb_registry ?h = example_registry"
    by (simp add: hub_step_def Let_def attach_session_def example_registry_def split: prod.split option.split)
  then have "length (rg_sessions (hb_registry ?h)) = 1" by (simp add: example_registry_eq)
  ultimately show ?thesis using hub_invariant [OF r refl] by (intro exI [of _ ?h]) simp
qed

section \<open>Forwarding while sessions go on\<close>

text \<open>The events that do not take the routing lock, so that they may fall inside a forwarding.\<close>

fun lock_free :: "'h hub_event \<Rightarrow> bool" where
  "lock_free (HSession _ _ _ _ _ _) = True"
| "lock_free (HClose _) = True"
| "lock_free (HDetach _) = True"
| "lock_free (HUploadEnd _ _ _) = True"
| "lock_free (HDrop _ _) = True"
| "lock_free _ = False"

lemma shrinks_send_or_abort: "opened f = None \<Longrightarrow> shrinks r (send_or_abort s f res r)"
  by (simp add: send_or_abort_def try_send_def shrinks_upd_session session_shrinks_push session_shrinks_abort)

lemma shrinks_upload_finish: "shrinks r (upload_finish s x sid result res r)"
  by (auto simp: upload_finish_def intro: shrinks_trans [OF shrinks_upd_stream shrinks_send_or_abort])

lemma shrinks_guard_drop: "shrinks r (guard_drop s x sid res r)"
proof -
  have "shrinks r (upd_session s (\<lambda>ls. ls\<lparr>ls_streams := AList.delete sid (ls_streams ls)\<rparr>)
      (upd_stream x (\<lambda>st. st\<lparr>ss_aborted := ss_aborted st @ [x]\<rparr>) r))" (is "shrinks r ?r")
    by (rule shrinks_trans [OF shrinks_upd_stream shrinks_upd_session])
      (auto simp: session_shrinks_def opens_of_def delete_filter)
  then show ?thesis unfolding guard_drop_def Let_def
    by (auto intro: shrinks_trans [OF _ shrinks_send_or_abort])
qed

lemma shrinks_detach: "shrinks r (detach tid s r)"
  by (simp add: detach_def split: option.split)

lemma lock_free_shrinks: "lock_free e \<Longrightarrow> shrinks (hb_registry h) (hb_registry (hub_step P H sha h e))"
  by (cases e) (auto simp: hub_step_def Let_def on_session_def shrinks_upload_finish shrinks_guard_drop
      shrinks_detach confined_def dest!: confined_step split: option.split task_state.split prod.split)

lemma lock_free_run:
  "list_all lock_free es \<Longrightarrow> shrinks (hb_registry h) (hb_registry (foldl (hub_step P H sha) h es))"
  by (induction es arbitrary: h) (auto intro: shrinks_trans [OF lock_free_shrinks])

text \<open>
  C13: Forwarding to any tether, whatever the sessions, the uploads and the dropped callers
  do between the choice of a session and the admission of the stream. It refuses for
  absence or overload, and then leaves everything as it was; or it fails because the chosen
  session, which was eligible when it was chosen, closed in between, and then it has used up
  one identifier of that session and changed nothing else; never for an exhausted identifier
  or a revoked tether. Otherwise it opens exactly one stream, on a session that was eligible
  and is still open: under an identifier that session never used, with OPEN as its last
  command, entered in that session's table and in no other, while every other session and
  every earlier stream is as it was when the stream was admitted; the answer is pending, and
  the invariant holds again.
\<close>
theorem forward_any_opens_or_refuses:
  assumes "reach (hub_step P H sha) hub_start h" "list_all lock_free es"
    and "q = hb_registry (foldl (hub_step P H sha) h es)"
    and "forward_any H wall now tx_closed reserve (\<lambda>_. q) req (hb_registry h) = (res, r')"
  shows "case res of
      Inl e \<Rightarrow>
        (e = NoTether \<or> e = TetherBusy) \<and> r' = hb_registry h \<and>
          reserve_route wall now tx_closed reserve (hb_registry h) = Inl e \<or>
        e = TetherGone \<and> (\<exists>tid s. reserve_route wall now tx_closed reserve (hb_registry h) = Inr (tid, s) \<and>
          eligible wall now tx_closed (hb_registry h) tid s \<and> ls_closed (rg_sessions q ! s) \<and>
          r' = spent_id s q)
    | Inr fw \<Rightarrow>
        registry_ok r' \<and> (\<exists>tid. eligible wall now tx_closed (hb_registry h) tid (fw_session fw)) \<and>
        \<not> ls_closed (rg_sessions q ! fw_session fw) \<and>
        fw_id fw \<noteq> 0 \<and> fw_id fw \<notin> set (opens_of (rg_sessions q ! fw_session fw)) \<and>
        rg_sessions r' ! fw_session fw =
          opened_session (fw_id fw) (fw_stream fw) (open_head H req) (rg_sessions q ! fw_session fw) \<and>
        (\<forall>i. i \<noteq> fw_session fw \<longrightarrow> rg_sessions r' ! i = rg_sessions q ! i) \<and>
        fw_stream fw = length (rg_streams q) \<and>
        (\<exists>st. rg_streams r' = rg_streams q @ [st] \<and> \<not> ss_completed st \<and> poll_head st = HeadPending)"
proof -
  have "registry_ok (hb_registry h)" "registry_ok q"
    using hub_machine.inv_reach [OF assms(1)] hub_machine.inv_reach [OF reach_foldl [OF assms(1)], of es]
    by (simp_all add: hub_ok_def assms(3))
  moreover have "shrinks (hb_registry h) q" using lock_free_run [OF assms(2)] assms(3) by simp
  ultimately show ?thesis using forward_any_base [OF _ refl _ _ assms(4)] by blast
qed

text \<open>A hub with one tether attached.\<close>

definition example_hub :: "unit hub" where
  "example_hub = \<lparr>hb_registry = example_registry,
     hb_tasks = [Running (example_task\<lparr>tk_last_ping := - int TETHER_PING_INTERVAL\<rparr>)], hb_calls = []\<rparr>"

lemma example_hub_reached: "reach (hub_step P H (\<lambda>x. x)) hub_start example_hub"
proof -
  let ?start = "\<lparr>hb_registry = registry_new (secs 60), hb_tasks = [], hb_calls = []\<rparr> :: unit hub"
  have "hub_start ?start" by (auto simp: hub_start_def)
  moreover have "foldl (hub_step P H (\<lambda>x. x)) ?start
      [HRegister [97] [98] [1], HAttach 0 0 0 [1] \<lparr>l_tether_id = [97], l_ttl = secs 60\<rparr>] = example_hub"
    by (simp add: hub_step_def Let_def attach_session_def example_registry_def attach_def register_tether_def
        registry_new_def evict_def remaining_def digest_def example_hub_def example_task_def)
  ultimately show ?thesis by (metis reach_foldl reach_start)
qed

lemma example_route: "reserve_route 0 0 (\<lambda>_. False) (\<lambda>_. Sent) example_registry = Inr ([97], 0)"
  using route_least_loaded_base [of 0 0 "\<lambda>_. False" example_registry "\<lambda>_. Sent"] example_eligible
  by (auto split: sum.splits)

text \<open>The lost race: the session's task ends after the session was chosen.\<close>

theorem forward_any_opens_or_refuses_witness:
  "\<exists>q. q = hb_registry (foldl (hub_step deaf_parser no_headers (\<lambda>x. x)) example_hub
       [HSession 0 0 0 Sent Sent WriterDone, HClose 0]) \<and>
     forward_any no_headers 0 0 (\<lambda>_. False) (\<lambda>_. Sent) (\<lambda>_. q) example_request example_registry =
       (Inl TetherGone, spent_id 0 q)"
proof -
  let ?es = "[HSession 0 0 0 Sent Sent WriterDone, HClose 0]"
  obtain q where qd: "q = hb_registry (foldl (hub_step deaf_parser no_headers (\<lambda>x. x)) example_hub ?es)" by blast
  then have q: "q = close_session 0 example_registry"
    by (simp add: hub_step_def on_session_def session_step_def example_hub_def example_task_def)
  have reg: "hb_registry example_hub = example_registry" by (simp add: example_hub_def)
  obtain res r' where f: "forward_any no_headers 0 0 (\<lambda>_. False) (\<lambda>_. Sent) (\<lambda>_. q) example_request
      (hb_registry example_hub) = (res, r')" by fastforce
  then have "start_forward no_headers 0 example_request q = (res, r')"
    by (simp add: forward_any_def reg example_route)
  then have "\<exists>e. res = Inl e"
    by (auto simp: q start_forward_def admit_def upd_session_nth close_session_nth example_registry_eq
        session_new_def Let_def)
  with forward_any_opens_or_refuses [OF example_hub_reached _ qd f] example_route reg
  have "res = Inl TetherGone \<and> r' = spent_id 0 q" by auto
  with f reg qd show ?thesis by auto
qed

end
