(* ===== verification/Chunked.thy ===== *)
theory Chunked
  imports Rust_Std
begin

text \<open>
  The incremental HTTP/1.1 chunked decoder of \<open>cargo/src/chunked.rs\<close>: its state, the
  loop of \<open>push\<close>, \<open>feed_eof\<close>, the grammar of a chunked body, stated
  apart from the decoder, and what a caller that pushes read by read hands on, over the
  interface \<open>incremental\<close>. \<open>usize\<close> is 64 bits wide.
\<close>

section \<open>State\<close>

datatype chunk_error = MalformedChunk string

datatype mode = Size | Body nat | CrLf | Done

record decoder =
  buf :: bytes
  mode :: mode

definition new_decoder :: decoder where
  "new_decoder = \<lparr>buf = [], mode = Size\<rparr>"

text \<open>\<open>Decoded\<close>: the bytes ready to forward, and whether the body is finished.\<close>

record decoded =
  out :: bytes
  is_done :: bool

type_synonym push_result = "chunk_error + decoded"

section \<open>The decoding loop\<close>

text \<open>The number on a size line: the text before any extension, trimmed, in hexadecimal.\<close>

definition chunk_size :: "bytes \<Rightarrow> chunk_error + nat" where
  "chunk_size line =
     (let hex = (case position 59 line of Some i \<Rightarrow> take i line | None \<Rightarrow> line)
      in case utf8_decode hex of
           None \<Rightarrow> Inl (MalformedChunk ''size line not utf8'')
         | Some s \<Rightarrow>
             (case from_str_radix 64 16 (trim s) of
                None \<Rightarrow> Inl (MalformedChunk ''chunk size not hex'')
              | Some n \<Rightarrow> Inr n))"

text \<open>Every turn consumes input, but for the step from an exhausted body to its line end.\<close>

definition empty_body :: "mode \<Rightarrow> nat" where
  "empty_body m = (case m of Body r \<Rightarrow> (if r = 0 then 1 else 0) | _ \<Rightarrow> 0)"

text \<open>
  The body of \<open>loop\<close> with its locals \<open>self.mode\<close>, \<open>self.buf\<close> and \<open>out\<close>. The mode is
  taken with \<open>mem::replace\<close>, so an error return leaves \<open>Done\<close> behind.
\<close>

function push_loop :: "mode \<Rightarrow> bytes \<Rightarrow> bytes \<Rightarrow> push_result \<times> decoder" where
  "push_loop Size b acc =
     (case find_sub crlf b of
        None \<Rightarrow> (Inr \<lparr>out = acc, is_done = False\<rparr>, \<lparr>buf = b, mode = Size\<rparr>)
      | Some nl \<Rightarrow>
          (case chunk_size (take nl b) of
             Inl e \<Rightarrow> (Inl e, \<lparr>buf = b, mode = Done\<rparr>)
           | Inr n \<Rightarrow>
               if n = 0 then (Inr \<lparr>out = acc, is_done = True\<rparr>, \<lparr>buf = [], mode = Done\<rparr>)
               else push_loop (Body n) (drop (nl + 2) b) acc))"
| "push_loop (Body remaining) b acc =
     (if remaining = 0 then push_loop CrLf b acc
      else
        let n = min remaining (length b)
        in if n = 0 then (Inr \<lparr>out = acc, is_done = False\<rparr>, \<lparr>buf = b, mode = Body remaining\<rparr>)
        else
          let left = remaining - n
          in push_loop (if left = 0 then CrLf else Body left) (drop n b) (acc @ take n b))"
| "push_loop CrLf b acc =
     (if length b < 2 then (Inr \<lparr>out = acc, is_done = False\<rparr>, \<lparr>buf = b, mode = CrLf\<rparr>)
      else if take 2 b \<noteq> crlf then
        (Inl (MalformedChunk ''missing CRLF after chunk''), \<lparr>buf = b, mode = Done\<rparr>)
      else push_loop Size (drop 2 b) acc)"
| "push_loop Done b acc = (Inr \<lparr>out = acc, is_done = True\<rparr>, \<lparr>buf = b, mode = Done\<rparr>)"
  by pat_completeness auto

termination
proof (relation "measure (\<lambda>(m, b, acc). 2 * length b + empty_body m)", goal_cases)
  case (2 b acc nl n)
  from find_sub_SomeD [OF 2(1)] 2(3) show ?case
    by (auto simp: empty_body_def)
qed (auto simp: empty_body_def Let_def split: if_splits)

declare push_loop.simps [simp del]

definition push :: "decoder \<Rightarrow> bytes \<Rightarrow> push_result \<times> decoder" where
  "push d bs = push_loop (mode d) (buf d @ bs) []"

definition feed_eof :: "decoder \<Rightarrow> (chunk_error + bytes) \<times> decoder" where
  "feed_eof d =
     (case mode d of
        CrLf \<Rightarrow> (Inr [], d\<lparr>buf := [], mode := Done\<rparr>)
      | Size \<Rightarrow>
          if buf d = [] then (Inr [], d)
          else (Inl (MalformedChunk ''eof mid chunk-size line''), d\<lparr>buf := []\<rparr>)
      | Body _ \<Rightarrow> (Inl (MalformedChunk ''eof mid chunk body''), d\<lparr>buf := []\<rparr>)
      | Done \<Rightarrow> (Inr [], d))"

section \<open>Lemmas on the loop\<close>

text \<open>What a caller can observe: once \<open>Done\<close>, the buffer is never read again.\<close>

definition observe :: "decoder \<Rightarrow> mode \<times> bytes" where
  "observe d = (mode d, if mode d = Done then [] else buf d)"

definition observed :: "push_result \<times> decoder \<Rightarrow> push_result \<times> mode \<times> bytes" where
  "observed r = (fst r, observe (snd r))"

text \<open>The accumulated output only grows, at its end.\<close>

definition add_out :: "bytes \<Rightarrow> push_result \<Rightarrow> push_result" where
  "add_out pre r = map_sum id (\<lambda>x. x\<lparr>out := pre @ out x\<rparr>) r"

lemma add_out_simps [simp]:
  "add_out pre (Inl e) = Inl e" "add_out pre (Inr x) = Inr (x\<lparr>out := pre @ out x\<rparr>)"
  by (simp_all add: add_out_def)

lemma add_out_append: "add_out (p @ q) r = add_out p (add_out q r)"
  by (cases r) simp_all

lemma add_out_Nil [simp]: "add_out [] r = r"
  by (cases r) simp_all

lemma push_loop_acc:
  "push_loop m b (pre @ acc) = map_prod (add_out pre) id (push_loop m b acc)"
proof (induction m b acc rule: push_loop.induct)
  case (1 b acc)
  then show ?case
    by (auto simp: push_loop.simps(1) [of b] split: option.splits sum.splits)
next
  case (2 remaining b acc)
  then show ?case
    by (auto simp: push_loop.simps(2) [of remaining b] Let_def)
next
  case (3 b acc)
  then show ?case by (auto simp: push_loop.simps(3) [of b])
next
  case (4 b acc)
  then show ?case by (simp add: push_loop.simps(4))
qed

lemma push_loop_out: "push_loop m b acc = map_prod (add_out acc) id (push_loop m b [])"
  using push_loop_acc [of m b acc "[]"] by simp

text \<open>
  Bytes that arrive later: the loop run on everything at once and the loop resumed from
  where it stopped give the same result, and an error stays that error.
\<close>

definition resumed :: "push_result \<times> decoder \<Rightarrow> bytes \<Rightarrow> push_result \<times> decoder \<Rightarrow> bool" where
  "resumed r t r' \<longleftrightarrow>
     (case r of
        (Inl e, d) \<Rightarrow> r' = (Inl e, \<lparr>buf = buf d @ t, mode = Done\<rparr>) \<and> mode d = Done
      | (Inr x, d) \<Rightarrow> observed r' = observed (push_loop (mode d) (buf d @ t) (out x)))"

lemma resumed_simps [simp]:
  "resumed (Inl e, d) t r' \<longleftrightarrow> r' = (Inl e, \<lparr>buf = buf d @ t, mode = Done\<rparr>) \<and> mode d = Done"
  "resumed (Inr x, d) t r' \<longleftrightarrow>
     observed r' = observed (push_loop (mode d) (buf d @ t) (out x))"
  by (simp_all add: resumed_def)

lemma push_loop_more: "resumed (push_loop m b acc) t (push_loop m (b @ t) acc)"
proof (induction m b acc rule: push_loop.induct)
  case (1 b acc)
  show ?case
  proof (cases "find_sub crlf b")
    case None
    then show ?thesis by (simp add: push_loop.simps(1) [of b])
  next
    case (Some nl)
    note app = find_sub_append [OF Some, of t]
    from find_sub_SomeD [OF Some] have "nl + 2 \<le> length b" by simp
    then have drops: "take nl (b @ t) = take nl b" "drop (nl + 2) (b @ t) = drop (nl + 2) b @ t"
      by simp_all
    note unfold = push_loop.simps(1) [of b] push_loop.simps(1) [of "b @ t"] Some app drops
    show ?thesis
    proof (cases "chunk_size (take nl b)")
      case (Inl e)
      then show ?thesis by (simp only: unfold option.case sum.case) simp
    next
      case (Inr n)
      show ?thesis
      proof (cases "n = 0")
        case True
        with Inr show ?thesis
          by (simp only: unfold option.case sum.case)
             (simp add: push_loop.simps(4) observed_def observe_def)
      next
        case False
        from 1 [OF Some Inr False] show ?thesis
          by (simp only: unfold Inr option.case sum.case False if_False)
      qed
    qed
  qed
next
  case (2 remaining b acc)
  show ?case
  proof (cases "remaining = 0 \<or> b = []")
    case True
    with 2(1) show ?thesis
      by (auto simp: push_loop.simps(2) [of remaining b] push_loop.simps(2) [of 0])
  next
    case False
    let ?n = "min remaining (length b)"
    have n: "?n \<noteq> 0" using False by simp
    show ?thesis
    proof (cases "length b < remaining")
      case True
      have "push_loop (Body remaining) b acc =
          (Inr \<lparr>out = acc @ b, is_done = False\<rparr>, \<lparr>buf = [], mode = Body (remaining - length b)\<rparr>)"
        using False True by (simp add: push_loop.simps(2) Let_def)
      moreover have "push_loop (Body remaining) (b @ t) acc =
          push_loop (Body (remaining - length b)) t (acc @ b)"
        using False True
        by (cases "t = []") (auto simp: push_loop.simps(2) Let_def min_def)
      ultimately show ?thesis by simp
    next
      case le: False
      then have "?n = remaining" by simp
      with 2(2) [of ?n "remaining - ?n"] False le show ?thesis
        by (simp add: push_loop.simps(2) [of remaining] Let_def)
    qed
  qed
next
  case (3 b acc)
  show ?case
  proof (cases "length b < 2")
    case True
    then show ?thesis by (simp add: push_loop.simps(3) [of b])
  next
    case False
    then have "take 2 (b @ t) = take 2 b" "drop 2 (b @ t) = drop 2 b @ t" by simp_all
    with 3 False show ?thesis
      by (auto simp: push_loop.simps(3) [of b] push_loop.simps(3) [of "b @ t"])
  qed
next
  case (4 b acc)
  then show ?case by (simp add: push_loop.simps(4))
qed

section \<open>Reads of any size\<close>

definition join_decoded :: "decoded \<Rightarrow> decoded \<Rightarrow> decoded" where
  "join_decoded a b = b\<lparr>out := out a @ out b\<rparr>"

lemma add_out_join: "add_out (out r) x = map_sum id (join_decoded r) x"
  by (cases x) (simp_all add: join_decoded_def)

lemma push_more: "resumed (push d a) b (push d (a @ b))"
  using push_loop_more [of "mode d" "buf d @ a" "[]" b] by (simp add: push_def)

lemma push_resume:
  assumes "push d a = (Inr r, d')"
  shows "observed (push d (a @ b)) = observed (map_prod (add_out (out r)) id (push d' b))"
  using push_more [of d a b] assms push_loop_out [of "mode d'" "buf d' @ b" "out r"]
  by (simp add: push_def)

interpretation chunk_stream: incremental push join_decoded
proof unfold_locales
  fix s a b e
  assume "fst (push s a) = Inl e"
  then obtain d where "push s a = (Inl e, d)" by (cases "push s a") auto
  with push_more [of s a b] show "fst (push s (a @ b)) = Inl e" by simp
next
  fix s a r s' b
  assume "push s a = (Inr r, s')"
  from push_resume [OF this, of b]
  show "fst (push s (a @ b)) = map_sum id (join_decoded r) (fst (push s' b))"
    by (simp add: observed_def add_out_join split_beta)
qed

text \<open>
  A caller that makes one push for each read, hands on what the push returned before it
  reads again, and stops at an error. A push that fails returns
  nothing of what it had decoded, but what earlier pushes returned has been handed on.
\<close>

fun push_reads :: "decoder \<Rightarrow> bytes list \<Rightarrow> bytes \<times> (chunk_error + bool)" where
  "push_reads d [] = ([], Inr (mode d = Done))"
| "push_reads d (b # bs) =
     (case push d b of
        (Inl e, _) \<Rightarrow> ([], Inl e)
      | (Inr r, d') \<Rightarrow>
          if bs = [] then (out r, Inr (is_done r))
          else (case push_reads d' bs of (rest, result) \<Rightarrow> (out r @ rest, result)))"

lemma push_reads_done:
  "bs \<noteq> [] \<Longrightarrow> snd (push_reads d bs) = map_sum id is_done (fst (push d (concat bs)))"
proof (induction bs arbitrary: d)
  case (Cons b bs)
  obtain r d' where p: "push d b = (r, d')" by (cases "push d b")
  show ?case
  proof (cases r)
    case (Inl e)
    with p push_more [of d b "concat bs"] show ?thesis by simp
  next
    case (Inr x)
    show ?thesis
    proof (cases "bs = []")
      case True
      with p Inr show ?thesis by simp
    next
      case False
      from chunk_stream.feed_join [OF p [unfolded Inr], of "concat bs"]
      have "map_sum id is_done (fst (push d (b @ concat bs))) = map_sum id is_done (fst (push d' (concat bs)))"
        by (cases "fst (push d' (concat bs))") (simp_all add: join_decoded_def)
      moreover have "snd (push_reads d (b # bs)) = snd (push_reads d' bs)"
        using p Inr False by (simp add: split_beta)
      ultimately show ?thesis by (simp only: concat.simps Cons.IH [OF False])
    qed
  qed
qed simp

lemma push_reads_out:
  "fst (push d (concat bs)) = Inr r \<Longrightarrow> bs \<noteq> [] \<Longrightarrow> fst (push_reads d bs) = out r"
proof (induction bs arbitrary: d r)
  case (Cons b bs)
  obtain x d' where p: "push d b = (Inr x, d')"
    using Cons.prems push_more [of d b "concat bs"] by (cases "push d b"; cases "fst (push d b)") auto
  from Cons.prems chunk_stream.feed_join [OF p, of "concat bs"] obtain r' where
    r': "fst (push d' (concat bs)) = Inr r'" "r = join_decoded x r'"
    by (cases "fst (push d' (concat bs))") auto
  show ?case
  proof (cases "bs = []")
    case True
    with p Cons.prems show ?thesis by simp
  next
    case False
    with Cons.IH [OF r'(1)] p r'(2) show ?thesis by (simp add: join_decoded_def split_beta)
  qed
qed simp

lemma push_reads_failed:
  "snd (push_reads d bs) = Inl e \<Longrightarrow>
   \<exists>k < length bs. fst (push d (concat (take (Suc k) bs))) = Inl e \<and>
     (k = 0 \<and> fst (push_reads d bs) = [] \<or>
      k \<noteq> 0 \<and> (\<exists>r. fst (push d (concat (take k bs))) = Inr r \<and> fst (push_reads d bs) = out r))"
proof (induction bs arbitrary: d)
  case (Cons b bs)
  obtain r d' where p: "push d b = (r, d')" by (cases "push d b")
  show ?case
  proof (cases r)
    case (Inl e')
    with p Cons.prems show ?thesis by (intro exI [of _ 0]) simp
  next
    case (Inr x)
    note p = p [unfolded Inr]
    with Cons.prems have bs: "bs \<noteq> []" "snd (push_reads d' bs) = Inl e" by (auto simp: split_beta split: if_splits)
    from Cons.IH [OF bs(2)] obtain k where k: "k < length bs"
      "fst (push d' (concat (take (Suc k) bs))) = Inl e"
      "k = 0 \<and> fst (push_reads d' bs) = [] \<or>
       k \<noteq> 0 \<and> (\<exists>r. fst (push d' (concat (take k bs))) = Inr r \<and> fst (push_reads d' bs) = out r)"
      by blast
    have more: "fst (push d (b @ c)) = map_sum id (join_decoded x) (fst (push d' c))" for c
      by (rule chunk_stream.feed_join [OF p])
    have "k \<noteq> 0 \<Longrightarrow> ?thesis"
      using k p bs more by (intro exI [of _ "Suc k"]) (auto simp: split_beta join_decoded_def)
    moreover have "k = 0 \<Longrightarrow> ?thesis"
      using k p bs more [of "concat (take (Suc 0) bs)"] by (intro exI [of _ "Suc 0"]) (auto simp: split_beta)
    ultimately show ?thesis by blast
  qed
qed simp

section \<open>The grammar of a chunked body\<close>

text \<open>
  A chunk on the wire is its size line, a line end, its data and a line end. The number
  of a size line is written in hexadecimal, in either case, with any leading zeros, blanks
  around it and a plus sign before it; an extension from the first semicolon on is the
  sender's choice. It is worth the sum of its digits by position, and fits 64 bits. The
  last chunk has size zero and ends the body; trailers follow it.
\<close>

definition size_text :: "scalars \<Rightarrow> nat \<Rightarrow> bool" where
  "size_text s n \<longleftrightarrow>
     (\<exists>before sign digits after.
        s = before @ sign @ digits @ after \<and>
        list_all is_whitespace before \<and> (sign = [] \<or> sign = cps ''+'') \<and>
        digits \<noteq> [] \<and> spells 16 digits n \<and> list_all is_whitespace after) \<and>
     n < 2 ^ 64"

definition size_line :: "bytes \<Rightarrow> nat \<Rightarrow> bool" where
  "size_line l n \<longleftrightarrow>
     (\<nexists>p q. l = p @ crlf @ q) \<and>
     (\<exists>t ext s. l = t @ ext \<and> 59 \<notin> set t \<and> (ext = [] \<or> hd ext = 59) \<and>
        utf8_decode t = Some s \<and> size_text s n)"

definition good_chunk :: "bytes \<times> bytes \<Rightarrow> bool" where
  "good_chunk c \<longleftrightarrow> snd c \<noteq> [] \<and> size_line (fst c) (length (snd c))"

definition wire_chunk :: "bytes \<times> bytes \<Rightarrow> bytes" where
  "wire_chunk c = fst c @ crlf @ snd c @ crlf"

definition wire_chunks :: "(bytes \<times> bytes) list \<Rightarrow> bytes" where
  "wire_chunks cs = concat (map wire_chunk cs)"

definition payload :: "(bytes \<times> bytes) list \<Rightarrow> bytes" where
  "payload cs = concat (map snd cs)"

definition last_chunk :: "bytes \<Rightarrow> bytes" where
  "last_chunk l = l @ crlf"

text \<open>The decoder reads exactly these numbers off exactly these lines.\<close>

lemma size_text_iff: "size_text s n \<longleftrightarrow> from_str_radix 64 16 (trim s) = Some n"
proof
  assume "size_text s n"
  then obtain before sign ds after where s: "s = before @ sign @ ds @ after"
    "list_all is_whitespace before" "sign = [] \<or> sign = [43]" "ds \<noteq> []" "spells 16 ds n"
    "list_all is_whitespace after" and n: "n < 2 ^ 64"
    by (auto simp: size_text_def)
  have ds: "\<not> is_whitespace c" if "c \<in> set ds" for c
    using spells_char [OF _ s(5) that] by (simp add: is_whitespace_def)
  have "trim (before @ (sign @ ds) @ after) = sign @ ds" unfolding trim_def
  proof (rule trim_by_middle)
    show "\<not> is_whitespace (hd (sign @ ds))" "\<not> is_whitespace (last (sign @ ds))"
      using s(3,4) ds by (auto simp: is_whitespace_def [of 43])
  qed (use s in \<open>simp_all add: list_all_iff\<close>)
  with s n show "from_str_radix 64 16 (trim s) = Some n"
    by (subst from_str_radix_iff) auto
next
  assume a: "from_str_radix 64 16 (trim s) = Some n"
  obtain before after where s: "s = before @ trim s @ after" "\<forall>x \<in> set before. is_whitespace x"
    "\<forall>x \<in> set after. is_whitespace x"
    unfolding trim_def by (rule trim_by_split)
  from a obtain sign ds where t: "trim s = sign @ ds" "sign = [] \<or> sign = [43]" "ds \<noteq> []"
    "spells 16 ds n" and n: "n < 2 ^ 64"
    by (subst (asm) from_str_radix_iff) auto
  from s t n show "size_text s n" unfolding size_text_def
    by (intro conjI exI [of _ before] exI [of _ sign] exI [of _ ds] exI [of _ after])
       (simp_all add: list_all_iff)
qed

lemma no_crlf_iff: "(\<nexists>p q. l = p @ crlf @ q) \<longleftrightarrow> find_sub crlf l = None"
proof -
  have "(\<exists>p q. l = p @ crlf @ q) \<longleftrightarrow> (\<exists>i. take (length crlf) (drop i l) = crlf)"
  proof
    assume "\<exists>i. take (length crlf) (drop i l) = crlf"
    then obtain i where "take (length crlf) (drop i l) = crlf" ..
    then have "l = take i l @ crlf @ drop (length crlf) (drop i l)"
      by (metis append_take_drop_id)
    then show "\<exists>p q. l = p @ crlf @ q" by blast
  next
    assume "\<exists>p q. l = p @ crlf @ q"
    then obtain p q where "l = p @ crlf @ q" by blast
    then have "take (length crlf) (drop (length p) l) = crlf" by (simp only: drop_append) simp
    then show "\<exists>i. take (length crlf) (drop i l) = crlf" ..
  qed
  then show ?thesis by (simp add: find_sub_None_iff crlf_def)
qed

lemma chunk_size_text:
  "chunk_size l = Inr n \<longleftrightarrow>
     (\<exists>t ext s. l = t @ ext \<and> 59 \<notin> set t \<and> (ext = [] \<or> hd ext = 59) \<and>
        utf8_decode t = Some s \<and> size_text s n)" (is "?L \<longleftrightarrow> ?R")
proof
  assume ?L
  show ?R
  proof (cases "position 59 l")
    case None
    with \<open>?L\<close> obtain s where "utf8_decode l = Some s" "size_text s n"
      by (auto simp: chunk_size_def size_text_iff split: option.splits)
    moreover have "59 \<notin> set l" using None by (simp add: position_None_iff)
    ultimately have "l = l @ [] \<and> 59 \<notin> set l \<and> ([] = [] \<or> hd [] = 59) \<and>
        utf8_decode l = Some s \<and> size_text s n" by simp
    then show ?thesis by blast
  next
    case (Some i)
    from position_SomeD [OF this] have "59 \<notin> set (take i l)" "hd (drop i l) = 59"
      by (simp_all add: hd_drop_conv_nth)
    moreover from Some \<open>?L\<close> obtain s where "utf8_decode (take i l) = Some s" "size_text s n"
      by (auto simp: chunk_size_def size_text_iff split: option.splits)
    ultimately have "l = take i l @ drop i l \<and> 59 \<notin> set (take i l) \<and>
        (drop i l = [] \<or> hd (drop i l) = 59) \<and> utf8_decode (take i l) = Some s \<and> size_text s n"
      by simp
    then show ?thesis by blast
  qed
next
  assume ?R
  then obtain t ext s where t: "l = t @ ext" "59 \<notin> set t" "ext = [] \<or> hd ext = 59"
    "utf8_decode t = Some s" "from_str_radix 64 16 (trim s) = Some n" by (auto simp: size_text_iff)
  then have "(case position 59 l of Some i \<Rightarrow> take i l | None \<Rightarrow> l) = t"
    by (cases ext) (simp_all add: position_append_notin position_None_iff [THEN iffD2])
  then show ?L using t(4,5) by (simp add: chunk_size_def)
qed

lemma size_line_iff: "size_line l n \<longleftrightarrow> find_sub crlf l = None \<and> chunk_size l = Inr n"
  unfolding size_line_def chunk_size_text no_crlf_iff by (rule refl)

lemma find_sub_line_end: "find_sub crlf l = None \<Longrightarrow> find_sub crlf (l @ crlf @ r) = Some (length l)"
proof (induction l)
  case Nil
  then show ?case by (simp add: crlf_def)
next
  case (Cons x l)
  then have "find_sub crlf (l @ crlf @ r) = Some (length l)" and t: "take 2 (x # l) \<noteq> crlf"
    by (auto split: if_splits)
  moreover have "take 2 (x # l @ crlf @ r) \<noteq> crlf"
    using t by (cases l) (auto simp: crlf_def)
  ultimately show ?case by simp
qed

lemma push_loop_line:
  assumes "size_line l n" "n \<noteq> 0"
  shows "push_loop Size (l @ crlf @ r) acc = push_loop (Body n) r acc"
  using assms by (simp add: push_loop.simps(1) find_sub_line_end size_line_iff)

lemma push_loop_body: "push_loop (Body (length data)) (data @ r) acc =
    (if data = [] then push_loop CrLf r acc else push_loop CrLf r (acc @ data))"
  by (simp add: push_loop.simps(2) Let_def)

lemma push_loop_crlf: "push_loop CrLf (crlf @ r) acc = push_loop Size r acc"
  by (simp add: push_loop.simps(3) crlf_def)

lemma push_loop_chunk:
  "good_chunk c \<Longrightarrow> push_loop Size (wire_chunk c @ r) acc = push_loop Size r (acc @ snd c)"
  by (auto simp: good_chunk_def wire_chunk_def push_loop_line push_loop_body push_loop_crlf)

lemma push_loop_chunks:
  "\<forall>c \<in> set cs. good_chunk c \<Longrightarrow>
   push_loop Size (wire_chunks cs @ r) acc = push_loop Size r (acc @ payload cs)"
  by (induction cs arbitrary: acc) (simp_all add: wire_chunks_def payload_def push_loop_chunk)

lemma push_loop_last:
  "size_line l 0 \<Longrightarrow> push_loop Size (last_chunk l @ trailer) acc =
     (Inr \<lparr>out = acc, is_done = True\<rparr>, \<lparr>buf = [], mode = Done\<rparr>)"
  by (simp add: last_chunk_def push_loop.simps(1) find_sub_line_end size_line_iff)

text \<open>A whole body: chunks, the last chunk, and anything after it.\<close>

definition chunked_body :: "bytes \<Rightarrow> bytes \<Rightarrow> bool" where
  "chunked_body b body \<longleftrightarrow>
     (\<exists>cs l t. list_all good_chunk cs \<and> size_line l 0 \<and>
        b = wire_chunks cs @ last_chunk l @ t \<and> body = payload cs)"

lemma chunked_body_decodes:
  "chunked_body b body \<Longrightarrow>
   push_loop Size b acc = (Inr \<lparr>out = acc @ body, is_done = True\<rparr>, \<lparr>buf = [], mode = Done\<rparr>)"
  by (auto simp: chunked_body_def push_loop_chunks push_loop_last list_all_iff)

lemma chunked_body_last: "size_line l 0 \<Longrightarrow> chunked_body (l @ crlf @ t) []"
  unfolding chunked_body_def
  by (rule exI [of _ "[]"]) (auto simp: wire_chunks_def payload_def last_chunk_def)

lemma chunked_body_chunk:
  assumes "good_chunk c" "chunked_body b body"
  shows "chunked_body (wire_chunk c @ b) (snd c @ body)"
proof -
  from assms(2) obtain cs l t where "list_all good_chunk cs" "size_line l 0"
    "b = wire_chunks cs @ last_chunk l @ t" "body = payload cs"
    by (auto simp: chunked_body_def)
  with assms(1) show ?thesis unfolding chunked_body_def
    by (intro exI [of _ "c # cs"] exI [of _ l] exI [of _ t]) (simp add: wire_chunks_def payload_def)
qed

lemma found_line:
  assumes "find_sub crlf b = Some nl"
  shows "find_sub crlf (take nl b) = None" "b = take nl b @ crlf @ drop (nl + 2) b"
proof -
  from find_sub_SomeD [OF assms] have nl: "nl + 2 \<le> length b" "take 2 (drop nl b) = crlf"
    by simp_all
  show "find_sub crlf (take nl b) = None"
  proof (subst find_sub_None_iff, goal_cases)
    case 2
    show ?case
    proof
      fix i
      show "take (length crlf) (drop i (take nl b)) \<noteq> crlf"
      proof (cases "i + 2 \<le> nl")
        case True
        then have "take 2 (drop i (take nl b)) = take 2 (drop i b)"
          by (simp add: drop_take min_absorb1)
        with True find_sub_first [OF assms, of i] show ?thesis by simp
      next
        case False
        then have "length (take (length crlf) (drop i (take nl b))) < 2" by simp
        then show ?thesis by (metis length_crlf less_irrefl)
      qed
    qed
  qed (simp add: crlf_def)
  show "b = take nl b @ crlf @ drop (nl + 2) b"
    using nl(2) by (metis append_take_drop_id drop_drop add.commute)
qed

text \<open>What is left to read from each mode when a body ends.\<close>

definition rest_of_body :: "mode \<Rightarrow> bytes \<Rightarrow> bytes \<Rightarrow> bool" where
  "rest_of_body m b body \<longleftrightarrow>
     (case m of
        Size \<Rightarrow> chunked_body b body
      | Body r \<Rightarrow> (\<exists>data b' body'. length data = r \<and> b = data @ crlf @ b' \<and>
          chunked_body b' body' \<and> body = data @ body')
      | CrLf \<Rightarrow> (\<exists>b'. b = crlf @ b' \<and> chunked_body b' body)
      | Done \<Rightarrow> body = [])"

lemma rest_of_body_BodyI:
  "length data = r \<Longrightarrow> chunked_body b' body \<Longrightarrow>
   rest_of_body (Body r) (data @ crlf @ b') (data @ body)"
  by (auto simp: rest_of_body_def)

lemma push_loop_done:
  "push_loop m b acc = (Inr x, d) \<Longrightarrow> is_done x \<Longrightarrow>
   \<exists>body. out x = acc @ body \<and> rest_of_body m b body"
proof (induction m b acc rule: push_loop.induct)
  case (1 b acc)
  then obtain nl where nl: "find_sub crlf b = Some nl"
    by (cases "find_sub crlf b") (auto simp: push_loop.simps(1) [of b])
  note line = found_line [OF nl]
  from 1 nl obtain n where n: "chunk_size (take nl b) = Inr n"
    by (cases "chunk_size (take nl b)") (auto simp: push_loop.simps(1) [of b])
  with line have size: "size_line (take nl b) n" by (simp add: size_line_iff)
  show ?case
  proof (cases "n = 0")
    case True
    from size True have "chunked_body (take nl b @ crlf @ drop (nl + 2) b) []"
      by (intro chunked_body_last) simp
    then have "chunked_body b []" by (simp only: line(2) [symmetric])
    with 1(2,3) nl n True show ?thesis
      by (auto simp: push_loop.simps(1) [of b] rest_of_body_def)
  next
    case False
    with 1(2) nl n have "push_loop (Body n) (drop (nl + 2) b) acc = (Inr x, d)"
      by (simp add: push_loop.simps(1) [of b])
    from 1(1) [OF nl n False this 1(3)] obtain data b' body' where
      b: "drop (nl + 2) b = data @ crlf @ b'" "length data = n" "chunked_body b' body'"
        "out x = acc @ data @ body'"
      by (auto simp: rest_of_body_def)
    have "good_chunk (take nl b, data)" using size b(2) False by (auto simp: good_chunk_def)
    from chunked_body_chunk [OF this b(3)] line(2) b(1)
    have "chunked_body b (data @ body')" by (metis append.assoc fst_conv snd_conv wire_chunk_def)
    with b(4) show ?thesis by (simp add: rest_of_body_def)
  qed
next
  case (2 remaining b acc)
  show ?case
  proof (cases "remaining = 0")
    case True
    with 2(1,3,4) show ?thesis by (auto simp: push_loop.simps(2) [of 0] rest_of_body_def)
  next
    case False
    let ?n = "min remaining (length b)" and ?left = "remaining - min remaining (length b)"
    have n: "?n \<noteq> 0" and
      go: "push_loop (if ?left = 0 then CrLf else Body ?left) (drop ?n b) (acc @ take ?n b) = (Inr x, d)"
      using 2(3,4) False by (auto simp: push_loop.simps(2) [of remaining b] Let_def split: if_splits)
    from 2(2) [OF False refl n refl go 2(4)] obtain body where
      body: "out x = acc @ take ?n b @ body"
        "rest_of_body (if ?left = 0 then CrLf else Body ?left) (drop ?n b) body" by auto
    have "rest_of_body (Body remaining) b (take ?n b @ body)"
    proof (cases "?left = 0")
      case True
      with body(2) obtain b' where "drop ?n b = crlf @ b'" "chunked_body b' body"
        by (auto simp: rest_of_body_def)
      moreover have "length (take ?n b) = remaining" using True by simp
      ultimately have "rest_of_body (Body remaining) (take ?n b @ drop ?n b) (take ?n b @ body)"
        by (simp only:) (rule rest_of_body_BodyI)
      then show ?thesis by (simp only: append_take_drop_id)
    next
      case left: False
      then have "?n = length b" by simp
      with body(2) left show ?thesis by (auto simp: rest_of_body_def crlf_def)
    qed
    with body(1) show ?thesis by blast
  qed
next
  case (3 b acc)
  then have b: "2 \<le> length b" "take 2 b = crlf" "push_loop Size (drop 2 b) acc = (Inr x, d)"
    by (auto simp: push_loop.simps(3) [of b] split: if_splits)
  with 3(1,3) obtain body where "out x = acc @ body" "chunked_body (drop 2 b) body"
    by (auto simp: rest_of_body_def)
  moreover have "b = crlf @ drop 2 b" using b(2) by (metis append_take_drop_id)
  ultimately show ?case by (auto simp: rest_of_body_def)
next
  case (4 b acc)
  then show ?case by (auto simp: push_loop.simps(4) rest_of_body_def)
qed

section \<open>Properties\<close>

lemma push_new: "push new_decoder b = push_loop Size b []"
  by (simp add: push_def new_decoder_def)

text \<open>
  C35: The decoder reports the end of a body, with payload \<open>body\<close>, exactly for the inputs
  that are chunks whose data concatenate to \<open>body\<close>, followed by a last chunk of size
  zero and anything at all: nothing else is taken for an end, and no framing byte ever
  reaches the output.
\<close>
theorem chunked_decode_exact:
  "(\<exists>d. push new_decoder b = (Inr \<lparr>out = body, is_done = True\<rparr>, d)) \<longleftrightarrow> chunked_body b body"
proof
  assume "\<exists>d. push new_decoder b = (Inr \<lparr>out = body, is_done = True\<rparr>, d)"
  then obtain d where "push_loop Size b [] = (Inr \<lparr>out = body, is_done = True\<rparr>, d)"
    by (auto simp: push_new)
  from push_loop_done [OF this] show "chunked_body b body" by (simp add: rest_of_body_def)
next
  assume "chunked_body b body"
  from chunked_body_decodes [OF this, of "[]"]
  show "\<exists>d. push new_decoder b = (Inr \<lparr>out = body, is_done = True\<rparr>, d)" by (simp add: push_new)
qed

text \<open>
  C36: Where the reads fall decides neither how a stream ends (in an error, which one, or
  with the body complete or not) nor, when there is no error, which bytes are handed on:
  both are those of one push of everything. When a read fails, the bytes handed on are
  those that one push of the reads before it gives. So the bytes that come before an error
  do depend on where the reads fall: three bytes of a chunk followed, instead of the line
  end, by other bytes are handed on when they arrive in a read of their own, and lost when
  the other bytes arrive in the same read.
\<close>
theorem chunked_read_boundaries:
  "snd (push_reads d (b # bs)) = map_sum id is_done (fst (push d (concat (b # bs)))) \<and>
   (case fst (push d (concat (b # bs))) of
      Inr r \<Rightarrow> fst (push_reads d (b # bs)) = out r
    | Inl e \<Rightarrow>
        (\<exists>k. k < length (b # bs) \<and>
           fst (push d (concat (take (Suc k) (b # bs)))) = Inl e \<and>
           (if k = 0 then fst (push_reads d (b # bs)) = []
            else \<exists>r. fst (push d (concat (take k (b # bs)))) = Inr r \<and>
                   fst (push_reads d (b # bs)) = out r))) \<and>
   push_reads new_decoder [asc ''3'' @ crlf @ asc ''abc'', asc ''xyz''] =
     (asc ''abc'', Inl (MalformedChunk ''missing CRLF after chunk'')) \<and>
   push_reads new_decoder [asc ''3'' @ crlf @ asc ''abcxyz''] =
     ([], Inl (MalformedChunk ''missing CRLF after chunk''))"
proof (intro conjI)
  show res: "snd (push_reads d (b # bs)) = map_sum id is_done (fst (push d (concat (b # bs))))"
    by (rule push_reads_done) simp
  show "case fst (push d (concat (b # bs))) of
      Inr r \<Rightarrow> fst (push_reads d (b # bs)) = out r
    | Inl e \<Rightarrow>
        (\<exists>k. k < length (b # bs) \<and>
           fst (push d (concat (take (Suc k) (b # bs)))) = Inl e \<and>
           (if k = 0 then fst (push_reads d (b # bs)) = []
            else \<exists>r. fst (push d (concat (take k (b # bs)))) = Inr r \<and>
                   fst (push_reads d (b # bs)) = out r))"
  proof (cases "fst (push d (concat (b # bs)))")
    case (Inr r)
    with push_reads_out [of d "b # bs" r] show ?thesis by simp
  next
    case (Inl e)
    with res have "snd (push_reads d (b # bs)) = Inl e" by simp
    from push_reads_failed [OF this] obtain k where k: "k < length (b # bs)"
      "fst (push d (concat (take (Suc k) (b # bs)))) = Inl e"
      "k = 0 \<and> fst (push_reads d (b # bs)) = [] \<or>
       k \<noteq> 0 \<and> (\<exists>r. fst (push d (concat (take k (b # bs)))) = Inr r \<and> fst (push_reads d (b # bs)) = out r)"
      by blast
    from k(3) have "if k = 0 then fst (push_reads d (b # bs)) = []
      else \<exists>r. fst (push d (concat (take k (b # bs)))) = Inr r \<and> fst (push_reads d (b # bs)) = out r"
      by (cases "k = 0") (simp_all only: if_True if_False simp_thms)
    with k(1,2) show ?thesis unfolding Inl sum.case by blast
  qed
qed (simp_all add: push_new push_def push_loop.simps chunk_size_def crlf_def trim_def trim_by_def
    is_whitespace_def from_str_radix_def to_digit_def new_decoder_def Let_def)

lemma chunked_streams_promptly_base:
  assumes "list_all good_chunk cs" "good_chunk (l, data)" "k < length data"
  shows "push new_decoder (wire_chunks cs @ l @ crlf @ take k data) =
    (Inr \<lparr>out = payload cs @ take k data, is_done = False\<rparr>,
     \<lparr>buf = [], mode = Body (length data - k)\<rparr>)"
proof -
  have "size_line l (length data)" "length data \<noteq> 0"
    using assms(2) by (simp_all add: good_chunk_def)
  moreover have "data \<noteq> []" using assms(3) by auto
  ultimately show ?thesis
    using push_loop_line [of l "length data" "take k data"] assms
    by (simp add: push_new push_loop_chunks list_all_iff push_loop.simps(2) Let_def min_def)
qed

text \<open>
  Streaming: after any number of complete chunks and the first \<open>k\<close> bytes of the
  next one, all of that data, and nothing more, has been handed out, and the decoder
  waits for exactly the missing bytes.
\<close>
lemma chunked_streams_promptly:
  assumes "list_all good_chunk cs" "good_chunk (l, data)" "k < length data"
  shows "push new_decoder (wire_chunks cs @ l @ crlf @ take k data) =
    (Inr \<lparr>out = payload cs @ take k data, is_done = False\<rparr>,
     \<lparr>buf = [], mode = Body (length data - k)\<rparr>)"
  using assms by (rule chunked_streams_promptly_base)

lemma example_chunk: "good_chunk (asc ''3'', [1, 2, 3])"
  by (simp add: good_chunk_def size_line_iff chunk_size_def crlf_def trim_def trim_by_def
      is_whitespace_def from_str_radix_def to_digit_def)

lemma chunked_streams_promptly_witness:
  "push new_decoder (wire_chunks [(asc ''3'', [1, 2, 3])] @ asc ''3'' @ crlf @ [1]) =
    (Inr \<lparr>out = [1, 2, 3, 1], is_done = False\<rparr>, \<lparr>buf = [], mode = Body 2\<rparr>)"
  using chunked_streams_promptly [of "[(asc ''3'', [1, 2, 3])]" "asc ''3''" "[1, 2, 3]" 1] example_chunk
  by (simp add: payload_def)

text \<open>
  A stream that breaks off inside a chunk is an error at end of file, and no byte of
  the unfinished chunk is left in the decoder.
\<close>
theorem chunked_eof_mid_chunk:
  assumes "list_all good_chunk cs" "good_chunk (l, data)" "k < length data"
    and "push new_decoder (wire_chunks cs @ l @ crlf @ take k data) = (r, d)"
  shows "fst (feed_eof d) = Inl (MalformedChunk ''eof mid chunk body'') \<and> buf (snd (feed_eof d)) = []"
  using chunked_streams_promptly_base [OF assms(1-3)] assms(4) by (auto simp: feed_eof_def)

theorem chunked_eof_mid_chunk_witness:
  "fst (feed_eof \<lparr>buf = [], mode = Body 2\<rparr>) = Inl (MalformedChunk ''eof mid chunk body'')"
proof -
  have "push new_decoder (wire_chunks [] @ asc ''3'' @ crlf @ take 1 [1, 2, 3]) =
      (Inr \<lparr>out = [1], is_done = False\<rparr>, \<lparr>buf = [], mode = Body 2\<rparr>)"
    using chunked_streams_promptly_base [of "[]" "asc ''3''" "[1, 2, 3]" 1] example_chunk
    by (simp add: payload_def)
  from chunked_eof_mid_chunk [OF _ example_chunk _ this] show ?thesis by simp
qed

text \<open>
  After a protocol error the decoder is in its final mode: whatever is pushed next is
  reported as the clean end of a body, with no output, and end of file is no error.
\<close>
theorem chunked_error_looks_finished:
  assumes "push d a = (Inl e, d')"
  shows "fst (push d' b) = Inr \<lparr>out = [], is_done = True\<rparr> \<and> fst (feed_eof d') = Inr []"
proof -
  from push_more [of d a "[]"] assms have "mode d' = Done" by simp
  then show ?thesis by (simp add: push_def push_loop.simps(4) feed_eof_def)
qed

theorem chunked_error_looks_finished_witness:
  "fst (push \<lparr>buf = asc ''xyz'' @ crlf, mode = Done\<rparr> [1]) = Inr \<lparr>out = [], is_done = True\<rparr>"
proof -
  have "push new_decoder (asc ''xyz'' @ crlf) =
      (Inl (MalformedChunk ''chunk size not hex''), \<lparr>buf = asc ''xyz'' @ crlf, mode = Done\<rparr>)"
    by (simp add: push_new push_loop.simps(1) chunk_size_def crlf_def trim_def trim_by_def
        is_whitespace_def from_str_radix_def to_digit_def)
  from chunked_error_looks_finished [OF this] show ?thesis by blast
qed

end
