(* ===== verification/Proxy.thy ===== *)
theory Proxy
  imports Headers
begin

text \<open>
  The local reverse proxy and the two checks the whole crate shares (\<open>proxy.rs\<close>): the
  bearer-token comparison and the definition of loopback. The URI types of the \<open>http\<close>
  crate and the address parsers are fields of a record argument; header values are the
  ones of \<open>header_api\<close>. Connections and the engine's answer are arguments.
\<close>

section \<open>Bearer tokens\<close>

text \<open>The loop accumulates \<open>diff |= x ^ y\<close> over all bytes, without an early exit.\<close>

definition constant_eq :: "bytes \<Rightarrow> bytes \<Rightarrow> bool" where
  "constant_eq a b =
     (if length a \<noteq> length b then False
      else foldl (\<lambda>diff (x, y). or diff (xor x y)) 0 (zip a b) = 0)"

definition strip_prefix :: "bytes \<Rightarrow> bytes \<Rightarrow> bytes option" where
  "strip_prefix p s = (if take (length p) s = p then Some (drop (length p) s) else None)"

definition authorized :: "'h header_api \<Rightarrow> 'h \<Rightarrow> bytes \<Rightarrow> bool" where
  "authorized H headers expected =
     (case hm_get H headers (asc ''authorization'') of
        None \<Rightarrow> False
      | Some v \<Rightarrow>
          (case hv_to_str H v of
             None \<Rightarrow> False
           | Some s \<Rightarrow>
               (case strip_prefix (asc ''Bearer '') s of
                  Some got \<Rightarrow> constant_eq got expected
                | None \<Rightarrow> False)))"

section \<open>Addresses\<close>

datatype ip_addr = V4 "32 word" | V6 "128 word"

text \<open>\<open>IpAddr::is_loopback\<close>: \<open>127.0.0.0/8\<close> and \<open>::1\<close>, no mapped addresses.\<close>

fun ip_is_loopback :: "ip_addr \<Rightarrow> bool" where
  "ip_is_loopback (V4 w) \<longleftrightarrow> unat w div 2 ^ 24 = 127"
| "ip_is_loopback (V6 w) \<longleftrightarrow> w = 1"

definition LOCALHOST :: ip_addr where "LOCALHOST = V4 0x7F000001"

type_synonym socket_addr = "ip_addr \<times> 16 word"

record uri =
  u_scheme :: "bytes option"
  u_authority :: "bytes option"
  u_host :: "bytes option"
  u_path :: bytes
  u_query :: "bytes option"
  u_text :: bytes                       \<comment> \<open>\<open>to_string\<close>\<close>

record net_api =
  n_parse_uri :: "bytes \<Rightarrow> uri option"
  n_parse_socket :: "bytes \<Rightarrow> socket_addr option"
  n_parse_ip :: "bytes \<Rightarrow> ip_addr option"
  n_parse_authority :: "bytes \<Rightarrow> (bytes \<times> bytes option) option"  \<comment> \<open>host and port text of an authority\<close>
  n_parse_port :: "bytes \<Rightarrow> 16 word option"

definition is_loopback_addr :: "socket_addr \<Rightarrow> bool" where
  "is_loopback_addr addr = ip_is_loopback (fst addr)"

definition trim_brackets :: "bytes \<Rightarrow> bytes" where
  "trim_brackets = trim_by (\<lambda>b. b = 91 \<or> b = 93)"

datatype authority_error = InvalidAuthority | NotLoopback

text \<open>The authority text of a URL, or the text itself.\<close>

definition bare_authority :: "net_api \<Rightarrow> bytes \<Rightarrow> authority_error + bytes" where
  "bare_authority N authority =
     (if find_sub (asc ''://'') authority = None then Inr authority
      else (case n_parse_uri N authority of
              None \<Rightarrow> Inl InvalidAuthority
            | Some u \<Rightarrow>
                if u_scheme u \<noteq> Some (asc ''http'') \<or> u_query u \<noteq> None \<or> 35 \<in> set authority
                then Inl InvalidAuthority
                else ok_or InvalidAuthority (u_authority u)))"

definition named_address :: "net_api \<Rightarrow> bytes \<Rightarrow> 16 word \<Rightarrow> authority_error + socket_addr" where
  "named_address N authority default_port =
     (case n_parse_authority N authority of
        None \<Rightarrow> Inl InvalidAuthority
      | Some (host, port) \<Rightarrow>
          let host = trim_brackets host in
          try_then (if eq_ignore_case host (asc ''localhost'') then Inr LOCALHOST
                    else ok_or InvalidAuthority (n_parse_ip N host)) (\<lambda>ip.
          try_then (case port of Some p \<Rightarrow> ok_or InvalidAuthority (n_parse_port N p)
                    | None \<Rightarrow> Inr default_port) (\<lambda>port.
          Inr (ip, port))))"

definition loopback_authority :: "net_api \<Rightarrow> bytes \<Rightarrow> 16 word \<Rightarrow> authority_error + socket_addr" where
  "loopback_authority N authority default_port =
     try_then (bare_authority N authority) (\<lambda>authority.
     if 64 \<in> set authority then Inl InvalidAuthority
     else try_then
       (case n_parse_socket N authority of
          Some addr \<Rightarrow> Inr addr
        | None \<Rightarrow>
            (case n_parse_ip N (trim_brackets authority) of
               Some ip \<Rightarrow> Inr (ip, default_port)
             | None \<Rightarrow> named_address N authority default_port)) (\<lambda>addr.
     if \<not> ip_is_loopback (fst addr) then Inl NotLoopback else Inr addr))"

definition is_loopback :: "net_api \<Rightarrow> uri \<Rightarrow> bool" where
  "is_loopback N u = (case loopback_authority N (u_text u) 80 of Inr _ \<Rightarrow> True | Inl _ \<Rightarrow> False)"

section \<open>Requests\<close>

definition forward_uri :: "net_api \<Rightarrow> uri \<Rightarrow> uri \<Rightarrow> uri option" where
  "forward_uri N upstream req =
     (let scheme = (case u_scheme upstream of Some s \<Rightarrow> s | None \<Rightarrow> asc ''http'') in
      case u_authority upstream of
        None \<Rightarrow> None
      | Some authority \<Rightarrow>
          let path = (if u_path req = [] then asc ''/'' else u_path req);
              qs = (case u_query req of Some q \<Rightarrow> asc ''?'' @ q | None \<Rightarrow> [])
          in n_parse_uri N (scheme @ asc ''://'' @ authority @ path @ qs))"

record 'h proxy_request =
  pr_method :: bytes
  pr_uri :: uri
  pr_headers :: 'h

text \<open>\<open>rebuild_request\<close>: \<open>ok\<close> says whether a header value can be made of the authority.\<close>

definition rebuild_request ::
    "'h header_api \<Rightarrow> (bytes \<Rightarrow> bool) \<Rightarrow> bytes \<Rightarrow> uri \<Rightarrow> 'h \<Rightarrow> string + 'h proxy_request" where
  "rebuild_request H ok meth u headers =
     (case u_authority u of
        Some auth \<Rightarrow>
          if ok auth
          then Inr \<lparr>pr_method = meth, pr_uri = u, pr_headers = hm_insert H headers (asc ''host'') auth\<rparr>
          else Inl ''invalid header value''
      | None \<Rightarrow> Inr \<lparr>pr_method = meth, pr_uri = u, pr_headers = headers\<rparr>)"

text \<open>
  What the proxy sends and where: the address and the request, or the error text. The
  connection and the exchange are up to the engine (\<open>exchange\<close>).
\<close>

definition prepare ::
    "'h header_api \<Rightarrow> net_api \<Rightarrow> (bytes \<Rightarrow> bool) \<Rightarrow> uri \<Rightarrow> 'h proxy_request \<Rightarrow>
     string + socket_addr \<times> 'h proxy_request" where
  "prepare H N ok upstream req =
     try_then (ok_or ''unparseable request URI'' (forward_uri N upstream (pr_uri req))) (\<lambda>u.
     let headers = snd (strip_hop_by_hop H (pr_headers req)) in
     try_then (ok_or ''upstream has no authority'' (u_authority upstream)) (\<lambda>host.
     try_then (case loopback_authority N host 80 of
                 Inr a \<Rightarrow> Inr a | Inl _ \<Rightarrow> Inl ''upstream unreachable'') (\<lambda>addr.
     try_then (rebuild_request H ok (pr_method req) u headers) (\<lambda>r. Inr (addr, r)))))"

record 'h proxy =
  px_upstream :: uri
  px_token :: "bytes option"

datatype 'a proxy_answer = Text nat bytes | Relay 'a

definition proxy_handle ::
    "'h header_api \<Rightarrow> net_api \<Rightarrow> (bytes \<Rightarrow> bool) \<Rightarrow> (socket_addr \<Rightarrow> 'h proxy_request \<Rightarrow> string + 'a) \<Rightarrow>
     'h proxy \<Rightarrow> 'h proxy_request \<Rightarrow> 'a proxy_answer \<times> (socket_addr \<times> 'h proxy_request) option" where
  "proxy_handle H N ok exchange p req =
     (if (case px_token p of Some expected \<Rightarrow> \<not> authorized H (pr_headers req) expected | None \<Rightarrow> False)
      then (Text 401 (asc ''unauthorized'' @ [10]), None)
      else if \<not> is_loopback N (px_upstream p)
      then (Text 503 (asc ''upstream is not loopback; refusing to proxy off-host'' @ [10]), None)
      else if pr_method req = asc ''GET'' \<and> u_path (pr_uri req) = asc ''/-ring/health''
      then (Text 200 (asc ''ok'' @ [10]), None)
      else (case prepare H N ok (px_upstream p) req of
              Inl e \<Rightarrow> (Text 502 (asc (''upstream error: '' @ e) @ [10]), None)
            | Inr (addr, r) \<Rightarrow>
                (case exchange addr r of
                   Inl e \<Rightarrow> (Text 502 (asc (''upstream error: '' @ e) @ [10]), Some (addr, r))
                 | Inr a \<Rightarrow> (Relay a, Some (addr, r)))))"

section \<open>Lemmas\<close>

lemma or_eq_0_iff: "or a b = 0 \<longleftrightarrow> a = 0 \<and> b = 0" for a b :: byte
  by (auto simp: bit_eq_iff bit_or_iff)

lemma xor_eq_0_iff: "xor a b = 0 \<longleftrightarrow> a = b" for a b :: byte
  by (metis xor_self_eq bit.xor_left_self xor.right_neutral)

lemma constant_eq_fold:
  "foldl (\<lambda>diff (x, y). or diff (xor x y)) d (zip a b) = 0 \<longleftrightarrow>
     d = 0 \<and> (\<forall>(x, y) \<in> set (zip a b). x = y)" for d :: byte
proof (induction a arbitrary: b d)
  case (Cons x a)
  then show ?case by (cases b) (auto simp: or_eq_0_iff xor_eq_0_iff)
qed simp

lemma constant_eq_iff: "constant_eq a b \<longleftrightarrow> a = b"
proof (cases "length a = length b")
  case True
  then have "(\<forall>(x, y) \<in> set (zip a b). x = y) \<longleftrightarrow> a = b"
    by (induction rule: list_induct2) auto
  with True show ?thesis by (simp add: constant_eq_def constant_eq_fold)
qed (auto simp: constant_eq_def)

lemma strip_prefix_Some: "strip_prefix p s = Some r \<longleftrightarrow> s = p @ r"
  by (auto simp: strip_prefix_def) (metis append_take_drop_id)

lemma strip_prefix_append [simp]: "strip_prefix p (p @ r) = Some r"
  by (simp add: strip_prefix_Some)

lemma relabel_Inr_iff:
  "(case x of Inr a \<Rightarrow> Inr a | Inl _ \<Rightarrow> Inl e) = Inr y \<longleftrightarrow> x = Inr y"
  by (cases x) auto

lemma loopback_authority_loopback:
  "loopback_authority N a port = Inr addr \<Longrightarrow> is_loopback_addr addr"
  by (auto simp: loopback_authority_def is_loopback_addr_def try_then_Inr_iff split: if_splits)


section \<open>Properties\<close>

text \<open>
  The token check accepts exactly one thing: a first \<open>Authorization\<close> value that is
  readable text, starts with \<open>Bearer\<close> and one space, and continues with the expected
  token, byte for byte and to its end; the comparison that never stops early decides
  equality.
\<close>
lemma authorized_exact:
  "authorized H headers expected \<longleftrightarrow>
     (\<exists>v. hm_get H headers (asc ''authorization'') = Some v \<and>
        hv_to_str H v = Some (asc ''Bearer '' @ expected))"
  unfolding authorized_def
  by (auto simp: constant_eq_iff strip_prefix_Some simp del: asc_simps split: option.split)

lemma prepare_InrD:
  assumes "prepare H N ok up req = Inr (addr, r)"
  shows "is_loopback_addr addr"
    "\<exists>u. forward_uri N up (pr_uri req) = Some u \<and>
       pr_headers r = (case u_authority u of
         Some auth \<Rightarrow> hm_insert H (snd (strip_hop_by_hop H (pr_headers req))) (asc ''host'') auth
       | None \<Rightarrow> snd (strip_hop_by_hop H (pr_headers req)))"
proof -
  obtain host where "loopback_authority N host 80 = Inr addr"
    using assms
    by (auto simp: prepare_def Let_def try_then_Inr_iff relabel_Inr_iff simp del: asc_simps)
  then show "is_loopback_addr addr" by (rule loopback_authority_loopback)
  from assms obtain u where u: "forward_uri N up (pr_uri req) = Some u"
    "rebuild_request H ok (pr_method req) u (snd (strip_hop_by_hop H (pr_headers req))) = Inr r"
    by (auto simp: prepare_def Let_def try_then_Inr_iff relabel_Inr_iff simp del: asc_simps)
  from u(2) have "pr_headers r = (case u_authority u of
      Some auth \<Rightarrow> hm_insert H (snd (strip_hop_by_hop H (pr_headers req))) (asc ''host'') auth
    | None \<Rightarrow> snd (strip_hop_by_hop H (pr_headers req)))"
    by (cases "u_authority u") (auto simp: rebuild_request_def simp del: asc_simps split: if_splits)
  with u(1) show "\<exists>u. forward_uri N up (pr_uri req) = Some u \<and>
       pr_headers r = (case u_authority u of
         Some auth \<Rightarrow> hm_insert H (snd (strip_hop_by_hop H (pr_headers req))) (asc ''host'') auth
       | None \<Rightarrow> snd (strip_hop_by_hop H (pr_headers req)))" by blast
qed

text \<open>
  C26: The proxy reaches only the local engine, and only for authenticated callers: whatever
  it sends goes to a loopback address, after the token check when a token is configured,
  and carries none of the caller's hop-by-hop fields; a caller without the token gets 401
  and nothing is sent.
\<close>
theorem proxy_confined:
  assumes "header_map H" "proxy_handle H N ok exchange p req = (answer, sent)"
  shows "(\<forall>addr r n. sent = Some (addr, r) \<and> is_hop_by_hop n \<and> to_ascii_lowercase n = n \<and> n \<noteq> asc ''host'' \<longrightarrow>
        is_loopback_addr addr \<and> hm_get_all H (pr_headers r) n = [] \<and>
        (\<forall>token. px_token p = Some token \<longrightarrow> authorized H (pr_headers req) token)) \<and>
    (\<forall>token. px_token p = Some token \<and> \<not> authorized H (pr_headers req) token \<longrightarrow>
        answer = Text 401 (asc ''unauthorized'' @ [10]) \<and> sent = None)"
proof (intro conjI allI impI)
  fix token assume "px_token p = Some token \<and> \<not> authorized H (pr_headers req) token"
  with assms(2) show "answer = Text 401 (asc ''unauthorized'' @ [10])" "sent = None"
    unfolding proxy_handle_def by (simp_all del: asc_simps)
next
  fix addr r n
  assume n: "sent = Some (addr, r) \<and> is_hop_by_hop n \<and> to_ascii_lowercase n = n \<and> n \<noteq> asc ''host''"
  with assms(2) have prep: "prepare H N ok (px_upstream p) req = Inr (addr, r)"
    unfolding proxy_handle_def by (auto simp del: asc_simps split: if_splits sum.splits)
  show "is_loopback_addr addr" by (rule prepare_InrD(1) [OF prep])
  show "hm_get_all H (pr_headers r) n = []"
    using prepare_InrD(2) [OF prep] n header_map.get_all_strip [OF assms(1)]
      header_map.get_all_insert [OF assms(1)]
    by (auto simp: stripped_names_def is_hop_by_hop_iff simp del: asc_simps split: option.splits)
  fix token assume "px_token p = Some token"
  with n assms(2) show "authorized H (pr_headers req) token"
    unfolding proxy_handle_def by (auto simp del: asc_simps split: if_splits)
qed

definition example_net :: net_api where
  "example_net = \<lparr>n_parse_uri = \<lambda>s. Some \<lparr>u_scheme = Some (asc ''http''), u_authority = Some (asc ''h''),
      u_host = Some (asc ''h''), u_path = [], u_query = None, u_text = asc ''h''\<rparr>,
     n_parse_socket = \<lambda>_. None, n_parse_ip = \<lambda>_. Some LOCALHOST, n_parse_authority = \<lambda>_. None,
     n_parse_port = \<lambda>_. None\<rparr>"

definition example_uri :: uri where
  "example_uri = \<lparr>u_scheme = Some (asc ''http''), u_authority = Some (asc ''h''),
     u_host = Some (asc ''h''), u_path = [], u_query = None, u_text = asc ''h''\<rparr>"

theorem proxy_confined_witness:
  "\<exists>addr r. snd (proxy_handle list_headers example_net (\<lambda>_. True) (\<lambda>_ _. Inr ())
      \<lparr>px_upstream = example_uri, px_token = None\<rparr>
      \<lparr>pr_method = asc ''GET'', pr_uri = example_uri, pr_headers = []\<rparr>) = Some (addr, r) \<and>
    is_loopback_addr addr"
proof -
  let ?p = "\<lparr>px_upstream = example_uri, px_token = None\<rparr> :: (bytes \<times> bytes) list proxy"
  let ?req = "\<lparr>pr_method = asc ''GET'', pr_uri = example_uri, pr_headers = []\<rparr> :: (bytes \<times> bytes) list proxy_request"
  let ?out = "proxy_handle list_headers example_net (\<lambda>_. True) (\<lambda>_ _. Inr ()) ?p ?req"
  have "loopback_authority example_net (asc ''h'') 80 = Inr (LOCALHOST, 80)"
    by (simp add: loopback_authority_def bare_authority_def example_net_def LOCALHOST_def)
  then obtain addr r where out: "snd ?out = Some (addr, r)"
    by (simp add: proxy_handle_def is_loopback_def prepare_def Let_def forward_uri_def rebuild_request_def
        example_uri_def, simp add: example_net_def)
  then have "?out = (fst ?out, Some (addr, r))" by (metis prod.collapse)
  from proxy_confined [OF list_headers.header_map_axioms this]
  have "is_hop_by_hop (asc ''te'') \<and> to_ascii_lowercase (asc ''te'') = asc ''te'' \<and> asc ''te'' \<noteq> asc ''host'' \<longrightarrow>
    is_loopback_addr addr" by blast
  moreover have "is_hop_by_hop (asc ''te'') \<and> to_ascii_lowercase (asc ''te'') = asc ''te'' \<and> asc ''te'' \<noteq> asc ''host''"
    by (simp add: is_hop_by_hop_iff ALWAYS_STRIP_def to_ascii_lowercase_def lower_def)
  ultimately show ?thesis using out by blast
qed

end
