(* ===== verification/Frontend.thy ===== *)
theory Frontend
  imports Hub Proxy "HOL-Library.Sublist"
begin

text \<open>
  The caller-facing surface of the hub (\<open>frontend.rs\<close>): the streaming response body, the
  request handler and the status a caller gets. The receiving end of the chunk channel is
  an interface (\<open>receiver_api\<close> with the laws \<open>receiver\<close>), because Tokio may return
  \<open>Pending\<close> for scheduling reasons while data is queued.
\<close>

section \<open>The receiving end of a channel\<close>

datatype recv_poll = RecvItem chunk_or_end | RecvNone | RecvPending

record 'c receiver_api =
  rc_poll :: "'c \<Rightarrow> recv_poll \<times> 'c"
  rc_close :: "'c \<Rightarrow> 'c"
  rc_push :: "chunk_or_end \<Rightarrow> 'c \<Rightarrow> 'c"     \<comment> \<open>an accepted \<open>try_send\<close> of the other end\<close>

locale receiver =
  fixes A :: "'c receiver_api" and queued :: "'c \<Rightarrow> chunk_or_end list" and closed :: "'c \<Rightarrow> bool"
  assumes poll_item: "rc_poll A c = (RecvItem x, c') \<Longrightarrow> queued c = x # queued c' \<and> closed c' = closed c"
    and poll_none: "rc_poll A c = (RecvNone, c') \<Longrightarrow> queued c = [] \<and> closed c"
    and poll_pending: "rc_poll A c = (RecvPending, c') \<Longrightarrow> queued c' = queued c \<and> closed c' = closed c"
    and close_law: "queued (rc_close A c) = queued c \<and> closed (rc_close A c)"
    and push_law: "queued (rc_push A x c) = (if closed c then queued c else queued c @ [x]) \<and>
      closed (rc_push A x c) = closed c"

section \<open>The response body\<close>

datatype 'c tunnel_body = Live "'c option" | Fixed bytes

datatype body_poll = PollEnd | PollData bytes | PollErr | PollPending

text \<open>\<open>poll_next\<close>; the outcome is the one of the stream's \<open>StreamFailure\<close> at this poll.\<close>

fun poll_next :: "'c receiver_api \<Rightarrow> 8 word \<Rightarrow> 'c tunnel_body \<Rightarrow> body_poll \<times> 'c tunnel_body" where
  "poll_next A outcome (Fixed buf) = (if buf = [] then (PollEnd, Fixed []) else (PollData buf, Fixed []))"
| "poll_next A outcome (Live None) = (PollEnd, Live None)"
| "poll_next A outcome (Live (Some rx)) =
     (if outcome = 2 then (PollErr, Live None)
      else
        let rx = (if outcome = 1 then rc_close A rx else rx)
        in (case rc_poll A rx of
              (RecvItem (Chunk b), rx) \<Rightarrow> (PollData b, Live (Some rx))
            | (RecvItem ChunkEnd, _) \<Rightarrow> (PollEnd, Live None)
            | (RecvNone, _) \<Rightarrow> (PollEnd, Live None)
            | (RecvPending, rx) \<Rightarrow> (PollPending, Live (Some rx))))"

text \<open>
  The same poll in the steps between which the session's task and the upload may run: is
  the stream marked failed; if it is complete, close; receive.
\<close>

fun poll_check :: "8 word \<Rightarrow> 'c tunnel_body \<Rightarrow> body_poll option \<times> 'c tunnel_body" where
  "poll_check outcome (Fixed buf) = (Some (if buf = [] then PollEnd else PollData buf), Fixed [])"
| "poll_check outcome (Live None) = (Some PollEnd, Live None)"
| "poll_check outcome (Live (Some rx)) =
     (if outcome = 2 then (Some PollErr, Live None) else (None, Live (Some rx)))"

fun poll_close :: "'c receiver_api \<Rightarrow> 8 word \<Rightarrow> 'c tunnel_body \<Rightarrow> 'c tunnel_body" where
  "poll_close A outcome (Live (Some rx)) = Live (Some (if outcome = 1 then rc_close A rx else rx))"
| "poll_close A outcome body = body"

fun poll_receive :: "'c receiver_api \<Rightarrow> 'c tunnel_body \<Rightarrow> body_poll \<times> 'c tunnel_body" where
  "poll_receive A (Live (Some rx)) =
     (case rc_poll A rx of
        (RecvItem (Chunk b), rx) \<Rightarrow> (PollData b, Live (Some rx))
      | (RecvItem ChunkEnd, _) \<Rightarrow> (PollEnd, Live None)
      | (RecvNone, _) \<Rightarrow> (PollEnd, Live None)
      | (RecvPending, rx) \<Rightarrow> (PollPending, Live (Some rx)))"
| "poll_receive A body = (PollEnd, body)"

lemma poll_next_steps:
  "poll_next A outcome body =
     (case poll_check outcome body of
        (Some p, b) \<Rightarrow> (p, b)
      | (None, b) \<Rightarrow> poll_receive A (poll_close A outcome b))"
  by (cases "(A, outcome, body)" rule: poll_next.cases) (simp_all add: Let_def)

fun is_end_stream :: "'c tunnel_body \<Rightarrow> bool" where
  "is_end_stream (Fixed b) \<longleftrightarrow> b = []"
| "is_end_stream (Live _) \<longleftrightarrow> False"

section \<open>Statuses\<close>

definition caller_status_for :: "nat option \<Rightarrow> nat" where
  "caller_status_for head_status =
     (case head_status of
        Some code \<Rightarrow> if 100 \<le> code \<and> code \<le> 999 then code else 502
      | None \<Rightarrow> 502)"

fun forward_error_status :: "forward_error \<Rightarrow> nat" where
  "forward_error_status NoTether = 502"
| "forward_error_status TetherGone = 502"
| "forward_error_status Revoked = 503"
| "forward_error_status TetherBusy = 503"
| "forward_error_status Idhausted = 429"
| "forward_error_status CallerBody = 400"

section \<open>The handler\<close>

record 'b answer =
  an_status :: nat
  an_headers :: "(bytes \<times> bytes) list"
  an_body :: 'b

definition error_response :: "nat \<Rightarrow> bytes answer" where
  "error_response code =
     \<lparr>an_status = code, an_headers = [(asc ''content-length'', asc ''0'')], an_body = []\<rparr>"

datatype frontend_result = Respond "bytes answer" | AwaitHead forwarded

definition is_health :: "bytes \<Rightarrow> 'h request \<Rightarrow> bool" where
  "is_health path req \<longleftrightarrow> rq_method req = asc ''GET'' \<and> path = asc ''/healthz''"

definition any_up :: "nat \<Rightarrow> nat \<Rightarrow> 'h registry \<Rightarrow> bool" where
  "any_up wall now r = list_ex (\<lambda>(_, _, s). case s of Up _ \<Rightarrow> True | _ \<Rightarrow> False) (status wall now r)"

definition frontend_handle ::
    "'h header_api \<Rightarrow> nat \<Rightarrow> nat \<Rightarrow> (sref \<Rightarrow> bool) \<Rightarrow> (sref \<Rightarrow> send_result) \<Rightarrow>
     ('h registry \<Rightarrow> 'h registry) \<Rightarrow> bytes \<Rightarrow> bytes \<Rightarrow>
     'h request \<Rightarrow> 'h registry \<Rightarrow> frontend_result \<times> 'h registry" where
  "frontend_handle H wall now tx_closed reserve between token path req r =
     (if is_health path req
      then (Respond \<lparr>an_status = 200, an_headers = [],
              an_body = asc (if any_up wall now r then ''ok tether-up'' else ''ok tether-down'') @ [10]\<rparr>, r)
      else if \<not> authorized H (rq_headers req) token then (Respond (error_response 401), r)
      else (case forward_any H wall now tx_closed reserve between req r of
              (Inl e, r) \<Rightarrow> (Respond (error_response (forward_error_status e)), r)
            | (Inr fw, r) \<Rightarrow> (AwaitHead fw, r)))"

text \<open>
  After the wait for the head: an answer with an empty fixed body, or one whose body
  streams the tunnel (\<open>None\<close> stands for that body). \<open>builder_ok\<close> is the builder's verdict.
\<close>

definition answer_head ::
    "'h header_api \<Rightarrow> bool \<Rightarrow> 'h response option \<Rightarrow> bytes option answer" where
  "answer_head H builder_ok head =
     (case head of
        None \<Rightarrow> \<lparr>an_status = caller_status_for None, an_headers = an_headers (error_response 502), an_body = Some []\<rparr>
      | Some h \<Rightarrow>
          if builder_ok
          then \<lparr>an_status = caller_status_for (Some (rs_status h)),
                an_headers = filter (\<lambda>(n, _). \<not> is_hop_by_hop n) (hm_iter H (rs_headers h)), an_body = None\<rparr>
          else \<lparr>an_status = 500, an_headers = an_headers (error_response 500), an_body = Some []\<rparr>)"

text \<open>
  One pass of the wait in \<open>Forwarded::head\<close> and what the handler makes of it: the head is
  read in the state \<open>st\<close>, the completion flag after it, in \<open>st'\<close>; without either the
  wait goes on.
\<close>

definition caller_answer ::
    "'h header_api \<Rightarrow> bool \<Rightarrow> 'h stream_state \<Rightarrow> 'h stream_state \<Rightarrow> bytes option answer option" where
  "caller_answer H builder_ok st st' =
     (case ss_head st of
        Some h \<Rightarrow> Some (answer_head H builder_ok (Some h))
      | None \<Rightarrow> if ss_completed st' then Some (answer_head H builder_ok None) else None)"

lemma caller_answer_poll:
  "caller_answer H builder_ok st st =
     (case poll_head st of
        HeadReady h \<Rightarrow> Some (answer_head H builder_ok (Some h))
      | HeadGone \<Rightarrow> Some (answer_head H builder_ok None)
      | HeadPending \<Rightarrow> None)"
  by (simp add: caller_answer_def poll_head_def split: option.split)

section \<open>Runs of a body\<close>

text \<open>
  A body together with the other end: the session's task pushes chunks and records the
  outcome, the caller's connection polls. The outputs are collected in order.
\<close>

datatype run_event = EPush bytes | EOutcome "8 word" | EPoll

fun run_one :: "'c receiver_api \<Rightarrow> run_event \<Rightarrow> (8 word \<times> 'c tunnel_body \<times> body_poll list) \<Rightarrow>
    (8 word \<times> 'c tunnel_body \<times> body_poll list)" where
  "run_one A (EPush b) (n, body, outs) =
     (n, case body of Live (Some rx) \<Rightarrow> Live (Some (rc_push A (Chunk b) rx)) | _ \<Rightarrow> body, outs)"
| "run_one A (EOutcome m) (n, body, outs) = (m, body, outs)"
| "run_one A EPoll (n, body, outs) =
     (let (out, body) = poll_next A n body in (n, body, outs @ [out]))"

definition run_body :: "'c receiver_api \<Rightarrow> 'c \<Rightarrow> run_event list \<Rightarrow> 8 word \<times> 'c tunnel_body \<times> body_poll list" where
  "run_body A rx evs = fold (run_one A) evs (0, Live (Some rx), [])"

definition pushed :: "run_event list \<Rightarrow> bytes list" where
  "pushed evs = List.map_filter (\<lambda>e. case e of EPush b \<Rightarrow> Some b | _ \<Rightarrow> None) evs"

definition delivered :: "body_poll list \<Rightarrow> bytes list" where
  "delivered outs = List.map_filter (\<lambda>o'. case o' of PollData b \<Rightarrow> Some b | _ \<Rightarrow> None) outs"

text \<open>
  A stream is complete when the session's task takes it out of its table: no push follows.
  A failure is no such mark, for a failed upload leaves the stream in the table.
\<close>

fun is_push :: "run_event \<Rightarrow> bool" where
  "is_push (EPush _) = True"
| "is_push _ = False"

primrec complete_last :: "run_event list \<Rightarrow> bool" where
  "complete_last [] = True"
| "complete_last (e # evs) = ((e = EOutcome 1 \<longrightarrow> list_all (\<lambda>e. \<not> is_push e) evs) \<and> complete_last evs)"

lemma complete_last_snoc:
  "complete_last (evs @ [e]) \<longleftrightarrow> complete_last evs \<and> (is_push e \<longrightarrow> EOutcome 1 \<notin> set evs)"
  by (induction evs) auto

lemma run_snoc:
  "pushed (evs @ [e]) = pushed evs @ (case e of EPush b \<Rightarrow> [b] | _ \<Rightarrow> [])"
  "delivered (outs @ [p]) = delivered outs @ (case p of PollData b \<Rightarrow> [b] | _ \<Rightarrow> [])"
  "run_body A rx (evs @ [e]) = run_one A e (run_body A rx evs)"
  by (auto simp: pushed_def delivered_def run_body_def map_filter_def split: run_event.split body_poll.split)


section \<open>The body delivers the stream\<close>

text \<open>The bytes of the queued chunks (the hub queues nothing else).\<close>

definition queued_data :: "chunk_or_end list \<Rightarrow> bytes list" where
  "queued_data cs = map (\<lambda>c. case c of Chunk b \<Rightarrow> b | ChunkEnd \<Rightarrow> []) cs"

context receiver
begin

text \<open>
  The state of a run: while the receiver is there, what was delivered and what is queued
  make up what was pushed; once it is gone, either the caller saw an error, or the stream
  was complete and everything was delivered.
\<close>

definition run_inv :: "run_event list \<Rightarrow> 8 word \<times> 'c tunnel_body \<times> body_poll list \<Rightarrow> bool" where
  "run_inv evs = (\<lambda>(n, body, outs).
     (n = 1 \<longrightarrow> EOutcome 1 \<in> set evs) \<and>
     (case body of
        Fixed _ \<Rightarrow> False
      | Live (Some rx) \<Rightarrow>
          delivered outs @ queued_data (queued rx) = pushed evs \<and> ChunkEnd \<notin> set (queued rx) \<and>
          (closed rx \<longrightarrow> EOutcome 1 \<in> set evs) \<and> PollEnd \<notin> set outs \<and> PollErr \<notin> set outs
      | Live None \<Rightarrow>
          prefix (delivered outs) (pushed evs) \<and>
          (PollErr \<in> set outs \<or> EOutcome 1 \<in> set evs \<and> delivered outs = pushed evs)))"

lemma run_inv_poll:
  assumes "run_inv evs (n, Live (Some rx), outs)" "poll_next A n (Live (Some rx)) = (p, body)"
  shows "run_inv (evs @ [EPoll]) (n, body, outs @ [p])"
proof -
  let ?rx = "if n = 1 then rc_close A rx else rx"
  have q: "queued ?rx = queued rx" "closed ?rx \<longrightarrow> EOutcome 1 \<in> set evs"
    using assms(1) close_law [of rx] by (auto simp: run_inv_def)
  show ?thesis
  proof (cases "n = 2")
    case True
    have "delivered outs @ queued_data (queued rx) = pushed evs" using assms(1) by (simp add: run_inv_def)
    then have "prefix (delivered outs) (pushed evs)" by (rule prefixI [OF sym])
    with True assms show ?thesis by (auto simp: run_inv_def run_snoc)
  next
    case False
    obtain res rx' where poll: "rc_poll A ?rx = (res, rx')" by (cases "rc_poll A ?rx")
    with False assms(2) have out: "(p, body) =
        (case res of RecvItem (Chunk b) \<Rightarrow> (PollData b, Live (Some rx')) | RecvItem ChunkEnd \<Rightarrow> (PollEnd, Live None)
         | RecvNone \<Rightarrow> (PollEnd, Live None) | RecvPending \<Rightarrow> (PollPending, Live (Some rx')))"
      by (auto simp: Let_def split: recv_poll.splits chunk_or_end.splits)
    show ?thesis
    proof (cases res)
      case (RecvItem c)
      with poll poll_item have "queued rx = c # queued rx'" "closed rx' = closed ?rx" using q(1) by metis+
      with assms(1) RecvItem out q show ?thesis
        by (cases c) (auto simp: run_inv_def run_snoc queued_data_def)
    next
      case RecvNone
      with poll poll_none have "queued rx = []" "closed ?rx" using q(1) by metis+
      moreover from this q(2) have "EOutcome 1 \<in> set evs" by blast
      ultimately show ?thesis
        using assms(1) RecvNone out q by (auto simp: run_inv_def run_snoc queued_data_def)
    next
      case RecvPending
      with poll poll_pending have "queued rx' = queued rx" "closed rx' = closed ?rx" using q(1) by metis+
      with assms(1) RecvPending out q show ?thesis by (auto simp: run_inv_def run_snoc)
    qed
  qed
qed

lemma run_inv_step:
  assumes inv: "run_inv evs s" and ord: "complete_last (evs @ [e])"
  shows "run_inv (evs @ [e]) (run_one A e s)"
proof -
  obtain n body outs where s: "s = (n, body, outs)" by (cases s)
  show ?thesis
  proof (cases e)
    case (EPush b)
    with ord have "EOutcome 1 \<notin> set evs" by (simp add: complete_last_snoc)
    with inv EPush push_law s show ?thesis
      by (auto simp: run_inv_def run_snoc queued_data_def split: tunnel_body.splits option.splits)
  next
    case (EOutcome m)
    with inv s show ?thesis
      by (auto simp: run_inv_def run_snoc split: tunnel_body.splits option.splits)
  next
    case EPoll
    show ?thesis
    proof (cases body)
      case (Live slot)
      show ?thesis
      proof (cases slot)
        case (Some rx)
        with Live EPoll s inv run_inv_poll [of evs n rx outs] show ?thesis
          by (auto split: prod.split simp del: poll_next.simps)
      next
        case None
        with Live EPoll s inv show ?thesis by (auto simp: run_inv_def run_snoc)
      qed
    next
      case (Fixed b)
      with inv s show ?thesis by (simp add: run_inv_def)
    qed
  qed
qed

lemma run_inv_run:
  "queued rx = [] \<Longrightarrow> \<not> closed rx \<Longrightarrow> complete_last evs \<Longrightarrow> run_inv evs (run_body A rx evs)"
proof (induction evs rule: rev_induct)
  case Nil
  then show ?case by (simp add: run_inv_def run_body_def pushed_def delivered_def queued_data_def map_filter_simps)
next
  case (snoc e evs)
  then have "run_inv evs (run_body A rx evs)" by (simp add: complete_last_snoc)
  from run_inv_step [OF this snoc.prems(3)] show ?case by (simp add: run_snoc)
qed

end


section \<open>A bounded channel\<close>

text \<open>
  The reading of the interface the hub's channel has: a first-in first-out queue that can
  answer \<open>Pending\<close> although it holds data (\<open>stalls\<close> counts how often).
\<close>

record fifo =
  ff_items :: "chunk_or_end list"
  ff_closed :: bool
  ff_stalls :: nat

definition fifo_poll :: "fifo \<Rightarrow> recv_poll \<times> fifo" where
  "fifo_poll c =
     (if 0 < ff_stalls c then (RecvPending, c\<lparr>ff_stalls := ff_stalls c - 1\<rparr>)
      else (case ff_items c of
              x # xs \<Rightarrow> (RecvItem x, c\<lparr>ff_items := xs\<rparr>)
            | [] \<Rightarrow> if ff_closed c then (RecvNone, c) else (RecvPending, c)))"

definition fifo_api :: "fifo receiver_api" where
  "fifo_api =
     \<lparr>rc_poll = fifo_poll, rc_close = (\<lambda>c. c\<lparr>ff_closed := True\<rparr>),
      rc_push = (\<lambda>x c. if ff_closed c then c else c\<lparr>ff_items := ff_items c @ [x]\<rparr>)\<rparr>"

interpretation fifo: receiver fifo_api ff_items ff_closed
  by unfold_locales (auto simp: fifo_api_def fifo_poll_def split: if_splits list.splits)

section \<open>What a body delivers\<close>

lemma body_never_truncated_base:
  assumes "receiver A queued closed" "queued rx = []" "\<not> closed rx" "complete_last evs"
    and "run_body A rx evs = (n, body, outs)"
  shows "prefix (delivered outs) (pushed evs) \<and>
    (PollEnd \<in> set outs \<and> PollErr \<notin> set outs \<longrightarrow> EOutcome 1 \<in> set evs \<and> delivered outs = pushed evs)"
proof -
  from receiver.run_inv_run [OF assms(1-4)] assms(5)
  have inv: "receiver.run_inv queued closed evs (n, body, outs)" by simp
  show ?thesis
  proof (cases body)
    case (Fixed b)
    with inv show ?thesis by (simp add: receiver.run_inv_def [OF assms(1)])
  next
    case (Live slot)
    show ?thesis
    proof (cases slot)
      case None
      with Live inv show ?thesis by (auto simp: receiver.run_inv_def [OF assms(1)])
    next
      case (Some c)
      with Live inv have "delivered outs @ queued_data (queued c) = pushed evs" "PollEnd \<notin> set outs"
        by (simp_all add: receiver.run_inv_def [OF assms(1)])
      then show ?thesis by (simp add: prefixI [OF sym])
    qed
  qed
qed

definition bearer_headers :: "bytes \<Rightarrow> unit header_api" where
  "bearer_headers v = no_headers\<lparr>hm_get_all := \<lambda>_ _. [v], hv_to_str := Some\<rparr>"

lemma bearer_authorized: "authorized (bearer_headers (asc ''Bearer '' @ t)) () t"
  by (simp add: authorized_def bearer_headers_def hm_get_def strip_prefix_Some constant_eq_iff
      del: asc_simps split: option.split)

lemma example_start: "\<exists>fw r'. start_forward H 0 example_request example_registry = (Inr fw, r')"
  by (simp add: start_forward_def admit_def example_registry_eq session_new_def upd_session_def Let_def
      MAX_CONCURRENT_STREAMS_def)

end
