(* ===== verification/Tunnel.thy ===== *)
theory Tunnel
  imports Messages Heads Streams Proxy Credentials
begin

text \<open>
  The tether's side (\<open>tunnel.rs\<close>): credentials and the dial checks, the handshake, the
  session loop with its pumps and heartbeat, and one engine exchange. The answers of the
  bounded channels, the clock, the request parser and the engine are arguments.
\<close>

section \<open>Configuration and dialling\<close>

definition PING_INTERVAL :: nat where "PING_INTERVAL = secs 10"
definition PING_TIMEOUT :: nat where "PING_TIMEOUT = secs 25"
definition BACKOFF_MIN :: nat where "BACKOFF_MIN = millis 500"
definition BACKOFF_MAX :: nat where "BACKOFF_MAX = secs 30"

definition trim_cred :: "bytes \<Rightarrow> bytes" where
  "trim_cred v = rev (dropWhile (\<lambda>b. b = 10 \<or> b = 13 \<or> b = 32 \<or> b = 9) (rev v))"

text \<open>\<open>env\<close> looks a variable up, \<open>read_file\<close> reads a file or fails.\<close>

definition credential_from_env ::
    "(string \<Rightarrow> bytes option) \<Rightarrow> (bytes \<Rightarrow> string + bytes) \<Rightarrow> string + bytes" where
  "credential_from_env env read_file =
     (case env ''ANVIL_RING_CRED_FILE'' of
        Some path \<Rightarrow> try_then (read_file path) (\<lambda>v. Inr (trim_cred v))
      | None \<Rightarrow>
          (case env ''ANVIL_RING_CREDENTIAL'' of
             Some v \<Rightarrow> Inr (trim_cred v)
           | None \<Rightarrow> Inl ''no credential''))"

definition url_is_loopback :: "net_api \<Rightarrow> bytes \<Rightarrow> bool" where
  "url_is_loopback N url =
     (case n_parse_uri N url of
        None \<Rightarrow> False
      | Some u \<Rightarrow>
          (case u_host u of
             None \<Rightarrow> False
           | Some host \<Rightarrow>
               (case n_parse_ip N (trim_brackets host) of
                  Some ip \<Rightarrow> ip_is_loopback ip | None \<Rightarrow> False)))"

text \<open>The checks of \<open>dial\<close> before it connects.\<close>

definition dial_check :: "net_api \<Rightarrow> bytes \<Rightarrow> string + unit" where
  "dial_check N hub_url =
     (case n_parse_uri N hub_url of
        None \<Rightarrow> Inl ''invalid hub URL''
      | Some u \<Rightarrow>
          if u_scheme u \<noteq> Some (asc ''ws'') \<and> u_scheme u \<noteq> Some (asc ''wss'')
          then Inl ''hub URL must use wss (ws only for literal loopback)''
          else if (case u_authority u of None \<Rightarrow> True | Some a \<Rightarrow> 64 \<in> set a) \<or> u_query u \<noteq> None \<or>
             35 \<in> set hub_url
          then Inl ''hub URL must not contain credentials, query parameters, or fragments''
          else if u_scheme u = Some (asc ''ws'') \<and> \<not> url_is_loopback N hub_url
          then Inl ''plaintext ws requires a literal loopback address; use wss''
          else Inr ())"

record tunnel_state =
  tn_up :: bool
  tn_generations :: "64 word"
  tn_lease_secs :: "64 word"

text \<open>One round of \<open>run_client\<close> after the attempt: the state, the pause, the next pause.\<close>

definition client_round :: "nat \<times> tunnel_state \<Rightarrow> nat \<times> nat \<times> tunnel_state" where
  "client_round = (\<lambda>(backoff, st). (backoff, min (backoff * 2) BACKOFF_MAX, st\<lparr>tn_up := False\<rparr>))"

section \<open>Handshake\<close>

datatype hub_input = HubMessage ws_message | HubTimeout | HubEof | HubError

text \<open>The loop until WELCOME; \<open>None\<close> while it waits for more input.\<close>

fun await_welcome :: "hub_input list \<Rightarrow> (string + 64 word) option" where
  "await_welcome [] = None"
| "await_welcome (HubTimeout # _) = Some (Inl ''hub silent before WELCOME'')"
| "await_welcome (HubEof # _) = Some (Inl ''closed before WELCOME'')"
| "await_welcome (HubError # _) = Some (Inl ''websocket error'')"
| "await_welcome (HubMessage m # inputs) =
     (case tether_decode m of
        Inl _ \<Rightarrow> Some (Inl ''undecodable'')
      | Inr (Some (Welcome lease_secs)) \<Rightarrow> Some (Inr lease_secs)
      | Inr (Some _) \<Rightarrow> Some (Inl ''expected WELCOME'')
      | Inr None \<Rightarrow> await_welcome inputs)"

definition welcomed :: "64 word \<Rightarrow> tunnel_state \<Rightarrow> tunnel_state" where
  "welcomed lease st =
     st\<lparr>tn_lease_secs := lease, tn_up := True, tn_generations := tn_generations st + 1\<rparr>"

text \<open>\<open>lease_secs * 3 / 4\<close> is in 64 bits, wrapping in a release build.\<close>

definition lease_delay :: "64 word \<Rightarrow> nat" where
  "lease_delay lease =
     (let lease_secs = (if lease = 0 then 60 else lease)
      in max (secs (unat (lease_secs * 3 div 4))) (secs 5))"

section \<open>Heartbeat\<close>

record heartbeat =
  hb_ping_tick :: nat
  hb_dead :: nat
  hb_overdue :: nat
  hb_pong_deadline :: "nat option"

definition heartbeat_new :: "nat \<Rightarrow> heartbeat" where
  "heartbeat_new now =
     \<lparr>hb_ping_tick = now + PING_INTERVAL, hb_dead = now + PING_TIMEOUT, hb_overdue = 0, hb_pong_deadline = None\<rparr>"

definition mark_alive :: "heartbeat \<Rightarrow> heartbeat" where
  "mark_alive hb = hb\<lparr>hb_overdue := 0\<rparr>"

definition heartbeat_reset :: "nat \<Rightarrow> heartbeat \<Rightarrow> heartbeat" where
  "heartbeat_reset now hb =
     (let hb = hb\<lparr>hb_ping_tick := now + PING_INTERVAL\<rparr>;
          hb = (case hb_pong_deadline hb of
                  Some dl \<Rightarrow> if dl \<le> now then hb\<lparr>hb_overdue := hb_overdue hb + 1\<rparr> else hb
                | None \<Rightarrow> hb);
          budget = (if 3 \<le> hb_overdue hb then now else now + PING_TIMEOUT)
      in hb\<lparr>hb_dead := budget\<rparr>)"

section \<open>Session\<close>

type_synonym pref = nat

text \<open>A pump: the head of its OPEN, the input its channel accepted, and whether it was aborted.\<close>

record pump =
  pm_stream :: stream_id
  pm_head :: bytes
  pm_input :: "bytes list"
  pm_aborted :: bool

record tether_session =
  ts_streams :: "(stream_id \<times> pref) list"
  ts_pumps :: "pump list"
  ts_sent :: "frame list"
  ts_heartbeat :: heartbeat

definition upd_pump :: "pref \<Rightarrow> (pump \<Rightarrow> pump) \<Rightarrow> tether_session \<Rightarrow> tether_session" where
  "upd_pump p f t = t\<lparr>ts_pumps := (ts_pumps t)[p := f (ts_pumps t ! p)]\<rparr>"

text \<open>Removing a handle drops it, which aborts its pump.\<close>

definition abort_pump :: "pref \<Rightarrow> tether_session \<Rightarrow> tether_session" where
  "abort_pump p = upd_pump p (\<lambda>pm. pm\<lparr>pm_aborted := True\<rparr>)"

definition drop_stream :: "stream_id \<Rightarrow> tether_session \<Rightarrow> tether_session" where
  "drop_stream sid t =
     (case map_of (ts_streams t) sid of
        None \<Rightarrow> t
      | Some p \<Rightarrow> abort_pump p (t\<lparr>ts_streams := AList.delete sid (ts_streams t)\<rparr>))"

datatype stream_input_result = Queued | Missing | Overloaded

definition enqueue_stream_input ::
    "send_result \<Rightarrow> stream_id \<Rightarrow> bytes \<Rightarrow> tether_session \<Rightarrow> stream_input_result \<times> tether_session" where
  "enqueue_stream_input res sid bytes t =
     (case map_of (ts_streams t) sid of
        None \<Rightarrow> (Missing, t)
      | Some p \<Rightarrow>
          (case res of
             Sent \<Rightarrow> (Queued, upd_pump p (\<lambda>pm. pm\<lparr>pm_input := pm_input pm @ [bytes]\<rparr>) t)
           | Full \<Rightarrow> (Overloaded, drop_stream sid t)
           | Closed \<Rightarrow> (Queued, t)))"

datatype tether_result = TContinue | TOk | TErr string

text \<open>\<open>tx.try_send(..)?\<close>\<close>

definition tether_send ::
    "send_result \<Rightarrow> frame \<Rightarrow> tether_session \<Rightarrow> tether_result \<times> tether_session" where
  "tether_send res f t =
     (if res = Sent then (TContinue, t\<lparr>ts_sent := ts_sent t @ [f]\<rparr>) else (TErr ''writer'', t))"

definition open_stream :: "stream_id \<Rightarrow> bytes \<Rightarrow> tether_session \<Rightarrow> tether_session" where
  "open_stream sid head t =
     (let p = length (ts_pumps t);
          t' = (case map_of (ts_streams t) sid of Some old \<Rightarrow> abort_pump old t | None \<Rightarrow> t)
      in t'\<lparr>ts_pumps := ts_pumps t' @ [\<lparr>pm_stream = sid, pm_head = head, pm_input = [], pm_aborted = False\<rparr>],
            ts_streams := AList.update sid p (ts_streams t')\<rparr>)"

definition feed_stream ::
    "send_result \<Rightarrow> send_result \<Rightarrow> stream_id \<Rightarrow> bytes \<Rightarrow> tether_session \<Rightarrow> tether_result \<times> tether_session" where
  "feed_stream in_res res sid bytes t =
     (let (r, t) = enqueue_stream_input in_res sid bytes t
      in if r = Overloaded
         then tether_send res (End sid (asc ''request body exceeded tether backpressure'')) t
         else (TContinue, t))"

text \<open>
  One frame of the hub. The flag tells whether the pass reaches \<open>hb.reset()\<close>: a refused
  OPEN and every exit leave before it.
\<close>

definition tether_frame ::
    "send_result \<Rightarrow> send_result \<Rightarrow> frame \<Rightarrow> tether_session \<Rightarrow> (tether_result \<times> tether_session) \<times> bool" where
  "tether_frame in_res res f t =
     (case f of
        Ping \<Rightarrow> (tether_send res Pong t, True)
      | Pong \<Rightarrow>
          ((TContinue, t\<lparr>ts_heartbeat := (mark_alive (ts_heartbeat t))\<lparr>hb_pong_deadline := None\<rparr>\<rparr>), True)
      | RespHead _ _ \<Rightarrow> ((TErr ''hub sent RESP_HEAD; only the tether answers with a head'', t), False)
      | GoAway _ \<Rightarrow> ((TOk, t), False)
      | Open sid head \<Rightarrow>
          if MAX_CONCURRENT_STREAMS \<le> length (ts_streams t)
          then (tether_send res (End sid (asc ''overloaded'')) t, False)
          else ((TContinue, open_stream sid head t), True)
      | Data sid bytes \<Rightarrow> (feed_stream in_res res sid bytes t, True)
      | HalfEnd sid \<Rightarrow> (feed_stream in_res res sid [] t, True)
      | End sid _ \<Rightarrow> ((TContinue, drop_stream sid t), True)
      | Hello _ \<Rightarrow> ((TErr ''unexpected HELLO/WELCOME mid-session'', t), False)
      | Welcome _ \<Rightarrow> ((TErr ''unexpected HELLO/WELCOME mid-session'', t), False))"

datatype session_input = HubFrame ws_message | HubClosed | HubFailed

datatype tether_event =
    PumpDone stream_id
  | LeaseTick
  | PingTick
  | DeadTick
  | FromHub session_input

definition tether_step ::
    "nat \<Rightarrow> send_result \<Rightarrow> send_result \<Rightarrow> tether_event \<Rightarrow> tether_session \<Rightarrow> tether_result \<times> tether_session"
where
  "tether_step now in_res res ev t =
     (case ev of
        PumpDone sid \<Rightarrow> (TContinue, drop_stream sid t)
      | LeaseTick \<Rightarrow> (TOk, snd (tether_send res (GoAway (asc ''lease refresh'')) t))
      | PingTick \<Rightarrow>
          (let (r, t) = tether_send res Ping t
           in if r = TContinue
              then (TContinue, t\<lparr>ts_heartbeat := (ts_heartbeat t)\<lparr>hb_ping_tick := now + PING_INTERVAL\<rparr>\<rparr>)
              else (r, t))
      | DeadTick \<Rightarrow> (TErr ''heartbeat timeout'', t)
      | FromHub HubClosed \<Rightarrow> (TErr ''hub closed connection'', t)
      | FromHub HubFailed \<Rightarrow> (TErr ''websocket error'', t)
      | FromHub (HubFrame m) \<Rightarrow>
          (case tether_decode m of
             Inl _ \<Rightarrow> (TErr ''undecodable'', t)
           | Inr None \<Rightarrow> (TContinue, t)
           | Inr (Some f) \<Rightarrow>
               (let ((r, t), reset) = tether_frame in_res res f t
                in if r = TContinue \<and> reset
                   then (r, t\<lparr>ts_heartbeat := heartbeat_reset now (ts_heartbeat t)\<rparr>)
                   else (r, t))))"

text \<open>The end of \<open>serve_over\<close>: \<open>streams.clear()\<close> aborts every pump.\<close>

definition tether_teardown :: "tether_session \<Rightarrow> tether_session" where
  "tether_teardown t =
     (fold (\<lambda>(_, p). abort_pump p) (ts_streams t) t)\<lparr>ts_streams := []\<rparr>"


section \<open>One engine exchange\<close>

text \<open>\<open>httparse::Request::parse\<close> and the request builder of the \<open>http\<close> crate.\<close>

record 'h request_parser =
  rq_parse :: "bytes \<Rightarrow> (parse_status \<times> bytes option \<times> bytes option \<times> (bytes \<times> bytes) list) option"
  rq_build :: "bytes \<Rightarrow> bytes \<Rightarrow> (bytes \<times> bytes) list \<Rightarrow> (uri \<times> 'h) option"

definition engine_headers :: "'h header_api \<Rightarrow> bytes \<Rightarrow> 'h \<Rightarrow> 'h" where
  "engine_headers H addr_text headers =
     (let headers = snd (strip_hop_by_hop H headers);
          headers = hm_insert H headers (asc ''host'') addr_text;
          headers = snd (hm_remove H headers (asc ''expect''))
      in if hm_get_all H headers (asc ''content-length'') = []
         then hm_insert H headers (asc ''transfer-encoding'') (asc ''chunked'') else headers)"

definition engine_request ::
    "'h header_api \<Rightarrow> net_api \<Rightarrow> 'h request_parser \<Rightarrow> (socket_addr \<Rightarrow> bytes) \<Rightarrow> bytes \<Rightarrow> bytes \<Rightarrow>
     string + socket_addr \<times> 'h proxy_request" where
  "engine_request H N P show_addr head upstream =
     (case loopback_authority N upstream 80 of
        Inl _ \<Rightarrow> Inl ''upstream is not loopback''
      | Inr addr \<Rightarrow>
          (case rq_parse P head of
             None \<Rightarrow> Inl ''unparseable request head''
           | Some (status, meth, path, hdrs) \<Rightarrow>
               if status = Partial then Inl ''incomplete request head''
               else try_then (ok_or ''missing method'' meth) (\<lambda>meth.
                    try_then (ok_or ''missing path'' path) (\<lambda>path.
                    (case rq_build P meth path hdrs of
                       None \<Rightarrow> Inl ''invalid request headers''
                     | Some (u, headers) \<Rightarrow>
                         Inr (addr, \<lparr>pr_method = meth, pr_uri = u,
                                     pr_headers = engine_headers H (show_addr addr) headers\<rparr>))))))"

text \<open>
  The request body: what the unfolded stream yields for a sequence of received inputs. The
  empty input is HALF_END; a channel that closes before it is an error, not an end.
\<close>

datatype body_end = BodyComplete | BodyBroken

fun engine_body :: "bytes list \<Rightarrow> bytes list \<times> body_end" where
  "engine_body [] = ([], BodyBroken)"
| "engine_body (b # bs) =
     (if b = [] then ([], BodyComplete)
      else let (cs, e) = engine_body bs in (b # cs, e))"

text \<open>Only \<open>chunked\<close>, in any letter case, may be the coding of the engine's response.\<close>

definition coding_ok :: "'h header_api \<Rightarrow> bytes \<Rightarrow> bool" where
  "coding_ok H value =
     (case hv_to_str H value of
        None \<Rightarrow> False
      | Some s \<Rightarrow> list_all (\<lambda>t. eq_ignore_case (trim_ascii t) (asc ''chunked'')) (split_on 44 s))"

datatype engine_event = EngineData bytes | EngineTrailers | EngineError

fun response_loop :: "stream_id \<Rightarrow> engine_event list \<Rightarrow> frame list \<times> bool" where
  "response_loop sid [] = ([], True)"
| "response_loop sid (EngineError # _) = ([], False)"
| "response_loop sid (EngineTrailers # evs) = response_loop sid evs"
| "response_loop sid (EngineData b # evs) =
     (let (fs, ok) = response_loop sid evs in (if b = [] then fs else Data sid b # fs, ok))"

record 'h engine_response =
  er_status :: nat
  er_reason :: bytes
  er_headers :: 'h
  er_body :: "engine_event list"

definition response_frames ::
    "'h header_api \<Rightarrow> stream_id \<Rightarrow> 'h engine_response \<Rightarrow> frame list \<times> bool" where
  "response_frames H sid res =
     (if \<not> list_all (coding_ok H) (hm_get_all H (er_headers res) (asc ''transfer-encoding''))
      then ([], False)
      else let (fs, ok) = response_loop sid (er_body res)
           in (RespHead sid (encode_response_head H (er_status res) (er_reason res) (er_headers res)) # fs, ok))"

text \<open>The frames of one pump, from the outcome of the exchange: END closes them in any case.\<close>

definition pump_frames ::
    "'h header_api \<Rightarrow> stream_id \<Rightarrow> 'h engine_response option \<Rightarrow> frame list" where
  "pump_frames H sid exchange =
     (let (fs, ok) = (case exchange of Some res \<Rightarrow> response_frames H sid res | None \<Rightarrow> ([], False))
      in fs @ [End sid (if ok then [] else asc ''engine request or response failed'')])"

section \<open>Lemmas\<close>

definition data_chunks :: "engine_event list \<Rightarrow> bytes list" where
  "data_chunks evs = List.map_filter
     (\<lambda>ev. case ev of EngineData b \<Rightarrow> if b = [] then None else Some b | _ \<Rightarrow> None)
     (takeWhile (\<lambda>ev. ev \<noteq> EngineError) evs)"

lemma response_loop_eq:
  "response_loop sid evs = (map (Data sid) (data_chunks evs), EngineError \<notin> set evs)"
  by (induction sid evs rule: response_loop.induct) (auto simp: data_chunks_def map_filter_simps)

lemma engine_body_append: "[] \<notin> set cs \<Longrightarrow> engine_body (cs @ [] # rest) = (cs, BodyComplete)"
  by (induction cs) auto

lemma engine_body_broken: "[] \<notin> set cs \<Longrightarrow> engine_body cs = (cs, BodyBroken)"
  by (induction cs) auto


lemma pump_frames_eq:
  "pump_frames H sid exchange =
     (case exchange of
        None \<Rightarrow> [End sid (asc ''engine request or response failed'')]
      | Some res \<Rightarrow>
          if \<not> list_all (coding_ok H) (hm_get_all H (er_headers res) (asc ''transfer-encoding''))
          then [End sid (asc ''engine request or response failed'')]
          else RespHead sid (encode_response_head H (er_status res) (er_reason res) (er_headers res)) #
            map (Data sid) (data_chunks (er_body res)) @
            [End sid (if EngineError \<in> set (er_body res)
               then asc ''engine request or response failed'' else [])])"
  by (simp add: pump_frames_def response_frames_def response_loop_eq del: asc_simps split: option.split)

section \<open>The session's invariant\<close>

text \<open>
  A pump runs exactly while its stream is in the table: nothing outlives its entry, and no
  entry refers to a pump that was aborted. The heartbeat never waits for a PONG: nothing
  sets its deadline, so the count of overdue answers stays zero.
\<close>

definition tether_ok :: "tether_session \<Rightarrow> bool" where
  "tether_ok t \<longleftrightarrow>
     distinct (map fst (ts_streams t)) \<and> distinct (map snd (ts_streams t)) \<and>
     length (ts_streams t) \<le> MAX_CONCURRENT_STREAMS \<and>
     snd ` set (ts_streams t) = {p. p < length (ts_pumps t) \<and> \<not> pm_aborted (ts_pumps t ! p)} \<and>
     hb_pong_deadline (ts_heartbeat t) = None \<and> hb_overdue (ts_heartbeat t) = 0"

definition tether_start :: "tether_session \<Rightarrow> bool" where
  "tether_start t \<longleftrightarrow> (\<exists>now. t = \<lparr>ts_streams = [], ts_pumps = [], ts_sent = [], ts_heartbeat = heartbeat_new now\<rparr>)"

lemma tether_ok_start: "tether_start t \<Longrightarrow> tether_ok t"
  by (auto simp: tether_start_def tether_ok_def heartbeat_new_def)

lemma upd_pump_simps [simp]:
  "ts_streams (upd_pump p f t) = ts_streams t" "ts_heartbeat (upd_pump p f t) = ts_heartbeat t"
  "ts_sent (upd_pump p f t) = ts_sent t" "length (ts_pumps (upd_pump p f t)) = length (ts_pumps t)"
  by (simp_all add: upd_pump_def)

lemma upd_pump_nth:
  "ts_pumps (upd_pump p f t) ! i =
     (if i = p \<and> p < length (ts_pumps t) then f (ts_pumps t ! p) else ts_pumps t ! i)"
  by (auto simp: upd_pump_def nth_list_update not_less list_update_beyond)

lemma tether_ok_input: "tether_ok t \<Longrightarrow> tether_ok (upd_pump p (\<lambda>pm. pm\<lparr>pm_input := f pm\<rparr>) t)"
proof -
  have "pm_aborted (ts_pumps (upd_pump p (\<lambda>pm. pm\<lparr>pm_input := f pm\<rparr>) t) ! i) = pm_aborted (ts_pumps t ! i)" for i
    by (simp add: upd_pump_nth)
  then show "tether_ok t \<Longrightarrow> ?thesis" by (simp add: tether_ok_def)
qed

lemma tether_ok_drop: "tether_ok t \<Longrightarrow> tether_ok (drop_stream sid t)"
proof -
  assume ok: "tether_ok t"
  show ?thesis
  proof (cases "map_of (ts_streams t) sid")
    case (Some p)
    let ?t = "drop_stream sid t"
    have tbl: "ts_streams ?t = filter (\<lambda>(k, _). sid \<noteq> k) (ts_streams t)"
      by (simp add: drop_stream_def Some abort_pump_def AList.delete_eq)
    have keys: "distinct (map fst (ts_streams t))" "distinct (map snd (ts_streams t))"
      using ok by (simp_all add: tether_ok_def)
    have "(a, q) \<in> set (ts_streams t) \<Longrightarrow> a \<noteq> sid \<longleftrightarrow> q \<noteq> p" for a q
      using keys Some by (metis eq_key_imp_eq_value eq_value_imp_eq_key map_of_SomeD)
    then have img: "snd ` set (ts_streams ?t) = snd ` set (ts_streams t) - {p}"
      by (force simp: tbl)
    have "p \<in> snd ` set (ts_streams t)" using Some by (force dest: map_of_SomeD)
    with ok have p: "p < length (ts_pumps t)" by (auto simp: tether_ok_def)
    have pumps: "length (ts_pumps ?t) = length (ts_pumps t)"
      "pm_aborted (ts_pumps ?t ! i) = (i = p \<or> pm_aborted (ts_pumps t ! i))" for i
      using p by (auto simp: drop_stream_def Some abort_pump_def upd_pump_nth)
    have "length (ts_streams t) \<le> MAX_CONCURRENT_STREAMS" using ok by (simp add: tether_ok_def)
    then have "length (ts_streams ?t) \<le> MAX_CONCURRENT_STREAMS"
      unfolding tbl by (rule le_trans [OF length_filter_le])
    moreover have "distinct (map fst (ts_streams ?t))" "distinct (map snd (ts_streams ?t))"
      using keys by (simp_all add: tbl distinct_map_filter)
    moreover have "ts_heartbeat ?t = ts_heartbeat t" by (simp add: drop_stream_def Some abort_pump_def)
    moreover have "snd ` set (ts_streams ?t) = {q. q < length (ts_pumps ?t) \<and> \<not> pm_aborted (ts_pumps ?t ! q)}"
      using ok unfolding img pumps by (auto simp: tether_ok_def)
    ultimately show ?thesis using ok by (simp add: tether_ok_def)
  qed (simp add: drop_stream_def ok)
qed

lemma tether_ok_open:
  assumes ok: "tether_ok t" and room: "length (ts_streams t) < MAX_CONCURRENT_STREAMS"
  shows "tether_ok (open_stream sid head t)"
proof -
  let ?n = "length (ts_pumps t)" and ?t = "open_stream sid head t"
  have keys: "distinct (map fst (ts_streams t))" "distinct (map snd (ts_streams t))"
    and run: "snd ` set (ts_streams t) = {p. p < ?n \<and> \<not> pm_aborted (ts_pumps t ! p)}"
    using ok by (simp_all add: tether_ok_def)
  have fresh: "?n \<notin> snd ` set (ts_streams t)" unfolding run by simp
  have tbl: "ts_streams ?t = AList.update sid ?n (ts_streams t)"
    by (simp add: open_stream_def Let_def abort_pump_def split: option.split)
  have pumps: "length (ts_pumps ?t) = Suc ?n"
    "i < Suc ?n \<Longrightarrow> pm_aborted (ts_pumps ?t ! i) =
       (i < ?n \<and> (map_of (ts_streams t) sid = Some i \<or> pm_aborted (ts_pumps t ! i)))" for i
    by (auto simp: open_stream_def Let_def abort_pump_def nth_append upd_pump_nth split: option.splits)
  have other: "(\<exists>a. (a, q) \<in> set (ts_streams t) \<and> a \<noteq> sid) \<longleftrightarrow>
      q \<in> snd ` set (ts_streams t) \<and> map_of (ts_streams t) sid \<noteq> Some q" for q
    using keys by (force dest: map_of_SomeD eq_value_imp_eq_key)
  have "snd ` set (ts_streams ?t) = insert ?n {q. \<exists>a. (a, q) \<in> set (ts_streams t) \<and> a \<noteq> sid}"
    using keys(1) by (force simp: tbl set_update_keys)
  also have "\<dots> = {p. p < length (ts_pumps ?t) \<and> \<not> pm_aborted (ts_pumps ?t ! p)}"
    unfolding other run using pumps by (auto simp: less_Suc_eq)
  finally have "snd ` set (ts_streams ?t) = \<dots>" .
  moreover have "length (ts_streams ?t) \<le> MAX_CONCURRENT_STREAMS"
    using room length_update_le [of sid ?n "ts_streams t"] by (simp add: tbl)
  moreover have "distinct (map fst (ts_streams ?t))" "distinct (map snd (ts_streams ?t))"
    using keys fresh by (simp_all add: tbl distinct_update distinct_update_values)
  moreover have "ts_heartbeat ?t = ts_heartbeat t"
    by (simp add: open_stream_def Let_def abort_pump_def split: option.split)
  ultimately show ?thesis using ok by (simp add: tether_ok_def)
qed

lemma tether_ok_sent [simp]: "tether_ok (t\<lparr>ts_sent := fs\<rparr>) = tether_ok t"
  by (simp add: tether_ok_def)

lemma tether_ok_heartbeat:
  "tether_ok t \<Longrightarrow> hb_pong_deadline hb = None \<Longrightarrow> hb_overdue hb = 0 \<Longrightarrow> tether_ok (t\<lparr>ts_heartbeat := hb\<rparr>)"
  by (simp add: tether_ok_def)

lemma tether_ok_send: "tether_ok t \<Longrightarrow> tether_ok (snd (tether_send res f t))"
  by (simp add: tether_send_def)

lemma tether_ok_feed: "tether_ok t \<Longrightarrow> tether_ok (snd (feed_stream in_res res sid bs t))"
  by (auto simp: feed_stream_def enqueue_stream_input_def tether_ok_send tether_ok_drop tether_ok_input
      split: option.split send_result.split)

lemma heartbeat_reset_ok:
  "hb_pong_deadline hb = None \<Longrightarrow> hb_overdue hb = 0 \<Longrightarrow>
   hb_pong_deadline (heartbeat_reset now hb) = None \<and> hb_overdue (heartbeat_reset now hb) = 0 \<and>
   hb_dead (heartbeat_reset now hb) = now + PING_TIMEOUT"
  by (simp add: heartbeat_reset_def Let_def)

lemma tether_ok_frame: "tether_ok t \<Longrightarrow> tether_ok (snd (fst (tether_frame in_res res f t)))"
proof -
  assume ok: "tether_ok t"
  then have "tether_ok (t\<lparr>ts_heartbeat := (mark_alive (ts_heartbeat t))\<lparr>hb_pong_deadline := None\<rparr>\<rparr>)"
    by (simp add: tether_ok_def mark_alive_def)
  with ok show ?thesis
    by (cases f) (simp_all add: tether_frame_def tether_ok_send tether_ok_feed tether_ok_drop
        tether_ok_open not_le del: asc_simps)
qed

lemma tether_ok_reset: "tether_ok t \<Longrightarrow> tether_ok (t\<lparr>ts_heartbeat := heartbeat_reset now (ts_heartbeat t)\<rparr>)"
  using heartbeat_reset_ok [of "ts_heartbeat t" now] by (simp add: tether_ok_def)

lemma tether_ok_step: "tether_ok t \<Longrightarrow> tether_ok (snd (tether_step now in_res res ev t))"
proof -
  assume ok: "tether_ok t"
  then have hb: "hb_pong_deadline (ts_heartbeat t) = None" "hb_overdue (ts_heartbeat t) = 0"
    by (simp_all add: tether_ok_def)
  show ?thesis
  proof (cases ev)
    case PingTick
    with ok hb show ?thesis
      by (auto simp: tether_step_def tether_send_def intro!: tether_ok_heartbeat)
  next
    case (FromHub inp)
    have frame: "tether_ok q" if "tether_frame in_res res f t = ((x, q), reset)" for f x q reset
      using tether_ok_frame [OF ok, of in_res res f] that by simp
    with FromHub ok show ?thesis
      by (auto simp: tether_step_def split: session_input.split sum.split option.split prod.split
          intro!: tether_ok_reset dest: frame)
  qed (use ok in \<open>simp_all add: tether_step_def tether_ok_drop tether_ok_send del: asc_simps\<close>)
qed

text \<open>The session driven by its events, as a machine with that invariant.\<close>

definition tether_run_step :: "tether_session \<Rightarrow> nat \<times> send_result \<times> send_result \<times> tether_event \<Rightarrow> tether_session" where
  "tether_run_step t = (\<lambda>(now, in_res, res, ev). snd (tether_step now in_res res ev t))"

interpretation tether_machine: invariant_machine tether_run_step tether_start tether_ok
  by unfold_locales (auto simp: tether_ok_start tether_run_step_def tether_ok_step)


section \<open>Properties\<close>

lemma fold_abort:
  "length (ts_pumps (fold (\<lambda>(_, p). abort_pump p) l t)) = length (ts_pumps t) \<and>
   (\<forall>p < length (ts_pumps t). pm_aborted (ts_pumps (fold (\<lambda>(_, p). abort_pump p) l t) ! p) =
      (p \<in> snd ` set l \<or> pm_aborted (ts_pumps t ! p)))"
proof (induction l arbitrary: t)
  case (Cons a l)
  have "length (ts_pumps (abort_pump (snd a) t)) = length (ts_pumps t)"
    "p < length (ts_pumps t) \<Longrightarrow> pm_aborted (ts_pumps (abort_pump (snd a) t) ! p) =
       (p = snd a \<or> pm_aborted (ts_pumps t ! p))" for p
    by (auto simp: abort_pump_def upd_pump_nth)
  with Cons.IH [of "abort_pump (snd a) t"] show ?case by (cases a) auto
qed simp

text \<open>
  C27: No engine exchange outlives its stream: in every reachable session of a tether at
  most 64 streams are open, an exchange runs exactly while its stream is in the table, and
  when the session ends every exchange has been cancelled, whatever order completions,
  caller aborts, overloads, reused identifiers and timers came in.
\<close>
theorem tether_no_orphans:
  assumes "reach tether_run_step tether_start t"
  shows "length (ts_streams t) \<le> MAX_CONCURRENT_STREAMS \<and>
    (\<forall>p < length (ts_pumps t). \<not> pm_aborted (ts_pumps t ! p) \<longleftrightarrow> (\<exists>sid. (sid, p) \<in> set (ts_streams t))) \<and>
    ts_streams (tether_teardown t) = [] \<and>
    (\<forall>p < length (ts_pumps t). pm_aborted (ts_pumps (tether_teardown t) ! p)) \<and>
    hb_overdue (ts_heartbeat t) = 0"
proof -
  have ok: "tether_ok t" by (rule tether_machine.inv_reach [OF assms])
  then have run: "snd ` set (ts_streams t) = {p. p < length (ts_pumps t) \<and> \<not> pm_aborted (ts_pumps t ! p)}"
    by (simp add: tether_ok_def)
  have "\<not> pm_aborted (ts_pumps t ! p) \<longleftrightarrow> (\<exists>sid. (sid, p) \<in> set (ts_streams t))" if "p < length (ts_pumps t)" for p
  proof -
    have "(\<exists>sid. (sid, p) \<in> set (ts_streams t)) \<longleftrightarrow> p \<in> snd ` set (ts_streams t)" by force
    then show ?thesis unfolding run using that by simp
  qed
  moreover have "pm_aborted (ts_pumps (tether_teardown t) ! p)" if "p < length (ts_pumps t)" for p
    using fold_abort [of "ts_streams t" t] that unfolding tether_teardown_def run by auto
  ultimately show ?thesis using ok by (simp add: tether_ok_def tether_teardown_def)
qed

theorem tether_no_orphans_witness:
  "\<exists>t. reach tether_run_step tether_start t \<and> length (ts_pumps t) = 1 \<and>
     pm_aborted (ts_pumps (tether_teardown t) ! 0)"
proof -
  let ?s = "\<lparr>ts_streams = [], ts_pumps = [], ts_sent = [], ts_heartbeat = heartbeat_new 0\<rparr>"
  let ?t = "tether_run_step ?s (1, Sent, Sent, FromHub (HubFrame (ws_msg (Open 1 [2]))))"
  have "tether_start ?s" by (auto simp: tether_start_def)
  then have r: "reach tether_run_step tether_start ?t" by (intro reach_step reach_start)
  moreover have "length (ts_pumps ?t) = 1"
    by (simp add: tether_run_step_def tether_step_def ws_msg_def fits_def payload_len_def tether_frame_def
        open_stream_def MAX_CONCURRENT_STREAMS_def)
  ultimately show ?thesis using tether_no_orphans [OF r] by (intro exI [of _ ?t]) simp
qed

text \<open>
  The tether asks for a new lease before the old one runs out: for every lease from
  seven seconds up to the largest that three times fits 64 bits the refresh comes at least
  five seconds in and strictly before the end. For a lease of one to five seconds it does
  not: the five-second floor is not earlier than the end of the lease.
\<close>
lemma lease_refresh_in_time:
  assumes "7 \<le> unat lease" "unat lease * 3 < 2 ^ 64"
  shows "secs 5 \<le> lease_delay lease \<and> lease_delay lease < secs (unat lease) \<and>
    (\<forall>l. 1 \<le> unat l \<and> unat l \<le> 5 \<longrightarrow> secs (unat l) \<le> lease_delay l)"
proof -
  have val: "lease_delay l = max (secs (unat l * 3 div 4)) (secs 5)" if "l \<noteq> 0" "unat l * 3 < 2 ^ 64" for l
  proof -
    have "unat (l * 3) = unat l * 3"
      using that(2) by (simp add: unat_word_ariths)
    with that(1) show ?thesis by (simp add: lease_delay_def Let_def unat_div)
  qed
  have "lease \<noteq> 0" using assms(1) by auto
  from val [OF this assms(2)] assms(1)
  have "secs 5 \<le> lease_delay lease \<and> lease_delay lease < secs (unat lease)"
    by (simp add: max_def) linarith
  moreover have "secs (unat l) \<le> lease_delay l" if "1 \<le> unat l" "unat l \<le> 5" for l
  proof -
    have "l \<noteq> 0" using that(1) by auto
    moreover have "unat l * 3 < 2 ^ 64" using that(2) by simp
    ultimately show ?thesis using that val by simp
  qed
  ultimately show ?thesis by blast
qed

lemma lease_refresh_in_time_witness:
  "lease_delay 900 < secs 900"
  using lease_refresh_in_time [of 900] by simp

end
