(* ===== verification/Admin.thy ===== *)
theory Admin
  imports Credentials
begin

text \<open>
  The durable registrations and their administration (\<open>admin.rs\<close>): validation, the
  ownership and identity checks on the state directory and the database file, and the
  operations of \<open>Store\<close> with the command dispatch of \<open>run\<close>.

  The SQL statements of the source are read as operations on two tables; a transaction
  that is dropped leaves the tables as they were. Whether a call to the operating system
  or to SQLite succeeds, what \<open>lstat\<close> returns, the clock and the random bytes are the
  surroundings of one command, the record \<open>admin_env\<close>.
\<close>

section \<open>The surroundings of a command\<close>

record metadata =
  md_uid :: "32 word"
  md_mode :: "32 word"
  md_is_dir :: bool
  md_is_file :: bool
  md_nlink :: "64 word"
  md_dev :: "64 word"
  md_ino :: "64 word"

datatype os_call =
    SetDirectoryMode | SyncParent | CreateDatabase | SetDatabaseMode | SyncDatabase | SyncDirectory
  | Canonicalize | Connect | Pragmas | QuickCheck
  | Begin | ReadVersion | Probe | Query | Execute | ExecuteAudit | Commit | SyncAfterCommit
  | OpenOutputParent | CreateOutput | SetOutputMode | WriteOutput | SyncOutput | SyncOutputParent
  | RemoveOutput | RemoveDatabase | WriteStdout

datatype mkdir_result = Created | Existed | MkdirFailed

text \<open>
  \<open>ae_directory n\<close> and \<open>ae_database n\<close> are what \<open>symlink_metadata\<close> finds at the two paths
  the \<open>n\<close>-th time the command looks.
\<close>

record admin_env =
  ae_euid :: "32 word"
  ae_umask :: "32 word"
  ae_directory :: "nat \<Rightarrow> metadata option"
  ae_database :: "nat \<Rightarrow> metadata option"
  ae_mkdir :: mkdir_result
  ae_clock :: "64 word option"
  ae_audit_clock :: "64 word option"
  ae_random :: "bytes option"
  ae_written :: nat
  ae_ok :: "os_call \<Rightarrow> bool"

type_synonym 'a fallible = "string + 'a"

definition call :: "admin_env \<Rightarrow> os_call \<Rightarrow> unit fallible" where
  "call E c = (if ae_ok E c then Inr () else Inl ''system call failed'')"

section \<open>Validation\<close>

definition MAX_REGISTRATIONS :: nat where "MAX_REGISTRATIONS = 10000"

definition id_byte :: "byte \<Rightarrow> bool" where
  "id_byte b \<longleftrightarrow> 97 \<le> unat b \<and> unat b \<le> 122 \<or> 48 \<le> unat b \<and> unat b \<le> 57"

definition validate_id :: "bytes \<Rightarrow> unit fallible" where
  "validate_id tid =
     (if tid = [] \<or> 63 < length tid \<or> \<not> id_byte (hd tid) \<or> \<not> list_all (\<lambda>b. id_byte b \<or> b = 45) tid
      then Inl ''invalid ID'' else Inr ())"

definition chars :: "bytes \<Rightarrow> scalars" where
  "chars s = (case utf8_decode s of Some cs \<Rightarrow> cs | None \<Rightarrow> [])"

definition validate_label :: "bytes \<Rightarrow> unit fallible" where
  "validate_label label =
     (if label = [] \<or> 128 < length (chars label) \<or> list_ex is_control (chars label)
      then Inl ''invalid label'' else Inr ())"

text \<open>
  \<open>directory.components().collect()\<close>: repeated and trailing slashes and the components
  \<open>.\<close> go, but for a leading one and the root.
\<close>

fun join_path :: "bytes list \<Rightarrow> bytes" where
  "join_path [] = []"
| "join_path [p] = p"
| "join_path (p # ps) = p @ 47 # join_path ps"

definition normalized_directory :: "bytes \<Rightarrow> bytes fallible" where
  "normalized_directory directory =
     (if directory = [] then Inl ''state directory must not be empty''
      else
        let parts = split_on 47 directory;
            normal = filter (\<lambda>p. p \<noteq> [] \<and> p \<noteq> asc ''.'') parts
        in Inr (if hd parts = [] then 47 # join_path normal
                else if hd parts = asc ''.'' then join_path (hd parts # normal)
                else join_path normal))"

lemma normalized_directory_Inr: "(\<exists>p. normalized_directory d = Inr p) \<longleftrightarrow> d \<noteq> []"
  by (simp add: normalized_directory_def Let_def)

text \<open>A terminal \<open>.\<close> or slash cannot lead \<open>lstat\<close> past a symbolic link.\<close>

lemma normalized_directory_examples:
  "normalized_directory (asc ''link/.'') = Inr (asc ''link'')"
  "normalized_directory (asc ''//var/./link//'') = Inr (asc ''/var/link'')"
  "normalized_directory (asc ''./link/./.'') = Inr (asc ''./link'')"
  "normalized_directory (asc ''/'') = Inr (asc ''/'')"
  "normalized_directory (asc ''.'') = Inr (asc ''.'')"
  by (simp_all add: normalized_directory_def)

section \<open>Files\<close>

definition private_metadata :: "admin_env \<Rightarrow> metadata option \<Rightarrow> bool \<Rightarrow> metadata fallible" where
  "private_metadata E found directory =
     try_then (ok_or ''no metadata'' found) (\<lambda>m.
       let expected_mode = (if directory then 448 else 384) in
       if md_uid m \<noteq> ae_euid E \<or> and (md_mode m) 4095 \<noteq> expected_mode \<or>
          directory \<and> \<not> md_is_dir m \<or> \<not> directory \<and> (\<not> md_is_file m \<or> md_nlink m \<noteq> 1)
       then Inl (if directory then ''state directory is not private'' else ''database is not private'')
       else Inr m)"

definition identity :: "metadata \<Rightarrow> 64 word \<times> 64 word" where
  "identity m = (md_dev m, md_ino m)"

record store =
  st_directory_identity :: "64 word \<times> 64 word"
  st_database_identity :: "64 word \<times> 64 word"

definition check_files :: "admin_env \<Rightarrow> nat \<Rightarrow> store \<Rightarrow> unit fallible" where
  "check_files E n st =
     try_then (private_metadata E (ae_directory E n) True) (\<lambda>d.
       if identity d \<noteq> st_directory_identity st then Inl ''state directory or database was replaced''
       else try_then (private_metadata E (ae_database E n) False) (\<lambda>m.
         if identity m \<noteq> st_database_identity st
         then Inl ''state directory or database was replaced'' else Inr ()))"

definition connect :: "admin_env \<Rightarrow> metadata \<Rightarrow> store fallible" where
  "connect E directory_metadata =
     try_then (call E Canonicalize) (\<lambda>_.
     try_then (private_metadata E (ae_database E 1) False) (\<lambda>database_metadata.
     try_then (call E Connect) (\<lambda>_.
     try_then (call E Pragmas) (\<lambda>_.
       let st = \<lparr>st_directory_identity = identity directory_metadata,
                 st_database_identity = identity database_metadata\<rparr>
       in try_then (check_files E 2 st) (\<lambda>_. Inr st)))))"

section \<open>The tables\<close>

text \<open>
  Columns are 64-bit SQLite integers or text; \<open>db_sequence\<close> is the last number the
  autoincrement of the audit table gave out.
\<close>

record registration_row =
  rr_id :: bytes
  rr_label :: bytes
  rr_credential_hash :: bytes
  rr_active :: int
  rr_expires_at :: int

record audit_row =
  au_sequence :: int
  au_timestamp :: int
  au_operator_uid :: int
  au_action :: bytes
  au_tether_id :: "bytes option"
  au_expires_at :: "int option"

record database =
  db_version :: int
  db_registrations :: "registration_row list"
  db_audit :: "audit_row list"
  db_sequence :: int

text \<open>\<open>length(x)\<close> of SQLite: the characters before the first NUL.\<close>

definition sql_length :: "bytes \<Rightarrow> nat" where
  "sql_length s = length (filter (\<lambda>b. \<not> cont b) (takeWhile (\<lambda>b. b \<noteq> 0) s))"

definition between :: "nat \<Rightarrow> nat \<Rightarrow> nat \<Rightarrow> bool" where
  "between lo hi n \<longleftrightarrow> lo \<le> n \<and> n \<le> hi"

text \<open>The \<open>CHECK\<close> constraints of \<open>registrations\<close> and of \<open>audit\<close>.\<close>

definition registration_checks :: "registration_row \<Rightarrow> bool" where
  "registration_checks row \<longleftrightarrow>
     between 1 63 (sql_length (rr_id row)) \<and> between 1 128 (sql_length (rr_label row)) \<and>
     sql_length (rr_credential_hash row) = 64 \<and> rr_active row \<in> {0, 1} \<and> 0 < rr_expires_at row"

definition audit_actions :: "bytes list" where
  "audit_actions = [asc ''init'', asc ''register'', asc ''rotate'', asc ''revoke'']"

definition audit_checks :: "audit_row \<Rightarrow> bool" where
  "audit_checks row \<longleftrightarrow>
     0 \<le> au_timestamp row \<and> 0 \<le> au_operator_uid row \<and> au_action row \<in> set audit_actions"

definition check_schema :: "admin_env \<Rightarrow> database \<Rightarrow> unit fallible" where
  "check_schema E db =
     try_then (call E ReadVersion) (\<lambda>_.
       if db_version db \<noteq> 1 then Inl ''unsupported database schema version'' else call E Probe)"

definition i64_try_from :: "64 word \<Rightarrow> int fallible" where
  "i64_try_from w = (if uint w < 2 ^ 63 then Inr (uint w) else Inl ''out of range'')"

definition u64_try_from :: "int \<Rightarrow> 64 word fallible" where
  "u64_try_from i = (if 0 \<le> i then Inr (word_of_int i) else Inl ''out of range'')"

definition append_audit ::
    "admin_env \<Rightarrow> bytes \<Rightarrow> bytes option \<Rightarrow> 64 word option \<Rightarrow> database \<Rightarrow> database fallible" where
  "append_audit E action tid expiry db =
     try_then (ok_or ''clock'' (ae_audit_clock E)) (\<lambda>now.
     try_then (i64_try_from now) (\<lambda>timestamp.
     try_then (case expiry of None \<Rightarrow> Inr None | Some e \<Rightarrow> map_sum id Some (i64_try_from e)) (\<lambda>expires.
       let row = \<lparr>au_sequence = db_sequence db + 1, au_timestamp = timestamp,
                  au_operator_uid = uint (ae_euid E), au_action = action, au_tether_id = tid,
                  au_expires_at = expires\<rparr>
       in if ae_ok E ExecuteAudit \<and> audit_checks row \<and> db_sequence db < 2 ^ 63 - 1
          then Inr (db\<lparr>db_audit := db_audit db @ [row], db_sequence := db_sequence db + 1\<rparr>)
          else Inl ''audit insert failed'')))"

definition insert_registration :: "admin_env \<Rightarrow> registration_row \<Rightarrow> database \<Rightarrow> database fallible" where
  "insert_registration E row db =
     (if ae_ok E Execute \<and> registration_checks row \<and> rr_id row \<notin> rr_id ` set (db_registrations db)
      then Inr (db\<lparr>db_registrations := db_registrations db @ [row]\<rparr>)
      else Inl ''registration failed; ID must be unique and state must be writable'')"

text \<open>
  \<open>UPDATE ... SET f WHERE p\<close>: the number of rows changed; a row that breaks a constraint
  fails the statement.
\<close>

definition update_registrations ::
    "admin_env \<Rightarrow> (registration_row \<Rightarrow> registration_row) \<Rightarrow> (registration_row \<Rightarrow> bool) \<Rightarrow> database \<Rightarrow>
     (nat \<times> database) fallible" where
  "update_registrations E f p db =
     (let rows = db_registrations db
      in if ae_ok E Execute \<and> list_all (\<lambda>row. p row \<longrightarrow> registration_checks (f row)) rows
         then Inr (length (filter p rows),
                   db\<lparr>db_registrations := map (\<lambda>row. if p row then f row else row) rows\<rparr>)
         else Inl ''update failed'')"

section \<open>Reading\<close>

definition get_text :: "bytes \<Rightarrow> bytes fallible" where
  "get_text s = (if utf8_decode s = None then Inl ''invalid text'' else Inr s)"

text \<open>One row of \<open>snapshot\<close>, in the order of its conversions and checks.\<close>

definition read_row :: "registration_row \<Rightarrow> admin_record fallible" where
  "read_row row =
     try_then (get_text (rr_id row)) (\<lambda>tid.
     try_then (get_text (rr_label row)) (\<lambda>label.
     try_then (get_text (rr_credential_hash row)) (\<lambda>hash.
     try_then (u64_try_from (rr_expires_at row)) (\<lambda>expires.
       if rr_active row \<noteq> 0 \<and> rr_active row \<noteq> 1 then Inl ''invalid registration state''
       else
         try_then (validate_id tid) (\<lambda>_.
         try_then (validate_label label) (\<lambda>_.
           if length hash \<noteq> 64 \<or> \<not> list_all is_hex_lower hash \<or> expires = 0
           then Inl ''invalid persisted registration''
           else Inr \<lparr>ar_id = tid, ar_label = label, ar_credential_hash = hash,
                     ar_active = (rr_active row = 1), ar_expires_at = expires\<rparr>))))))"

fun read_rows :: "registration_row list \<Rightarrow> admin_record list \<Rightarrow> admin_record list fallible" where
  "read_rows [] records = Inr records"
| "read_rows (row # rows) records =
     try_then (read_row row) (\<lambda>rec.
       let records = records @ [rec]
       in if MAX_REGISTRATIONS < length records then Inl ''registration limit exceeded''
          else read_rows rows records)"

definition snapshot :: "admin_env \<Rightarrow> store \<Rightarrow> database \<Rightarrow> admin_record list fallible" where
  "snapshot E st db =
     try_then (check_files E 4 st) (\<lambda>_.
     try_then (call E Begin) (\<lambda>_.
     try_then (check_schema E db) (\<lambda>_.
     try_then (call E Query) (\<lambda>_.
     try_then (read_rows (take 10001 (sort_key rr_id (db_registrations db))) []) (\<lambda>records.
     try_then (call E Commit) (\<lambda>_.
     try_then (check_files E 5 st) (\<lambda>_. Inr records)))))))"

definition audit_event_ok :: "audit_row \<Rightarrow> bool" where
  "audit_event_ok row \<longleftrightarrow>
     0 \<le> au_operator_uid row \<and> au_operator_uid row < 2 ^ 32 \<and> utf8_decode (au_action row) \<noteq> None \<and>
     (\<forall>tid \<in> set_option (au_tether_id row). utf8_decode tid \<noteq> None)"

definition audit :: "admin_env \<Rightarrow> 64 word \<Rightarrow> store \<Rightarrow> database \<Rightarrow> audit_row list fallible" where
  "audit E after st db =
     try_then (i64_try_from after) (\<lambda>n.
     try_then (check_files E 4 st) (\<lambda>_.
     try_then (call E Begin) (\<lambda>_.
     try_then (check_schema E db) (\<lambda>_.
     try_then (call E Query) (\<lambda>_.
       let events = take 100 (sort_key au_sequence (filter (\<lambda>row. n < au_sequence row) (db_audit db)))
       in if list_all audit_event_ok events
          then try_then (call E Commit) (\<lambda>_. try_then (check_files E 5 st) (\<lambda>_. Inr events))
          else Inl ''invalid audit row'')))))"

record listed =
  li_id :: bytes
  li_label :: bytes
  li_active :: bool
  li_state :: string
  li_expires_at :: "64 word"

definition listed_of :: "64 word \<Rightarrow> admin_record \<Rightarrow> listed" where
  "listed_of now rec =
     (let state = (if \<not> ar_active rec then ''revoked''
                   else if ar_expires_at rec \<le> now then ''expired'' else ''active'')
      in \<lparr>li_id = ar_id rec, li_label = ar_label rec, li_active = (state = ''active''),
          li_state = state, li_expires_at = ar_expires_at rec\<rparr>)"

definition list_records :: "admin_env \<Rightarrow> store \<Rightarrow> database \<Rightarrow> listed list fallible" where
  "list_records E st db =
     try_then (ok_or ''clock'' (ae_clock E)) (\<lambda>now.
     map_sum id (map (listed_of now)) (snapshot E st db))"


section \<open>Delivering a credential\<close>

record output_file =
  of_mode :: "32 word"
  of_bytes :: bytes

type_synonym files = "bytes \<Rightarrow> output_file option"

record pending_credential =
  pc_path :: bytes
  pc_committed :: bool

text \<open>\<open>drop\<close>\<close>

definition pending_drop :: "admin_env \<Rightarrow> pending_credential \<Rightarrow> files \<Rightarrow> files" where
  "pending_drop E p fs =
     (if \<not> pc_committed p \<and> ae_ok E RemoveOutput then fs(pc_path p := None) else fs)"

text \<open>
  \<open>create\<close>: the file appears with the umask applied to mode 0600, gets that mode, and
  then its contents; a write that fails leaves the first \<open>ae_written\<close> bytes. A failure
  after the file exists drops the value.
\<close>

definition pending_create ::
    "admin_env \<Rightarrow> bytes \<Rightarrow> bytes \<Rightarrow> files \<Rightarrow> pending_credential fallible \<times> files" where
  "pending_create E path credential fs =
     (case call E OpenOutputParent of
        Inl e \<Rightarrow> (Inl e, fs)
      | Inr _ \<Rightarrow>
          if \<not> ae_ok E CreateOutput \<or> fs path \<noteq> None then (Inl ''cannot create output'', fs)
          else
            let p = \<lparr>pc_path = path, pc_committed = False\<rparr>;
                fs = fs(path \<mapsto> \<lparr>of_mode = and 384 (not (ae_umask E)), of_bytes = []\<rparr>)
            in (case call E SetOutputMode of
                  Inl e \<Rightarrow> (Inl e, pending_drop E p fs)
                | Inr _ \<Rightarrow>
                    let line = credential @ [10];
                        written = (if ae_ok E WriteOutput then line else take (ae_written E) line);
                        fs = fs(path \<mapsto> \<lparr>of_mode = 384, of_bytes = written\<rparr>)
                    in (case try_then (call E WriteOutput) (\<lambda>_. try_then (call E SyncOutput) (\<lambda>_.
                               call E SyncOutputParent)) of
                          Inl e \<Rightarrow> (Inl e, pending_drop E p fs)
                        | Inr _ \<Rightarrow> (Inr p, fs))))"

section \<open>Issuing and revoking\<close>

record admin_world =
  aw_database :: "database option"
  aw_files :: files

definition issue_expiry :: "admin_env \<Rightarrow> 64 word \<Rightarrow> (64 word) fallible" where
  "issue_expiry E ttl_secs =
     try_then (ok_or ''clock'' (ae_clock E)) (\<lambda>now.
     let time = uint now + uint ttl_secs
     in if time < 2 ^ 64 \<and> time \<le> 2 ^ 63 - 1 then Inr (word_of_int time)
        else Inl ''credential expiry is out of range'')"

text \<open>The new or the changed registration, and the action for the audit.\<close>

definition issue_row ::
    "admin_env \<Rightarrow> bytes \<Rightarrow> bytes option \<Rightarrow> bytes \<Rightarrow> 64 word \<Rightarrow> database \<Rightarrow> (bytes \<times> database) fallible" where
  "issue_row E tid label credential_hash expires_at db =
     (case label of
        Some l \<Rightarrow>
          try_then (call E Query) (\<lambda>_.
            if MAX_REGISTRATIONS \<le> length (db_registrations db) then Inl ''registration limit reached''
            else map_sum id (Pair (asc ''register'')) (insert_registration E
              \<lparr>rr_id = tid, rr_label = l, rr_credential_hash = credential_hash, rr_active = 1,
               rr_expires_at = sint expires_at\<rparr> db))
      | None \<Rightarrow>
          try_then (update_registrations E
            (\<lambda>row. row\<lparr>rr_credential_hash := credential_hash, rr_active := 1,
                       rr_expires_at := sint expires_at\<rparr>)
            (\<lambda>row. rr_id row = tid) db) (\<lambda>(changed, db).
            if changed \<noteq> 1 then Inl ''registration does not exist'' else Inr (asc ''rotate'', db)))"

text \<open>The transaction of \<open>issue\<close> up to the delivery: the new tables and the credential.\<close>

definition issue_transaction ::
    "(bytes \<Rightarrow> bytes) \<Rightarrow> admin_env \<Rightarrow> bytes \<Rightarrow> bytes option \<Rightarrow> 64 word \<Rightarrow> database \<Rightarrow>
     (database \<times> bytes) fallible" where
  "issue_transaction sha E tid label expires_at db =
     try_then (call E Begin) (\<lambda>_.
     try_then (check_schema E db) (\<lambda>_.
     try_then (ok_or ''OS credential randomness unavailable'' (ae_random E)) (\<lambda>random.
       let credential = concat (map hex2 random)
       in try_then (issue_row E tid label (digest sha credential) expires_at db) (\<lambda>(action, db).
            map_sum id (\<lambda>db. (db, credential)) (append_audit E action (Some tid) (Some expires_at) db)))))"

definition issue ::
    "(bytes \<Rightarrow> bytes) \<Rightarrow> admin_env \<Rightarrow> bytes \<Rightarrow> bytes option \<Rightarrow> 64 word \<Rightarrow> bytes \<Rightarrow> store \<Rightarrow>
     database \<Rightarrow> files \<Rightarrow> unit fallible \<times> database \<times> files" where
  "issue sha E tid label ttl_secs out st db fs =
     (case try_then (validate_id tid) (\<lambda>_.
             if \<not> (60 \<le> ttl_secs \<and> ttl_secs \<le> 86400)
             then Inl ''credential TTL must be 60 through 86400 seconds''
             else try_then (issue_expiry E ttl_secs) (\<lambda>expires_at.
               try_then (check_files E 4 st) (\<lambda>_.
               issue_transaction sha E tid label expires_at db))) of
        Inl e \<Rightarrow> (Inl e, db, fs)
      | Inr (db', credential) \<Rightarrow>
          (case pending_create E out credential fs of
             (Inl e, fs) \<Rightarrow> (Inl e, db, fs)
           | (Inr delivered, fs) \<Rightarrow>
               (case call E Commit of
                  Inl e \<Rightarrow> (Inl e, db, pending_drop E delivered fs)
                | Inr _ \<Rightarrow> (Inr (), db', pending_drop E (delivered\<lparr>pc_committed := True\<rparr>) fs))))"

definition admin_register ::
    "(bytes \<Rightarrow> bytes) \<Rightarrow> admin_env \<Rightarrow> bytes \<Rightarrow> bytes \<Rightarrow> 64 word \<Rightarrow> bytes \<Rightarrow> store \<Rightarrow>
     database \<Rightarrow> files \<Rightarrow> unit fallible \<times> database \<times> files" where
  "admin_register sha E tid label ttl_secs out st db fs =
     (case validate_label label of
        Inl e \<Rightarrow> (Inl e, db, fs)
      | Inr _ \<Rightarrow> issue sha E tid (Some label) ttl_secs out st db fs)"

definition admin_rotate ::
    "(bytes \<Rightarrow> bytes) \<Rightarrow> admin_env \<Rightarrow> bytes \<Rightarrow> 64 word \<Rightarrow> bytes \<Rightarrow> store \<Rightarrow>
     database \<Rightarrow> files \<Rightarrow> unit fallible \<times> database \<times> files" where
  "admin_rotate sha E tid ttl_secs out st db fs = issue sha E tid None ttl_secs out st db fs"

definition admin_revoke :: "admin_env \<Rightarrow> bytes \<Rightarrow> store \<Rightarrow> database \<Rightarrow> bool fallible \<times> database" where
  "admin_revoke E tid st db =
     (case try_then (validate_id tid) (\<lambda>_.
           try_then (check_files E 4 st) (\<lambda>_.
           try_then (call E Begin) (\<lambda>_.
           try_then (check_schema E db) (\<lambda>_.
           try_then (update_registrations E (\<lambda>row. row\<lparr>rr_active := 0\<rparr>)
             (\<lambda>row. rr_id row = tid \<and> rr_active row = 1) db) (\<lambda>(changed, db).
           try_then (if changed = 1 then append_audit E (asc ''revoke'') (Some tid) None db else Inr db) (\<lambda>db.
           map_sum id (\<lambda>_. (changed = 1, db)) (call E Commit))))))) of
        Inl e \<Rightarrow> (Inl e, db)
      | Inr (changed, db') \<Rightarrow> (Inr changed, db'))"

section \<open>Opening and initializing\<close>

text \<open>A file that exists but holds no database yet: its \<open>user_version\<close> is 0.\<close>

definition no_schema :: database where
  "no_schema = \<lparr>db_version = 0, db_registrations = [], db_audit = [], db_sequence = 0\<rparr>"

text \<open>\<open>open\<close>; without a file \<open>lstat\<close> finds none, so \<open>connect\<close> fails.\<close>

definition store_open :: "admin_env \<Rightarrow> bytes \<Rightarrow> database option \<Rightarrow> (store \<times> database) fallible" where
  "store_open E directory found =
     try_then (normalized_directory directory) (\<lambda>_.
     try_then (private_metadata E (ae_directory E 0) True) (\<lambda>m.
     try_then (connect E m) (\<lambda>st.
     try_then (ok_or ''no database'' found) (\<lambda>db.
     try_then (check_schema E db) (\<lambda>_.
     try_then (call E QuickCheck) (\<lambda>_.
     try_then (check_files E 3 st) (\<lambda>_. Inr (st, db))))))))"

text \<open>The closure of \<open>init\<close>: its result and the contents of the file when it returns.\<close>

definition initialize :: "admin_env \<Rightarrow> metadata \<Rightarrow> unit fallible \<times> database" where
  "initialize E directory_metadata =
     (case try_then (connect E directory_metadata) (\<lambda>_.
           try_then (call E Begin) (\<lambda>_.
           try_then (call E Execute) (\<lambda>_.
           try_then (append_audit E (asc ''init'') None None (no_schema\<lparr>db_version := 1\<rparr>)) (\<lambda>db.
           map_sum id (\<lambda>_. db) (call E Commit))))) of
        Inl e \<Rightarrow> (Inl e, no_schema)
      | Inr db \<Rightarrow> (call E SyncAfterCommit, db))"

definition store_init :: "admin_env \<Rightarrow> bytes \<Rightarrow> database option \<Rightarrow> unit fallible \<times> database option" where
  "store_init E directory found =
     (case try_then (normalized_directory directory) (\<lambda>_.
           try_then (case ae_mkdir E of
               Created \<Rightarrow> try_then (call E SetDirectoryMode) (\<lambda>_. call E SyncParent)
             | Existed \<Rightarrow> Inr ()
             | MkdirFailed \<Rightarrow> Inl ''cannot create directory'') (\<lambda>_.
           try_then (private_metadata E (ae_directory E 0) True) (\<lambda>m.
             if \<not> ae_ok E CreateDatabase \<or> found \<noteq> None then Inl ''cannot create database'' else Inr m))) of
        Inl e \<Rightarrow> (Inl e, found)
      | Inr m \<Rightarrow>
          (case try_then (call E SetDatabaseMode) (\<lambda>_. try_then (call E SyncDatabase) (\<lambda>_. call E SyncDirectory)) of
             Inl e \<Rightarrow> (Inl e, Some no_schema)
           | Inr _ \<Rightarrow>
               (case initialize E m of
                  (Inl e, db) \<Rightarrow> (Inl e, if ae_ok E RemoveDatabase then None else Some db)
                | (Inr _, db) \<Rightarrow> (Inr (), Some db))))"

section \<open>The command line\<close>

datatype admin_report =
    RInit
  | RRegister bytes
  | RRotate bytes
  | RRevoke bytes bool
  | RList "listed list"
  | RAudit "audit_row list"

text \<open>\<open>env::var_os(..).filter(non-empty)\<close>\<close>

definition nonempty_var :: "bytes option \<Rightarrow> bytes option" where
  "nonempty_var v = (case v of Some s \<Rightarrow> if s = [] then None else Some s | None \<Rightarrow> None)"

definition parse_u64 :: "string \<Rightarrow> bytes \<Rightarrow> 64 word fallible" where
  "parse_u64 msg s = map_sum id of_nat (ok_or msg (parse_uint 64 (chars s)))"

text \<open>\<open>Store::open(directory)?\<close> followed by an operation that may change the state.\<close>

definition with_store ::
    "admin_env \<Rightarrow> bytes \<Rightarrow> admin_world \<Rightarrow>
     (store \<Rightarrow> database \<Rightarrow> files \<Rightarrow> 'a fallible \<times> database \<times> files) \<Rightarrow> 'a fallible \<times> admin_world" where
  "with_store E directory w op =
     (case store_open E directory (aw_database w) of
        Inl e \<Rightarrow> (Inl e, w)
      | Inr (st, db) \<Rightarrow>
          (case op st db (aw_files w) of
             (res, db, fs) \<Rightarrow> (res, \<lparr>aw_database = Some db, aw_files = fs\<rparr>)))"

definition output_path :: "bytes option \<Rightarrow> bytes fallible" where
  "output_path out = ok_or ''ANVIL_RING_CREDENTIAL_OUT is required for issuance'' (nonempty_var out)"

definition revoke_command ::
    "admin_env \<Rightarrow> bytes \<Rightarrow> store \<Rightarrow> database \<Rightarrow> files \<Rightarrow> admin_report fallible \<times> database \<times> files" where
  "revoke_command E tid st db fs =
     (case admin_revoke E tid st db of (res, db) \<Rightarrow> (map_sum id (RRevoke tid) res, db, fs))"

text \<open>\<open>register\<close> with a label, \<open>rotate\<close> without one; the arguments are evaluated first.\<close>

definition issue_command ::
    "(bytes \<Rightarrow> bytes) \<Rightarrow> admin_env \<Rightarrow> bytes option \<Rightarrow> bytes \<Rightarrow> bytes option \<Rightarrow> bytes \<Rightarrow>
     store \<Rightarrow> database \<Rightarrow> files \<Rightarrow> admin_report fallible \<times> database \<times> files" where
  "issue_command sha E out tid label ttl st db fs =
     (case try_then (parse_u64 ''TTL must be an integer'' ttl) (\<lambda>n. map_sum id (Pair n) (output_path out)) of
        Inl e \<Rightarrow> (Inl e, db, fs)
      | Inr (n, path) \<Rightarrow>
          (case label of
             Some l \<Rightarrow>
               (case admin_register sha E tid l n path st db fs of
                  (res, db, fs) \<Rightarrow> (map_sum id (\<lambda>_. RRegister tid) res, db, fs))
           | None \<Rightarrow>
               (case admin_rotate sha E tid n path st db fs of
                  (res, db, fs) \<Rightarrow> (map_sum id (\<lambda>_. RRotate tid) res, db, fs))))"

definition audit_command ::
    "admin_env \<Rightarrow> bytes \<Rightarrow> store \<Rightarrow> database \<Rightarrow> admin_report fallible" where
  "audit_command E after st db =
     try_then (parse_u64 ''audit sequence must be a nonnegative integer'' after) (\<lambda>n.
       map_sum id RAudit (audit E n st db))"

definition run_command ::
    "(bytes \<Rightarrow> bytes) \<Rightarrow> admin_env \<Rightarrow> bytes \<Rightarrow> bytes option \<Rightarrow> bytes list \<Rightarrow> admin_world \<Rightarrow>
     admin_report fallible \<times> admin_world" where
  "run_command sha E directory out args w =
     (case args of
        [c] \<Rightarrow>
          if c = asc ''init'' then
            (case store_init E directory (aw_database w) of
               (res, db) \<Rightarrow> (map_sum id (\<lambda>_. RInit) res, w\<lparr>aw_database := db\<rparr>))
          else if c = asc ''list'' then
            with_store E directory w (\<lambda>st db fs. (map_sum id RList (list_records E st db), db, fs))
          else if c = asc ''audit'' then
            with_store E directory w (\<lambda>st db fs. (map_sum id RAudit (audit E 0 st db), db, fs))
          else (Inl ''usage'', w)
      | [c, a] \<Rightarrow>
          if c = asc ''revoke'' then with_store E directory w (revoke_command E a)
          else if c = asc ''audit'' then
            with_store E directory w (\<lambda>st db fs. (audit_command E a st db, db, fs))
          else (Inl ''usage'', w)
      | [c, tid, ttl] \<Rightarrow>
          if c = asc ''rotate'' then with_store E directory w (issue_command sha E out tid None ttl)
          else (Inl ''usage'', w)
      | [c, tid, label, ttl] \<Rightarrow>
          if c = asc ''register'' then with_store E directory w (issue_command sha E out tid (Some label) ttl)
          else (Inl ''usage'', w)
      | _ \<Rightarrow> (Inl ''usage'', w))"

text \<open>\<open>run\<close>: the report is written last, so a failing write does not undo the command.\<close>

definition admin_run ::
    "(bytes \<Rightarrow> bytes) \<Rightarrow> admin_env \<Rightarrow> bytes option \<Rightarrow> bytes option \<Rightarrow> bytes list \<Rightarrow> admin_world \<Rightarrow>
     admin_report fallible \<times> admin_world" where
  "admin_run sha E state_dir out args w =
     (case nonempty_var state_dir of
        None \<Rightarrow> (Inl ''ANVIL_RING_STATE_DIR is required'', w)
      | Some directory \<Rightarrow>
          (case run_command sha E directory out args w of
             (res, w) \<Rightarrow> (try_then res (\<lambda>r. map_sum id (\<lambda>_. r) (call E WriteStdout)), w)))"


section \<open>Facts about the operations\<close>

lemma try_then_cases:
  "try_then r k = Inr y \<Longrightarrow> (\<And>x. r = Inr x \<Longrightarrow> k x = Inr y \<Longrightarrow> P) \<Longrightarrow> P"
  by (cases r) auto

lemma call_Inr [simp]: "call E c = Inr u \<longleftrightarrow> ae_ok E c" "call E c = Inl e \<longleftrightarrow> \<not> ae_ok E c \<and> e = ''system call failed''"
  by (auto simp: call_def)

lemma map_sum_Inr_iff: "map_sum f g r = Inr y \<longleftrightarrow> (\<exists>x. r = Inr x \<and> g x = y)"
  by (cases r) auto

lemmas inr_simps = try_then_Inr_iff map_sum_Inr_iff Let_def

lemma append_audit_InrD:
  assumes "append_audit E action tid expiry db = Inr db'"
  obtains row where "db' = db\<lparr>db_audit := db_audit db @ [row], db_sequence := db_sequence db + 1\<rparr>"
    "au_sequence row = db_sequence db + 1" "au_operator_uid row = uint (ae_euid E)"
    "au_action row = action" "au_tether_id row = tid" "audit_checks row"
  using assms by (auto simp: append_audit_def inr_simps split: if_splits)

lemma update_registrations_InrD:
  assumes "update_registrations E f p db = Inr (n, db')"
  shows "n = length (filter p (db_registrations db)) \<and>
    db' = db\<lparr>db_registrations := map (\<lambda>row. if p row then f row else row) (db_registrations db)\<rparr>"
  using assms by (auto simp: update_registrations_def Let_def split: if_splits)

lemma check_schema_version: "check_schema E db = Inr u \<Longrightarrow> db_version db = 1"
  by (auto simp: check_schema_def inr_simps split: if_splits)

text \<open>The tables and the file after an issuance that succeeded.\<close>

definition issued_rows ::
    "bytes \<Rightarrow> bytes option \<Rightarrow> bytes \<Rightarrow> int \<Rightarrow> registration_row list \<Rightarrow> registration_row list" where
  "issued_rows tid label hash expires rows =
     (case label of
        Some l \<Rightarrow> rows @ [\<lparr>rr_id = tid, rr_label = l, rr_credential_hash = hash, rr_active = 1, rr_expires_at = expires\<rparr>]
      | None \<Rightarrow> map (\<lambda>row. if rr_id row = tid
                  then row\<lparr>rr_credential_hash := hash, rr_active := 1, rr_expires_at := expires\<rparr> else row) rows)"

definition issuable :: "bytes \<Rightarrow> bytes option \<Rightarrow> registration_row list \<Rightarrow> bool" where
  "issuable tid label rows \<longleftrightarrow>
     (if label = None then length (filter (\<lambda>row. rr_id row = tid) rows) = 1
      else tid \<notin> rr_id ` set rows \<and> length rows < MAX_REGISTRATIONS)"

lemma issue_row_InrD:
  assumes "issue_row E tid label hash expires_at db = Inr (action, db')"
  shows "issuable tid label (db_registrations db)"
    "action = (if label = None then asc ''rotate'' else asc ''register'')"
    "db' = db\<lparr>db_registrations := issued_rows tid label hash (sint expires_at) (db_registrations db)\<rparr>"
  using assms
  by (auto simp: issue_row_def inr_simps insert_registration_def issuable_def issued_rows_def
      simp del: asc_simps dest!: update_registrations_InrD split: if_splits option.splits)

lemma issue_transaction_InrD:
  assumes "issue_transaction sha E tid label expires_at db = Inr (db', credential)"
  obtains random row where "ae_random E = Some random" "credential = concat (map hex2 random)"
    "db_version db = 1" "db_version db' = 1" "issuable tid label (db_registrations db)"
    "db_registrations db' = issued_rows tid label (digest sha credential) (sint expires_at) (db_registrations db)"
    "db_audit db' = db_audit db @ [row]" "db_sequence db' = db_sequence db + 1"
    "au_sequence row = db_sequence db + 1" "au_operator_uid row = uint (ae_euid E)"
    "au_action row = (if label = None then asc ''rotate'' else asc ''register'')"
    "au_tether_id row = Some tid" "audit_checks row"
proof -
  from assms obtain random action db1 where r: "ae_random E = Some random"
      "credential = concat (map hex2 random)" "db_version db = 1"
      "append_audit E action (Some tid) (Some expires_at) db1 = Inr db'"
    and row: "issue_row E tid label (digest sha credential) expires_at db = Inr (action, db1)"
    unfolding issue_transaction_def Let_def
    by (elim try_then_cases) (auto simp: map_sum_Inr_iff dest!: check_schema_version split: prod.splits)
  note tables = issue_row_InrD [OF row]
  obtain row where a: "db' = db1\<lparr>db_audit := db_audit db1 @ [row], db_sequence := db_sequence db1 + 1\<rparr>"
    "au_sequence row = db_sequence db1 + 1" "au_operator_uid row = uint (ae_euid E)"
    "au_action row = action" "au_tether_id row = Some tid" "audit_checks row"
    by (rule append_audit_InrD [OF r(4)])
  show ?thesis
    by (rule that [OF r(1-3) _ tables(1), of row])
      (simp_all add: a tables(2,3) r(3) del: asc_simps)
qed

lemma pending_create_Inl:
  assumes "pending_create E path credential fs = (Inl e, fs')"
  shows "q \<noteq> path \<Longrightarrow> fs' q = fs q" "ae_ok E RemoveOutput \<Longrightarrow> fs' = fs"
  using assms
  by (auto simp: pending_create_def pending_drop_def Let_def fun_upd_triv split: sum.splits if_splits)

lemma pending_create_Inr:
  assumes "pending_create E path credential fs = (Inr p, fs')"
  shows "p = \<lparr>pc_path = path, pc_committed = False\<rparr>" "fs path = None"
    "fs' = fs(path \<mapsto> \<lparr>of_mode = 384, of_bytes = credential @ [10]\<rparr>)"
  using assms
  by (auto simp: pending_create_def pending_drop_def Let_def try_then_Inr_iff split: sum.splits if_splits)

lemma issue_expiry_InrD:
  assumes "issue_expiry E ttl = Inr e"
  obtains now where "ae_clock E = Some now" "unat e = unat now + unat ttl" "unat e < 2 ^ 63"
proof -
  from assms obtain now where now: "ae_clock E = Some now"
    and e: "(if uint now + uint ttl < 2 ^ 64 \<and> uint now + uint ttl \<le> 2 ^ 63 - 1
             then Inr (word_of_int (uint now + uint ttl)) else Inl ''credential expiry is out of range'') = Inr e"
    unfolding issue_expiry_def Let_def by (elim try_then_cases) simp
  then have n: "uint now + uint ttl \<le> 2 ^ 63 - 1" "e = word_of_int (uint now + uint ttl)"
    by (simp_all only: sum.inject sum.distinct split: if_splits)
  have u: "uint e = uint now + uint ttl"
    unfolding n(2) uint_word_of_int_eq using n(1) by (intro take_bit_int_eq_self) simp_all
  then have "unat e = unat now + unat ttl"
    by (simp only: unat_eq_nat_uint nat_add_distrib uint_ge_0)
  moreover have "unat e < 2 ^ 63"
    using n(1) u by (simp only: unat_eq_nat_uint nat_less_iff uint_ge_0) simp
  ultimately show ?thesis using now by (intro that)
qed

lemma sint_small: "unat (e :: 64 word) < 2 ^ 63 \<Longrightarrow> sint e = int (unat e)"
proof -
  assume "unat e < 2 ^ 63"
  then have "int (unat e) < int (2 ^ 63)" by (simp only: of_nat_less_iff)
  then have "uint e < 2 ^ 63" by simp
  moreover have "- (2 ^ 63) \<le> uint e" by (rule order_trans [of _ 0]) simp_all
  ultimately have "signed_take_bit 63 (uint e) = uint e"
    by (intro signed_take_bit_int_eq_self)
  then show ?thesis by (simp add: sint_uint)
qed

section \<open>Snapshots\<close>

definition valid_row :: "registration_row \<Rightarrow> bool" where
  "valid_row row \<longleftrightarrow>
     validate_id (rr_id row) = Inr () \<and> validate_label (rr_label row) = Inr () \<and>
     utf8_decode (rr_label row) \<noteq> None \<and>
     length (rr_credential_hash row) = 64 \<and> list_all is_hex_lower (rr_credential_hash row) \<and>
     rr_active row \<in> {0, 1} \<and> 0 < rr_expires_at row"

definition record_of :: "registration_row \<Rightarrow> admin_record" where
  "record_of row = \<lparr>ar_id = rr_id row, ar_label = rr_label row,
     ar_credential_hash = rr_credential_hash row, ar_active = (rr_active row = 1),
     ar_expires_at = word_of_int (rr_expires_at row)\<rparr>"

text \<open>The values an \<open>INTEGER\<close> column can hold.\<close>

definition column_range :: "registration_row \<Rightarrow> bool" where
  "column_range row \<longleftrightarrow> - (2 ^ 63) \<le> rr_expires_at row \<and> rr_expires_at row < 2 ^ 63"

lemma id_byte_ascii: "list_all (\<lambda>b. id_byte b \<or> b = 45) s \<Longrightarrow> ascii s"
  by (auto simp: list_all_iff ascii_def id_byte_def)

lemma hex_ascii: "list_all is_hex_lower s \<Longrightarrow> ascii s"
  by (auto simp: list_all_iff ascii_def is_hex_lower_def)

lemma valid_id_utf8: "validate_id tid = Inr u \<Longrightarrow> utf8_decode tid \<noteq> None"
  by (auto simp: validate_id_def dest: id_byte_ascii utf8_decode_ascii split: if_splits)

lemma positive_u64: "0 \<le> i \<Longrightarrow> i < 2 ^ 63 \<Longrightarrow> (word_of_int i :: 64 word) = 0 \<longleftrightarrow> i = 0"
  by (auto simp: word_of_int_eq_0_iff dvd_def)

lemma read_row_iff:
  assumes "column_range row"
  shows "read_row row = Inr rec \<longleftrightarrow> valid_row row \<and> rec = record_of row"
proof -
  have "utf8_decode (rr_id row) \<noteq> None" if "validate_id (rr_id row) = Inr ()"
    using that by (rule valid_id_utf8)
  moreover have "utf8_decode (rr_credential_hash row) \<noteq> None"
    if "list_all is_hex_lower (rr_credential_hash row)"
    using utf8_decode_ascii [OF hex_ascii [OF that]] by simp
  ultimately show ?thesis
    using assms positive_u64 [of "rr_expires_at row"]
    unfolding read_row_def valid_row_def record_of_def get_text_def u64_try_from_def column_range_def
    by (auto simp: inr_simps split: if_splits)
qed

lemma read_rows_iff:
  assumes "list_all column_range rows" "length acc \<le> MAX_REGISTRATIONS"
  shows "read_rows rows acc = Inr recs \<longleftrightarrow>
    list_all valid_row rows \<and> length acc + length rows \<le> MAX_REGISTRATIONS \<and> recs = acc @ map record_of rows"
  using assms
proof (induction rows arbitrary: acc)
  case (Cons row rows)
  then have "column_range row" by simp
  note row = read_row_iff [OF this]
  show ?case
  proof (cases "length acc + 1 \<le> MAX_REGISTRATIONS")
    case True
    with Cons.IH [of "acc @ [record_of row]"] Cons.prems show ?thesis
      by (auto simp: try_then_Inr_iff row Let_def)
  qed (auto simp: Let_def try_then_Inr_iff)
qed auto

lemma map_sort_key_strict:
  "distinct (map f xs) \<Longrightarrow> sorted_wrt (<) (map f (sort_key f (xs :: 'a list) :: 'a list) :: 'b :: linorder list)"
  by (simp add: strict_sorted_iff distinct_map)

text \<open>The surroundings of a read that are not the data: files, transaction, schema, query.\<close>

definition readable :: "admin_env \<Rightarrow> store \<Rightarrow> bool" where
  "readable E st \<longleftrightarrow>
     check_files E 4 st = Inr () \<and> check_files E 5 st = Inr () \<and>
     list_all (ae_ok E) [Begin, ReadVersion, Probe, Query, Commit]"

lemma snapshot_exact_base:
  assumes "list_all column_range (db_registrations db)"
  shows "snapshot E st db = Inr recs \<longleftrightarrow>
    readable E st \<and> db_version db = 1 \<and>
    length (db_registrations db) \<le> MAX_REGISTRATIONS \<and> list_all valid_row (db_registrations db) \<and>
    recs = map record_of (sort_key rr_id (db_registrations db))"
proof -
  let ?rows = "sort_key rr_id (db_registrations db)"
  have "list_all column_range (take 10001 ?rows)"
    using assms by (auto simp: list_all_iff dest: in_set_takeD)
  note rows = read_rows_iff [OF this, of "[]" recs, simplified]
  have valid: "list_all valid_row ?rows \<longleftrightarrow> list_all valid_row (db_registrations db)"
    by (simp add: list_all_iff)
  have "read_rows (take 10001 ?rows) [] = Inr recs \<longleftrightarrow>
      length (db_registrations db) \<le> MAX_REGISTRATIONS \<and> list_all valid_row (db_registrations db) \<and>
      recs = map record_of ?rows"
  proof (cases "length (db_registrations db) \<le> MAX_REGISTRATIONS")
    case True
    then have "take 10001 ?rows = ?rows" by (simp add: MAX_REGISTRATIONS_def)
    with True rows valid show ?thesis by simp
  next
    case False
    then have "\<not> length (take 10001 ?rows) \<le> MAX_REGISTRATIONS" by (simp add: MAX_REGISTRATIONS_def)
    with False rows show ?thesis by simp
  qed
  then show ?thesis
    unfolding snapshot_def readable_def check_schema_def try_then_Inr_iff by auto
qed

text \<open>
  C17: A snapshot is all or nothing: it succeeds exactly when the surroundings let it be read
  and the database has at most 10000 registrations, every one of them valid, and then it
  is all of them, each once, in strictly increasing order of their identifiers. One invalid
  row or one registration too many gives an error and no record at all.
\<close>
theorem snapshot_exact:
  assumes "list_all column_range (db_registrations db)" "distinct (map rr_id (db_registrations db))"
  shows "(snapshot E st db = Inr recs \<longleftrightarrow>
      readable E st \<and> db_version db = 1 \<and>
      length (db_registrations db) \<le> 10000 \<and> list_all valid_row (db_registrations db) \<and>
      recs = map record_of (sort_key rr_id (db_registrations db))) \<and>
    (snapshot E st db = Inr recs \<longrightarrow>
      sorted_wrt (<) (map ar_id recs) \<and> set recs = record_of ` set (db_registrations db))"
proof -
  have "ar_id \<circ> record_of = rr_id" by (simp add: record_of_def fun_eq_iff)
  with assms map_sort_key_strict [of rr_id "db_registrations db"] show ?thesis
    unfolding snapshot_exact_base [OF assms(1)] MAX_REGISTRATIONS_def by auto
qed

lemma issue_delivers_or_undoes_base:
  "case issue sha E tid label ttl_secs out st db fs of
     (Inl e, db', fs') \<Rightarrow>
       db' = db \<and> (\<forall>path. path \<noteq> out \<longrightarrow> fs' path = fs path) \<and> (ae_ok E RemoveOutput \<longrightarrow> fs' = fs)
   | (Inr _, db', fs') \<Rightarrow>
       \<exists>credential random now row.
         ae_random E = Some random \<and> credential = concat (map hex2 random) \<and>
         60 \<le> unat ttl_secs \<and> unat ttl_secs \<le> 86400 \<and> ae_clock E = Some now \<and> fs out = None \<and>
         fs' = fs(out \<mapsto> \<lparr>of_mode = 384, of_bytes = credential @ [10]\<rparr>) \<and>
         validate_id tid = Inr () \<and> issuable tid label (db_registrations db) \<and>
         db_registrations db' = issued_rows tid label (digest sha credential)
           (int (unat now + unat ttl_secs)) (db_registrations db) \<and> unat now + unat ttl_secs < 2 ^ 63 \<and>
         db_version db = 1 \<and> db_version db' = 1 \<and>
         db_sequence db' = db_sequence db + 1 \<and> db_audit db' = db_audit db @ [row] \<and> audit_checks row \<and>
         au_sequence row = db_sequence db + 1 \<and>
         au_tether_id row = Some tid \<and> au_operator_uid row = uint (ae_euid E)"
proof (cases "try_then (validate_id tid) (\<lambda>_.
             if \<not> (60 \<le> ttl_secs \<and> ttl_secs \<le> 86400)
             then Inl ''credential TTL must be 60 through 86400 seconds''
             else try_then (issue_expiry E ttl_secs) (\<lambda>expires_at.
               try_then (check_files E 4 st) (\<lambda>_.
               issue_transaction sha E tid label expires_at db)))")
  case (Inl e)
  then show ?thesis by (simp add: issue_def)
next
  case (Inr r)
  then obtain db1 credential where r: "r = (db1, credential)" by (cases r)
  from Inr obtain expires_at where ttl: "60 \<le> ttl_secs" "ttl_secs \<le> 86400"
    and tid: "validate_id tid = Inr ()"
    and ex: "issue_expiry E ttl_secs = Inr expires_at"
    and tr: "issue_transaction sha E tid label expires_at db = Inr (db1, credential)"
    unfolding r by (elim try_then_cases) (auto elim!: try_then_cases split: if_splits)
  have bounds: "60 \<le> unat ttl_secs" "unat ttl_secs \<le> 86400"
    using ttl by (simp_all add: word_le_nat_alt)
  obtain now where now: "ae_clock E = Some now" "unat expires_at = unat now + unat ttl_secs"
      "unat expires_at < 2 ^ 63" by (rule issue_expiry_InrD [OF ex])
  note sint = sint_small [OF now(3)]
  obtain pres fs1 where p: "pending_create E out credential fs = (pres, fs1)" by (cases "pending_create E out credential fs")
  show ?thesis
  proof (cases pres)
    case (Inl e)
    with p Inr r show ?thesis
      by (auto simp: issue_def pending_create_Inl)
  next
    case P: (Inr d)
    note d = pending_create_Inr [OF p [unfolded P]]
    show ?thesis
    proof (cases "ae_ok E Commit")
      case False
      with p P Inr r d show ?thesis
        by (auto simp: issue_def call_def pending_drop_def fun_upd_idem)
    next
      case True
      with p P Inr r d have "issue sha E tid label ttl_secs out st db fs = (Inr (), db1, fs1)"
        by (simp add: issue_def call_def pending_drop_def)
      moreover obtain random row where r: "ae_random E = Some random" "credential = concat (map hex2 random)"
          and t: "db_version db = 1" "db_version db1 = 1"
          "issuable tid label (db_registrations db)"
          "db_registrations db1 =
             issued_rows tid label (digest sha credential) (sint expires_at) (db_registrations db)"
          "db_audit db1 = db_audit db @ [row]" "db_sequence db1 = db_sequence db + 1"
          "au_sequence row = db_sequence db + 1" "au_operator_uid row = uint (ae_euid E)"
          "au_tether_id row = Some tid" "audit_checks row"
        by (rule issue_transaction_InrD [OF tr])
      ultimately show ?thesis
        using bounds now tid d(2,3) sint
        by (simp del: asc_simps)
    qed
  qed
qed

text \<open>
  C16: Issuing a credential is atomic. On success the output file, which did not exist, is
  private and holds one line, the new credential, the hexadecimal of the random bytes; the registration (a new one, or the
  existing one when rotating) is active, stores only the credential's digest and expires
  one to 1440 minutes from now; no other registration and no other file changes, and one
  audit row names the operator and the tether. On failure the database is untouched, and
  the output file is gone if it can be removed at all.
\<close>
theorem issue_delivers_or_undoes:
  "case issue sha E tid label ttl_secs out st db fs of
     (Inl e, db', fs') \<Rightarrow>
       db' = db \<and> (\<forall>path. path \<noteq> out \<longrightarrow> fs' path = fs path) \<and> (ae_ok E RemoveOutput \<longrightarrow> fs' = fs)
   | (Inr _, db', fs') \<Rightarrow>
       \<exists>credential random now row.
         ae_random E = Some random \<and> credential = concat (map hex2 random) \<and>
         60 \<le> unat ttl_secs \<and> unat ttl_secs \<le> 86400 \<and> ae_clock E = Some now \<and> fs out = None \<and>
         fs' = fs(out \<mapsto> \<lparr>of_mode = 384, of_bytes = credential @ [10]\<rparr>) \<and>
         validate_id tid = Inr () \<and> issuable tid label (db_registrations db) \<and>
         db_registrations db' = issued_rows tid label (digest sha credential)
           (int (unat now + unat ttl_secs)) (db_registrations db) \<and> unat now + unat ttl_secs < 2 ^ 63 \<and>
         db_version db = 1 \<and> db_version db' = 1 \<and>
         db_sequence db' = db_sequence db + 1 \<and> db_audit db' = db_audit db @ [row] \<and> audit_checks row \<and>
         au_sequence row = db_sequence db + 1 \<and>
         au_tether_id row = Some tid \<and> au_operator_uid row = uint (ae_euid E)"
  by (rule issue_delivers_or_undoes_base)

section \<open>The invariant of the store\<close>

definition rows_ok :: "registration_row list \<Rightarrow> bool" where
  "rows_ok rows \<longleftrightarrow>
     distinct (map rr_id rows) \<and> length rows \<le> MAX_REGISTRATIONS \<and>
     list_all valid_row rows \<and> list_all column_range rows"

text \<open>The audit is numbered from 1 without a gap, and every row of it can be read back.\<close>

definition audit_ok :: "audit_row list \<Rightarrow> int \<Rightarrow> bool" where
  "audit_ok rows n \<longleftrightarrow>
     map au_sequence rows = map (\<lambda>i. int i + 1) [0..<length rows] \<and> n = int (length rows) \<and>
     list_all audit_event_ok rows"

definition database_ok :: "database \<Rightarrow> bool" where
  "database_ok db \<longleftrightarrow>
     db = no_schema \<or> db_version db = 1 \<and> rows_ok (db_registrations db) \<and> audit_ok (db_audit db) (db_sequence db)"

definition advances :: "database \<Rightarrow> database \<Rightarrow> bool" where
  "advances db db' \<longleftrightarrow>
     db' = db \<or> db_version db' = db_version db \<and> (\<exists>row. db_audit db' = db_audit db @ [row])"

lemma advances_refl [simp]: "advances db db" by (simp add: advances_def)

lemma audit_ok_append:
  assumes "audit_ok rows n" "au_sequence row = n + 1" "audit_checks row" "au_operator_uid row = uint (w :: 32 word)"
    and "\<forall>tid \<in> set_option (au_tether_id row). utf8_decode tid \<noteq> None"
  shows "audit_ok (rows @ [row]) (n + 1)"
proof -
  have "\<forall>action \<in> set audit_actions. utf8_decode action \<noteq> None"
    by (auto simp: audit_actions_def utf8_decode_ascii ascii_def)
  with assms(3) have "utf8_decode (au_action row) \<noteq> None" by (auto simp: audit_checks_def)
  moreover have "uint w < 2 ^ 32" using uint_lt2p [of w] by simp
  ultimately show ?thesis using assms by (auto simp: audit_ok_def audit_event_ok_def)
qed

lemma rows_ok_map:
  assumes "rows_ok rows" "\<And>row. rr_id (g row) = rr_id row"
    and "\<And>row. row \<in> set rows \<Longrightarrow> valid_row row \<Longrightarrow> column_range row \<Longrightarrow> valid_row (g row) \<and> column_range (g row)"
  shows "rows_ok (map g rows)"
proof -
  have "map rr_id (map g rows) = map rr_id rows" by (simp add: assms(2))
  moreover have "list_all valid_row (map g rows)" "list_all column_range (map g rows)"
    using assms(1,3) by (auto simp: rows_ok_def list_all_iff)
  ultimately show ?thesis using assms(1) unfolding rows_ok_def by (simp only: length_map)
qed

lemma filter_unique_key:
  "distinct (map f xs) \<Longrightarrow> length (filter (\<lambda>x. f x = k \<and> Q x) xs) \<le> 1"
proof (induction xs)
  case (Cons x xs)
  have "filter (\<lambda>y. f y = k \<and> Q y) xs = []" if "f x = k"
  proof -
    have "k \<notin> f ` set xs" using that Cons.prems by auto
    then show ?thesis by (auto simp: filter_empty_conv)
  qed
  with Cons show ?case by auto
qed simp

lemma rows_ok_issued:
  assumes "rows_ok rows" "issuable tid label rows" "validate_id tid = Inr ()"
    and "\<forall>l \<in> set_option label. validate_label l = Inr () \<and> utf8_decode l \<noteq> None"
    and "length hash = 64" "list_all is_hex_lower hash" "0 < expires" "expires < 2 ^ 63"
  shows "rows_ok (issued_rows tid label hash expires rows)"
proof (cases label)
  case None
  with assms(5-8) show ?thesis
    unfolding issued_rows_def None option.case
    by (intro rows_ok_map [OF assms(1)]) (auto simp: valid_row_def column_range_def)
next
  case (Some l)
  with assms show ?thesis
    by (auto simp: rows_ok_def issued_rows_def issuable_def valid_row_def column_range_def)
qed

lemma issue_ok:
  assumes "database_ok db" "issue sha E tid label ttl out st db fs = (res, db', fs')"
    and "\<forall>l \<in> set_option label. validate_label l = Inr () \<and> utf8_decode l \<noteq> None"
    and "\<And>x. length (sha x) = 32"
  shows "database_ok db' \<and> advances db db'"
proof (cases res)
  case (Inl e)
  with assms issue_delivers_or_undoes_base [where sha = sha and E = E and tid = tid and label = label and
      ttl_secs = ttl and out = out and st = st and db = db and fs = fs] show ?thesis by simp
next
  case (Inr u)
  with assms(2) issue_delivers_or_undoes_base [where sha = sha and E = E and tid = tid and label = label and
      ttl_secs = ttl and out = out and st = st and db = db and fs = fs]
  obtain credential row and now :: "64 word" where i: "60 \<le> unat ttl" "validate_id tid = Inr ()"
      "issuable tid label (db_registrations db)"
      "db_registrations db' = issued_rows tid label (digest sha credential)
           (int (unat now + unat ttl)) (db_registrations db)" "unat now + unat ttl < 2 ^ 63"
      "db_version db = 1" "db_version db' = 1" "db_sequence db' = db_sequence db + 1"
      "db_audit db' = db_audit db @ [row]" "audit_checks row" "au_sequence row = db_sequence db + 1"
      "au_tether_id row = Some tid" "au_operator_uid row = uint (ae_euid E)"
    by (simp only: prod.case sum.case) (elim exE conjE, rule that, assumption+)
  have db: "rows_ok (db_registrations db)" "audit_ok (db_audit db) (db_sequence db)"
    using assms(1) i(6) by (auto simp: database_ok_def no_schema_def)
  have "0 < int (unat now + unat ttl)" "int (unat now + unat ttl) < 2 ^ 63"
  proof -
    show "0 < int (unat now + unat ttl)" using i(1) by (simp only: of_nat_0_less_iff)
    have "int (unat now + unat ttl) < int (2 ^ 63)" using i(5) by (simp only: of_nat_less_iff)
    then show "int (unat now + unat ttl) < 2 ^ 63" by (simp only: of_nat_power of_nat_numeral)
  qed
  then have "rows_ok (db_registrations db')"
    unfolding i(4) using digest_format [of sha credential, OF assms(4)]
    by (intro rows_ok_issued [OF db(1) i(3,2) assms(3)]) simp_all
  moreover have "audit_ok (db_audit db') (db_sequence db')"
    unfolding i(8,9) using i(12) valid_id_utf8 [OF i(2)]
    by (intro audit_ok_append [OF db(2) i(11,10,13)]) simp
  ultimately show ?thesis using i by (simp add: database_ok_def advances_def)
qed

lemma admin_revoke_InrD:
  assumes "admin_revoke E tid st db = (Inr changed, db')"
  obtains n db1 where "validate_id tid = Inr ()" "db_version db = 1"
    "update_registrations E (\<lambda>row. row\<lparr>rr_active := 0\<rparr>) (\<lambda>row. rr_id row = tid \<and> rr_active row = 1) db = Inr (n, db1)"
    "(if n = 1 then append_audit E (asc ''revoke'') (Some tid) None db1 else Inr db1) = Inr db'"
  using assms unfolding admin_revoke_def
  by (auto simp: inr_simps dest!: check_schema_version simp del: asc_simps split: sum.splits prod.splits)

lemma revoke_ok:
  assumes "database_ok db" "admin_revoke E tid st db = (res, db')"
  shows "database_ok db' \<and> advances db db'"
proof (cases res)
  case (Inl e)
  with assms show ?thesis by (auto simp: admin_revoke_def split: sum.splits prod.splits)
next
  case (Inr changed)
  let ?f = "\<lambda>row. row\<lparr>rr_active := 0\<rparr>" and ?p = "\<lambda>row. rr_id row = tid \<and> rr_active row = 1"
  obtain n db1 where v: "validate_id tid = Inr ()" "db_version db = 1"
    and up: "update_registrations E ?f ?p db = Inr (n, db1)"
    and au: "(if n = 1 then append_audit E (asc ''revoke'') (Some tid) None db1 else Inr db1) = Inr db'"
    by (rule admin_revoke_InrD [OF assms(2) [unfolded Inr]])
  have db: "rows_ok (db_registrations db)" "audit_ok (db_audit db) (db_sequence db)"
    using assms(1) v(2) by (auto simp: database_ok_def no_schema_def)
  let ?rows = "map (\<lambda>row. if ?p row then ?f row else row) (db_registrations db)"
  note up = update_registrations_InrD [OF up]
  have rows: "rows_ok ?rows"
    by (rule rows_ok_map [OF db(1)]) (auto simp: valid_row_def column_range_def)
  show ?thesis
  proof (cases "n = 1")
    case True
    with au obtain row where a: "db' = db1\<lparr>db_audit := db_audit db1 @ [row], db_sequence := db_sequence db1 + 1\<rparr>"
      "au_sequence row = db_sequence db1 + 1" "au_operator_uid row = uint (ae_euid E)"
      "au_tether_id row = Some tid" "audit_checks row"
      by (auto elim!: append_audit_InrD simp del: asc_simps)
    have "audit_ok (db_audit db @ [row]) (db_sequence db + 1)"
      using a up valid_id_utf8 [OF v(1)] by (intro audit_ok_append [OF db(2)]) auto
    with rows a up v(2) show ?thesis by (simp add: database_ok_def advances_def)
  next
    case False
    with up db(1) filter_unique_key [of rr_id "db_registrations db" tid "\<lambda>row. rr_active row = 1"]
    have "filter ?p (db_registrations db) = []" by (auto simp: rows_ok_def le_Suc_eq)
    then have "?rows = db_registrations db" by (auto simp: filter_empty_conv intro: map_idI)
    with False au up have "db' = db" by simp
    with assms(1) show ?thesis by simp
  qed
qed

definition world_ok :: "admin_world \<Rightarrow> bool" where
  "world_ok w \<longleftrightarrow> (\<forall>db \<in> set_option (aw_database w). database_ok db)"

definition audit_of :: "admin_world \<Rightarrow> audit_row list" where
  "audit_of w = (case aw_database w of None \<Rightarrow> [] | Some db \<Rightarrow> db_audit db)"

definition registrations_of :: "admin_world \<Rightarrow> registration_row list" where
  "registrations_of w = (case aw_database w of None \<Rightarrow> [] | Some db \<Rightarrow> db_registrations db)"

text \<open>Every change is accounted for: one audit row, or the tables are as they were.\<close>

definition accounted :: "admin_world \<Rightarrow> admin_world \<Rightarrow> bool" where
  "accounted w w' \<longleftrightarrow>
     audit_of w' = audit_of w \<and> registrations_of w' = registrations_of w \<or>
     (\<exists>row. audit_of w' = audit_of w @ [row])"

lemma accounted_refl [simp]: "accounted w w" by (simp add: accounted_def)

lemma database_ok_no_schema [simp]: "database_ok no_schema" by (simp add: database_ok_def)

lemma initialize_ok:
  assumes "initialize E m = (res, db)"
  shows "database_ok db \<and> db_registrations db = [] \<and> (db_audit db = [] \<or> (\<exists>row. db_audit db = [row]))"
proof (cases "append_audit E (asc ''init'') None None (no_schema\<lparr>db_version := 1\<rparr>)")
  case (Inl e)
  with assms have "db = no_schema"
    by (auto simp: initialize_def try_then_def simp del: asc_simps split: sum.splits)
  then show ?thesis by (simp add: no_schema_def [symmetric]) (simp add: no_schema_def)
next
  case (Inr db1)
  with assms have db: "db = no_schema \<or> db = db1"
    by (auto simp: initialize_def try_then_def map_sum_Inr_iff simp del: asc_simps split: sum.splits)
  from Inr obtain row where a: "db1 = (no_schema\<lparr>db_version := 1\<rparr>)\<lparr>db_audit := [row], db_sequence := 1\<rparr>"
    "au_sequence row = 1" "au_operator_uid row = uint (ae_euid E)" "au_tether_id row = None" "audit_checks row"
    by (auto elim!: append_audit_InrD simp: no_schema_def simp del: asc_simps)
  have "audit_ok ([] @ [row]) (0 + 1)"
    using a by (intro audit_ok_append) (auto simp: audit_ok_def)
  then have "database_ok db1" using a by (simp add: database_ok_def rows_ok_def no_schema_def)
  with db a(1) show ?thesis by (auto simp: no_schema_def) (simp add: no_schema_def [symmetric])
qed

lemma store_init_ok:
  assumes "store_init E dir (aw_database w) = (res, db)" "world_ok w"
  shows "world_ok (w\<lparr>aw_database := db\<rparr>) \<and> accounted w (w\<lparr>aw_database := db\<rparr>)"
proof (cases "aw_database w")
  case (Some d)
  with assms(1) have "db = aw_database w"
    by (auto simp: store_init_def try_then_def split: sum.splits mkdir_result.splits if_splits)
  with assms(2) show ?thesis by simp
next
  case None
  obtain m ires idb where i: "initialize E m = (ires, idb) \<and> (db = None \<or> db = Some no_schema \<or> db = Some idb)"
  proof -
    have "\<exists>m. db = None \<or> db = Some no_schema \<or> db = Some (snd (initialize E m))"
      using assms(1) unfolding store_init_def
      by (auto simp: None split: sum.splits prod.splits if_splits) (metis snd_conv)+
    then show ?thesis using that by (metis prod.collapse)
  qed
  then have "\<forall>d \<in> set_option db. database_ok d \<and> db_registrations d = [] \<and>
      (db_audit d = [] \<or> (\<exists>row. db_audit d = [row]))"
    using initialize_ok [of E m ires idb] by (auto simp: no_schema_def [symmetric]) (auto simp: no_schema_def)
  with None show ?thesis
    by (cases db) (auto simp: world_ok_def accounted_def audit_of_def registrations_of_def)
qed

lemma with_store_ok:
  assumes "world_ok w" "with_store E dir w op = (res, w')"
    and "\<And>st db fs res db' fs'. database_ok db \<Longrightarrow> op st db fs = (res, db', fs') \<Longrightarrow> database_ok db' \<and> advances db db'"
  shows "world_ok w' \<and> accounted w w'"
proof (cases "store_open E dir (aw_database w)")
  case (Inl e)
  with assms show ?thesis by (simp add: with_store_def)
next
  case (Inr r)
  then obtain st db where r: "r = (st, db)" "aw_database w = Some db"
    by (cases r) (auto simp: store_open_def inr_simps)
  obtain ores db' fs' where o: "op st db (aw_files w) = (ores, db', fs')" by (metis prod.exhaust)
  with assms(2) Inr r have "w' = \<lparr>aw_database = Some db', aw_files = fs'\<rparr>" by (simp add: with_store_def)
  with assms(3) [OF _ o] assms(1) r(2) show ?thesis
    by (auto simp: world_ok_def accounted_def advances_def audit_of_def registrations_of_def)
qed

lemma issue_command_ok:
  assumes db: "database_ok db" and sha: "\<And>x. length (sha x) = 32"
    and utf8: "\<forall>l \<in> set_option label. utf8_decode l \<noteq> None"
    and run: "issue_command sha E out tid label ttl st db fs = (res, db', fs')"
  shows "database_ok db' \<and> advances db db'"
proof -
  have issue: "database_ok d \<and> advances db d"
    if "\<forall>l \<in> set_option lab. validate_label l = Inr () \<and> utf8_decode l \<noteq> None"
      "issue sha E tid lab n path st db fs = (r, d, f)" for lab n path r d f
    using issue_ok [OF db that(2,1) sha] by simp
  consider "db' = db" | n path r l where "label = Some l" "admin_register sha E tid l n path st db fs = (r, db', fs')"
    | n path r where "label = None" "admin_rotate sha E tid n path st db fs = (r, db', fs')"
    using run by (auto simp: issue_command_def split: sum.splits option.splits prod.splits)
  then show ?thesis
  proof cases
    case 1
    with db show ?thesis by simp
  next
    case (2 n path r l)
    with utf8 db issue [of "Some l" n path r db' fs'] show ?thesis
      by (cases "validate_label l") (auto simp: admin_register_def)
  next
    case (3 n path r)
    with issue [of None n path r db' fs'] show ?thesis by (simp add: admin_rotate_def)
  qed
qed

lemma upto_four:
  obtains "xs = []" | a where "xs = [a]" | a b where "xs = [a, b]" | a b c where "xs = [a, b, c]"
  | a b c d where "xs = [a, b, c, d]" | a b c d e ys where "xs = a # b # c # d # e # ys"
  by (metis neq_Nil_conv)

lemma run_command_ok:
  assumes w: "world_ok w" and sha: "\<And>x. length (sha x) = 32"
    and utf8: "list_all (\<lambda>a. utf8_decode a \<noteq> None) args"
    and run: "run_command sha E dir out args w = (res, w')"
  shows "world_ok w' \<and> accounted w w'"
proof -
  have init: "world_ok (w\<lparr>aw_database := db\<rparr>) \<and> accounted w (w\<lparr>aw_database := db\<rparr>)"
    if "store_init E dir (aw_database w) = (r, db)" for r db
    using store_init_ok [OF that w] .
  have read: "world_ok w' \<and> accounted w w'"
    if "with_store E dir w (\<lambda>st db fs. (f st db, db, fs)) = (res, w')" for f
    by (rule with_store_ok [OF w that]) auto
  have rev: "world_ok w' \<and> accounted w w'" if "with_store E dir w (revoke_command E tid) = (res, w')" for tid
    by (rule with_store_ok [OF w that]) (auto simp: revoke_command_def dest: revoke_ok split: prod.splits)
  have issue: "world_ok w' \<and> accounted w w'"
    if "with_store E dir w (issue_command sha E out tid label ttl) = (res, w')"
      "\<forall>l \<in> set_option label. utf8_decode l \<noteq> None" for tid label ttl
    by (rule with_store_ok [OF w that(1)]) (rule issue_command_ok [OF _ sha that(2)])
  have rotate: "world_ok w' \<and> accounted w w'"
    if "with_store E dir w (issue_command sha E out tid None ttl) = (res, w')" for tid ttl
    using issue [OF that] by simp
  show ?thesis
    using run utf8 w
    by (cases args rule: upto_four)
      (auto simp: run_command_def simp del: asc_simps dest: init read rev rotate issue split: if_splits prod.splits)
qed

text \<open>Commands one after another; the arguments of a command are Rust strings.\<close>

type_synonym admin_event = "admin_env \<times> bytes option \<times> bytes option \<times> bytes list"

fun admin_step :: "(bytes \<Rightarrow> bytes) \<Rightarrow> admin_world \<Rightarrow> admin_event \<Rightarrow> admin_world" where
  "admin_step sha w (E, state_dir, out, args) =
     (if list_all (\<lambda>a. utf8_decode a \<noteq> None) args then snd (admin_run sha E state_dir out args w) else w)"

definition admin_start :: "admin_world \<Rightarrow> bool" where
  "admin_start w \<longleftrightarrow> aw_database w = None"

lemma admin_step_ok:
  assumes "world_ok w" "\<forall>x. length (sha x) = 32"
  shows "world_ok (admin_step sha w ev) \<and> accounted w (admin_step sha w ev)"
proof -
  obtain E dir out args where ev: "ev = (E, dir, out, args)" by (cases ev)
  have "world_ok (snd (run_command sha E d out args w)) \<and> accounted w (snd (run_command sha E d out args w))"
    if "list_all (\<lambda>a. utf8_decode a \<noteq> None) args" for d
    using assms run_command_ok [OF assms(1) _ that prod.collapse [symmetric]] by blast
  with assms(1) show ?thesis
    by (simp add: ev admin_run_def split_beta split: option.split)
qed

interpretation admin_machine:
  invariant_machine "admin_step sha" admin_start "\<lambda>w. (\<forall>x. length (sha x) = 32) \<longrightarrow> world_ok w" for sha
proof unfold_locales
  fix w :: admin_world and ev
  show "(\<forall>x. length (sha x) = 32) \<longrightarrow> world_ok w" if "admin_start w"
    using that by (simp add: admin_start_def world_ok_def)
  show "(\<forall>x. length (sha x) = 32) \<longrightarrow> world_ok (admin_step sha w ev)"
    if "(\<forall>x. length (sha x) = 32) \<longrightarrow> world_ok w"
    using that admin_step_ok by blast
qed

text \<open>
  C15: Whatever sequence of commands runs, under whatever failures of the surroundings: a
  database that was initialized has distinct, valid registrations, at most 10000 of them,
  so a snapshot never fails on its own contents; the audit is numbered from 1 without a
  gap; and a command that changes a registration appends exactly one audit row, none is
  ever changed or removed.
\<close>
theorem store_invariant:
  assumes "reach (admin_step sha) admin_start w" "\<forall>x. length (sha x) = 32"
  shows "(\<forall>db. aw_database w = Some db \<and> db_version db = 1 \<longrightarrow>
       distinct (map rr_id (db_registrations db)) \<and> length (db_registrations db) \<le> 10000 \<and>
       list_all valid_row (db_registrations db) \<and>
       map au_sequence (db_audit db) = map (\<lambda>i. int i + 1) [0..<length (db_audit db)] \<and>
       (\<forall>E st. readable E st \<longrightarrow> (\<exists>recs. snapshot E st db = Inr recs))) \<and>
    (audit_of (admin_step sha w ev) = audit_of w \<and> registrations_of (admin_step sha w ev) = registrations_of w \<or>
     (\<exists>row. audit_of (admin_step sha w ev) = audit_of w @ [row]))"
proof -
  have w: "world_ok w" using admin_machine.inv_reach [OF assms(1)] assms(2) by blast
  have db: "rows_ok (db_registrations db) \<and> audit_ok (db_audit db) (db_sequence db)"
    if "aw_database w = Some db" "db_version db = 1" for db
    using w that by (auto simp: world_ok_def database_ok_def no_schema_def)
  have "\<exists>recs. snapshot E st db = Inr recs"
    if "rows_ok (db_registrations db)" "db_version db = 1" "readable E st" for db E st
    using that snapshot_exact_base [of db E st] by (auto simp: rows_ok_def)
  with db admin_step_ok [OF w assms(2)] show ?thesis
    by (simp add: rows_ok_def audit_ok_def accounted_def MAX_REGISTRATIONS_def)
qed

section \<open>An example\<close>

definition example_metadata :: "bool \<Rightarrow> metadata" where
  "example_metadata directory = \<lparr>md_uid = 7, md_mode = (if directory then 448 else 384),
     md_is_dir = directory, md_is_file = (\<not> directory), md_nlink = 1, md_dev = 1, md_ino = (if directory then 2 else 3)\<rparr>"

definition example_env :: "64 word \<Rightarrow> byte \<Rightarrow> admin_env" where
  "example_env now seed = \<lparr>ae_euid = 7, ae_umask = 18, ae_directory = \<lambda>_. Some (example_metadata True),
     ae_database = \<lambda>_. Some (example_metadata False), ae_mkdir = Existed, ae_clock = Some now,
     ae_audit_clock = Some now, ae_random = Some (replicate 32 seed), ae_written = 0, ae_ok = \<lambda>_. True\<rparr>"

definition example_sha :: "bytes \<Rightarrow> bytes" where
  "example_sha x = take 32 (x @ replicate 32 0)"

definition example_store :: store where
  "example_store = \<lparr>st_directory_identity = (1, 2), st_database_identity = (1, 3)\<rparr>"

definition example_database :: database where
  "example_database = no_schema\<lparr>db_version := 1\<rparr>"

lemma example_env_ok: "ae_ok (example_env now seed) c"
  by (simp add: example_env_def)

lemma example_files: "check_files (example_env now seed) n example_store = Inr ()"
  by (simp add: check_files_def private_metadata_def example_env_def example_metadata_def
      example_store_def identity_def)

lemma hex_sql_length: "list_all is_hex_lower s \<Longrightarrow> sql_length s = length s"
proof -
  assume h: "list_all is_hex_lower s"
  then have "takeWhile (\<lambda>b. b \<noteq> 0) s = s" "filter (\<lambda>b. \<not> cont b) s = s"
    by (auto simp: list_all_iff is_hex_lower_def cont_def takeWhile_eq_all_conv filter_id_conv)
  then show ?thesis unfolding sql_length_def by (simp only:)
qed

lemma example_digest: "length (example_sha x) = 32" by (simp add: example_sha_def)

definition example_issue :: "unit fallible \<times> database \<times> files" where
  "example_issue = issue example_sha (example_env 1000 1) [97] (Some [98]) 60 [111] example_store
     example_database (\<lambda>_. None)"

lemma example_issue_ok: "fst example_issue = Inr ()"
proof -
  note d = digest_format [of example_sha "concat (map hex2 (replicate 32 1))", OF example_digest]
  have e: "issue_expiry (example_env 1000 1) 60 = Inr 1060"
    by (simp add: issue_expiry_def example_env_def)
  have "registration_checks \<lparr>rr_id = [97], rr_label = [98],
      rr_credential_hash = digest example_sha (concat (map hex2 (replicate 32 1))), rr_active = 1, rr_expires_at = 1060\<rparr>"
    using d hex_sql_length by (simp add: registration_checks_def between_def sql_length_def [of "[_]"] cont_def)
  then have "\<exists>db. issue_transaction example_sha (example_env 1000 1) [97] (Some [98]) 1060 example_database =
      Inr (db, concat (map hex2 (replicate 32 1)))"
    by (simp add: issue_transaction_def issue_row_def insert_registration_def check_schema_def call_def
        example_env_def example_database_def no_schema_def append_audit_def audit_checks_def audit_actions_def
        i64_try_from_def MAX_REGISTRATIONS_def Let_def del: replicate_Suc asc_simps)
  then show ?thesis
    by (auto simp: example_issue_def issue_def validate_id_def id_byte_def e example_files
        pending_create_def call_def example_env_ok Let_def)
qed

lemma example_env_fields:
  "ae_audit_clock (example_env now seed) = Some now" "ae_euid (example_env now seed) = 7"
  by (simp_all add: example_env_def)

lemma example_readable: "readable (example_env now seed) example_store"
  by (simp add: readable_def example_files example_env_ok)

definition example_rows :: "registration_row list" where
  "example_rows = [\<lparr>rr_id = [97], rr_label = [98], rr_credential_hash = replicate 64 48, rr_active = 1, rr_expires_at = 9\<rparr>]"

theorem issue_delivers_or_undoes_witness:
  "\<exists>credential row.
     snd (snd example_issue) [111] = Some \<lparr>of_mode = 384, of_bytes = credential @ [10]\<rparr> \<and>
     db_registrations (fst (snd example_issue)) =
       [\<lparr>rr_id = [97], rr_label = [98], rr_credential_hash = digest example_sha credential, rr_active = 1,
         rr_expires_at = 1060\<rparr>] \<and>
     db_audit (fst (snd example_issue)) = [row] \<and> au_operator_uid row = 7"
proof -
  obtain db fs where i: "example_issue = (Inr (), db, fs)"
    using example_issue_ok by (metis prod.collapse)
  have e: "ae_clock (example_env 1000 1) = Some 1000" "ae_euid (example_env 1000 1) = 7"
    "db_registrations example_database = []" "db_audit example_database = []"
    by (simp_all add: example_env_def example_database_def no_schema_def)
  obtain credential row and now :: "64 word" where
    "ae_clock (example_env 1000 1) = Some now"
    "fs = (\<lambda>_. None)([111] \<mapsto> \<lparr>of_mode = 384, of_bytes = credential @ [10]\<rparr>)"
    "db_registrations db = issued_rows [97] (Some [98]) (digest example_sha credential)
       (int (unat now + unat (60 :: 64 word))) (db_registrations example_database)"
    "db_audit db = db_audit example_database @ [row]"
    "au_operator_uid row = uint (ae_euid (example_env 1000 1))"
    using issue_delivers_or_undoes [where sha = example_sha and E = "example_env 1000 1" and tid = "[97]"
        and label = "Some [98]" and ttl_secs = 60 and out = "[111]" and st = example_store
        and db = example_database and fs = "\<lambda>_. None"]
    unfolding example_issue_def [symmetric] i prod.case sum.case by blast
  then show ?thesis
    by (intro exI [of _ credential] exI [of _ row]) (auto simp: i e issued_rows_def)
qed

lemma example_init:
  "aw_database (admin_step example_sha \<lparr>aw_database = None, aw_files = \<lambda>_. None\<rparr>
     (example_env 1000 1, Some [100], None, [asc ''init''])) =
   Some (example_database\<lparr>db_audit := [\<lparr>au_sequence = 1, au_timestamp = 1000, au_operator_uid = 7,
      au_action = asc ''init'', au_tether_id = None, au_expires_at = None\<rparr>], db_sequence := 1\<rparr>)"
  by code_simp

theorem store_invariant_witness:
  "\<exists>w db. reach (admin_step example_sha) admin_start w \<and> aw_database w = Some db \<and>
     map au_sequence (db_audit db) = [1] \<and>
     (\<forall>E. readable E example_store \<longrightarrow> (\<exists>recs. snapshot E example_store db = Inr recs))"
proof -
  let ?w0 = "\<lparr>aw_database = None, aw_files = \<lambda>_. None\<rparr>"
  let ?w = "admin_step example_sha ?w0 (example_env 1000 1, Some [100], None, [asc ''init''])"
  have r: "reach (admin_step example_sha) admin_start ?w"
    by (intro reach_step reach_start) (simp add: admin_start_def)
  have "\<forall>x. length (example_sha x) = 32" by (simp add: example_digest)
  note inv = store_invariant [OF r this, THEN conjunct1]
  obtain db where db: "aw_database ?w = Some db" "db_version db = 1" "map au_sequence (db_audit db) = [1]"
    using example_init by (simp only:) (simp add: example_database_def)
  with inv [rule_format, OF conjI, OF db(1,2)] r show ?thesis
    by (intro exI [of _ ?w] exI [of _ db]) simp
qed

theorem snapshot_exact_witness:
  "snapshot (example_env 1000 1) example_store
     (example_database\<lparr>db_registrations :=
       [\<lparr>rr_id = [98], rr_label = [98], rr_credential_hash = replicate 64 48, rr_active = 1, rr_expires_at = 9\<rparr>,
        \<lparr>rr_id = [97], rr_label = [98], rr_credential_hash = replicate 64 48, rr_active = 0, rr_expires_at = 9\<rparr>]\<rparr>) =
   Inr [\<lparr>ar_id = [97], ar_label = [98], ar_credential_hash = replicate 64 48, ar_active = False, ar_expires_at = 9\<rparr>,
        \<lparr>ar_id = [98], ar_label = [98], ar_credential_hash = replicate 64 48, ar_active = True, ar_expires_at = 9\<rparr>]"
  (is "snapshot ?E ?st ?db = Inr ?recs")
proof -
  have c: "list_all column_range (db_registrations ?db)" "distinct (map rr_id (db_registrations ?db))"
    by (simp_all add: column_range_def)
  have "readable ?E ?st"
    by (simp add: readable_def example_files) (simp add: example_env_def)
  moreover have "list_all valid_row (db_registrations ?db)"
  proof -
    have "list_all is_hex_lower (replicate 64 48)" by (simp add: list_all_iff is_hex_lower_def)
    then show ?thesis
      by (simp add: valid_row_def validate_id_def validate_label_def chars_def id_byte_def is_control_def
          Let_def del: replicate_Suc)
  qed
  moreover have "map record_of (sort_key rr_id (db_registrations ?db)) = ?recs"
    by (simp add: record_of_def del: replicate_Suc)
  moreover have "db_version ?db = 1" by (simp add: example_database_def)
  ultimately show ?thesis
    using snapshot_exact [OF c, of ?E ?st ?recs] by simp
qed

end
