(* ===== verification/Main_CLI.thy ===== *)
theory Main_CLI
  imports Registry Proxy Tunnel Admin
begin

text \<open>
  The executable (\<open>main.rs\<close>): the dispatch on the command line, what each mode reads from
  the environment and checks before it serves, and the task that keeps the hub's registry
  in step with the durable store. Listening, printing and waiting for the interrupt are
  not modelled; a mode is modelled up to the values it starts to serve with.
\<close>

section \<open>Environment and command line\<close>

datatype env_value = Unset | NotUnicode bytes | Value bytes

type_synonym env = "string \<Rightarrow> env_value"

text \<open>\<open>env::var\<close> (as an option) and \<open>env::var_os\<close>.\<close>

definition env_var :: "env \<Rightarrow> string \<Rightarrow> bytes option" where
  "env_var env key = (case env key of Value v \<Rightarrow> Some v | _ \<Rightarrow> None)"

definition env_var_os :: "env \<Rightarrow> string \<Rightarrow> bytes option" where
  "env_var_os env key = (case env key of Unset \<Rightarrow> None | NotUnicode v \<Rightarrow> Some v | Value v \<Rightarrow> Some v)"

definition env_or :: "env \<Rightarrow> string \<Rightarrow> string \<Rightarrow> bytes" where
  "env_or env key dflt = (case env_var env key of Some v \<Rightarrow> v | None \<Rightarrow> asc dflt)"

datatype invocation =
    InvokeProxy | InvokeHub | InvokeTether | InvokeAdmin "bytes list" | PrintVersion | PrintHelp
  | RefuseArguments bytes | UnknownSubcommand bytes

definition mode_names :: "bytes list" where
  "mode_names = [asc ''proxy'', asc ''hub'', asc ''tether'', asc ''--version'', asc ''-V'', asc ''--help'', asc ''-h'']"

fun invocation_of :: "bytes list \<Rightarrow> invocation" where
  "invocation_of [] = InvokeProxy"
| "invocation_of (mode # rest) =
     (if rest = [] \<and> mode = asc ''proxy'' then InvokeProxy
      else if rest = [] \<and> mode = asc ''hub'' then InvokeHub
      else if rest = [] \<and> mode = asc ''tether'' then InvokeTether
      else if mode = asc ''admin'' then InvokeAdmin rest
      else if rest = [] \<and> (mode = asc ''--version'' \<or> mode = asc ''-V'') then PrintVersion
      else if rest = [] \<and> (mode = asc ''--help'' \<or> mode = asc ''-h'') then PrintHelp
      else if mode \<in> set mode_names then RefuseArguments mode
      else UnknownSubcommand mode)"

section \<open>Starting a mode\<close>

text \<open>A start that fails: with an exit code of its own, or with an error from \<open>main\<close>.\<close>

datatype start_error = ExitCode nat | Failed string

definition or_fail :: "string \<Rightarrow> 'a option \<Rightarrow> start_error + 'a" where
  "or_fail msg = ok_or (Failed msg)"

record 'h proxy_start =
  ps_listen :: socket_addr
  ps_engine :: socket_addr
  ps_proxy :: "'h proxy"

definition proxy_token :: "env \<Rightarrow> start_error + bytes option" where
  "proxy_token env =
     (case nonempty_var (env_var env ''ANVIL_RING_TOKEN'') of
        Some t \<Rightarrow> Inr (Some t)
      | None \<Rightarrow>
          if env_var env ''ANVIL_RING_ALLOW_NO_AUTH'' = Some (asc ''1'') then Inr None else Inl (ExitCode 2))"

definition run_proxy :: "net_api \<Rightarrow> env \<Rightarrow> start_error + 'h proxy_start" where
  "run_proxy N env =
     (let listen = env_or env ''ANVIL_RING_LISTEN'' ''127.0.0.1:8080'';
          upstream = env_or env ''ANVIL_RING_UPSTREAM'' ''http://127.0.0.1:8000''
      in try_then (proxy_token env) (\<lambda>token.
         try_then (or_fail ''listen address'' (n_parse_socket N listen)) (\<lambda>addr.
         try_then (or_fail ''upstream URI'' (n_parse_uri N upstream)) (\<lambda>up.
         try_then (map_sum (\<lambda>_. Failed ''upstream'') id (loopback_authority N upstream 80)) (\<lambda>engine.
         Inr \<lparr>ps_listen = addr, ps_engine = engine, ps_proxy = \<lparr>px_upstream = up, px_token = token\<rparr>\<rparr>)))))"

text \<open>\<open>Store::open(directory).and_then(|store| store.snapshot())\<close>\<close>

definition read_store :: "admin_env \<Rightarrow> bytes \<Rightarrow> database option \<Rightarrow> admin_record list fallible" where
  "read_store E directory found =
     try_then (store_open E directory found) (\<lambda>(st, db). snapshot E st db)"

record 'h hub_start =
  hs_listen :: socket_addr
  hs_registry :: "'h registry"
  hs_frontend :: "(socket_addr \<times> bytes) option"
  hs_monitor :: "bytes option"

definition hub_authority ::
    "(bytes \<Rightarrow> bytes) \<Rightarrow> admin_env \<Rightarrow> nat \<Rightarrow> database option \<Rightarrow> bytes option \<Rightarrow> bytes option \<Rightarrow>
     'h registry \<Rightarrow> start_error + 'h registry" where
  "hub_authority sha E wall found state_dir demo reg =
     (case (state_dir, demo) of
        (Some _, Some _) \<Rightarrow>
          Inl (Failed ''ANVIL_RING_STATE_DIR and ANVIL_RING_DEMO_CREDENTIAL are mutually exclusive'')
      | (Some directory, None) \<Rightarrow>
          try_then (map_sum Failed id (read_store E directory found)) (\<lambda>records.
            Inr (replace_records wall records reg))
      | (None, Some credential) \<Rightarrow>
          if credential \<noteq> []
          then Inr (snd (register_tether sha (asc ''demo-1'') (asc ''demo rental'') credential reg))
          else Inl (Failed ''ANVIL_RING_STATE_DIR or a nonempty ANVIL_RING_DEMO_CREDENTIAL is required'')
      | (None, None) \<Rightarrow>
          Inl (Failed ''ANVIL_RING_STATE_DIR or a nonempty ANVIL_RING_DEMO_CREDENTIAL is required''))"

definition hub_frontend :: "net_api \<Rightarrow> env \<Rightarrow> start_error + (socket_addr \<times> bytes) option" where
  "hub_frontend N env =
     (case env_var env ''ANVIL_RING_FRONTEND_LISTEN'' of
        None \<Rightarrow> Inr None
      | Some front \<Rightarrow>
          try_then (or_fail ''frontend address'' (n_parse_socket N front)) (\<lambda>faddr.
          try_then (or_fail ''ANVIL_RING_CALLER_TOKEN is required when ANVIL_RING_FRONTEND_LISTEN is set''
            (nonempty_var (env_var env ''ANVIL_RING_CALLER_TOKEN''))) (\<lambda>token.
          Inr (Some (faddr, token)))))"

definition run_hub ::
    "(bytes \<Rightarrow> bytes) \<Rightarrow> net_api \<Rightarrow> admin_env \<Rightarrow> nat \<Rightarrow> database option \<Rightarrow> env \<Rightarrow> start_error + 'h hub_start" where
  "run_hub sha N E wall found env =
     (let listen = env_or env ''ANVIL_RING_HUB_LISTEN'' ''127.0.0.1:8443'';
          state_dir = env_var_os env ''ANVIL_RING_STATE_DIR'';
          demo = env_var env ''ANVIL_RING_DEMO_CREDENTIAL''
      in try_then (or_fail ''listen address'' (n_parse_socket N listen)) (\<lambda>addr.
         try_then (hub_authority sha E wall found state_dir demo (registry_new DEFAULT_LEASE)) (\<lambda>reg.
         try_then (hub_frontend N env) (\<lambda>frontend.
         Inr \<lparr>hs_listen = addr, hs_registry = reg, hs_frontend = frontend, hs_monitor = state_dir\<rparr>))))"

record tether_start =
  ts_hub_url :: bytes
  ts_credential :: bytes
  ts_upstream :: bytes

definition run_tether ::
    "net_api \<Rightarrow> env \<Rightarrow> (bytes \<Rightarrow> string + bytes) \<Rightarrow> start_error + tether_start" where
  "run_tether N env read_file =
     try_then (or_fail ''ANVIL_RING_HUB_URL'' (env_var env ''ANVIL_RING_HUB_URL'')) (\<lambda>hub_url.
     let upstream = env_or env ''ANVIL_RING_UPSTREAM'' ''http://127.0.0.1:8000''
     in try_then (map_sum Failed id (credential_from_env (env_var env) read_file)) (\<lambda>credential.
        try_then (map_sum (\<lambda>_. Failed ''upstream must be loopback'') id (loopback_authority N upstream 80)) (\<lambda>_.
        Inr \<lparr>ts_hub_url = hub_url, ts_credential = credential, ts_upstream = upstream\<rparr>)))"

section \<open>The refresh task\<close>

text \<open>
  What one read comes to: the thread's result or its panic, and how long it took. The
  monitor carries the instant its turn ends and, for the proofs, the instant the registry
  was last changed and when the snapshot in force began to be read (\<open>None\<close> after a
  clearing).
\<close>

datatype read_outcome = ReadDone "admin_record list fallible" | ReadPanicked

record 'h monitor =
  mo_time :: nat
  mo_registry :: "'h registry"
  mo_read :: "nat option"
  mo_effect :: nat

text \<open>
  One turn of \<open>refresh_registrations\<close>; \<open>wall\<close> is the wall clock when it takes effect. A
  read that is not done after two seconds clears the registry then, and the turn ends when
  the worker does.
\<close>

definition refresh_round :: "nat \<Rightarrow> nat \<Rightarrow> read_outcome \<Rightarrow> 'h monitor \<Rightarrow> 'h monitor" where
  "refresh_round wall duration outcome m =
     (let start = mo_time m + millis 500;
          cleared = m\<lparr>mo_time := start + duration, mo_registry := clear_records wall (mo_registry m),
                      mo_read := None\<rparr>
      in if duration \<le> secs 2
         then (case outcome of
                 ReadDone (Inr records) \<Rightarrow>
                   m\<lparr>mo_time := start + duration,
                     mo_registry := replace_records wall records (mo_registry m), mo_read := Some start,
                     mo_effect := start + duration\<rparr>
               | ReadDone (Inl _) \<Rightarrow> cleared\<lparr>mo_effect := start + duration\<rparr>
               | ReadPanicked \<Rightarrow> cleared\<lparr>mo_effect := start + duration\<rparr>)
         else cleared\<lparr>mo_effect := start + secs 2\<rparr>)"

section \<open>Properties\<close>

definition governed_by :: "admin_record list \<Rightarrow> 'h registry \<Rightarrow> bool" where
  "governed_by recs r \<longleftrightarrow>
     (\<forall>sha now c l. authorize sha now c r = Some l \<longrightarrow>
        (\<exists>rec \<in> set recs. ar_id rec = l_tether_id l \<and> ar_active rec \<and>
           ar_credential_hash rec = digest sha c \<and> now + l_ttl l \<le> secs (unat (ar_expires_at rec))))"

lemma fold_credentials:
  assumes "\<forall>(k, t) \<in> set ts. t_credential_hash t = h \<longrightarrow> t_id t = i"
    and "(\<exists>(k, t) \<in> set ts. t_credential_hash t = h) \<or> m h = Some i"
  shows "fold (\<lambda>(_, t) m. m(t_credential_hash t \<mapsto> t_id t)) ts m h = Some i"
  using assms
proof (induction ts arbitrary: m)
  case (Cons p ts)
  obtain k t where p: "p = (k, t)" by (cases p)
  have "(\<exists>(k, t) \<in> set ts. t_credential_hash t = h) \<or> (m(t_credential_hash t \<mapsto> t_id t)) h = Some i"
    using Cons.prems by (auto simp: p)
  with Cons.IH [of "m(t_credential_hash t \<mapsto> t_id t)"] Cons.prems(1) show ?case by (simp add: p)
qed simp

lemma find_SomeD: "find P xs = Some x \<Longrightarrow> x \<in> set xs \<and> P x"
  by (induction xs) (auto split: if_splits)

lemma find_unique_key:
  "distinct (map f xs) \<Longrightarrow> x \<in> set xs \<Longrightarrow> find (\<lambda>y. f y = f x) (rev xs) = Some x"
proof -
  assume d: "distinct (map f xs)" "x \<in> set xs"
  have "distinct (map f ys) \<Longrightarrow> x \<in> set ys \<Longrightarrow> find (\<lambda>y. f y = f x) ys = Some x" for ys
    by (induction ys) force+
  from this [of "rev xs"] d show ?thesis by (simp add: rev_map [symmetric])
qed

text \<open>A valid record of a snapshot is accepted, unless another one has the same digest.\<close>

lemma snapshot_accepts:
  assumes "distinct (map ar_id recs)" "rec \<in> set recs" "ar_active rec"
    and "ar_credential_hash rec = digest sha c"
    and "\<forall>rec' \<in> set recs. ar_credential_hash rec' = digest sha c \<longrightarrow> ar_id rec' = ar_id rec"
    and "now + secs 1 \<le> secs (unat (ar_expires_at rec))" "unat (ar_expires_at rec) < 2 ^ 63"
  shows "\<exists>l. authorize sha now c (replace_records wall recs r) = Some l \<and> l_tether_id l = ar_id rec"
proof -
  let ?ts = "replacement_of recs" and ?t = "tether_of_record rec"
  have rec: "map_of ?ts (ar_id rec) = Some ?t"
    by (simp add: map_of_replacement find_unique_key [OF assms(1,2)])
  have other: "\<exists>rec' \<in> set recs. t = tether_of_record rec'" if "(k, t) \<in> set ?ts" for k t
  proof -
    from that have "map_of ?ts k = Some t" by (simp add: replacement_keys(1) map_of_is_SomeI)
    then obtain rec' where r: "find (\<lambda>rec. ar_id rec = k) (rev recs) = Some rec'" "t = tether_of_record rec'"
      unfolding map_of_replacement by (elim map_option_eq_Some [THEN iffD1, elim_format] exE conjE) simp
    with find_SomeD [OF r(1)] show ?thesis by auto
  qed
  have "t_id t = ar_id rec" if "(k, t) \<in> set ?ts" "t_credential_hash t = digest sha c" for k t
  proof -
    from other [OF that(1)] obtain rec' where "rec' \<in> set recs" "t = tether_of_record rec'" by blast
    with assms(5) that(2) show ?thesis by (simp add: tether_of_record_def)
  qed
  moreover have "(ar_id rec, ?t) \<in> set ?ts" "t_credential_hash ?t = digest sha c"
    using map_of_SomeD [OF rec] assms(4) by (simp_all add: tether_of_record_def)
  ultimately have c: "credentials_of ?ts (digest sha c) = Some (ar_id rec)"
    unfolding credentials_of_def by (intro fold_credentials) blast+
  let ?e = "secs (unat (ar_expires_at rec))"
  have "secs 1 \<le> ?e - now" "now < ?e" using assms(6) by (auto simp: secs_def)
  then have "remaining now ?t = Some (?e - now)"
    using assms(3,7) by (simp add: remaining_def tether_of_record_def)
  moreover have "\<not> ?e - now < secs 1" using \<open>secs 1 \<le> ?e - now\<close> by simp
  ultimately show ?thesis
    using rec c by (simp add: authorize_def replace_records_alt Let_def)
qed

lemma governed_by_snapshot: "registry_ok r \<Longrightarrow> governed_by recs (replace_records wall recs r)"
  using snapshot_governs_base [OF _ refl, of r wall recs] by (auto simp: governed_by_def)

lemma cleared_nothing:
  "registry_ok r \<Longrightarrow> rg_live (clear_records wall r) = [] \<and> authorize sha now c (clear_records wall r) = None"
  using snapshot_governs_base [OF _ refl, of r wall "[]"] by (auto simp: clear_records_def)

text \<open>
  The converse: a valid record of a snapshot is accepted until a second before it expires,
  unless another record has its digest.
\<close>

definition accepted_by :: "admin_record list \<Rightarrow> 'h registry \<Rightarrow> bool" where
  "accepted_by recs r \<longleftrightarrow>
     (\<forall>sha now c. \<forall>rec \<in> set recs.
        distinct (map ar_id recs) \<and> ar_active rec \<and> ar_credential_hash rec = digest sha c \<and>
        (\<forall>rec' \<in> set recs. ar_credential_hash rec' = digest sha c \<longrightarrow> ar_id rec' = ar_id rec) \<and>
        now + secs 1 \<le> secs (unat (ar_expires_at rec)) \<and> unat (ar_expires_at rec) < 2 ^ 63 \<longrightarrow>
        (\<exists>l. authorize sha now c r = Some l \<and> l_tether_id l = ar_id rec))"

lemma accepted_by_snapshot: "accepted_by recs (replace_records wall recs r)"
  unfolding accepted_by_def using snapshot_accepts by blast

text \<open>The sessions live in \<open>r\<close>: kept where the snapshot leaves the registration as it was.\<close>

definition sessions_follow :: "nat \<Rightarrow> admin_record list \<Rightarrow> 'h registry \<Rightarrow> 'h registry \<Rightarrow> bool" where
  "sessions_follow wall recs r r' \<longleftrightarrow>
     (\<forall>tid s. map_of (rg_live r) tid = Some s \<longrightarrow>
        (if unchanged wall (replacement_of recs) (rg_by_id r) tid
         then map_of (rg_live r') tid = Some s \<and> rg_sessions r' ! s = rg_sessions r ! s
         else map_of (rg_live r') tid = None \<and> cancelled (rg_sessions r' ! s)))"

lemma sessions_follow_snapshot:
  "registry_ok r \<Longrightarrow> sessions_follow wall recs r (replace_records wall recs r)"
  using snapshot_governs_base [OF _ refl, of r wall recs] unfolding sessions_follow_def by blast

text \<open>When a turn that began at \<open>mo_time m\<close> takes effect, and when it ends.\<close>

lemma refresh_round_times:
  "mo_effect (refresh_round wall duration outcome m) = mo_time m + millis 500 + min duration (secs 2)"
  "mo_time (refresh_round wall duration outcome m) = mo_time m + millis 500 + duration"
  by (simp_all add: refresh_round_def Let_def split: read_outcome.splits sum.splits)

lemma refresh_round_registry:
  "refresh_round wall duration outcome m = m' \<Longrightarrow>
   (\<exists>recs. outcome = ReadDone (Inr recs) \<and> duration \<le> secs 2 \<and> mo_read m' = Some (mo_time m + millis 500) \<and>
      mo_registry m' = replace_records wall recs (mo_registry m)) \<or>
   ((secs 2 < duration \<or> (\<forall>recs. outcome \<noteq> ReadDone (Inr recs))) \<and> mo_read m' = None \<and>
      mo_registry m' = clear_records wall (mo_registry m))"
  by (auto simp: refresh_round_def Let_def split: read_outcome.splits sum.splits if_splits)

text \<open>
  C14: The refresh task fails closed and lags by a bounded time. A turn takes effect when
  its read is done, or after two seconds when it is not. A read that succeeds in time makes
  the registry follow the snapshot read, in both directions: what is authorized is a valid
  record of it, a valid record of it is authorized (unless another one has its digest), and
  the sessions that were live are kept exactly where the registration is unchanged. After
  any other turn (the read failed, panicked or took more than two seconds) nothing is
  authorized and no session is live. Whatever the turn after a successful one comes to, and
  whatever happened to the registry in between, it takes effect at most four and a half
  seconds after the successful read began.
\<close>
theorem refresh_fails_closed:
  assumes "registry_ok (mo_registry m)" "refresh_round wall duration outcome m = m'"
  shows "registry_ok (mo_registry m') \<and>
    mo_effect m' = mo_time m + millis 500 + min duration (secs 2) \<and>
    (mo_read m' = None \<longleftrightarrow> secs 2 < duration \<or> (\<forall>recs. outcome \<noteq> ReadDone (Inr recs))) \<and>
    (case mo_read m' of
       None \<Rightarrow> rg_live (mo_registry m') = [] \<and> (\<forall>sha now c. authorize sha now c (mo_registry m') = None)
     | Some start \<Rightarrow>
         start = mo_time m + millis 500 \<and>
         (\<exists>recs. outcome = ReadDone (Inr recs) \<and> governed_by recs (mo_registry m') \<and>
            accepted_by recs (mo_registry m') \<and>
            sessions_follow wall recs (mo_registry m) (mo_registry m')) \<and>
         (\<forall>wall2 duration2 outcome2 r2.
            mo_effect (refresh_round wall2 duration2 outcome2 (m'\<lparr>mo_registry := r2\<rparr>)) \<le> start + millis 4500))"
proof -
  have next_turn: "mo_effect (refresh_round wall2 duration2 outcome2 (m'\<lparr>mo_registry := r2\<rparr>)) \<le>
      mo_time m + millis 500 + millis 4500"
    if "duration \<le> secs 2" for wall2 duration2 outcome2 r2
    using that refresh_round_times(2) [of wall duration outcome m] assms(2)
    by (simp add: refresh_round_times(1) secs_def millis_def)
  have effect: "mo_effect m' = mo_time m + millis 500 + min duration (secs 2)"
    using refresh_round_times(1) [of wall duration outcome m] assms(2) by simp
  note [simp] = governed_by_snapshot [OF assms(1)] accepted_by_snapshot registry_ok_replace [OF assms(1)]
    sessions_follow_snapshot [OF assms(1)] cleared_nothing [OF assms(1)]
  have "registry_ok (clear_records wall (mo_registry m))" by (simp add: clear_records_def)
  then show ?thesis
    using refresh_round_registry [OF assms(2)] effect next_turn by auto
qed

text \<open>
  A hub that starts has exactly one source of authority, and it was read completely before
  anything listens: with a state directory, a full snapshot of the store, which is then
  monitored; without one, one nonempty demo credential. No session is live, and a caller
  frontend has a nonempty token.
\<close>

lemma hub_starts_authorized:
  assumes "run_hub sha N E wall found env = Inr hs"
  shows "registry_ok (hs_registry hs) \<and> rg_live (hs_registry hs) = [] \<and>
    (\<forall>addr token. hs_frontend hs = Some (addr, token) \<longrightarrow>
       token \<noteq> [] \<and> env_var env ''ANVIL_RING_CALLER_TOKEN'' = Some token) \<and>
    (case hs_monitor hs of
       Some directory \<Rightarrow>
         env_var env ''ANVIL_RING_DEMO_CREDENTIAL'' = None \<and>
         (\<exists>recs. read_store E directory found = Inr recs \<and> governed_by recs (hs_registry hs))
     | None \<Rightarrow>
         \<exists>demo. env_var env ''ANVIL_RING_DEMO_CREDENTIAL'' = Some demo \<and> demo \<noteq> [] \<and>
           (\<forall>now c l. authorize sha now c (hs_registry hs) = Some l \<longrightarrow>
              l_tether_id l = asc ''demo-1'' \<and> digest sha c = digest sha demo))"
proof -
  let ?r0 = "registry_new DEFAULT_LEASE"
  let ?dir = "env_var_os env ''ANVIL_RING_STATE_DIR''" and ?demo = "env_var env ''ANVIL_RING_DEMO_CREDENTIAL''"
  have r0: "registry_ok ?r0" by (rule registry_ok_new)
  from assms have auth: "hub_authority sha E wall found ?dir ?demo ?r0 = Inr (hs_registry hs)"
    and front: "hub_frontend N env = Inr (hs_frontend hs)" and mon: "hs_monitor hs = ?dir"
    unfolding run_hub_def Let_def by (auto elim!: try_then_cases)
  have front_ok: "token \<noteq> [] \<and> env_var env ''ANVIL_RING_CALLER_TOKEN'' = Some token"
    if "hs_frontend hs = Some (addr, token)" for addr token
    using front that
    by (auto simp: hub_frontend_def or_fail_def nonempty_var_def elim!: try_then_cases
        split: option.splits if_splits)
  show ?thesis
  proof (cases ?dir)
    case (Some directory)
    with auth obtain recs where d: "?demo = None" "read_store E directory found = Inr recs"
        "hs_registry hs = replace_records wall recs ?r0"
      by (auto simp: hub_authority_def map_sum_Inr_iff elim!: try_then_cases split: option.splits)
    have "rg_live (hs_registry hs) = []" unfolding d(3) by (simp add: replace_records_alt registry_new_def Let_def)
    with d Some mon front_ok show ?thesis
      by (simp add: governed_by_snapshot [OF r0] registry_ok_replace [OF r0])
  next
    case None
    with auth obtain demo where d: "?demo = Some demo" "demo \<noteq> []"
        "hs_registry hs = snd (register_tether sha (asc ''demo-1'') (asc ''demo rental'') demo ?r0)"
      by (auto simp: hub_authority_def simp del: asc_simps split: option.splits if_splits)
    have "rg_live (hs_registry hs) = []"
      "authorize sha now c (hs_registry hs) = Some l \<Longrightarrow>
         l_tether_id l = asc ''demo-1'' \<and> digest sha c = digest sha demo" for now c l
      unfolding d(3)
      by (auto simp: register_tether_def registry_new_def evict_def authorize_def Let_def simp del: asc_simps
          split: if_splits option.splits)
    with d None mon front_ok show ?thesis by (simp add: registry_ok_register [OF r0] del: asc_simps)
  qed
qed

definition example_monitor :: "unit monitor" where
  "example_monitor = \<lparr>mo_time = 0, mo_registry = example_registry, mo_read = Some 0, mo_effect = 0\<rparr>"

theorem refresh_fails_closed_witness:
  "\<exists>m'. refresh_round 7 (secs 1) (ReadDone (Inl ''unavailable'')) example_monitor = m' \<and>
     rg_live (mo_registry m') = [] \<and> (\<forall>sha now c. authorize sha now c (mo_registry m') = None)"
proof -
  obtain m' where m: "refresh_round 7 (secs 1) (ReadDone (Inl ''unavailable'')) example_monitor = m'" by simp
  have "registry_ok (mo_registry example_monitor)" using example_registry_ok by (simp add: example_monitor_def)
  note r = refresh_fails_closed [OF this m]
  have "mo_read m' = None" using r by simp
  with r m show ?thesis by auto
qed

definition demo_env :: env where
  "demo_env key = (if key = ''ANVIL_RING_DEMO_CREDENTIAL'' then Value [1] else Unset)"

definition demo_net :: net_api where
  "demo_net = example_net\<lparr>n_parse_socket := \<lambda>_. Some (LOCALHOST, 8443)\<rparr>"

lemma demo_vars:
  "env_var demo_env k = (if k = ''ANVIL_RING_DEMO_CREDENTIAL'' then Some [1] else None)"
  "env_var_os demo_env k = (if k = ''ANVIL_RING_DEMO_CREDENTIAL'' then Some [1] else None)"
  by (simp_all add: env_var_def env_var_os_def demo_env_def)

lemma demo_hub_starts:
  "\<exists>hs :: unit hub_start. run_hub example_sha demo_net (example_env 0 0) 0 None demo_env = Inr hs \<and>
     hs_frontend hs = None \<and> hs_monitor hs = None \<and> rg_live (hs_registry hs) = [] \<and>
     authorize example_sha 0 [1] (hs_registry hs) =
       Some \<lparr>l_tether_id = asc ''demo-1'', l_ttl = DEFAULT_LEASE\<rparr>"
proof -
  let ?r = "snd (register_tether example_sha (asc ''demo-1'') (asc ''demo rental'') [1] (registry_new DEFAULT_LEASE :: unit registry))"
  let ?hs = "\<lparr>hs_listen = (LOCALHOST, 8443), hs_registry = ?r, hs_frontend = None, hs_monitor = None\<rparr>"
  have run: "run_hub example_sha demo_net (example_env 0 0) 0 None demo_env = Inr ?hs"
    by (simp add: run_hub_def hub_authority_def hub_frontend_def demo_vars or_fail_def demo_net_def del: asc_simps)
  have "authorize example_sha 0 [1] ?r = Some \<lparr>l_tether_id = asc ''demo-1'', l_ttl = DEFAULT_LEASE\<rparr>"
    by (simp add: authorize_def register_tether_def registry_new_def Let_def remaining_def DEFAULT_LEASE_def
        DURATION_MAX_def secs_def)
  with run hub_starts_authorized [OF run] show ?thesis by (intro exI [of _ ?hs]) simp
qed

end
