(* ===== verification/End_To_End.thy ===== *)
theory End_To_End
  imports Frontend Main_CLI
begin

text \<open>
  The parts put together: the lemmas on which the properties of the root theory rest. One
  group follows an answer from the engine through the tether's pump, the WebSocket and
  the hub's session to the state the caller's request waits on; the other follows a
  credential from the administrator's command through the store and a refresh of the hub.
\<close>

section \<open>An answer on its way\<close>

text \<open>The frames of one pump arriving at the hub, one message each, with room in every queue.\<close>

definition relay :: "'h head_parser \<Rightarrow> nat \<Rightarrow> sref \<Rightarrow> frame list \<Rightarrow> 'h registry \<Rightarrow> 'h registry" where
  "relay P now s fs r = foldl (\<lambda>r f. snd (on_message P now Sent Sent s (Message (ws_msg f)) r)) r fs"

lemma relay_simps [simp]:
  "relay P now s [] r = r"
  "relay P now s (fs @ gs) r = relay P now s gs (relay P now s fs r)"
  by (simp_all add: relay_def)

lemma relay_frame:
  assumes "fits f" "f \<noteq> Pong"
  shows "relay P now s (f # fs) r = relay P now s fs (snd (handle_frame P Sent Sent s f r))"
  using assms by (simp add: relay_def on_message_def ws_msg_def frame_proves_liveness_def)

lemma stream_of_upd_stream [simp]: "stream_of (upd_stream x g r) s sid = stream_of r s sid"
  by (simp add: stream_of_def)

lemma upd_stream_twice: "upd_stream x f (upd_stream x g r) = upd_stream x (f \<circ> g) r"
  by (cases "x < length (rg_streams r)") (simp_all add: upd_stream_def list_update_beyond not_less)

lemma upd_stream_same: "g (rg_streams r ! x) = rg_streams r ! x \<Longrightarrow> upd_stream x g r = r"
  by (simp add: upd_stream_def)

abbreviation push_chunks :: "bytes list \<Rightarrow> 'h stream_state \<Rightarrow> 'h stream_state" where
  "push_chunks bs \<equiv> \<lambda>st. st\<lparr>ss_chunks := ss_chunks st @ map Chunk bs\<rparr>"

lemma relay_data:
  assumes "stream_of r s sid = Some x" "x < length (rg_streams r)" "ss_head (rg_streams r ! x) \<noteq> None"
    and "\<forall>b \<in> set bs. fits (Data sid b)"
  shows "relay P now s (map (Data sid) bs) r = upd_stream x (push_chunks bs) r"
  using assms
proof (induction bs arbitrary: r)
  case Nil
  then show ?case by (simp add: upd_stream_same)
next
  case (Cons b bs)
  let ?r = "upd_stream x (push_chunks [b]) r"
  have "snd (handle_frame P Sent Sent s (Data sid b) r) = ?r"
    using Cons.prems by (simp add: handle_frame_def on_data_def Let_def)
  then have "relay P now s (map (Data sid) (b # bs)) r = relay P now s (map (Data sid) bs) ?r"
    using Cons.prems by (simp add: relay_frame)
  also have "\<dots> = upd_stream x (push_chunks bs) ?r"
    using Cons.prems by (intro Cons.IH) (simp_all add: upd_stream_nth)
  also have "\<dots> = upd_stream x (push_chunks bs \<circ> push_chunks [b]) r" by (rule upd_stream_twice)
  also have "push_chunks bs \<circ> push_chunks [b] = push_chunks (b # bs)" by (simp add: fun_eq_iff)
  finally show ?case .
qed

lemma relay_head:
  assumes "stream_of r s sid = Some x" "ss_head (rg_streams r ! x) = None"
    and "fits (RespHead sid head)" "parse_head P head = Some (h, [])" "200 \<le> rs_status h"
  shows "relay P now s (RespHead sid head # fs) r =
    relay P now s fs (upd_stream x (\<lambda>st. st\<lparr>ss_head := Some h\<rparr>) r)"
  using assms by (simp add: relay_frame handle_frame_def on_resp_head_def acceptable_head_def)

lemma relay_end:
  assumes "stream_of r s sid = Some x" "fits (End sid reason)"
  shows "relay P now s [End sid reason] r =
    remove_stream s sid (upd_stream x (if reason = [] then stream_complete else stream_fail) r)"
  using assms by (simp add: relay_frame handle_frame_def on_end_def)

text \<open>What a pump hands over of an engine's answer.\<close>

definition handed_over :: "'h header_api \<Rightarrow> 'h engine_response option \<Rightarrow> 'h engine_response option" where
  "handed_over H exchange =
     (case exchange of
        None \<Rightarrow> None
      | Some res \<Rightarrow>
          if list_all (coding_ok H) (hm_get_all H (er_headers res) (asc ''transfer-encoding''))
          then Some res else None)"

definition answered ::
    "'g engine_response option \<Rightarrow> 'h response \<Rightarrow> 'h stream_state \<Rightarrow> 'h stream_state" where
  "answered ex h st =
     (case ex of
        None \<Rightarrow> stream_fail st
      | Some res \<Rightarrow>
          (if EngineError \<in> set (er_body res) then stream_fail else stream_complete)
            (push_chunks (data_chunks (er_body res)) (st\<lparr>ss_head := Some h\<rparr>)))"

lemma relay_pump:
  assumes "stream_of r s sid = Some x" "x < length (rg_streams r)" "ss_head (rg_streams r ! x) = None"
    and "\<forall>f \<in> set (pump_frames H sid exchange). fits f"
    and "\<And>res. handed_over H exchange = Some res \<Longrightarrow>
      parse_head P (encode_response_head H (er_status res) (er_reason res) (er_headers res)) = Some (h, []) \<and>
      200 \<le> rs_status h"
  shows "relay P now s (pump_frames H sid exchange) r =
    remove_stream s sid (upd_stream x (answered (handed_over H exchange) h) r)"
proof (cases "handed_over H exchange")
  case None
  then have f: "pump_frames H sid exchange = [End sid (asc ''engine request or response failed'')]"
    by (auto simp: pump_frames_eq handed_over_def split: option.splits if_splits)
  show ?thesis unfolding f None
    using assms(1,4) relay_end [OF assms(1)] by (simp add: f answered_def [abs_def])
next
  case (Some res)
  let ?head = "encode_response_head H (er_status res) (er_reason res) (er_headers res)"
  let ?reason = "if EngineError \<in> set (er_body res) then asc ''engine request or response failed'' else []"
  let ?bs = "data_chunks (er_body res)"
  have f: "pump_frames H sid exchange =
      RespHead sid ?head # map (Data sid) ?bs @ [End sid ?reason]"
    using Some by (auto simp: pump_frames_eq handed_over_def split: option.splits if_splits)
  let ?r1 = "upd_stream x (\<lambda>st. st\<lparr>ss_head := Some h\<rparr>) r"
  let ?r2 = "upd_stream x (push_chunks ?bs) ?r1"
  have fits: "fits (RespHead sid ?head)" "\<forall>b \<in> set ?bs. fits (Data sid b)" "fits (End sid ?reason)"
    using assms(4) unfolding f by auto
  have "relay P now s (map (Data sid) ?bs) ?r1 = ?r2"
    using assms(1,2) fits(2) by (intro relay_data) (simp_all add: upd_stream_nth)
  moreover have "relay P now s [End sid ?reason] ?r2 =
      remove_stream s sid (upd_stream x (if ?reason = [] then stream_complete else stream_fail) ?r2)"
    using assms(1) fits(3) by (intro relay_end) simp_all
  moreover have "answered (Some res) h =
      (if ?reason = [] then stream_complete else stream_fail) \<circ> (push_chunks ?bs \<circ> (\<lambda>st. st\<lparr>ss_head := Some h\<rparr>))"
    by (simp add: answered_def fun_eq_iff)
  ultimately show ?thesis
    unfolding f Some
    using relay_head [OF assms(1,3) fits(1)] assms(5) [OF Some] by (simp add: upd_stream_twice del: asc_simps)
qed

lemma push_all:
  "pushed (map EPush bs @ EOutcome m # replicate k EPoll) = bs"
  "complete_last (map EPush bs @ EOutcome m # replicate k EPoll)"
proof -
  have "pushed (map EPush bs) = bs" by (induction bs) (simp_all add: pushed_def map_filter_simps)
  moreover have "pushed (EOutcome m # replicate k EPoll) = []"
    by (induction k) (simp_all add: pushed_def map_filter_simps)
  moreover have "pushed (xs @ ys) = pushed xs @ pushed ys" for xs ys
    by (simp add: pushed_def map_filter_def)
  ultimately show "pushed (map EPush bs @ EOutcome m # replicate k EPoll) = bs" by simp
  have "complete_last (replicate k EPoll)" by (induction k) simp_all
  then show "complete_last (map EPush bs @ EOutcome m # replicate k EPoll)"
    by (induction bs) (auto simp: list_all_iff)
qed

section \<open>A credential on its way\<close>

lemma issued_rows_in:
  assumes "issuable tid label rows" "row \<in> set (issued_rows tid label hash expires rows)"
  shows "rr_id row = tid \<Longrightarrow> rr_credential_hash row = hash \<and> rr_active row = 1 \<and> rr_expires_at row = expires"
    "rr_id row \<noteq> tid \<Longrightarrow> row \<in> set rows"
proof -
  show "rr_credential_hash row = hash \<and> rr_active row = 1 \<and> rr_expires_at row = expires" if "rr_id row = tid"
  proof (cases label)
    case None
    with assms(2) obtain old where "old \<in> set rows" and row: "row = (if rr_id old = tid
        then old\<lparr>rr_credential_hash := hash, rr_active := 1, rr_expires_at := expires\<rparr> else old)"
      unfolding issued_rows_def None option.case set_map by blast
    with that show ?thesis by (cases "rr_id old = tid") simp_all
  next
    case (Some l)
    have "tid \<notin> rr_id ` set rows" using assms(1) Some by (simp add: issuable_def)
    with that have "row \<notin> set rows" by blast
    with assms(2) Some show ?thesis by (simp add: issued_rows_def)
  qed
  show "row \<in> set rows" if "rr_id row \<noteq> tid"
    using assms(2) that by (cases label) (auto simp: issued_rows_def split: if_splits)
qed

lemma issued_row_exists:
  assumes "issuable tid label rows"
  shows "\<exists>row \<in> set (issued_rows tid label hash expires rows). rr_id row = tid"
proof (cases label)
  case None
  with assms have "filter (\<lambda>row. rr_id row = tid) rows \<noteq> []" by (auto simp: issuable_def)
  then obtain row where "row \<in> set rows" "rr_id row = tid" unfolding filter_empty_conv by blast
  with None show ?thesis by (intro bexI [of _ "row\<lparr>rr_credential_hash := hash, rr_active := 1, rr_expires_at := expires\<rparr>"])
      (auto simp: issued_rows_def image_iff)
qed (simp add: issued_rows_def)

lemma hex_trim: "trim_cred (concat (map hex2 bs) @ [10]) = concat (map hex2 bs)"
proof -
  let ?ws = "\<lambda>b :: byte. b = 10 \<or> b = 13 \<or> b = 32 \<or> b = 9"
  have "\<not> ?ws b" if "b \<in> set (rev (concat (map hex2 bs)))" for b
  proof -
    from that have "is_hex_lower b" by (auto simp: hex2_def intro!: hex_digit_lower nibbles)
    then show ?thesis by (auto simp: is_hex_lower_def)
  qed
  then have "dropWhile ?ws (rev (concat (map hex2 bs))) = rev (concat (map hex2 bs))"
    by (cases "rev (concat (map hex2 bs))") (simp_all only: dropWhile.simps list.set_intros if_False)
  then show ?thesis by (simp add: trim_cred_def)
qed

lemma snapshot_records:
  assumes "list_all column_range (db_registrations db)" "distinct (map rr_id (db_registrations db))"
    and "snapshot E st db = Inr recs"
  shows "set recs = record_of ` set (db_registrations db)" "distinct (map ar_id recs)"
proof -
  have "recs = map record_of (sort_key rr_id (db_registrations db))"
    using snapshot_exact_base [OF assms(1)] assms(3) by blast
  moreover have "ar_id \<circ> record_of = rr_id" by (simp add: record_of_def fun_eq_iff)
  ultimately show "set recs = record_of ` set (db_registrations db)" "distinct (map ar_id recs)"
    using assms(2) map_sort_key_strict [OF assms(2)] by (simp_all add: strict_sorted_iff)
qed

lemma word_of_time: "n < 2 ^ 63 \<Longrightarrow> unat (word_of_int (int n) :: 64 word) = n"
  unfolding unat_eq_nat_uint uint_word_of_int_eq by (simp add: take_bit_int_eq_self)

lemma issue_success:
  assumes "issue sha E tid label ttl_secs out st db fs = (Inr u, db', fs')"
  obtains random clock where "ae_clock E = Some clock" "unat clock + unat ttl_secs < 2 ^ 63"
    "fs' out = Some \<lparr>of_mode = 384, of_bytes = concat (map hex2 random) @ [10]\<rparr>"
    "issuable tid label (db_registrations db)"
    "db_registrations db' = issued_rows tid label (digest sha (concat (map hex2 random)))
       (int (unat clock + unat ttl_secs)) (db_registrations db)"
proof -
  note issue_delivers_or_undoes_base [where sha = sha and E = E and tid = tid and label = label
      and ttl_secs = ttl_secs and out = out and st = st and db = db and fs = fs,
      unfolded assms prod.case sum.case]
  then obtain random clock where "ae_clock E = Some clock" "unat clock + unat ttl_secs < 2 ^ 63"
    "fs' = fs(out \<mapsto> \<lparr>of_mode = 384, of_bytes = concat (map hex2 random) @ [10]\<rparr>)"
    "issuable tid label (db_registrations db)"
    "db_registrations db' = issued_rows tid label (digest sha (concat (map hex2 random)))
       (int (unat clock + unat ttl_secs)) (db_registrations db)"
    by blast
  then show ?thesis by (intro that [of clock random]) simp_all
qed

lemma revoked_rows:
  assumes "admin_revoke E tid st db = (Inr changed, db')"
    and "row \<in> set (db_registrations db')" "rr_id row = tid"
  shows "rr_active row \<noteq> 1"
proof -
  obtain n db1 where up: "update_registrations E (\<lambda>row. row\<lparr>rr_active := 0\<rparr>)
      (\<lambda>row. rr_id row = tid \<and> rr_active row = 1) db = Inr (n, db1)"
    and au: "(if n = 1 then append_audit E (asc ''revoke'') (Some tid) None db1 else Inr db1) = Inr db'"
    by (rule admin_revoke_InrD [OF assms(1)])
  have "db_registrations db' = db_registrations db1"
  proof (cases "n = 1")
    case True
    with au have "append_audit E (asc ''revoke'') (Some tid) None db1 = Inr db'" by simp
    then obtain row where "db' = db1\<lparr>db_audit := db_audit db1 @ [row], db_sequence := db_sequence db1 + 1\<rparr>"
      by (rule append_audit_InrD)
    then show ?thesis by simp
  qed (use au in simp)
  with update_registrations_InrD [OF up] have "db_registrations db' =
      map (\<lambda>row. if rr_id row = tid \<and> rr_active row = 1 then row\<lparr>rr_active := 0\<rparr> else row) (db_registrations db)"
    by simp
  with assms(2) obtain old where
    "row = (if rr_id old = tid \<and> rr_active old = 1 then old\<lparr>rr_active := 0\<rparr> else old)"
    by (simp only: set_map) blast
  with assms(3) show ?thesis by (cases "rr_id old = tid \<and> rr_active old = 1") auto
qed


section \<open>An example answer\<close>

definition example_answer :: "unit engine_response" where
  "example_answer = \<lparr>er_status = 200, er_reason = [], er_headers = (), er_body = [EngineData [5], EngineTrailers, EngineData [6, 7]]\<rparr>"

definition example_parser :: "unit head_parser" where
  "example_parser = \<lparr>hp_parse = \<lambda>bs. Some (Complete (min (length bs) 60), Some 200, []),
     hp_build = \<lambda>c _. Some \<lparr>rs_status = c, rs_headers = ()\<rparr>\<rparr>"

end
