(* ===== verification/Retired.thy ===== *)
theory Retired
  imports Hub
begin

text \<open>
  What becomes of a session that loses its place in the routing table, under every event of
  the hub: it is closed first, so a task whose tether is no longer routed serves a session
  without streams that accepts none. The tasks' invariant extends the machine of \<open>Hub\<close>.
\<close>

section \<open>Losing a route\<close>

text \<open>From \<open>r\<close> to \<open>r'\<close> no closed session opens, and one that leaves the table is closed.\<close>

definition retires :: "'h registry \<Rightarrow> 'h registry \<Rightarrow> bool" where
  "retires r r' \<longleftrightarrow>
     length (rg_sessions r) \<le> length (rg_sessions r') \<and>
     (\<forall>s < length (rg_sessions r). ls_closed (rg_sessions r ! s) \<longrightarrow> ls_closed (rg_sessions r' ! s)) \<and>
     (\<forall>tid s. map_of (rg_live r) tid = Some s \<and> s < length (rg_sessions r) \<longrightarrow>
        map_of (rg_live r') tid = Some s \<or> ls_closed (rg_sessions r' ! s))"

lemma retires_shrinks:
  "shrinks r r' \<Longrightarrow> rg_live r' = rg_live r \<Longrightarrow> retires r r'"
  by (simp add: retires_def shrinks_def session_shrinks_def)

lemma retires_refl [simp]: "retires r r"
  by (simp add: retires_def)

lemma retires_evict: "retires r (evict tid r)"
proof (cases "map_of (rg_live r) tid")
  case (Some s)
  then show ?thesis
    by (auto simp: retires_def evict_def cancel_session_nth delete_conv')
qed (simp add: evict_def)

lemma retires_tables_evict:
  "retires r (evict tid (r\<lparr>rg_by_id := a, rg_by_credential := b\<rparr>))"
  "retires r (evict tid (r\<lparr>rg_by_id := a\<rparr>))"
  using retires_evict [of "r\<lparr>rg_by_id := a, rg_by_credential := b\<rparr>"] retires_evict [of "r\<lparr>rg_by_id := a\<rparr>"]
  by (simp_all add: retires_def)

lemma retires_replace: "retires r (replace_records wall recs r)"
proof -
  let ?keep = "unchanged wall (replacement_of recs) (rg_by_id r)"
  let ?d = "drop_changed ?keep (rg_live r) r"
  have "shrinks r ?d" by simp
  then have "\<forall>s < length (rg_sessions r). ls_closed (rg_sessions r ! s) \<longrightarrow> ls_closed (rg_sessions ?d ! s)"
    by (simp add: shrinks_def session_shrinks_def)
  moreover have "?keep tid \<or> ls_closed (rg_sessions ?d ! s)"
    if "map_of (rg_live r) tid = Some s" "s < length (rg_sessions r)" for tid s
    using drop_changed_cancelled [OF map_of_SomeD [OF that(1)] _ that(2), of ?keep] by (auto simp: cancelled_def)
  ultimately show ?thesis by (auto simp: retires_def replace_records_alt Let_def map_of_live_filter)
qed

lemma retires_register: "retires r (snd (register_tether sha tid label c r))"
  by (simp add: register_tether_def Let_def retires_tables_evict)

lemma retires_revoke: "retires r (snd (revoke tid r))"
  by (auto simp: revoke_def retires_evict retires_tables_evict split: option.split)

lemma retires_attach: "retires r (snd (attach sha wall now tid c r))"
  by (auto simp: retires_def attach_def Let_def cancel_session_nth nth_append update_conv' split: option.splits)

lemma retires_confined: "confined s r r' \<Longrightarrow> retires r r'"
  by (simp add: confined_def retires_shrinks)

lemma retires_close: "retires r (close_session s r)"
  by (auto simp: retires_def close_session_nth)

lemma retires_upd_session: "(\<And>ls. ls_closed (f ls) = ls_closed ls) \<Longrightarrow> retires r (upd_session s f r)"
  by (auto simp: retires_def upd_session_nth)

lemma retires_trans: "retires a b \<Longrightarrow> retires b c \<Longrightarrow> retires a c"
proof -
  assume ab: "retires a b" and bc: "retires b c"
  have len: "length (rg_sessions a) \<le> length (rg_sessions b)" "length (rg_sessions b) \<le> length (rg_sessions c)"
    using ab bc by (simp_all add: retires_def)
  have closed: "ls_closed (rg_sessions b ! s)" if "ls_closed (rg_sessions a ! s)" "s < length (rg_sessions a)" for s
    using ab that by (simp add: retires_def)
  have closed': "ls_closed (rg_sessions c ! s)" if "ls_closed (rg_sessions b ! s)" "s < length (rg_sessions a)" for s
    using bc that len by (simp add: retires_def)
  have "map_of (rg_live c) tid = Some s \<or> ls_closed (rg_sessions c ! s)"
    if "map_of (rg_live a) tid = Some s" "s < length (rg_sessions a)" for tid s
  proof (cases "map_of (rg_live b) tid = Some s")
    case True
    with bc that(2) len show ?thesis by (simp add: retires_def)
  next
    case False
    with ab that have "ls_closed (rg_sessions b ! s)" by (auto simp: retires_def)
    with closed' that(2) show ?thesis by blast
  qed
  with len closed closed' show ?thesis unfolding retires_def by (blast intro: le_trans)
qed

lemma retires_start_forward: "retires r (snd (start_forward H s req r))"
  by (auto simp: start_forward_def Let_def admit_def retires_def upd_session_nth push_sent_def
      split: option.split sum.split)

lemma retires_forward: "retires r (snd (forward H wall reserved (\<lambda>r. r) tid req r))"
  by (simp add: forward_def retires_start_forward split: option.split sum.split)

lemma retires_forward_any: "retires r (snd (forward_any H wall now tx_closed reserve (\<lambda>r. r) req r))"
  by (simp add: forward_any_def retires_start_forward split: sum.split prod.split)

lemma retires_same: "rg_live r' = rg_live r \<Longrightarrow> rg_sessions r' = rg_sessions r \<Longrightarrow> retires r r'"
  by (simp add: retires_def)

lemma retires_send_or_abort: "retires r (send_or_abort s f res r)"
  by (auto simp: send_or_abort_def try_send_def push_sent_def intro: retires_upd_session)

lemma retires_upload_finish: "retires r (upload_finish s x sid result res r)"
  by (auto simp: upload_finish_def intro: retires_trans [OF retires_same retires_send_or_abort])

lemma retires_guard_drop: "retires r (guard_drop s x sid res r)"
proof -
  have "retires r (upd_session s (\<lambda>ls. ls\<lparr>ls_streams := AList.delete sid (ls_streams ls)\<rparr>)
      (upd_stream x (\<lambda>st. st\<lparr>ss_aborted := ss_aborted st @ [x]\<rparr>) r))" (is "retires r ?r")
    by (auto simp: retires_def upd_session_nth)
  then show ?thesis unfolding guard_drop_def Let_def
    by (auto intro: retires_trans [OF _ retires_send_or_abort])
qed

lemmas retires_ops = retires_register retires_replace retires_revoke retires_close
  retires_forward retires_forward_any retires_start_forward retires_upload_finish retires_guard_drop

section \<open>The tasks\<close>

text \<open>A task's session is the one routed to its tether, or closed.\<close>

definition served :: "'h registry \<Rightarrow> session_task \<Rightarrow> bool" where
  "served r tk \<longleftrightarrow> tk_session tk < length (rg_sessions r) \<and>
     (map_of (rg_live r) (tk_tether tk) = Some (tk_session tk) \<or> ls_closed (rg_sessions r ! tk_session tk))"

fun task_ok :: "'h registry \<Rightarrow> task_state \<Rightarrow> bool" where
  "task_ok r (Running tk) = served r tk"
| "task_ok r (Leaving tk) = served r tk"
| "task_ok r (Closed_off tk) = (served r tk \<and> ls_closed (rg_sessions r ! tk_session tk))"
| "task_ok r Gone = True"

lemma served_retires: "retires r r' \<Longrightarrow> served r tk \<Longrightarrow> served r' tk"
  by (auto simp: served_def retires_def)

lemma task_ok_retires: "retires r r' \<Longrightarrow> task_ok r t \<Longrightarrow> task_ok r' t"
  by (cases t) (auto simp: served_retires, auto simp: served_def retires_def)

lemma tasks_retires: "retires r r' \<Longrightarrow> list_all (task_ok r) ts \<Longrightarrow> list_all (task_ok r') ts"
  by (auto simp: list_all_iff task_ok_retires)

definition tasks_ok :: "'h hub \<Rightarrow> bool" where
  "tasks_ok h \<longleftrightarrow> (length (rg_sessions (hb_registry h)) < 2 ^ 64 \<longrightarrow>
     list_all (task_ok (hb_registry h)) (hb_tasks h))"

lemma session_step_task: "session_step P wall now chunk_res res ev tk r = (result, tk', r') \<Longrightarrow>
   tk_session tk' = tk_session tk \<and> tk_tether tk' = tk_tether tk"
  by (auto simp: session_step_def on_tick_def split: session_event.splits if_splits prod.splits)

lemma list_all_update: "list_all P xs \<Longrightarrow> P x \<Longrightarrow> list_all P (xs[i := x])"
  by (auto simp: list_all_iff dest!: set_update_subset_insert [THEN subsetD])

lemma detach_retires:
  assumes "gens_ok r" "length (rg_sessions r) < 2 ^ 64" "task_ok r (Closed_off tk)"
    and "\<And>tid s. map_of (rg_live r) tid = Some s \<Longrightarrow> s < length (rg_sessions r)"
  shows "retires r (detach (tk_tether tk) (tk_session tk) r)"
proof (cases "map_of (rg_live r) (tk_tether tk)")
  case (Some c)
  have "c = tk_session tk" if "ls_generation (rg_sessions r ! c) = ls_generation (rg_sessions r ! tk_session tk)"
    using gens_distinct [OF assms(1,2) _ _ that] assms(3,4) Some by (auto simp: served_def)
  with Some assms(3) show ?thesis
    by (auto simp: detach_def retires_def delete_conv')
qed (simp add: detach_def)

lemma served_attach:
  assumes "attach_session sha wall now started c l r = (Some tk, r')" "keys_ok r"
  shows "served r' tk"
  using assms
  by (auto simp: attach_session_def attach_def Let_def served_def cancel_session_nth update_conv' keys_ok_def
      split: prod.splits option.splits if_splits)

lemma retires_attach_session:
  "attach_session sha wall now started c l r = (tk, r') \<Longrightarrow> retires r r'"
  using retires_attach [of r sha wall now "l_tether_id l" c]
  by (auto simp: attach_session_def split: prod.splits option.splits)

lemma sessions_grow: "length (rg_sessions (hb_registry h)) \<le> length (rg_sessions (hb_registry (hub_step P H sha h e)))"
proof -
  note [simp] = retires_ops [unfolded retires_def, THEN conjunct1]
  show ?thesis
    apply (cases e)
    apply (auto simp: hub_step_def Let_def on_session_def detach_def
      split: prod.splits option.splits task_state.splits
      dest!: retires_attach_session confined_step)
    apply (auto simp: retires_def confined_def shrinks_def)
    done
qed

lemma hb_tasks_add_call [simp]: "hb_tasks (add_call p h) = hb_tasks h"
  by (simp add: add_call_def split: prod.split)

lemma tasks_ok_step:
  assumes "hub_ok h" "tasks_ok h"
  shows "tasks_ok (hub_step P H sha h e)"
  unfolding tasks_ok_def
proof
  let ?r = "hb_registry h" and ?h = "hub_step P H sha h e"
  assume len: "length (rg_sessions (hb_registry ?h)) < 2 ^ 64"
  with sessions_grow [of h P H sha e] have "length (rg_sessions ?r) < 2 ^ 64" by simp
  with assms(2) have ok: "list_all (task_ok ?r) (hb_tasks h)" and small: "length (rg_sessions ?r) < 2 ^ 64"
    by (simp_all add: tasks_ok_def)
  have reg: "registry_ok ?r" using assms(1) by (simp add: hub_ok_def)
  have nth: "task_ok ?r (hb_tasks h ! i)" if "i < length (hb_tasks h)" for i
    using ok that by (simp add: list_all_length)
  note keep = tasks_retires [OF _ ok]
  show "list_all (task_ok (hb_registry ?h)) (hb_tasks ?h)"
  proof (cases e)
    case (HSession i wall now chunk_res res ev)
    show ?thesis
    proof (cases "i < length (hb_tasks h) \<and> (\<exists>tk. hb_tasks h ! i = Running tk)")
      case True
      then obtain tk where i: "i < length (hb_tasks h)" "hb_tasks h ! i = Running tk" by blast
      obtain result tk' r' where step: "session_step P wall now chunk_res res ev tk ?r = (result, tk', r')"
        by (metis prod.exhaust)
      have ret: "retires ?r r'" using confined_step [OF step] by (rule retires_confined)
      have "served r' tk'"
        using served_retires [OF ret, of tk] nth [OF i(1)] i(2) session_step_task [OF step] by (simp add: served_def)
      then show ?thesis
        using i step keep [OF ret]
        by (simp add: HSession hub_step_def on_session_def list_all_update)
    next
      case False
      then show ?thesis using ok
        by (auto simp: HSession hub_step_def on_session_def split: task_state.split)
    qed
  next
    case (HClose i)
    have "task_ok (close_session (tk_session tk) ?r) (Closed_off tk)"
      if "i < length (hb_tasks h)" "hb_tasks h ! i = Leaving tk" for tk
      using nth [OF that(1)] that(2) by (auto simp: served_def close_session_nth)
    then show ?thesis using ok keep [OF retires_close]
      by (auto simp: HClose hub_step_def Let_def list_all_update split: task_state.split)
  next
    case (HDetach i)
    have "retires ?r (detach (tk_tether tk) (tk_session tk) ?r)"
      if "i < length (hb_tasks h)" "hb_tasks h ! i = Closed_off tk" for tk
      using reg small nth [OF that(1)] that(2)
      by (intro detach_retires live_in_range [OF reg]) (simp_all add: registry_ok_def)
    then show ?thesis using ok keep
      by (auto simp: HDetach hub_step_def Let_def list_all_update split: task_state.split)
  next
    case (HAttach wall now started c l)
    show ?thesis
      using reg keep [OF retires_attach_session] served_attach
      by (auto simp: HAttach hub_step_def Let_def registry_ok_def split: prod.split option.split)
  qed (auto simp: hub_step_def Let_def ok retires_ops [THEN keep] split: option.split)
qed

interpretation task_machine:
  invariant_machine "hub_step P H sha" hub_start "\<lambda>h. hub_ok h \<and> tasks_ok h" for P H sha
proof unfold_locales
  fix h :: "'a hub" and e
  show "hub_ok h \<and> tasks_ok h" if "hub_start h"
    using that by (auto simp: hub_start_def hub_ok_def registry_ok_new tasks_ok_def)
  show "hub_ok (hub_step P H sha h e) \<and> tasks_ok (hub_step P H sha h e)" if "hub_ok h \<and> tasks_ok h"
    using that hub_ok_step tasks_ok_step by blast
qed

end
