(* ===== verification/Inactive.thy ===== *)
theory Inactive
  imports End_To_End
begin

text \<open>
  An inactive registration stays inactive under every command of \<open>admin.rs\<close> that does not
  issue its identifier, and every snapshot of the store then says so.
\<close>

section \<open>A registration that stays inactive\<close>

definition rows_shut :: "bytes \<Rightarrow> registration_row list \<Rightarrow> bool" where
  "rows_shut tid rows \<longleftrightarrow> (\<forall>row \<in> set rows. rr_id row = tid \<longrightarrow> rr_active row \<noteq> 1)"

definition records_shut :: "bytes \<Rightarrow> admin_record list \<Rightarrow> bool" where
  "records_shut tid recs \<longleftrightarrow> (\<forall>rec \<in> set recs. ar_id rec = tid \<longrightarrow> \<not> ar_active rec)"

fun reissues :: "bytes \<Rightarrow> bytes list \<Rightarrow> bool" where
  "reissues tid [c, a, _] \<longleftrightarrow> c = asc ''rotate'' \<and> a = tid"
| "reissues tid [c, a, _, _] \<longleftrightarrow> c = asc ''register'' \<and> a = tid"
| "reissues tid _ \<longleftrightarrow> False"

lemma rows_shut_Nil [simp]: "rows_shut tid []"
  by (simp add: rows_shut_def)

lemma issue_keeps_shut:
  assumes "issue sha E other label ttl out st db fs = (res, db', fs')" "other \<noteq> tid"
    and "rows_shut tid (db_registrations db)"
  shows "rows_shut tid (db_registrations db')"
proof (cases res)
  case (Inl e)
  with assms issue_delivers_or_undoes_base [where sha = sha and E = E and tid = other and label = label and
      ttl_secs = ttl and out = out and st = st and db = db and fs = fs] show ?thesis by simp
next
  case (Inr u)
  obtain random clock where i: "issuable other label (db_registrations db)"
      "db_registrations db' = issued_rows other label (digest sha (concat (map hex2 random)))
         (int (unat (clock :: 64 word) + unat ttl)) (db_registrations db)"
    by (rule issue_success [OF assms(1) [unfolded Inr]])
  show ?thesis
    using issued_rows_in(2) [OF i(1)] assms(2,3) unfolding i(2) rows_shut_def by blast
qed

lemma revoke_keeps_shut:
  assumes "admin_revoke E other st db = (res, db')" "rows_shut tid (db_registrations db)"
  shows "rows_shut tid (db_registrations db')"
proof (cases res)
  case (Inl e)
  with assms show ?thesis by (auto simp: admin_revoke_def split: sum.splits prod.splits)
next
  case (Inr changed)
  obtain n db1 where
    up: "update_registrations E (\<lambda>row. row\<lparr>rr_active := 0\<rparr>) (\<lambda>row. rr_id row = other \<and> rr_active row = 1) db = Inr (n, db1)"
    and au: "(if n = 1 then append_audit E (asc ''revoke'') (Some other) None db1 else Inr db1) = Inr db'"
    by (rule admin_revoke_InrD [OF assms(1) [unfolded Inr]])
  have "db_registrations db' = db_registrations db1"
    using au by (auto split: if_splits elim: append_audit_InrD simp del: asc_simps)
  moreover note update_registrations_InrD [OF up]
  ultimately show ?thesis using assms(2) by (auto simp: rows_shut_def)
qed

lemma store_open_found: "store_open E dir found = Inr (st, db) \<Longrightarrow> found = Some db"
  by (auto simp: store_open_def inr_simps)

lemma registrations_with_store:
  assumes "rows_shut tid (registrations_of w)" "with_store E dir w op = (res, w')"
    and "\<And>st db fs res db' fs'. rows_shut tid (db_registrations db) \<Longrightarrow> op st db fs = (res, db', fs') \<Longrightarrow>
      rows_shut tid (db_registrations db')"
  shows "rows_shut tid (registrations_of w')"
proof (cases "store_open E dir (aw_database w)")
  case (Inl e)
  with assms show ?thesis by (simp add: with_store_def)
next
  case (Inr p)
  then obtain st db where p: "p = (st, db)" "aw_database w = Some db"
    using store_open_found by (metis prod.exhaust)
  obtain ores db' fs' where o: "op st db (aw_files w) = (ores, db', fs')" by (metis prod.exhaust)
  with assms(2) Inr p have "w' = \<lparr>aw_database = Some db', aw_files = fs'\<rparr>" by (simp add: with_store_def)
  with assms(3) [OF _ o] assms(1) p(2) show ?thesis by (simp add: registrations_of_def)
qed

lemma issue_command_keeps_shut:
  assumes "issue_command sha E out other label ttl st db fs = (res, db', fs')" "other \<noteq> tid"
    and "rows_shut tid (db_registrations db)"
  shows "rows_shut tid (db_registrations db')"
  using assms issue_keeps_shut [OF _ assms(2,3)]
  by (auto simp: issue_command_def admin_register_def admin_rotate_def
      split: sum.splits prod.splits option.splits)

lemma initialize_no_rows: "db_registrations (snd (initialize E m)) = []"
  using initialize_ok [of E m] by (metis prod.collapse)

lemma init_keeps_shut:
  "rows_shut tid (registrations_of w) \<Longrightarrow> store_init E dir (aw_database w) = (res, db) \<Longrightarrow>
   rows_shut tid (registrations_of (w\<lparr>aw_database := db\<rparr>))"
  using initialize_no_rows [of E]
  by (auto simp: store_init_def registrations_of_def no_schema_def
      split: sum.splits prod.splits if_splits option.splits) (metis rows_shut_Nil snd_conv)+

lemma command_keeps_shut:
  assumes "rows_shut tid (registrations_of w)" "\<not> reissues tid args"
    and "run_command sha E dir out args w = (res, w')"
  shows "rows_shut tid (registrations_of w')"
proof -
  note keep = registrations_with_store [OF assms(1)]
  have read: "rows_shut tid (registrations_of w')"
    if "with_store E dir w (\<lambda>st db fs. (f st db, db, fs)) = (res, w')" for f
    by (rule keep [OF that]) auto
  have rev: "rows_shut tid (registrations_of w')" if "with_store E dir w (revoke_command E a) = (res, w')" for a
    by (rule keep [OF that]) (auto simp: revoke_command_def dest: revoke_keeps_shut split: prod.splits)
  have issue: "rows_shut tid (registrations_of w')"
    if "with_store E dir w (issue_command sha E out other label ttl) = (res, w')" "other \<noteq> tid" for other label ttl
    by (rule keep [OF that(1)]) (rule issue_command_keeps_shut [OF _ that(2)])
  show ?thesis
    using assms(2,3) init_keeps_shut [OF assms(1)] assms(1)
    by (cases args rule: upto_four)
      (auto simp: run_command_def simp del: asc_simps dest: read rev issue split: if_splits prod.splits)
qed

lemma admin_keeps_shut:
  "rows_shut tid (registrations_of w) \<Longrightarrow> \<not> reissues tid args \<Longrightarrow>
   rows_shut tid (registrations_of (admin_step sha w (E, dir, out, args)))"
  by (auto simp: admin_run_def split: option.split prod.split dest: command_keeps_shut)

lemma read_store_shut:
  assumes "read_store E dir (aw_database w) = Inr recs" "world_ok w" "rows_shut tid (registrations_of w)"
  shows "records_shut tid recs"
proof -
  obtain st db where db: "aw_database w = Some db" "snapshot E st db = Inr recs"
    using assms(1) by (auto simp: read_store_def try_then_Inr_iff dest: store_open_found)
  then have "db_version db = 1" using check_schema_version by (auto simp: snapshot_def inr_simps)
  with assms(2) db(1) have "rows_ok (db_registrations db)" by (auto simp: world_ok_def database_ok_def no_schema_def)
  then have "set recs = record_of ` set (db_registrations db)"
    using snapshot_records(1) [OF _ _ db(2)] by (simp add: rows_ok_def)
  with assms(3) db(1) show ?thesis
    by (auto simp: records_shut_def rows_shut_def registrations_of_def record_of_def)
qed

end
