(* ===== verification/Deployment.thy ===== *)
theory Deployment
  imports Retired Inactive
begin

text \<open>
  A hub with its durable store as one machine: the administrator's commands (\<open>admin.rs\<close>),
  the refresh task with its timers (\<open>refresh_registrations\<close> of \<open>main.rs\<close>) and everything
  that drives the hub (\<open>hub.rs\<close>), interleaved in any order. Time passes only as far as the
  next timer of the refresh task, so a timer fires when it is due; nothing else is assumed
  about the speed of any part.
\<close>

section \<open>The deployment as one machine\<close>

text \<open>
  The refresh task: asleep until an instant; reading until an instant, with the worker's
  result once there is one; or waiting for a worker whose result came too late.
\<close>

datatype reader = Asleep nat | Reading nat "read_outcome option" | Stuck

record 'h deployment =
  dp_admin :: admin_world
  dp_directory :: bytes
  dp_hub :: "'h hub"
  dp_reader :: reader
  dp_clock :: nat

text \<open>
  \<open>DRead\<close> is the worker's transaction, \<open>DPanic\<close> its failure; \<open>DApply\<close> and \<open>DTimeout\<close> are
  the arms of the timeout, \<open>DDrained\<close> the end of a late worker. Instants of the wall clock
  are arguments.
\<close>

datatype 'h deploy_event =
    DPass nat
  | DAdmin admin_env "bytes option" "bytes option" "bytes list"
  | DHub "'h hub_event"
  | DSpawn
  | DRead admin_env
  | DPanic
  | DApply nat
  | DTimeout nat
  | DDrained

text \<open>A hub with a store changes its registrations in the refresh task only.\<close>

fun traffic :: "'h hub_event \<Rightarrow> bool" where
  "traffic (HRegister _ _ _) = False"
| "traffic (HReplace _ _) = False"
| "traffic (HRevoke _) = False"
| "traffic _ = True"

text \<open>The instant no clock passes before the task has moved on.\<close>

fun limit :: "reader \<Rightarrow> nat option" where
  "limit (Asleep t) = Some t"
| "limit (Reading t _) = Some t"
| "limit Stuck = None"

definition apply_read :: "nat \<Rightarrow> read_outcome \<Rightarrow> 'h registry \<Rightarrow> 'h registry" where
  "apply_read wall outcome r =
     (case outcome of ReadDone (Inr records) \<Rightarrow> replace_records wall records r | _ \<Rightarrow> clear_records wall r)"

abbreviation on_registry :: "('h registry \<Rightarrow> 'h registry) \<Rightarrow> 'h hub \<Rightarrow> 'h hub" where
  "on_registry f h \<equiv> h\<lparr>hb_registry := f (hb_registry h)\<rparr>"

definition reader_step :: "'h deploy_event \<Rightarrow> 'h deployment \<Rightarrow> 'h deployment" where
  "reader_step e d =
     (case (dp_reader d, e) of
        (Asleep t, DSpawn) \<Rightarrow>
          if t \<le> dp_clock d then d\<lparr>dp_reader := Reading (dp_clock d + secs 2) None\<rparr> else d
      | (Reading t None, DRead E) \<Rightarrow>
          d\<lparr>dp_reader := Reading t (Some (ReadDone (read_store E (dp_directory d) (aw_database (dp_admin d)))))\<rparr>
      | (Reading t None, DPanic) \<Rightarrow> d\<lparr>dp_reader := Reading t (Some ReadPanicked)\<rparr>
      | (Reading t (Some outcome), DApply wall) \<Rightarrow>
          d\<lparr>dp_hub := on_registry (apply_read wall outcome) (dp_hub d),
            dp_reader := Asleep (dp_clock d + millis 500)\<rparr>
      | (Reading t _, DTimeout wall) \<Rightarrow>
          if t \<le> dp_clock d
          then d\<lparr>dp_hub := on_registry (clear_records wall) (dp_hub d), dp_reader := Stuck\<rparr> else d
      | (Stuck, DDrained) \<Rightarrow> d\<lparr>dp_reader := Asleep (dp_clock d + millis 500)\<rparr>
      | _ \<Rightarrow> d)"

definition deploy_step ::
    "'h head_parser \<Rightarrow> 'h header_api \<Rightarrow> (bytes \<Rightarrow> bytes) \<Rightarrow> 'h deployment \<Rightarrow> 'h deploy_event \<Rightarrow> 'h deployment" where
  "deploy_step P H sha d e =
     (case e of
        DPass n \<Rightarrow>
          if (\<forall>t \<in> set_option (limit (dp_reader d)). dp_clock d + n \<le> t)
          then d\<lparr>dp_clock := dp_clock d + n\<rparr> else d
      | DAdmin E dir out args \<Rightarrow> d\<lparr>dp_admin := admin_step sha (dp_admin d) (E, dir, out, args)\<rparr>
      | DHub ev \<Rightarrow> if traffic ev then d\<lparr>dp_hub := hub_step P H sha (dp_hub d) ev\<rparr> else d
      | _ \<Rightarrow> reader_step e d)"

text \<open>The hub as \<open>run_hub\<close> starts it on a store that commands have made.\<close>

definition deploy_start :: "(bytes \<Rightarrow> bytes) \<Rightarrow> 'h deployment \<Rightarrow> bool" where
  "deploy_start sha d \<longleftrightarrow>
     (\<exists>N E wall env hs w dir.
        reach (admin_step sha) admin_start w \<and> run_hub sha N E wall (aw_database w) env = Inr hs \<and>
        hs_monitor hs = Some dir \<and>
        d = \<lparr>dp_admin = w, dp_directory = dir,
             dp_hub = \<lparr>hb_registry = hs_registry hs, hb_tasks = [], hb_calls = []\<rparr>,
             dp_reader = Asleep (millis 500), dp_clock = 0\<rparr>)"

text \<open>One turn of the machine without interruption is \<open>refresh_round\<close>.\<close>

lemma turn_is_round:
  assumes "dp_reader d = Asleep t" "t = dp_clock d + millis 500" "n \<le> secs 2"
  shows "foldl (deploy_step P H sha) d [DPass (millis 500), DSpawn, DRead E, DPass n, DApply wall] =
     (let m = refresh_round wall n (ReadDone (read_store E (dp_directory d) (aw_database (dp_admin d))))
           \<lparr>mo_time = dp_clock d, mo_registry = hb_registry (dp_hub d), mo_read = None, mo_effect = 0\<rparr>
      in d\<lparr>dp_hub := (dp_hub d)\<lparr>hb_registry := mo_registry m\<rparr>, dp_clock := mo_time m,
           dp_reader := Asleep (mo_time m + millis 500)\<rparr>)"
  using assms
  by (simp add: deploy_step_def reader_step_def refresh_round_def apply_read_def Let_def split: sum.split)

section \<open>Its invariant\<close>

text \<open>No session of the tether is routed and its registration, if any, is inactive.\<close>

definition barred :: "bytes \<Rightarrow> 'h registry \<Rightarrow> bool" where
  "barred tid r \<longleftrightarrow> map_of (rg_live r) tid = None \<and>
     (\<forall>t. map_of (rg_by_id r) tid = Some t \<longrightarrow> \<not> t_active t)"

definition deploy_ok :: "'h deployment \<Rightarrow> bool" where
  "deploy_ok d \<longleftrightarrow> world_ok (dp_admin d) \<and> hub_ok (dp_hub d) \<and> tasks_ok (dp_hub d) \<and>
     (case dp_reader d of
        Asleep t \<Rightarrow> dp_clock d \<le> t \<and> t \<le> dp_clock d + millis 500
      | Reading t _ \<Rightarrow> dp_clock d \<le> t \<and> t \<le> dp_clock d + secs 2
      | Stuck \<Rightarrow> \<forall>tid. barred tid (hb_registry (dp_hub d)))"

lemma barred_replace:
  assumes "records_shut tid recs"
  shows "barred tid (replace_records wall recs r)"
proof -
  have inactive: "\<not> t_active t" if "map_of (replacement_of recs) tid = Some t" for t
    using that assms find_SomeD
    by (fastforce simp: map_of_replacement records_shut_def tether_of_record_def)
  then have "\<not> unchanged wall (replacement_of recs) (rg_by_id r) tid"
    by (auto simp: unchanged_def remaining_def split: option.splits)
  with inactive show ?thesis by (auto simp: barred_def replace_records_alt Let_def map_of_live_filter)
qed

lemma barred_clear: "barred tid (clear_records wall r)"
  unfolding clear_records_def by (rule barred_replace) (simp add: records_shut_def)

lemma barred_tables:
  "barred tid r \<Longrightarrow> rg_by_id r' = rg_by_id r \<Longrightarrow> map_of (rg_live r') tid = map_of (rg_live r) tid \<Longrightarrow> barred tid r'"
  by (simp add: barred_def)

lemma barred_attach_session:
  assumes "attach_session sha wall now started c l r = (tk, r')" "barred tid r"
  shows "barred tid r'"
  using assms
  by (auto simp: attach_session_def attach_def Let_def barred_def update_conv' remaining_def
      split: prod.splits option.splits if_splits)

lemma barred_traffic:
  assumes "traffic ev" "barred tid (hb_registry h)"
  shows "barred tid (hb_registry (hub_step P H sha h ev))"
proof (cases ev)
  case (HSession i wall now chunk_res res sev)
  then show ?thesis using assms(2)
    by (auto simp: hub_step_def on_session_def split: task_state.split prod.split
        dest!: confined_step intro: barred_tables simp: confined_def)
next
  case (HAttach wall now started c l)
  then show ?thesis using assms(2)
    by (auto simp: hub_step_def Let_def split: prod.split option.split dest: barred_attach_session)
next
  case (HDetach i)
  then show ?thesis using assms(2)
    by (auto simp: hub_step_def Let_def detach_def barred_def delete_conv' split: task_state.split option.split)
next
  case (HForward wall reserved a req)
  then show ?thesis using assms(2)
    by (auto simp: hub_step_def forward_def start_forward_def Let_def barred_def split: option.split sum.split)
next
  case (HForwardAny wall now tx_closed reserve req)
  then show ?thesis using assms(2)
    by (auto simp: hub_step_def forward_any_def start_forward_def Let_def barred_def split: sum.split prod.split)
next
  case (HAdmit s req)
  then show ?thesis using assms(2)
    by (auto simp: hub_step_def start_forward_def Let_def barred_def split: sum.split)
qed (use assms in \<open>auto simp: hub_step_def Let_def barred_def upload_finish_def guard_drop_def send_or_abort_def
      try_send_def split: option.split task_state.split\<close>)

lemma hub_start_ok: "run_hub sha N E wall found env = Inr hs \<Longrightarrow> registry_ok (hs_registry hs)"
  using hub_starts_authorized by blast

lemma tasks_retired: "tasks_ok h \<Longrightarrow> retires (hb_registry h) r \<Longrightarrow> tasks_ok (h\<lparr>hb_registry := r\<rparr>)"
  by (auto simp: tasks_ok_def retires_def intro: tasks_retires [unfolded retires_def])

lemma apply_read_ok:
  assumes "hub_ok h" "tasks_ok h"
  shows "hub_ok (on_registry (apply_read wall outcome) h) \<and> tasks_ok (on_registry (apply_read wall outcome) h)"
  using assms tasks_retired [OF assms(2) retires_replace]
  by (auto simp: apply_read_def clear_records_def hub_ok_def registry_ok_replace
      split: read_outcome.split sum.split)

lemma clear_ok:
  assumes "hub_ok h" "tasks_ok h"
  shows "hub_ok (on_registry (clear_records wall) h) \<and> tasks_ok (on_registry (clear_records wall) h)"
  using assms tasks_retired [OF assms(2) retires_replace]
  by (auto simp: clear_records_def hub_ok_def registry_ok_replace)

lemma deploy_ok_reader: "deploy_ok d \<Longrightarrow> deploy_ok (reader_step e d)"
  using apply_read_ok [of "dp_hub d"] clear_ok [of "dp_hub d"]
  by (cases e; cases "dp_reader d")
    (auto simp: reader_step_def deploy_ok_def barred_clear split: option.split)

lemma deploy_ok_step:
  assumes "deploy_ok d" "\<forall>x. length (sha x) = 32"
  shows "deploy_ok (deploy_step P H sha d e)"
proof (cases e)
  case (DPass n)
  with assms(1) show ?thesis
    by (auto simp: deploy_step_def deploy_ok_def split: reader.splits)
next
  case (DAdmin E dir cmd args)
  with assms show ?thesis
    using admin_step_ok [of "dp_admin d" sha "(E, dir, cmd, args)"]
    by (auto simp: deploy_step_def deploy_ok_def simp del: admin_step.simps split: reader.splits)
next
  case (DHub ev)
  with assms(1) show ?thesis
    using hub_ok_step [of "dp_hub d" P H sha ev] tasks_ok_step [of "dp_hub d" P H sha ev]
    by (auto simp: deploy_step_def deploy_ok_def barred_traffic split: reader.split)
qed (simp_all add: deploy_step_def deploy_ok_reader [OF assms(1)])

interpretation deploy_machine:
  invariant_machine "deploy_step P H sha" "deploy_start sha"
    "\<lambda>d. (\<forall>x. length (sha x) = 32) \<longrightarrow> deploy_ok d" for P H sha
proof unfold_locales
  fix d :: "'a deployment" and e
  show "(\<forall>x. length (sha x) = 32) \<longrightarrow> deploy_ok d" if "deploy_start sha d"
    using that hub_start_ok
    by (auto simp: deploy_start_def deploy_ok_def hub_ok_def tasks_ok_def dest: admin_machine.inv_reach)
  show "(\<forall>x. length (sha x) = 32) \<longrightarrow> deploy_ok (deploy_step P H sha d e)"
    if "(\<forall>x. length (sha x) = 32) \<longrightarrow> deploy_ok d"
    using that deploy_ok_step by blast
qed

text \<open>Time is never blocked: the timers only ask the task to move on.\<close>

lemma time_passes:
  assumes "deploy_ok d"
  shows "\<exists>es. dp_clock (foldl (deploy_step P H sha) d es) = dp_clock d + n + millis 2500"
proof -
  have stuck: "dp_clock (foldl (deploy_step P H sha) d [DPass m]) = dp_clock d + m" if "dp_reader d = Stuck"
    for m and d :: "'a deployment"
    using that by (simp add: deploy_step_def)
  have reading: "\<exists>es. dp_clock (foldl (deploy_step P H sha) d es) = t + m" if "dp_reader d = Reading t out" "dp_clock d \<le> t"
    for t out m and d :: "'a deployment"
    using that by (intro exI [of _ "[DPass (t - dp_clock d), DTimeout 0, DPass m]"])
      (cases out; simp add: deploy_step_def reader_step_def)
  show ?thesis
  proof (cases "dp_reader d")
    case (Asleep t)
    let ?d = "foldl (deploy_step P H sha) d [DPass (t - dp_clock d), DSpawn]"
    have t: "dp_clock d \<le> t" "t \<le> dp_clock d + millis 500" using assms Asleep by (simp_all add: deploy_ok_def)
    then have "dp_reader ?d = Reading (t + secs 2) None" "dp_clock ?d = t"
      using Asleep by (simp_all add: deploy_step_def reader_step_def)
    moreover from this have "dp_clock ?d \<le> t + secs 2" by simp
    ultimately obtain es where "dp_clock (foldl (deploy_step P H sha) ?d es) = t + secs 2 + (dp_clock d + n + millis 2500 - (t + secs 2))"
      using reading [of ?d] by blast
    moreover have "t + secs 2 \<le> dp_clock d + n + millis 2500" using t(2) by (simp add: secs_def millis_def)
    ultimately have "dp_clock (foldl (deploy_step P H sha) d ([DPass (t - dp_clock d), DSpawn] @ es)) = dp_clock d + n + millis 2500"
      by simp
    then show ?thesis by blast
  next
    case (Reading t out)
    then have t: "dp_clock d \<le> t" "t \<le> dp_clock d + secs 2" using assms by (simp_all add: deploy_ok_def)
    then have "t + (dp_clock d + n + millis 2500 - t) = dp_clock d + n + millis 2500" by (simp add: secs_def millis_def)
    with reading [OF Reading t(1), of "dp_clock d + n + millis 2500 - t"] show ?thesis by metis
  next
    case Stuck
    from stuck [OF this, of "n + millis 2500"] show ?thesis by (intro exI [of _ "[DPass (n + millis 2500)]"]) simp
  qed
qed

end
