(* ===== verification/Expulsion.thy ===== *)
theory Expulsion
  imports Deployment
begin

text \<open>
  How long a revoked tether can still use the hub: an inactive registration stays inactive
  in the store until it is issued again, and the second read that begins after that is the
  latest that can matter. With the timers of the refresh task this takes at most four and
  a half seconds.
\<close>

section \<open>From revocation to expulsion\<close>

definition outcome_shut :: "bytes \<Rightarrow> read_outcome option \<Rightarrow> bool" where
  "outcome_shut tid out \<longleftrightarrow> (\<forall>recs. out = Some (ReadDone (Inr recs)) \<longrightarrow> records_shut tid recs)"

text \<open>
  From the instant \<open>since\<close> on, with the registration inactive in the store: a read that had
  begun may still bring the old state; the one after it cannot. \<open>expelling\<close> bounds the time
  this takes, \<open>expelled\<close> is its end.
\<close>

definition expelling :: "bytes \<Rightarrow> nat \<Rightarrow> 'h deployment \<Rightarrow> bool" where
  "expelling tid since d \<longleftrightarrow>
     (case dp_reader d of
        Asleep t \<Rightarrow> t \<le> since + millis 2500
      | Reading t out \<Rightarrow> t \<le> since + secs 2 \<or> t \<le> since + millis 4500 \<and> outcome_shut tid out
      | Stuck \<Rightarrow> False)"

definition expelled :: "bytes \<Rightarrow> 'h deployment \<Rightarrow> bool" where
  "expelled tid d \<longleftrightarrow> barred tid (hb_registry (dp_hub d)) \<and>
     (\<forall>t out. dp_reader d = Reading t out \<longrightarrow> outcome_shut tid out)"

fun reopens :: "bytes \<Rightarrow> 'h deploy_event \<Rightarrow> bool" where
  "reopens tid (DAdmin _ _ _ args) = reissues tid args"
| "reopens tid _ = False"

definition expulsion :: "bytes \<Rightarrow> nat \<Rightarrow> 'h deployment \<Rightarrow> bool" where
  "expulsion tid since d \<longleftrightarrow> deploy_ok d \<and> rows_shut tid (registrations_of (dp_admin d)) \<and>
     (expelling tid since d \<or> expelled tid d)"

lemma expulsion_start:
  "deploy_ok d \<Longrightarrow> rows_shut tid (registrations_of (dp_admin d)) \<Longrightarrow> expulsion tid (dp_clock d) d"
  by (auto simp: expulsion_def expelling_def expelled_def deploy_ok_def secs_def millis_def split: reader.splits)

lemma barred_apply: "outcome_shut tid (Some out) \<Longrightarrow> barred tid (apply_read wall out r)"
  by (auto simp: apply_read_def outcome_shut_def barred_replace barred_clear split: read_outcome.split sum.split)

lemma read_shut:
  "deploy_ok d \<Longrightarrow> rows_shut tid (registrations_of (dp_admin d)) \<Longrightarrow>
   outcome_shut tid (Some (ReadDone (read_store E dir (aw_database (dp_admin d)))))"
  by (auto simp: outcome_shut_def deploy_ok_def dest: read_store_shut)

lemma expulsion_reader:
  assumes "expulsion tid since d"
  shows "expelling tid since (reader_step e d) \<or> expelled tid (reader_step e d)"
proof -
  have ok: "deploy_ok d" "rows_shut tid (registrations_of (dp_admin d))"
    and ph: "expelling tid since d \<or> expelled tid d" using assms by (simp_all add: expulsion_def)
  have none: "outcome_shut tid None" "outcome_shut tid (Some ReadPanicked)" by (simp_all add: outcome_shut_def)
  have times: "c \<le> s + millis 2500 \<Longrightarrow> c + secs 2 \<le> s + millis 4500"
    "c \<le> s + secs 2 \<Longrightarrow> c + millis 500 \<le> s + millis 2500" for c s
    by (simp_all add: secs_def millis_def)
  show ?thesis
  proof (cases "dp_reader d")
    case (Asleep t)
    with ok ph show ?thesis
      by (cases e) (auto simp: reader_step_def expelling_def expelled_def deploy_ok_def none intro!: times)
  next
    case (Reading t out)
    show ?thesis
    proof (cases e)
      case (DApply wall)
      with Reading ok(1) ph show ?thesis
        by (cases out) (auto simp: reader_step_def expelling_def expelled_def deploy_ok_def barred_apply intro: times)
    qed (use Reading ok ph in \<open>cases out; auto simp: reader_step_def expelling_def expelled_def barred_clear none
          read_shut\<close>)+
  next
    case Stuck
    with ok ph show ?thesis
      by (cases e) (auto simp: reader_step_def expelling_def expelled_def deploy_ok_def)
  qed
qed

lemma expulsion_step:
  assumes "expulsion tid since d" "\<not> reopens tid e" "\<forall>x. length (sha x) = 32"
  shows "expulsion tid since (deploy_step P H sha d e)"
proof -
  have ok: "deploy_ok d" "rows_shut tid (registrations_of (dp_admin d))"
    and ph: "expelling tid since d \<or> expelled tid d" using assms(1) by (simp_all add: expulsion_def)
  note ok' = deploy_ok_step [OF ok(1) assms(3), of P H e]
  have reader: "dp_admin (reader_step e d) = dp_admin d"
    by (cases "dp_reader d"; cases e) (auto simp: reader_step_def split: option.split)
  show ?thesis
  proof (cases e)
    case (DAdmin E dir cmd args)
    with ok ok' ph assms(2) show ?thesis
      using admin_keeps_shut [OF ok(2), of args sha E dir cmd]
      by (simp add: expulsion_def deploy_step_def expelling_def expelled_def del: admin_step.simps split: reader.split)
  next
    case (DHub ev)
    with ok ok' ph show ?thesis
      by (auto simp: expulsion_def deploy_step_def expelling_def expelled_def barred_traffic)
  next
    case (DPass n)
    with ok ok' ph show ?thesis by (auto simp: expulsion_def deploy_step_def expelling_def expelled_def)
  qed (use ok ok' expulsion_reader [OF assms(1), of e] reader in \<open>simp_all add: expulsion_def deploy_step_def\<close>)
qed

lemma expulsion_run:
  "expulsion tid since d \<Longrightarrow> \<forall>e \<in> set es. \<not> reopens tid e \<Longrightarrow> \<forall>x. length (sha x) = 32 \<Longrightarrow>
   expulsion tid since (foldl (deploy_step P H sha) d es)"
  by (induction es arbitrary: d) (simp_all add: expulsion_step)

lemma expulsion_over:
  assumes "expulsion tid since d" "since + millis 4500 < dp_clock d"
  shows "expelled tid d"
proof -
  have "\<not> expelling tid since d"
    using assms by (auto simp: expulsion_def expelling_def deploy_ok_def secs_def millis_def split: reader.splits)
  with assms(1) show ?thesis by (simp add: expulsion_def)
qed

section \<open>The property\<close>

lemma admin_run_Inr:
  assumes "admin_run sha E dir cmd args w = (Inr report, w')"
  obtains d res where "dir = Some d" "run_command sha E d cmd args w = (Inr report, w')"
  using assms
  by (auto simp: admin_run_def nonempty_var_def try_then_Inr_iff map_sum_Inr_iff
      split: option.splits prod.splits if_splits)

lemma revoke_command_shuts:
  assumes "admin_run sha E dir cmd [asc ''revoke'', tid] w = (Inr report, w')"
  shows "rows_shut tid (registrations_of w') \<and> utf8_decode tid \<noteq> None"
proof -
  have ne: "asc ''revoke'' \<noteq> asc ''audit''" by code_simp
  obtain d where "run_command sha E d cmd [asc ''revoke'', tid] w = (Inr report, w')"
    using assms by (rule admin_run_Inr)
  then have "with_store E d w (revoke_command E tid) = (Inr report, w')"
    by (simp add: run_command_def del: asc_simps)
  then obtain st db db' fs' where o: "revoke_command E tid st db (aw_files w) = (Inr report, db', fs')"
    "w' = \<lparr>aw_database = Some db', aw_files = fs'\<rparr>"
    by (auto simp: with_store_def split: sum.splits prod.splits)
  then obtain changed where r: "admin_revoke E tid st db = (Inr changed, db')"
    by (auto simp: revoke_command_def map_sum_Inr_iff split: prod.splits)
  have "validate_id tid = Inr ()" by (rule admin_revoke_InrD [OF r])
  with revoked_rows [OF r] o(2) valid_id_utf8 show ?thesis
    by (simp add: rows_shut_def registrations_of_def)
qed

lemma barred_consequences:
  assumes "registry_ok r" "barred tid r"
  shows "map_of (rg_live r) tid = None"
    "\<And>wall c l. authorize sha wall c r = Some l \<Longrightarrow> l_tether_id l \<noteq> tid"
    "\<And>wall now c. attach sha wall now tid c r = (None, r)"
    "\<And>wall now cl rs s. reserve_route wall now cl rs r \<noteq> Inr (tid, s)"
proof -
  show live: "map_of (rg_live r) tid = None" using assms(2) by (simp add: barred_def)
  show "l_tether_id l \<noteq> tid" if "authorize sha wall c r = Some l" for wall c l
    using authorize_bounded_base [OF assms(1) that] assms(2) by (auto simp: barred_def)
  show "attach sha wall now tid c r = (None, r)" for wall now c
    using assms(2) by (auto simp: attach_def barred_def remaining_def Let_def split: option.split)
  show "reserve_route wall now cl rs r \<noteq> Inr (tid, s)" for wall now cl rs s
    using reserve_route_InrD(1) [of wall now cl rs r tid s] live assms(1)
    by (force simp: eligible_def map_of_eq_None_iff)
qed

text \<open>
  C3: Revoked stays out: from four and a half seconds after the administrator's \<open>revoke\<close>
  reported success on, in every interleaving of commands, refreshes, tethers and callers
  that does not issue that identifier again, the tether is not routed, no credential gets
  it a lease or a session, and every session task it still has serves a closed session
  without streams, so that no caller's request reaches it.
\<close>
theorem revoked_stays_out:
  assumes "reach (deploy_step P H sha) (deploy_start sha) d" "\<forall>x. length (sha x) = 32"
    and "admin_run sha E dir cmd [asc ''revoke'', tid] (dp_admin d) = (Inr report, w)"
    and "\<forall>e \<in> set es. \<not> reopens tid e"
    and "foldl (deploy_step P H sha) d (DAdmin E dir cmd [asc ''revoke'', tid] # es) = d'"
    and "dp_clock d + millis 4500 < dp_clock d'" "hb_registry (dp_hub d') = r"
  shows "map_of (rg_live r) tid = None \<and>
    (\<forall>wall inp c l f. authorize_hello sha wall inp r = Grant c l f \<longrightarrow> l_tether_id l \<noteq> tid) \<and>
    (\<forall>wall now c. attach sha wall now tid c r = (None, r)) \<and>
    (\<forall>wall now tx_closed reserve s. reserve_route wall now tx_closed reserve r \<noteq> Inr (tid, s)) \<and>
    (length (rg_sessions r) < 2 ^ 64 \<longrightarrow>
       (\<forall>tk. Running tk \<in> set (hb_tasks (dp_hub d')) \<and> tk_tether tk = tid \<longrightarrow>
          ls_closed (rg_sessions r ! tk_session tk) \<and> ls_streams (rg_sessions r ! tk_session tk) = []))"
proof -
  let ?args = "[asc ''revoke'', tid]"
  let ?d = "deploy_step P H sha d (DAdmin E dir cmd ?args)"
  have "deploy_ok d" using deploy_machine.inv_reach [OF assms(1)] assms(2) by blast
  then have ok: "deploy_ok ?d" using assms(2) by (rule deploy_ok_step)
  note shut = revoke_command_shuts [OF assms(3)]
  have "utf8_decode (asc ''revoke'') \<noteq> None" by (simp add: utf8_decode_ascii ascii_def)
  with shut assms(3) have "dp_admin ?d = w" "dp_clock ?d = dp_clock d"
    by (simp_all add: deploy_step_def del: asc_simps)
  with shut have "expulsion tid (dp_clock d) ?d" using expulsion_start [OF ok, of tid] by simp
  from expulsion_run [OF this assms(4,2), of P H] assms(5)
  have "expulsion tid (dp_clock d) d'" by simp
  then have ok': "deploy_ok d'" and out: "expelled tid d'"
    using assms(6) by (auto simp: expulsion_def dest: expulsion_over [rotated])
  then have reg: "registry_ok r" and bar: "barred tid r"
    using assms(7) by (auto simp: deploy_ok_def hub_ok_def expelled_def)
  note b = barred_consequences [OF reg bar]
  have closed: "ls_closed (rg_sessions r ! tk_session tk) \<and> ls_streams (rg_sessions r ! tk_session tk) = []"
    if "length (rg_sessions r) < 2 ^ 64" "Running tk \<in> set (hb_tasks (dp_hub d'))" "tk_tether tk = tid" for tk
  proof -
    have "served r tk" using ok' that assms(7) by (force simp: deploy_ok_def tasks_ok_def list_all_iff)
    with b(1) that(3) have "tk_session tk < length (rg_sessions r)" "ls_closed (rg_sessions r ! tk_session tk)"
      by (auto simp: served_def)
    with reg show ?thesis by (simp add: registry_ok_def sessions_ok_def session_ok_def)
  qed
  have "l_tether_id l \<noteq> tid" if "authorize_hello sha wall inp r = Grant c l f" for wall inp c l f
    using that b(2) by (auto simp: authorize_hello_def split: sum.splits option.splits)
  with b closed show ?thesis by blast
qed

section \<open>An example\<close>

lemma whole_turn:
  assumes "dp_reader d = Asleep (dp_clock d + millis 500)"
    and "turn = [DPass (millis 500), DSpawn, DRead E, DPass (secs 2), DApply wall]"
  shows "dp_clock (foldl (deploy_step P H sha) d turn) = dp_clock d + millis 2500"
    "dp_reader (foldl (deploy_step P H sha) d turn) = Asleep (dp_clock d + millis 3000)"
  using turn_is_round [OF assms(1) refl, of "secs 2" P H sha E wall]
  by (simp_all add: assms(2) refresh_round_def Let_def secs_def millis_def split: sum.split)

definition state_env :: env where
  "state_env key = (if key = ''ANVIL_RING_STATE_DIR'' then Value [100] else Unset)"

lemma state_vars:
  "env_var state_env k = (if k = ''ANVIL_RING_STATE_DIR'' then Some [100] else None)"
  "env_var_os state_env k = (if k = ''ANVIL_RING_STATE_DIR'' then Some [100] else None)"
  by (simp_all add: env_var_def env_var_os_def state_env_def)

lemma example_open: "db_version db = 1 \<Longrightarrow>
  store_open (example_env now seed) [100] (Some db) = Inr (example_store, db)"
  by (simp add: store_open_def normalized_directory_def private_metadata_def example_env_def example_metadata_def
      connect_def check_schema_def call_def check_files_def identity_def example_store_def)

lemma example_issues:
  assumes "db_version db = 1" "db_registrations db = []" "db_sequence db < 9223372036854775807"
  shows "fst (issue example_sha (example_env 1000 1) [97] (Some [98]) 60 [111] example_store db (\<lambda>_. None)) = Inr ()"
proof -
  note d = digest_format [of example_sha "concat (map hex2 (replicate 32 1))", OF example_digest]
  have e: "issue_expiry (example_env 1000 1) 60 = Inr 1060"
    by (simp add: issue_expiry_def example_env_def)
  have "registration_checks \<lparr>rr_id = [97], rr_label = [98],
      rr_credential_hash = digest example_sha (concat (map hex2 (replicate 32 1))), rr_active = 1, rr_expires_at = 1060\<rparr>"
    using d hex_sql_length by (simp add: registration_checks_def between_def sql_length_def [of "[_]"] cont_def)
  then have "\<exists>db'. issue_transaction example_sha (example_env 1000 1) [97] (Some [98]) 1060 db =
      Inr (db', concat (map hex2 (replicate 32 1)))"
    by (simp add: issue_transaction_def issue_row_def insert_registration_def check_schema_def call_def
        example_env_def assms append_audit_def audit_checks_def audit_actions_def
        i64_try_from_def MAX_REGISTRATIONS_def Let_def del: replicate_Suc asc_simps)
  then show ?thesis
    by (auto simp: issue_def validate_id_def id_byte_def e example_files
        pending_create_def call_def example_env_ok Let_def)
qed

lemma example_revokes:
  assumes "db_version db = 1" "db_registrations db = [row]" "rr_id row = [97]" "rr_active row = 1"
    "registration_checks row" "db_sequence db < 9223372036854775807"
  shows "fst (admin_revoke (example_env 1000 1) [97] example_store db) = Inr True"
  using assms
  by (auto simp add: admin_revoke_def validate_id_def id_byte_def example_files call_def example_env_ok
          check_schema_def update_registrations_def 
          registration_checks_def append_audit_def audit_checks_def
          audit_actions_def i64_try_from_def example_env_fields Let_def between_def sql_length_def cont_def simp del: replicate_Suc asc_simps)

lemma init_keeps_files:
  "aw_files (admin_step sha w (E, dir, cmd, [asc ''init''])) = aw_files w"
  by (simp add: admin_run_def run_command_def del: asc_simps split: option.split prod.split)

lemma example_world:
  obtains w db random row where "reach (admin_step example_sha) admin_start w" "aw_database w = Some db"
    "db_version db = 1" "db_sequence db = 2" "db_registrations db = [row]"
    "row = \<lparr>rr_id = [97], rr_label = [98], rr_credential_hash = digest example_sha (concat (map hex2 random)),
      rr_active = 1, rr_expires_at = 1060\<rparr>"
proof -
  let ?w0 = "\<lparr>aw_database = None, aw_files = \<lambda>_. None\<rparr>"
  let ?w1 = "admin_step example_sha ?w0 (example_env 1000 1, Some [100], None, [asc ''init''])"
  have files: "aw_files ?w1 = (\<lambda>_. None)" by (simp only: init_keeps_files admin_world.simps)
  let ?w2 = "admin_step example_sha ?w1 (example_env 1000 1, Some [100], Some [111], [asc ''register'', [97], [98], [54, 48]])"
  have r: "reach (admin_step example_sha) admin_start ?w2"
    by (intro reach_step reach_start) (simp add: admin_start_def)
  obtain db1 where db1: "aw_database ?w1 = Some db1" "db_version db1 = 1" "db_registrations db1 = []" "db_sequence db1 = 1"
    unfolding example_init by (simp add: example_database_def no_schema_def)
  let ?i = "issue example_sha (example_env 1000 1) [97] (Some [98]) 60 [111] example_store db1 (\<lambda>_. None)"
  have "db_sequence db1 < 9223372036854775807" using db1(4) by simp
  then obtain db fs where i: "?i = (Inr (), db, fs)"
    using example_issues [OF db1(2,3)] by (metis prod.collapse)
  have p: "parse_u64 ''TTL must be an integer'' [54, 48] = Inr 60"
    using parse_uint_dec [of 60 64] by (simp add: parse_u64_def chars_def dec_digits.simps)
  have a: "list_all (\<lambda>a. utf8_decode a \<noteq> None) [asc ''register'', [97], [98], [54, 48]]"
    by (simp add: utf8_decode_ascii ascii_def)
  have v: "validate_label [98] = Inr ()" by code_simp
  have ne: "asc ''register'' \<noteq> asc ''init''" "asc ''register'' \<noteq> asc ''rotate''" by code_simp+
  obtain w1 where w1: "?w1 = w1" by blast
  have "w1 = \<lparr>aw_database = Some db1, aw_files = \<lambda>_. None\<rparr>"
    using db1(1) files unfolding w1 by (cases w1) simp
  then have w2: "aw_database ?w2 = Some db"
    unfolding w1 using a i
    by (simp add: admin_run_def nonempty_var_def run_command_def with_store_def example_open [OF db1(2)] issue_command_def p
        output_path_def admin_register_def v call_def example_env_ok ne del: asc_simps)
  obtain random and clock :: "64 word" where s: "ae_clock (example_env 1000 1) = Some clock"
      "db_registrations db = issued_rows [97] (Some [98]) (digest example_sha (concat (map hex2 random)))
       (int (unat clock + unat (60 :: 64 word))) (db_registrations db1)"
    by (rule issue_success [OF i])
  have "db_version db = 1" "db_sequence db = 2"
    using issue_delivers_or_undoes_base [where sha = example_sha and E = "example_env 1000 1" and tid = "[97]"
        and label = "Some [98]" and ttl_secs = 60 and out = "[111]" and st = example_store
        and db = db1 and fs = "\<lambda>_. None"] unfolding i prod.case sum.case by (auto simp: db1(4))
  moreover have "clock = 1000" using s(1) by (simp add: example_env_def)
  ultimately show ?thesis using r w2 s(2)
    by (intro that [of ?w2 db _ random, OF r w2 _ _ _ refl]) (simp_all add: issued_rows_def db1(3))
qed

theorem revoked_stays_out_witness:
  "\<exists>(d :: unit deployment) c l d'.
     reach (deploy_step deaf_parser no_headers example_sha) (deploy_start example_sha) d \<and>
     authorize example_sha (secs 1000) c (hb_registry (dp_hub d)) = Some l \<and> l_tether_id l = [97] \<and>
     reach (deploy_step deaf_parser no_headers example_sha) (deploy_start example_sha) d' \<and>
     dp_clock d' = dp_clock d + secs 5 \<and>
     (\<forall>wall now. attach example_sha wall now [97] c (hb_registry (dp_hub d')) = (None, hb_registry (dp_hub d')))"
proof -
  let ?step = "deploy_step deaf_parser no_headers example_sha :: unit deployment \<Rightarrow> _"
  let ?E = "example_env 1000 1"
  obtain w db random row where w: "reach (admin_step example_sha) admin_start w" "aw_database w = Some db"
    "db_version db = 1" "db_sequence db = 2" "db_registrations db = [row]"
    and row: "row = \<lparr>rr_id = [97], rr_label = [98], rr_credential_hash = digest example_sha (concat (map hex2 random)),
      rr_active = 1, rr_expires_at = 1060\<rparr>"
    by (rule example_world)
  let ?c = "concat (map hex2 random)"
  have sha: "\<forall>x. length (example_sha x) = 32" by (simp add: example_digest)
  have "world_ok w" using admin_machine.inv_reach [OF w(1)] sha by blast
  then have rows: "rows_ok (db_registrations db)" using w(2,3) by (auto simp: world_ok_def database_ok_def no_schema_def)
  then have c: "list_all column_range (db_registrations db)" "distinct (map rr_id (db_registrations db))"
    by (simp_all add: rows_ok_def)
  have snap: "snapshot ?E example_store db = Inr [record_of row]"
    using snapshot_exact_base [OF c(1)] w(3,5) example_readable rows by (auto simp: rows_ok_def)
  let ?r = "replace_records 0 [record_of row] (registry_new DEFAULT_LEASE) :: unit registry"
  let ?hs = "\<lparr>hs_listen = (LOCALHOST, 8443), hs_registry = ?r, hs_frontend = None, hs_monitor = Some [100]\<rparr>"
  let ?d = "\<lparr>dp_admin = w, dp_directory = [100], dp_hub = \<lparr>hb_registry = ?r, hb_tasks = [], hb_calls = []\<rparr>,
    dp_reader = Asleep (millis 500), dp_clock = 0\<rparr>"
  have "run_hub example_sha demo_net ?E 0 (aw_database w) state_env = Inr ?hs"
    using snap w(2) example_open [OF w(3)]
    by (simp add: run_hub_def hub_authority_def hub_frontend_def state_vars or_fail_def demo_net_def read_store_def
        del: asc_simps)
  then have start: "deploy_start example_sha ?d" using w(1) unfolding deploy_start_def by fastforce
  then have d: "reach ?step (deploy_start example_sha) ?d" by (rule reach_start)
  have "\<exists>l. authorize example_sha (secs 1000) ?c ?r = Some l \<and> l_tether_id l = ar_id (record_of row)"
    by (rule snapshot_accepts) (simp_all add: record_of_def row secs_def)
  then obtain l where l: "authorize example_sha (secs 1000) ?c ?r = Some l" "l_tether_id l = [97]"
    by (auto simp: record_of_def row)
  obtain report w' where rev: "admin_run example_sha ?E (Some [100]) None [asc ''revoke'', [97]] w = (Inr report, w')"
  proof -
    have "registration_checks row"
      using digest_format [of example_sha ?c, OF example_digest] hex_sql_length
      by (simp add: row registration_checks_def between_def sql_length_def [of "[_]"] cont_def)
    then have "fst (admin_revoke ?E [97] example_store db) = Inr True"
      using w row by (intro example_revokes) simp_all
    then obtain db' where "admin_revoke ?E [97] example_store db = (Inr True, db')" by (metis prod.collapse)
    moreover have "asc ''revoke'' \<noteq> asc ''audit''" by code_simp
    ultimately show ?thesis
      using w(2) example_open [OF w(3)]
      by (intro that) (simp add: admin_run_def nonempty_var_def run_command_def with_store_def revoke_command_def
          call_def example_env_ok del: asc_simps)
  qed
  let ?turn = "[DPass (millis 500), DSpawn, DRead ?E, DPass (secs 2), DApply 0] :: unit deploy_event list"
  let ?revoke = "DAdmin ?E (Some [100]) None [asc ''revoke'', [97]] :: unit deploy_event"
  let ?d1 = "?step ?d ?revoke" and ?d' = "foldl ?step ?d (?revoke # ?turn @ ?turn)"
  have d1: "dp_clock ?d1 = 0" "dp_reader ?d1 = Asleep (dp_clock ?d1 + millis 500)"
    by (simp_all add: deploy_step_def)
  note t1 = whole_turn [OF d1(2) refl, of deaf_parser no_headers example_sha ?E 0]
  have "dp_reader (foldl ?step ?d1 ?turn) = Asleep (dp_clock (foldl ?step ?d1 ?turn) + millis 500)"
    unfolding t1 by (simp add: millis_def)
  note t2 = whole_turn [OF this refl, of deaf_parser no_headers example_sha ?E 0]
  have time: "dp_clock ?d' = dp_clock ?d + secs 5"
    using t2(1) unfolding t1 d1(1) by (simp add: millis_def secs_def)
  have stay: "\<forall>e \<in> set (?turn @ ?turn). \<not> reopens [97] e" by simp
  have out: "attach example_sha wall now [97] ?c (hb_registry (dp_hub ?d')) = (None, hb_registry (dp_hub ?d'))" for wall now
    using revoked_stays_out [OF d sha _ stay refl _ refl, of ?E "Some [100]" None report w'] rev time
    by (simp add: millis_def secs_def)
  have "authorize example_sha (secs 1000) ?c (hb_registry (dp_hub ?d)) = Some l" using l(1) by simp
  then show ?thesis
    by (intro exI [of _ ?d] exI [of _ ?c] exI [of _ l] exI [of _ ?d'] conjI allI d l(2) reach_foldl time out)
qed

end
