(* ===== verification/Request_Path.thy ===== *)
theory Request_Path
  imports Tunnel Routing
begin

text \<open>
  A request on its way: from \<open>start_forward\<close> and the upload task of \<open>hub.rs\<close> through the
  tether's session loop to the body that \<open>forward_engine\<close> of \<open>tunnel.rs\<close> streams to the
  engine, with the traffic of other streams in between.
\<close>

section \<open>What arrives for a stream\<close>

text \<open>The stream a frame of the hub is for.\<close>

fun addressed :: "frame \<Rightarrow> stream_id option" where
  "addressed (Open sid _) = Some sid"
| "addressed (Data sid _) = Some sid"
| "addressed (End sid _) = Some sid"
| "addressed (HalfEnd sid) = Some sid"
| "addressed _ = None"

type_synonym tether_run_event = "nat \<times> send_result \<times> send_result \<times> tether_event"

definition frame_of :: "tether_event \<Rightarrow> frame option" where
  "frame_of ev = (case ev of FromHub (HubFrame m) \<Rightarrow> (case tether_decode m of Inr r \<Rightarrow> r | Inl _ \<Rightarrow> None) | _ \<Rightarrow> None)"

text \<open>What arrives for a stream in a sequence of events, whatever else arrives between.\<close>

definition arrivals :: "stream_id \<Rightarrow> tether_run_event list \<Rightarrow> frame list" where
  "arrivals sid es = filter (\<lambda>f. addressed f = Some sid) (List.map_filter (\<lambda>(_, _, _, ev). frame_of ev) es)"

text \<open>The exchange does not end by itself, and the pump's input queue has room.\<close>

definition undisturbed :: "stream_id \<Rightarrow> tether_run_event \<Rightarrow> bool" where
  "undisturbed sid = (\<lambda>(_, in_res, _, ev). ev \<noteq> PumpDone sid \<and>
     (\<forall>f. frame_of ev = Some f \<and> addressed f = Some sid \<longrightarrow> in_res = Sent))"

fun input_of :: "frame \<Rightarrow> bytes option" where
  "input_of (Data _ bs) = Some bs"
| "input_of (HalfEnd _) = Some []"
| "input_of _ = None"

text \<open>The pump of an open stream, and what it keeps.\<close>

definition serving :: "stream_id \<Rightarrow> pref \<Rightarrow> pump \<Rightarrow> tether_session \<Rightarrow> bool" where
  "serving sid p pm t \<longleftrightarrow> map_of (ts_streams t) sid = Some p \<and> p < length (ts_pumps t) \<and> ts_pumps t ! p = pm"

lemma serving_distinct:
  assumes "tether_ok t" "serving sid p pm t" "map_of (ts_streams t) other = Some q" "other \<noteq> sid"
  shows "q \<noteq> p"
  using assms map_of_SomeD eq_value_imp_eq_key unfolding tether_ok_def serving_def by metis

lemma serving_drop:
  assumes "tether_ok t" "serving sid p pm t" "other \<noteq> sid"
  shows "serving sid p pm (drop_stream other t)"
  using assms serving_distinct [OF assms(1,2) _ assms(3)]
  by (auto simp: serving_def drop_stream_def abort_pump_def upd_pump_nth delete_conv' split: option.split)

lemma serving_open:
  assumes "tether_ok t" "serving sid p pm t" "other \<noteq> sid"
  shows "serving sid p pm (open_stream other head t)"
  using assms serving_distinct [OF assms(1,2) _ assms(3)]
  by (auto simp: serving_def open_stream_def Let_def abort_pump_def upd_pump_nth nth_append update_conv'
      split: option.split)

lemma serving_feed_other:
  assumes "tether_ok t" "serving sid p pm t" "other \<noteq> sid"
  shows "serving sid p pm (snd (feed_stream in_res res other bs t))"
  using assms serving_distinct [OF assms(1,2) _ assms(3)] serving_drop [OF assms]
  by (auto simp: feed_stream_def enqueue_stream_input_def tether_send_def serving_def upd_pump_nth
      split: option.split send_result.split)

lemma serving_feed:
  assumes "serving sid p pm t"
  shows "serving sid p (pm\<lparr>pm_input := pm_input pm @ [bs]\<rparr>) (snd (feed_stream Sent res sid bs t))"
  using assms
  by (auto simp: feed_stream_def enqueue_stream_input_def serving_def upd_pump_nth)

lemma serving_heartbeat [simp]: "serving sid p pm (t\<lparr>ts_heartbeat := hb\<rparr>) = serving sid p pm t"
  "serving sid p pm (t\<lparr>ts_sent := fs\<rparr>) = serving sid p pm t"
  by (simp_all add: serving_def)

lemma serving_send [simp]: "serving sid p pm (snd (tether_send res f t)) = serving sid p pm t"
  by (simp add: tether_send_def)

lemma serving_frame_other:
  assumes "tether_ok t" "serving sid p pm t" "addressed f \<noteq> Some sid"
  shows "serving sid p pm (snd (fst (tether_frame in_res res f t)))"
  using assms
  by (cases f) (auto simp: tether_frame_def serving_feed_other serving_drop serving_open simp del: asc_simps)

lemma serving_frame:
  assumes "serving sid p pm t" "addressed f = Some sid" "input_of f = Some bs"
  shows "serving sid p (pm\<lparr>pm_input := pm_input pm @ [bs]\<rparr>) (snd (fst (tether_frame Sent res f t)))"
  using assms serving_feed [OF assms(1)] by (cases f) (auto simp: tether_frame_def)

lemma tether_step_frame:
  "frame_of ev = Some f \<Longrightarrow>
   \<exists>hb. snd (tether_step now in_res res ev t) = (snd (fst (tether_frame in_res res f t)))\<lparr>ts_heartbeat := hb\<rparr>"
proof -
  assume f: "frame_of ev = Some f"
  have self: "\<exists>hb. t = t\<lparr>ts_heartbeat := hb\<rparr>" for t :: tether_session
    by (rule exI [of _ "ts_heartbeat t"]) simp
  from f show ?thesis using self
    by (auto simp: frame_of_def tether_step_def split: tether_event.splits session_input.splits sum.splits prod.split)
qed

lemma serving_step_other:
  assumes "tether_ok t" "serving sid p pm t" "ev \<noteq> PumpDone sid"
    "\<And>f. frame_of ev = Some f \<Longrightarrow> addressed f \<noteq> Some sid"
  shows "serving sid p pm (snd (tether_step now in_res res ev t))"
proof (cases "frame_of ev")
  case (Some f)
  with serving_frame_other [OF assms(1,2) assms(4) [OF Some], of in_res res] tether_step_frame [OF Some, of now in_res res t]
  show ?thesis by auto
next
  case None
  with assms serving_drop [OF assms(1,2)] show ?thesis
    by (cases ev)
      (auto simp: tether_step_def frame_of_def tether_send_def Let_def simp del: asc_simps
        split: session_input.splits sum.splits option.splits)
qed

lemma serving_run:
  assumes "tether_ok t" "serving sid p pm t" "\<forall>e \<in> set es. undisturbed sid e"
    and "\<forall>f \<in> set (arrivals sid es). input_of f \<noteq> None"
  shows "serving sid p (pm\<lparr>pm_input := pm_input pm @ List.map_filter input_of (arrivals sid es)\<rparr>)
    (foldl tether_run_step t es)"
  using assms
proof (induction es arbitrary: t pm)
  case (Cons e es)
  obtain now in_res res ev where e: "e = (now, in_res, res, ev)" by (cases e)
  let ?t = "tether_run_step t e"
  have ok: "tether_ok ?t" using tether_ok_step [OF Cons.prems(1)] by (simp add: e tether_run_step_def)
  show ?case
  proof (cases "\<exists>f. frame_of ev = Some f \<and> addressed f = Some sid")
    case True
    then obtain f where f: "frame_of ev = Some f" "addressed f = Some sid" by blast
    then have ar: "arrivals sid (e # es) = f # arrivals sid es" by (simp add: arrivals_def e map_filter_simps)
    with Cons.prems(4) obtain bs where bs: "input_of f = Some bs" by auto
    have "in_res = Sent" using Cons.prems(3) f by (auto simp: undisturbed_def e)
    then have "serving sid p (pm\<lparr>pm_input := pm_input pm @ [bs]\<rparr>) ?t"
      using serving_frame [OF Cons.prems(2) f(2) bs, of res] tether_step_frame [OF f(1), of now Sent res t]
      by (auto simp: e tether_run_step_def)
    from Cons.IH [OF ok this] Cons.prems(3,4) show ?thesis by (simp add: ar bs map_filter_simps)
  next
    case False
    then have ar: "arrivals sid (e # es) = arrivals sid es"
      by (auto simp: arrivals_def e map_filter_simps split: option.split)
    have "ev \<noteq> PumpDone sid" using Cons.prems(3) by (auto simp: undisturbed_def e)
    with False have "serving sid p pm ?t"
      using serving_step_other [OF Cons.prems(1,2)] by (auto simp: e tether_run_step_def)
    from Cons.IH [OF ok this] Cons.prems(3,4) show ?thesis by (simp add: ar)
  qed
qed (simp add: arrivals_def map_filter_simps)

section \<open>The upload as the engine sees it\<close>

lemma upload_frames:
  "fst (upload_loop sid evs n) =
     take n (map (Data sid) (chunks_of evs) @ (if BodyError \<in> set evs then [] else [HalfEnd sid]))"
  by (simp add: upload_exact_base)

lemma upload_inputs: "f \<in> set (take k (fst (upload_loop sid evs n))) \<Longrightarrow> input_of f \<noteq> None"
  by (auto simp: upload_frames dest!: in_set_takeD split: if_splits)

lemma map_filter_total:
  "\<forall>x \<in> set xs. g x \<noteq> None \<Longrightarrow> List.map_filter g xs = map (\<lambda>x. the (g x)) xs"
  by (induction xs) (auto simp: map_filter_simps)

lemma input_upload:
  "List.map_filter input_of (take k (fst (upload_loop sid evs n))) =
     take (min k n) (chunks_of evs @ (if BodyError \<in> set evs then [] else [[]]))"
proof -
  have "List.map_filter input_of (take k (fst (upload_loop sid evs n))) =
      map (\<lambda>x. the (input_of x)) (take k (fst (upload_loop sid evs n)))"
    using upload_inputs by (intro map_filter_total) blast
  also have "\<dots> = take (min k n) (map (\<lambda>x. the (input_of x))
      (map (Data sid) (chunks_of evs) @ (if BodyError \<in> set evs then [] else [HalfEnd sid])))"
    by (simp only: upload_frames take_take take_map [symmetric])
  also have "map (\<lambda>x. the (input_of x)) (map (Data sid) (chunks_of evs) @ (if BodyError \<in> set evs then [] else [HalfEnd sid])) =
      chunks_of evs @ (if BodyError \<in> set evs then [] else [[]])" by (simp add: o_def)
  finally show ?thesis .
qed

lemma engine_upload:
  "engine_body (take m (chunks_of evs @ (if BodyError \<in> set evs then [] else [[]]))) =
     (take m (chunks_of evs),
      if BodyError \<notin> set evs \<and> length (chunks_of evs) < m then BodyComplete else BodyBroken)"
proof (cases "BodyError \<notin> set evs \<and> length (chunks_of evs) < m")
  case True
  then show ?thesis using engine_body_append [OF chunks_of_nonempty, of evs "[]"] by (auto simp: take_Cons')
next
  case False
  have "[] \<notin> set (take m (chunks_of evs))" using chunks_of_nonempty in_set_takeD by metis
  note engine_body_broken [OF this]
  moreover have "take m (chunks_of evs @ (if BodyError \<in> set evs then [] else [[]])) = take m (chunks_of evs)"
    using False by (cases "BodyError \<in> set evs") (simp_all add: not_less)
  ultimately show ?thesis using False by (simp only: if_False)
qed

lemma serving_opened:
  "serving sid (length (ts_pumps t)) \<lparr>pm_stream = sid, pm_head = head, pm_input = [], pm_aborted = False\<rparr>
     (open_stream sid head t)"
  by (auto simp: serving_def open_stream_def Let_def abort_pump_def nth_append update_conv' upd_pump_def
      split: option.split)

lemma opened_last:
  assumes "s < length (rg_sessions r)" "start_forward H s req r = (Inr fw, r')"
  shows "last (ls_sent (rg_sessions r' ! s)) = Open (fw_id fw) (open_head H req)"
  using assms
  by (cases rule: start_forward_cases [OF assms(1), of H req])
    (auto simp: upd_session_nth opened_session_def push_sent_def)

section \<open>Properties\<close>

text \<open>
  C10: A request travels intact, when its OPEN fits a frame and the tether has a slot for
  another stream when it arrives: the OPEN frame a hub sends for an admitted request starts an
  exchange with exactly its head at the tether, and, while the exchange goes on and its
  input queue takes the frames (\<open>undisturbed\<close>), from the frames of the upload task, of
  which any number may get through and among which any frames and events of other streams
  may fall, the engine's request body is a prefix of the caller's nonempty data in order;
  it ends properly exactly when the caller's body ended without an error and all of it and
  its HALF_END arrived, and then it is all of it. A cut-off upload is never taken for a
  complete request.
\<close>
theorem request_reaches_engine:
  assumes "s < length (rg_sessions r)" "start_forward H s req r = (Inr fw, r')"
    and "last (ls_sent (rg_sessions r' ! s)) = f" "fits f"
    and "upload_loop (fw_id fw) evs n = (sent, result)"
    and "reach tether_run_step tether_start t" "length (ts_streams t) < MAX_CONCURRENT_STREAMS"
    and "arrivals (fw_id fw) es = take k sent" "\<forall>e \<in> set es. undisturbed (fw_id fw) e"
    and "foldl tether_run_step t ((now, in_res, res, FromHub (HubFrame (ws_msg f))) # es) = t'"
  shows "\<exists>p < length (ts_pumps t'). map_of (ts_streams t') (fw_id fw) = Some p \<and>
    \<not> pm_aborted (ts_pumps t' ! p) \<and> pm_head (ts_pumps t' ! p) = open_head H req \<and>
    (\<exists>body ending. engine_body (pm_input (ts_pumps t' ! p)) = (body, ending) \<and>
       body = take (min k n) (chunks_of evs) \<and>
       (ending = BodyComplete \<longleftrightarrow> BodyError \<notin> set evs \<and> length (chunks_of evs) < min k n) \<and>
       (ending = BodyComplete \<longrightarrow> body = chunks_of evs \<and> result = Inr ()))"
proof -
  let ?sid = "fw_id fw" and ?p = "length (ts_pumps t)"
  let ?pm = "\<lparr>pm_stream = ?sid, pm_head = open_head H req, pm_input = [], pm_aborted = False\<rparr>"
  have f: "f = Open ?sid (open_head H req)" using opened_last [OF assms(1,2)] assms(3) by simp
  let ?t = "tether_run_step t (now, in_res, res, FromHub (HubFrame (ws_msg f)))"
  have reach: "reach tether_run_step tether_start ?t" using assms(6) by (rule reach_step)
  have ok: "tether_ok ?t" by (rule tether_machine.inv_reach [OF reach])
  have fr: "frame_of (FromHub (HubFrame (ws_msg f))) = Some f"
    using assms(4) by (simp add: frame_of_def ws_msg_def)
  have "serving ?sid ?p ?pm (snd (fst (tether_frame in_res res f t)))"
    using assms(7) serving_opened [of ?sid t] by (simp add: f tether_frame_def)
  then have serving: "serving ?sid ?p ?pm ?t"
    using tether_step_frame [OF fr, of now in_res res t] by (auto simp: tether_run_step_def)
  have sent: "sent = fst (upload_loop ?sid evs n)" "result = snd (upload_loop ?sid evs n)"
    using assms(5) by simp_all
  have "\<forall>f \<in> set (arrivals ?sid es). input_of f \<noteq> None"
    unfolding assms(8) sent using upload_inputs by blast
  from serving_run [OF ok serving assms(9) this] assms(10)
  have "serving ?sid ?p (?pm\<lparr>pm_input := take (min k n) (chunks_of evs @ (if BodyError \<in> set evs then [] else [[]]))\<rparr>) t'"
    unfolding assms(8) sent by (simp add: input_upload)
  then show ?thesis
    unfolding serving_def using sent(2) engine_upload
    by (intro exI [of _ ?p]) (auto simp: upload_exact_base)
qed

theorem request_reaches_engine_witness:
  "\<exists>t'. reach tether_run_step tether_start t' \<and>
     (\<exists>p < length (ts_pumps t'). pm_head (ts_pumps t' ! p) = open_head no_headers example_request \<and>
        engine_body (pm_input (ts_pumps t' ! p)) = ([[5], [6]], BodyComplete))"
proof -
  obtain res0 where o: "start_forward no_headers 0 example_request example_registry = (res0, example_open)"
    by (metis example_open_def prod.collapse)
  have "res0 = Inr \<lparr>fw_id = 1, fw_stream = 0, fw_session = 0\<rparr>"
    using arg_cong [OF o, of fst]
    by (simp add: start_forward_def admit_def example_registry_eq session_new_def
      upd_session_def Let_def MAX_CONCURRENT_STREAMS_def)
  note o = o [unfolded this]
  let ?start = "\<lparr>ts_streams = [], ts_pumps = [], ts_sent = [], ts_heartbeat = heartbeat_new 0\<rparr>"
  let ?m = "\<lambda>f. (0, Sent, Sent, FromHub (HubFrame (ws_msg f))) :: tether_run_event"
  let ?es = "[?m (Data 1 [5]), (0, Full, Sent, PingTick), ?m (Data 2 [9]), (1, Full, Sent, PumpDone 2), ?m (Data 1 [6]), ?m (HalfEnd 1)]"
  have t0: "reach tether_run_step tether_start ?start" by (rule reach_start) (auto simp: tether_start_def)
  have u: "upload_loop 1 [BodyData [5], BodyData [], BodyData [6]] 9 = ([Data 1 [5], Data 1 [6], HalfEnd 1], Inr ())"
    by simp
  let ?f = "Open 1 (open_head no_headers example_request)"
  have last: "last (ls_sent (rg_sessions example_open ! 0)) = ?f" by (simp add: example_open_eq)
  have fits: "fits ?f" "fits (Data 1 [5])" "fits (Data 2 [9])" "fits (Data 1 [6])" "fits (HalfEnd 1)"
    by (simp_all add: fits_def payload_len_def open_head_def encode_request_head_def no_headers_def head_bytes_def
        example_request_def)
  have fr: "frame_of (FromHub (HubFrame (ws_msg f))) = Some f" if "fits f" for f
    using that by (simp add: frame_of_def ws_msg_def)
  have quiet: "frame_of PingTick = None" "frame_of (PumpDone i) = None" for i by (simp_all add: frame_of_def)
  have arr: "arrivals 1 ?es = take 3 [Data 1 [5], Data 1 [6], HalfEnd 1]"
    by (simp add: arrivals_def map_filter_simps fr fits quiet)
  have und: "\<forall>e \<in> set ?es. undisturbed 1 e"
    by (simp add: undisturbed_def fr fits quiet)
  let ?run = "foldl tether_run_step ?start (?m ?f # ?es)"
  obtain t' where t': "?run = t'" by blast
  have "reach tether_run_step tether_start ?run" using t0 by (rule reach_foldl)
  moreover have "0 < length (rg_sessions example_registry)" "length (ts_streams ?start) < MAX_CONCURRENT_STREAMS"
    by (simp_all add: example_registry_eq MAX_CONCURRENT_STREAMS_def)
  moreover have "chunks_of [BodyData [5], BodyData [], BodyData [6]] = [[5], [6]]"
    by (simp add: chunks_of_def map_filter_simps)
  ultimately show ?thesis
    using request_reaches_engine [OF _ o last fits(1), unfolded forwarded.simps, OF _ u t0 _ arr und t']
    unfolding t' by auto
qed

end
