(* ===== verification/Client.thy ===== *)
theory Client
  imports Tunnel
begin

text \<open>
  The reconnect loop of a tether (\<open>run_client\<close>, \<open>dial\<close> and \<open>serve_over\<close> of \<open>tunnel.rs\<close>) as
  a machine around the session of \<open>Tunnel\<close>, with the state \<open>TunnelState\<close> that other parts of
  the process read.
\<close>

section \<open>The loop\<close>

record client_config =
  cc_hub_url :: bytes
  cc_credential :: bytes

text \<open>
  Where the loop of \<open>run_client\<close> is: dialling, about to send HELLO, waiting for WELCOME,
  in a session, or in the pause before the next attempt.
\<close>

datatype client_phase =
    Dialling
  | Connected
  | Awaiting
  | Serving tether_session
  | Sleeping nat

text \<open>\<open>cl_hellos\<close> are the credentials handed to a socket so far.\<close>

record client =
  cl_phase :: client_phase
  cl_tunnel :: tunnel_state
  cl_backoff :: nat
  cl_hellos :: "bytes list"

datatype client_event =
    CDial "string + unit"
  | CHello send_result
  | CInput nat hub_input
  | CSession nat send_result send_result tether_event
  | CWake

definition tunnel_default :: tunnel_state where
  "tunnel_default = \<lparr>tn_up = False, tn_generations = 0, tn_lease_secs = 0\<rparr>"

definition client_start :: "client \<Rightarrow> bool" where
  "client_start c \<longleftrightarrow> c = \<lparr>cl_phase = Dialling, cl_tunnel = tunnel_default, cl_backoff = BACKOFF_MIN, cl_hellos = []\<rparr>"

definition session_begin :: "nat \<Rightarrow> tether_session" where
  "session_begin now = \<lparr>ts_streams = [], ts_pumps = [], ts_sent = [], ts_heartbeat = heartbeat_new now\<rparr>"

definition client_retry :: "client \<Rightarrow> client" where
  "client_retry c =
     (case client_round (cl_backoff c, cl_tunnel c) of
        (pause, backoff, st) \<Rightarrow> c\<lparr>cl_phase := Sleeping pause, cl_backoff := backoff, cl_tunnel := st\<rparr>)"

text \<open>
  One event of the loop. A refused URL is one more failed attempt: the code logs it and
  dials again. A session that ends, in whatever way, is dropped with its streams.
\<close>

definition client_step :: "net_api \<Rightarrow> client_config \<Rightarrow> client \<Rightarrow> client_event \<Rightarrow> client" where
  "client_step N cfg c e =
     (case (cl_phase c, e) of
        (Dialling, CDial outcome) \<Rightarrow>
          (case try_then (dial_check N (cc_hub_url cfg)) (\<lambda>_. outcome) of
             Inl _ \<Rightarrow> client_retry c
           | Inr _ \<Rightarrow> c\<lparr>cl_phase := Connected\<rparr>)
      | (Connected, CHello res) \<Rightarrow>
          if res = Sent then c\<lparr>cl_phase := Awaiting, cl_hellos := cl_hellos c @ [cc_credential cfg]\<rparr>
          else client_retry c
      | (Awaiting, CInput now inp) \<Rightarrow>
          (case await_welcome [inp] of
             None \<Rightarrow> c
           | Some (Inl _) \<Rightarrow> client_retry c
           | Some (Inr lease) \<Rightarrow>
               c\<lparr>cl_phase := Serving (session_begin now), cl_tunnel := welcomed lease (cl_tunnel c)\<rparr>)
      | (Serving t, CSession now in_res res ev) \<Rightarrow>
          (case tether_step now in_res res ev t of
             (TContinue, t') \<Rightarrow> c\<lparr>cl_phase := Serving t'\<rparr>
           | _ \<Rightarrow> client_retry c)
      | (Sleeping _, CWake) \<Rightarrow> c\<lparr>cl_phase := Dialling\<rparr>
      | _ \<Rightarrow> c)"

section \<open>The invariant\<close>

text \<open>Waiting for WELCOME input by input is \<open>await_welcome\<close>.\<close>

lemma await_welcome_step:
  "await_welcome (inp # inputs) =
     (case await_welcome [inp] of None \<Rightarrow> await_welcome inputs | Some r \<Rightarrow> Some r)"
  by (cases inp) (auto split: sum.split option.split frame.split)

definition client_ok :: "net_api \<Rightarrow> client_config \<Rightarrow> client \<Rightarrow> bool" where
  "client_ok N cfg c \<longleftrightarrow>
     (tn_up (cl_tunnel c) \<longleftrightarrow> (\<exists>t. cl_phase c = Serving t)) \<and>
     BACKOFF_MIN \<le> cl_backoff c \<and> cl_backoff c \<le> BACKOFF_MAX \<and>
     (\<forall>pause. cl_phase c = Sleeping pause \<longrightarrow> BACKOFF_MIN \<le> pause \<and> pause \<le> BACKOFF_MAX) \<and>
     (\<forall>t. cl_phase c = Serving t \<longrightarrow> reach tether_run_step tether_start t) \<and>
     (dial_check N (cc_hub_url cfg) \<noteq> Inr () \<longrightarrow>
        cl_hellos c = [] \<and> (cl_phase c = Dialling \<or> (\<exists>pause. cl_phase c = Sleeping pause))) \<and>
     set (cl_hellos c) \<subseteq> {cc_credential cfg}"

lemma backoff_range: "BACKOFF_MIN \<le> b \<Longrightarrow> BACKOFF_MIN \<le> min (b * 2) BACKOFF_MAX" "BACKOFF_MIN \<le> BACKOFF_MAX"
  by (auto simp: BACKOFF_MIN_def BACKOFF_MAX_def secs_def millis_def)

lemma client_ok_retry: "client_ok N cfg c \<Longrightarrow> client_ok N cfg (client_retry c)"
  by (auto simp: client_ok_def client_retry_def client_round_def backoff_range)

lemma client_ok_start: "client_start c \<Longrightarrow> client_ok N cfg c"
  by (auto simp: client_start_def client_ok_def tunnel_default_def backoff_range)

lemma client_ok_step:
  assumes "client_ok N cfg c"
  shows "client_ok N cfg (client_step N cfg c e)"
proof -
  note retry = client_ok_retry [OF assms]
  show ?thesis
  proof (cases "cl_phase c")
    case Dialling
    have "dial_check N (cc_hub_url cfg) = Inr ()"
      if "try_then (dial_check N (cc_hub_url cfg)) (\<lambda>_. outcome) = Inr u" for outcome u
      using that by (auto simp: try_then_Inr_iff)
    with Dialling assms retry show ?thesis
      by (cases e) (auto simp: client_step_def client_ok_def split: sum.split)
  next
    case Connected
    with assms retry show ?thesis
      by (cases e) (auto simp: client_step_def client_ok_def)
  next
    case Awaiting
    have "reach tether_run_step tether_start (session_begin now)" for now
      by (rule reach_start) (auto simp: tether_start_def session_begin_def)
    with Awaiting assms retry show ?thesis
      by (cases e) (auto simp: client_step_def client_ok_def welcomed_def split: option.split sum.split)
  next
    case (Serving t)
    have "reach tether_run_step tether_start t'"
      if "tether_step now in_res res ev t = (r, t')" for now in_res res ev r t'
    proof -
      have "reach tether_run_step tether_start t" using assms Serving by (simp add: client_ok_def)
      from reach_step [OF this, of "(now, in_res, res, ev)"] that show ?thesis by (simp add: tether_run_step_def)
    qed
    with Serving assms retry show ?thesis
      by (cases e) (auto simp: client_step_def client_ok_def split: prod.split tether_result.split)
  next
    case (Sleeping pause)
    with assms retry show ?thesis
      by (cases e) (auto simp: client_step_def client_ok_def)
  qed
qed

interpretation client_machine: invariant_machine "client_step N cfg" client_start "client_ok N cfg"
  by unfold_locales (auto simp: client_ok_start client_ok_step)

text \<open>The pauses between attempts.\<close>

lemma backoff_after:
  "b \<le> BACKOFF_MAX \<Longrightarrow> ((\<lambda>b. min (b * 2) BACKOFF_MAX) ^^ k) b = min (b * 2 ^ k) BACKOFF_MAX"
  by (induction k) (auto simp: min_def)

lemma failed_dials:
  assumes "cl_phase c = Dialling"
  shows "foldl (client_step N cfg) c (concat (replicate k [CDial (Inl e), CWake])) =
    (if k = 0 then c
     else c\<lparr>cl_tunnel := (cl_tunnel c)\<lparr>tn_up := False\<rparr>,
            cl_backoff := ((\<lambda>b. min (b * 2) BACKOFF_MAX) ^^ k) (cl_backoff c)\<rparr>)"
  using assms
proof (induction k arbitrary: c)
  case (Suc k)
  let ?c = "foldl (client_step N cfg) c [CDial (Inl e), CWake]"
  have c: "?c = c\<lparr>cl_tunnel := (cl_tunnel c)\<lparr>tn_up := False\<rparr>, cl_backoff := min (cl_backoff c * 2) BACKOFF_MAX\<rparr>"
    using Suc.prems by (cases c) (simp add: client_step_def client_retry_def client_round_def try_then_def split: sum.split)
  have ph: "cl_phase ?c = Dialling" unfolding c using Suc.prems by simp
  have "foldl (client_step N cfg) c (concat (replicate (Suc k) [CDial (Inl e), CWake])) =
      foldl (client_step N cfg) ?c (concat (replicate k [CDial (Inl e), CWake]))" by simp
  also note Suc.IH [OF ph]
  finally show ?case unfolding c
    using funpow_swap1 [of "\<lambda>b. min (b * 2) BACKOFF_MAX" k "cl_backoff c"] by simp
qed simp

section \<open>Properties\<close>

text \<open>
  C30: The tether reports itself usable exactly while a session is authorized: in every
  reachable state of the reconnect loop, \<open>is_up\<close> holds between WELCOME and the end of that
  session and at no other time, and the session is one the session loop can reach from an
  empty table. A hub URL the checks refuse never gets a connection, let alone the
  credential; every pause is between half a second and thirty seconds, and consecutive
  failures double it up to that bound.
\<close>
theorem client_up_exact:
  assumes "reach (client_step N cfg) client_start c"
  shows "(tn_up (cl_tunnel c) \<longleftrightarrow> (\<exists>t. cl_phase c = Serving t)) \<and>
    (\<forall>t. cl_phase c = Serving t \<longrightarrow> reach tether_run_step tether_start t) \<and>
    (dial_check N (cc_hub_url cfg) \<noteq> Inr () \<longrightarrow>
       cl_hellos c = [] \<and> (cl_phase c = Dialling \<or> (\<exists>pause. cl_phase c = Sleeping pause))) \<and>
    (\<forall>pause. cl_phase c = Sleeping pause \<longrightarrow> millis 500 \<le> pause \<and> pause \<le> secs 30) \<and>
    (\<forall>k e. cl_phase c = Dialling \<longrightarrow>
       cl_backoff (foldl (client_step N cfg) c (concat (replicate k [CDial (Inl e), CWake]))) =
         min (cl_backoff c * 2 ^ k) (secs 30))"
proof -
  have ok: "client_ok N cfg c" by (rule client_machine.inv_reach [OF assms])
  have "cl_backoff (foldl (client_step N cfg) c (concat (replicate k [CDial (Inl e), CWake]))) =
      min (cl_backoff c * 2 ^ k) (secs 30)" if "cl_phase c = Dialling" for k e
    using failed_dials [OF that, of N cfg k e] backoff_after [of "cl_backoff c" k] ok
    by (simp add: client_ok_def BACKOFF_MAX_def)
  with ok show ?thesis by (simp add: client_ok_def BACKOFF_MIN_def BACKOFF_MAX_def)
qed

definition tls_net :: net_api where
  "tls_net = example_net\<lparr>n_parse_uri := \<lambda>_. Some \<lparr>u_scheme = Some (asc ''wss''), u_authority = Some (asc ''h''),
      u_host = Some (asc ''h''), u_path = [], u_query = None, u_text = asc ''h''\<rparr>\<rparr>"

theorem client_up_exact_witness:
  "\<exists>c t. reach (client_step tls_net \<lparr>cc_hub_url = [104], cc_credential = [1]\<rparr>) client_start c \<and>
     cl_phase c = Serving t \<and> tn_up (cl_tunnel c) \<and> cl_backoff c = secs 1 \<and> reach tether_run_step tether_start t"
proof -
  let ?cfg = "\<lparr>cc_hub_url = [104], cc_credential = [1]\<rparr>"
  let ?start = "\<lparr>cl_phase = Dialling, cl_tunnel = tunnel_default, cl_backoff = BACKOFF_MIN, cl_hellos = []\<rparr>"
  let ?es = "[CDial (Inl ''refused''), CWake, CDial (Inr ()), CHello Sent, CInput 3 (HubMessage (ws_msg (Welcome 60)))]"
  let ?c = "foldl (client_step tls_net ?cfg) ?start ?es"
  have dial: "dial_check tls_net [104] = Inr ()"
    by (simp add: dial_check_def tls_net_def example_net_def)
  have "fits (Welcome 60)"
    using length_to_dec_u64 [of 60] by (simp add: fits_def payload_len_def)
  then have "await_welcome [HubMessage (ws_msg (Welcome 60))] = Some (Inr 60)"
    by (simp add: ws_msg_def)
  then have c: "cl_phase ?c = Serving (session_begin 3)" "cl_backoff ?c = secs 1"
    by (simp_all add: client_step_def dial client_retry_def client_round_def BACKOFF_MIN_def BACKOFF_MAX_def secs_def millis_def
        del: await_welcome.simps)
  have r: "reach (client_step tls_net ?cfg) client_start ?c"
    by (intro reach_foldl reach_start) (simp add: client_start_def)
  from client_up_exact [OF r] c r show ?thesis by blast
qed

end
