(* ===== verification/Session_Clock.thy ===== *)
theory Session_Clock
  imports Client "HOL-Library.While_Combinator"
begin

text \<open>
  The session loop of the tether in time: \<open>run_session\<close> with its three timers, which fire
  when they are due. The events of the session stay those of \<open>Tunnel\<close>; a clock passes
  between them. Nothing in the loop re-arms the lease timer, and only a frame of the hub
  re-arms the liveness timer, so a session ends whatever the hub does or leaves undone.
\<close>

section \<open>The loop with a clock\<close>

text \<open>
  \<open>tc_lease\<close> is the instant of the lease timer. Two fields are for the statements only: the
  instant of the WELCOME and that of the last frame the hub sent.
\<close>

record timed_session =
  tc_clock :: nat
  tc_lease :: nat
  tc_session :: tether_session
  tc_ended :: "tether_result option"
  tc_welcomed :: nat
  tc_heard :: nat

datatype timed_event = Pass nat | Occur send_result send_result tether_event

definition timed_begin :: "nat \<Rightarrow> 64 word \<Rightarrow> timed_session" where
  "timed_begin now lease =
     \<lparr>tc_clock = now, tc_lease = now + lease_delay lease, tc_session = session_begin now,
      tc_ended = None, tc_welcomed = now, tc_heard = now\<rparr>"

definition timers :: "timed_session \<Rightarrow> nat list" where
  "timers s = [tc_lease s, hb_ping_tick (ts_heartbeat (tc_session s)), hb_dead (ts_heartbeat (tc_session s))]"

fun due :: "timed_session \<Rightarrow> tether_event \<Rightarrow> bool" where
  "due s LeaseTick = (tc_lease s \<le> tc_clock s)"
| "due s PingTick = (hb_ping_tick (ts_heartbeat (tc_session s)) \<le> tc_clock s)"
| "due s DeadTick = (hb_dead (ts_heartbeat (tc_session s)) \<le> tc_clock s)"
| "due s _ = True"

fun hub_frame :: "tether_event \<Rightarrow> bool" where
  "hub_frame (FromHub (HubFrame m)) = (case tether_decode m of Inr (Some f) \<Rightarrow> True | _ \<Rightarrow> False)"
| "hub_frame _ = False"

definition timed_step :: "timed_session \<Rightarrow> timed_event \<Rightarrow> timed_session" where
  "timed_step s e =
     (if tc_ended s \<noteq> None then s
      else case e of
        Pass n \<Rightarrow>
          if list_all (\<lambda>t. tc_clock s + n \<le> t) (timers s) then s\<lparr>tc_clock := tc_clock s + n\<rparr> else s
      | Occur in_res res ev \<Rightarrow>
          if \<not> due s ev then s
          else (case tether_step (tc_clock s) in_res res ev (tc_session s) of
                  (r, t) \<Rightarrow>
                    s\<lparr>tc_session := t, tc_ended := (if r = TContinue then None else Some r),
                      tc_heard := (if hub_frame ev then tc_clock s else tc_heard s)\<rparr>))"

text \<open>One turn of the loop when nothing arrives: the next timer fires, and a ping can be sent.\<close>

definition silent_turn :: "timed_session \<Rightarrow> timed_session" where
  "silent_turn s =
     (let hb = ts_heartbeat (tc_session s);
          t = min (tc_lease s) (min (hb_ping_tick hb) (hb_dead hb));
          ev = (if t = tc_lease s then LeaseTick else if t = hb_dead hb then DeadTick else PingTick)
      in timed_step (timed_step s (Pass (t - tc_clock s))) (Occur Sent Sent ev))"

definition run_silent :: "timed_session \<Rightarrow> timed_session option" where
  "run_silent = while_option (\<lambda>s. tc_ended s = None) silent_turn"

section \<open>Its invariant\<close>

definition timed_ok :: "nat \<Rightarrow> 64 word \<Rightarrow> timed_session \<Rightarrow> bool" where
  "timed_ok now lease s \<longleftrightarrow>
     reach tether_run_step tether_start (tc_session s) \<and>
     tc_welcomed s = now \<and> tc_lease s = now + lease_delay lease \<and> tc_heard s \<le> tc_clock s \<and>
     tc_clock s \<le> tc_lease s \<and> tc_clock s \<le> tc_heard s + PING_TIMEOUT \<and>
     (tc_ended s = None \<longrightarrow>
        (let hb = ts_heartbeat (tc_session s) in
         tc_clock s \<le> hb_dead hb \<and> hb_dead hb \<le> tc_heard s + PING_TIMEOUT \<and>
         tc_clock s \<le> hb_ping_tick hb \<and> hb_ping_tick hb \<le> tc_clock s + PING_INTERVAL))"

lemma timed_ok_begin: "timed_ok now lease (timed_begin now lease)"
  by (auto simp: timed_ok_def timed_begin_def session_begin_def heartbeat_new_def Let_def tether_start_def
      intro!: reach_start)

lemma heartbeat_after_feed [simp]: "ts_heartbeat (snd (feed_stream in_res res sid bs t)) = ts_heartbeat t"
  by (auto simp: feed_stream_def enqueue_stream_input_def tether_send_def drop_stream_def abort_pump_def upd_pump_def
      split: option.split send_result.split)

lemma heartbeat_after_drop [simp]: "ts_heartbeat (drop_stream sid t) = ts_heartbeat t"
  by (simp add: drop_stream_def abort_pump_def upd_pump_def split: option.split)

text \<open>What an event does to the timers: only a frame of the hub moves the liveness timer.\<close>

lemma heartbeat_after_frame:
  assumes "tether_frame in_res res f t = ((r, t'), reset)"
  shows "hb_dead (ts_heartbeat t') = hb_dead (ts_heartbeat t) \<and>
    hb_ping_tick (ts_heartbeat t') = hb_ping_tick (ts_heartbeat t) \<and>
    (tether_ok t \<longrightarrow> hb_pong_deadline (ts_heartbeat t') = None \<and> hb_overdue (ts_heartbeat t') = 0)"
proof -
  have feed: "ts_heartbeat q = ts_heartbeat t" if "feed_stream in_res res sid bs t = (x, q)" for sid bs x q
    using heartbeat_after_feed [of in_res res sid bs t] that by simp
  have open_hb: "ts_heartbeat (open_stream sid h t) = ts_heartbeat t" for sid h
    by (simp add: open_stream_def Let_def abort_pump_def upd_pump_def split: option.split)
  show ?thesis
    using assms
    by (cases f) (auto simp: tether_frame_def tether_send_def mark_alive_def tether_ok_def open_hb
        simp del: asc_simps split: if_splits dest!: feed)
qed

lemma heartbeat_after_step:
  assumes "tether_step now in_res res ev t = (r, t')" "tether_ok t" "r = TContinue"
  shows "(ts_heartbeat t' = ts_heartbeat t \<and> ev \<noteq> PingTick \<and> ev \<noteq> LeaseTick \<and> ev \<noteq> DeadTick) \<or>
    (ev = PingTick \<and> ts_heartbeat t' = (ts_heartbeat t)\<lparr>hb_ping_tick := now + PING_INTERVAL\<rparr>) \<or>
    (hub_frame ev \<and> (hb_dead (ts_heartbeat t') = hb_dead (ts_heartbeat t) \<or> hb_dead (ts_heartbeat t') = now + PING_TIMEOUT) \<and>
      (hb_ping_tick (ts_heartbeat t') = hb_ping_tick (ts_heartbeat t) \<or> hb_ping_tick (ts_heartbeat t') = now + PING_INTERVAL))"
proof (cases ev)
  case (FromHub inp)
  show ?thesis
  proof (cases inp)
    case (HubFrame m)
    show ?thesis
    proof (cases "tether_decode m")
      case (Inl e)
      with assms FromHub HubFrame show ?thesis by (simp add: tether_step_def)
    next
      case (Inr frm)
      show ?thesis
      proof (cases frm)
        case None
        with Inr assms FromHub HubFrame show ?thesis by (simp add: tether_step_def)
      next
        case (Some f)
        obtain x q reset where f: "tether_frame in_res res f t = ((x, q), reset)"
          by (metis prod.exhaust)
        have "hb_ping_tick (heartbeat_reset now hb) = now + PING_INTERVAL" for hb
          by (simp add: heartbeat_reset_def Let_def split: option.split)
        then have "hub_frame ev \<and> (t' = q \<or> hb_dead (ts_heartbeat t') = now + PING_TIMEOUT \<and>
            hb_ping_tick (ts_heartbeat t') = now + PING_INTERVAL)"
          using Some Inr assms FromHub HubFrame f heartbeat_after_frame [OF f] heartbeat_reset_ok [of "ts_heartbeat q" now]
          by (auto simp: tether_step_def split: if_splits)
        then show ?thesis using heartbeat_after_frame [OF f] by auto
      qed
    qed
  qed (use assms FromHub in \<open>simp_all add: tether_step_def\<close>)
qed (use assms in \<open>auto simp: tether_step_def tether_send_def split: if_splits prod.splits\<close>)

lemma timed_ok_step:
  assumes "timed_ok now lease s"
  shows "timed_ok now lease (timed_step s e)"
proof (cases "tc_ended s")
  case (Some r)
  with assms show ?thesis by (simp add: timed_step_def)
next
  case None
  show ?thesis
  proof (cases e)
    case (Pass n)
    with None assms show ?thesis
      by (auto simp: timed_step_def timed_ok_def timers_def Let_def)
  next
    case (Occur in_res res ev)
    obtain r t where step: "tether_step (tc_clock s) in_res res ev (tc_session s) = (r, t)" by fastforce
    have "reach tether_run_step tether_start (tc_session s)" using assms by (simp add: timed_ok_def)
    from reach_step [OF this, of "(tc_clock s, in_res, res, ev)"] step
    have r: "reach tether_run_step tether_start t" by (simp add: tether_run_step_def)
    have ok: "tether_ok (tc_session s)" using assms tether_machine.inv_reach by (simp add: timed_ok_def)
    show ?thesis
    proof (cases "due s ev")
      case True
      have "hb_dead (ts_heartbeat t) \<le> (if hub_frame ev then tc_clock s else tc_heard s) + PING_TIMEOUT \<and>
          tc_clock s \<le> hb_dead (ts_heartbeat t) \<and> tc_clock s \<le> hb_ping_tick (ts_heartbeat t) \<and>
          hb_ping_tick (ts_heartbeat t) \<le> tc_clock s + PING_INTERVAL" if "r = TContinue"
        using heartbeat_after_step [OF step ok that] assms None by (auto simp: timed_ok_def Let_def)
      with True Occur None step r assms show ?thesis
        by (auto simp: timed_step_def timed_ok_def Let_def)
    qed (use Occur None assms in \<open>simp add: timed_step_def\<close>)
  qed
qed

interpretation session_clock: invariant_machine timed_step "\<lambda>s. s = timed_begin now lease" "timed_ok now lease"
  by unfold_locales (simp_all add: timed_ok_begin timed_ok_step)

section \<open>It ends\<close>

lemma silent_turn_cases:
  assumes "timed_ok now lease s" "tc_ended s = None"
  defines "hb \<equiv> ts_heartbeat (tc_session s)"
  defines "limit \<equiv> min (tc_lease s) (hb_dead hb)"
  shows "tc_ended (silent_turn s) \<noteq> None \<and> tc_clock (silent_turn s) = limit \<and>
      tc_ended (silent_turn s) = Some (if tc_lease s \<le> hb_dead hb then TOk else TErr ''heartbeat timeout'') \<or>
    tc_ended (silent_turn s) = None \<and> hb_ping_tick hb < limit \<and>
      tc_lease (silent_turn s) = tc_lease s \<and> hb_dead (ts_heartbeat (tc_session (silent_turn s))) = hb_dead hb \<and>
      hb_ping_tick (ts_heartbeat (tc_session (silent_turn s))) = hb_ping_tick hb + PING_INTERVAL"
proof -
  let ?t = "min (tc_lease s) (min (hb_ping_tick hb) (hb_dead hb))"
  have pass: "timed_step s (Pass (?t - tc_clock s)) = s\<lparr>tc_clock := ?t\<rparr>"
    using assms by (auto simp: timed_step_def timed_ok_def timers_def Let_def)
  consider (lease) "?t = tc_lease s" | (dead) "?t \<noteq> tc_lease s" "?t = hb_dead hb"
    | (ping) "?t \<noteq> tc_lease s" "?t \<noteq> hb_dead hb" by blast
  then show ?thesis
  proof cases
    case lease
    then have "silent_turn s = timed_step (s\<lparr>tc_clock := ?t\<rparr>) (Occur Sent Sent LeaseTick)"
      using pass by (simp add: silent_turn_def Let_def hb_def [symmetric])
    with lease assms(2) show ?thesis
      by (auto simp: timed_step_def tether_step_def limit_def)
  next
    case dead
    then have "silent_turn s = timed_step (s\<lparr>tc_clock := ?t\<rparr>) (Occur Sent Sent DeadTick)"
      using pass by (simp add: silent_turn_def Let_def hb_def [symmetric])
    with dead assms(2) show ?thesis
      by (auto simp: timed_step_def tether_step_def limit_def hb_def [symmetric])
  next
    case ping
    then have "silent_turn s = timed_step (s\<lparr>tc_clock := ?t\<rparr>) (Occur Sent Sent PingTick)"
      using pass by (simp add: silent_turn_def Let_def hb_def [symmetric])
    with ping assms(2) show ?thesis
      by (auto simp: timed_step_def tether_step_def tether_send_def limit_def hb_def [symmetric])
  qed
qed

lemma timed_ok_silent: "timed_ok now lease s \<Longrightarrow> timed_ok now lease (silent_turn s)"
  by (simp add: silent_turn_def Let_def timed_ok_step)

lemma run_silent_ends:
  assumes "timed_ok now lease s"
  shows "\<exists>s'. run_silent s = Some s'"
  unfolding run_silent_def
proof (rule measure_while_option_Some [where P = "timed_ok now lease"
      and f = "\<lambda>s. if tc_ended s = None
        then Suc (tc_lease s - hb_ping_tick (ts_heartbeat (tc_session s))) else 0", OF _ assms])
  fix s
  assume s: "timed_ok now lease s" "tc_ended s = None"
  have "PING_INTERVAL > 0" by (simp add: PING_INTERVAL_def secs_def)
  with silent_turn_cases [OF s] timed_ok_silent [OF s(1)] s(2)
  show "timed_ok now lease (silent_turn s) \<and>
    (if tc_ended (silent_turn s) = None
     then Suc (tc_lease (silent_turn s) - hb_ping_tick (ts_heartbeat (tc_session (silent_turn s)))) else 0) <
    (if tc_ended s = None then Suc (tc_lease s - hb_ping_tick (ts_heartbeat (tc_session s))) else 0)"
    by auto
qed

lemma run_silent_result:
  assumes "timed_ok now lease s" "tc_ended s = None" "run_silent s = Some s'"
  defines "dead \<equiv> hb_dead (ts_heartbeat (tc_session s))"
  shows "tc_clock s' = min (tc_lease s) dead \<and>
    tc_ended s' = Some (if tc_lease s \<le> dead then TOk else TErr ''heartbeat timeout'')"
proof -
  let ?P = "\<lambda>u. timed_ok now lease u \<and>
    (case tc_ended u of
       None \<Rightarrow> hb_dead (ts_heartbeat (tc_session u)) = dead
     | Some r \<Rightarrow> tc_clock u = min (tc_lease s) dead \<and>
         r = (if tc_lease s \<le> dead then TOk else TErr ''heartbeat timeout''))"
  have lease: "tc_lease u = tc_lease s" if "timed_ok now lease u" for u
    using that assms(1) by (simp add: timed_ok_def)
  have "?P s'"
  proof (rule while_option_rule [OF _ assms(3) [unfolded run_silent_def]])
    fix u assume u: "?P u" "tc_ended u = None"
    with silent_turn_cases [of now lease u] timed_ok_silent [of now lease u] lease [of u]
    show "?P (silent_turn u)" by (auto split: option.split)
  qed (use assms in simp)
  moreover have "tc_ended s' \<noteq> None"
    using while_option_stop [OF assms(3) [unfolded run_silent_def]] by simp
  ultimately show ?thesis by auto
qed

section \<open>Properties\<close>

text \<open>
  C31: A tether session ends, whatever the hub does. In every state the session loop reaches
  after a WELCOME, no later than the lease delay after it and no later than 25 seconds after
  the last frame of the hub has the loop returned; and when nothing more arrives, the loop
  terminates after finitely many turns, at the earlier of the two instants its timers
  stand at, with the lease's orderly close or the timeout's error.
\<close>
theorem session_ends:
  assumes "reach timed_step (\<lambda>s. s = timed_begin now lease) s"
  shows "tc_clock s \<le> now + lease_delay lease \<and> tc_clock s \<le> tc_heard s + secs 25 \<and>
    (tc_ended s = None \<longrightarrow>
       (\<exists>s'. run_silent s = Some s' \<and>
          tc_clock s' = min (now + lease_delay lease) (hb_dead (ts_heartbeat (tc_session s))) \<and>
          tc_clock s' \<le> tc_heard s + secs 25 \<and>
          tc_ended s' = Some (if now + lease_delay lease \<le> hb_dead (ts_heartbeat (tc_session s))
            then TOk else TErr ''heartbeat timeout'')))"
proof -
  have ok: "timed_ok now lease s" by (rule session_clock.inv_reach [OF assms])
  then have "tc_clock s \<le> now + lease_delay lease \<and> tc_clock s \<le> tc_heard s + secs 25"
    and lease: "tc_lease s = now + lease_delay lease"
    by (simp_all add: timed_ok_def PING_TIMEOUT_def)
  moreover have "hb_dead (ts_heartbeat (tc_session s)) \<le> tc_heard s + secs 25" if "tc_ended s = None"
    using ok that by (simp add: timed_ok_def Let_def PING_TIMEOUT_def)
  moreover have "\<exists>s'. run_silent s = Some s'" by (rule run_silent_ends [OF ok])
  ultimately show ?thesis
    using run_silent_result [OF ok] by fastforce
qed

theorem session_ends_witness:
  "\<exists>s s'. reach timed_step (\<lambda>s. s = timed_begin 0 40) s \<and> tc_clock s = secs 8 \<and> tc_ended s = None \<and>
     run_silent s = Some s' \<and> tc_clock s' = secs 30 \<and> tc_ended s' = Some TOk"
proof -
  let ?s = "foldl timed_step (timed_begin 0 40)
    [Pass (secs 8), Occur Sent Sent (FromHub (HubFrame (ws_msg Ping)))]"
  have "fits Ping" by (simp add: fits_def payload_len_def)
  then have s: "?s = \<lparr>tc_clock = secs 8, tc_lease = secs 30,
      tc_session = \<lparr>ts_streams = [], ts_pumps = [], ts_sent = [Pong],
        ts_heartbeat = \<lparr>hb_ping_tick = secs 18, hb_dead = secs 33, hb_overdue = 0, hb_pong_deadline = None\<rparr>\<rparr>,
      tc_ended = None, tc_welcomed = 0, tc_heard = secs 8\<rparr>"
    by (simp add: timed_step_def timed_begin_def session_begin_def heartbeat_new_def timers_def lease_delay_def
        tether_step_def ws_msg_def tether_frame_def tether_send_def heartbeat_reset_def
        PING_INTERVAL_def PING_TIMEOUT_def secs_def)
  have r: "reach timed_step (\<lambda>s. s = timed_begin 0 40) ?s" by (intro reach_foldl reach_start) simp
  have "lease_delay 40 = secs 30" by (simp add: lease_delay_def secs_def)
  with session_ends [OF r] r show ?thesis unfolding s by (auto simp: secs_def)
qed

end
