(* ===== verification/Keepalive.thy ===== *)
theory Keepalive
  imports Session_Clock Session
begin

text \<open>
  The two ends of one tether's connection in time, with nothing to do but keep it alive:
  the hub's session loop with its tick (\<open>handle_tether\<close> of \<open>hub.rs\<close>), the tether's with its
  timers (\<open>serve_over\<close> and \<open>run_session\<close> of \<open>tunnel.rs\<close>), and between them two ordered
  queues in which a frame waits no longer than a bound. Both ends are the definitions of
  \<open>Session\<close> and \<open>Session_Clock\<close>; what one accepts for writing is what the other reads.
\<close>

section \<open>Hub, tether and connection\<close>

text \<open>Frames travel with the instant they were written; \<open>lk_tick\<close> is the hub's tick timer.\<close>

record 'h link =
  lk_clock :: nat
  lk_task :: session_task
  lk_registry :: "'h registry"
  lk_tick :: nat
  lk_result :: loop_result
  lk_down :: "(nat \<times> frame) list"
  lk_up :: "(nat \<times> frame) list"
  lk_tether :: "timed_session option"

datatype idle_event =
    Elapse nat
  | HubTick nat
  | HubLease
  | ToTether
  | ToHub nat
  | TetherTimer tether_event

abbreviation hub_session :: "'h link \<Rightarrow> live_session" where
  "hub_session lk \<equiv> rg_sessions (lk_registry lk) ! tk_session (lk_task lk)"

definition hub_turn :: "'h head_parser \<Rightarrow> nat \<Rightarrow> session_event \<Rightarrow> 'h link \<Rightarrow> 'h link" where
  "hub_turn P wall ev lk =
     (case session_step P wall (lk_clock lk) Sent Sent ev (lk_task lk) (lk_registry lk) of
        (result, tk, r) \<Rightarrow>
          lk\<lparr>lk_task := tk, lk_registry := r, lk_result := result,
             lk_tick := (if ev = Tick \<and> result = Continue then lk_clock lk + TETHER_TICK else lk_tick lk),
             lk_down := lk_down lk @ map (Pair (lk_clock lk))
               (drop (length (ls_sent (hub_session lk))) (ls_sent (rg_sessions r ! tk_session tk)))\<rparr>)"

definition tether_turn :: "tether_event \<Rightarrow> timed_session \<Rightarrow> 'h link \<Rightarrow> 'h link" where
  "tether_turn ev s lk =
     (let s' = timed_step s (Occur Sent Sent ev)
      in lk\<lparr>lk_up := lk_up lk @ map (Pair (lk_clock lk))
              (drop (length (ts_sent (tc_session s))) (ts_sent (tc_session s'))),
            lk_tether := Some s'\<rparr>)"

text \<open>A clock does not pass a timer of a loop that runs, nor the bound of a frame on its way.\<close>

definition may_pass :: "nat \<Rightarrow> nat \<Rightarrow> 'h link \<Rightarrow> bool" where
  "may_pass delay t lk \<longleftrightarrow>
     (lk_result lk = Continue \<longrightarrow> t \<le> lk_tick lk \<and> t \<le> tk_deadline (lk_task lk)) \<and>
     list_all (\<lambda>(sent, _). t \<le> sent + delay) (lk_down lk @ lk_up lk) \<and>
     (case lk_tether lk of None \<Rightarrow> True | Some s \<Rightarrow> tc_ended s \<noteq> None \<or> list_all (\<lambda>d. t \<le> d) (timers s))"

definition idle_step :: "nat \<Rightarrow> 'h head_parser \<Rightarrow> 'h link \<Rightarrow> idle_event \<Rightarrow> 'h link" where
  "idle_step delay P lk e =
     (case e of
        Elapse n \<Rightarrow>
          if may_pass delay (lk_clock lk + n) lk
          then lk\<lparr>lk_clock := lk_clock lk + n, lk_tether := map_option (\<lambda>s. timed_step s (Pass n)) (lk_tether lk)\<rparr>
          else lk
      | HubTick wall \<Rightarrow>
          if lk_result lk = Continue \<and> lk_tick lk \<le> lk_clock lk then hub_turn P wall Tick lk else lk
      | HubLease \<Rightarrow>
          if lk_result lk = Continue \<and> tk_deadline (lk_task lk) \<le> lk_clock lk
          then hub_turn P 0 LeaseDeadline lk else lk
      | ToTether \<Rightarrow>
          (case lk_down lk of
             [] \<Rightarrow> lk
           | (_, f) # rest \<Rightarrow>
               let lk = lk\<lparr>lk_down := rest\<rparr> in
               (case lk_tether lk of
                  Some s \<Rightarrow> tether_turn (FromHub (HubFrame (ws_msg f))) s lk
                | None \<Rightarrow>
                    (case await_welcome [HubMessage (ws_msg f)] of
                       Some (Inr lease) \<Rightarrow> lk\<lparr>lk_tether := Some (timed_begin (lk_clock lk) lease)\<rparr>
                     | _ \<Rightarrow> lk)))
      | ToHub wall \<Rightarrow>
          (case lk_up lk of
             [] \<Rightarrow> lk
           | (_, f) # rest \<Rightarrow>
               let lk = lk\<lparr>lk_up := rest\<rparr> in
               if lk_result lk = Continue then hub_turn P wall (Input (Message (ws_msg f))) lk else lk)
      | TetherTimer ev \<Rightarrow>
          (case lk_tether lk of
             Some s \<Rightarrow> if ev \<in> {LeaseTick, PingTick, DeadTick} then tether_turn ev s lk else lk
           | None \<Rightarrow> lk))"

text \<open>The connection after the handshake: WELCOME is on its way and the session attached.\<close>

definition link_start ::
    "(bytes \<Rightarrow> bytes) \<Rightarrow> nat \<Rightarrow> nat \<Rightarrow> bytes \<Rightarrow> auth_lease \<Rightarrow> 'h registry \<Rightarrow> 'h link option" where
  "link_start sha wall now credential l r =
     (case attach_session sha wall now now credential l r of
        (None, _) \<Rightarrow> None
      | (Some tk, r') \<Rightarrow>
          Some \<lparr>lk_clock = now, lk_task = tk, lk_registry = r', lk_tick = now + TETHER_TICK,
                lk_result = Continue, lk_down = [(now, Welcome (of_nat (l_ttl l div secs 1)))], lk_up = [],
                lk_tether = None\<rparr>)"

section \<open>Gaps between the frames that keep the session alive\<close>

fun gaps :: "nat \<Rightarrow> nat \<Rightarrow> nat list \<Rightarrow> bool" where
  "gaps g x [] = True"
| "gaps g x (y # ys) \<longleftrightarrow> y \<le> x + g \<and> gaps g y ys"

lemma gaps_mono: "gaps g x ys \<Longrightarrow> x \<le> x' \<Longrightarrow> gaps g x' ys"
  by (cases ys) auto

lemma gaps_snoc: "gaps g x (ys @ [y]) \<longleftrightarrow> gaps g x ys \<and> y \<le> last (x # ys) + g"
  by (induction ys arbitrary: x) auto

definition instants :: "(frame \<Rightarrow> bool) \<Rightarrow> (nat \<times> frame) list \<Rightarrow> nat list" where
  "instants p q = map fst (filter (\<lambda>(_, f). p f) q)"

lemma instants_simps [simp]:
  "instants p [] = []"
  "instants p ((x, f) # q) = (if p f then x # instants p q else instants p q)"
  "instants p (q @ q') = instants p q @ instants p q'"
  by (simp_all add: instants_def)

lemma set_instants: "x \<in> set (instants p q) \<Longrightarrow> \<exists>f. (x, f) \<in> set q \<and> p f"
  by (auto simp: instants_def)

section \<open>What the ends do when idle\<close>

lemma fits_idle [simp]: "fits Ping" "fits Pong" "fits (Welcome n)" "fits (GoAway (asc ''lease refresh''))"
  using length_to_dec_u64 [of "unat n"] unsigned_less [of n, where ?'a = nat]
  by (simp_all add: fits_def payload_len_def)

lemma hub_turn_pong:
  assumes "lk_result lk = Continue"
  shows "hub_turn P wall (Input (Message (ws_msg Pong))) lk =
    lk\<lparr>lk_registry := upd_session (tk_session (lk_task lk)) (\<lambda>ls. ls\<lparr>ls_last_seen := lk_clock lk\<rparr>) (lk_registry lk)\<rparr>"
  using assms
  by (simp add: hub_turn_def session_step_def on_message_def handle_frame_def ws_msg_def frame_proves_liveness_def
      upd_session_nth)

lemma hub_turn_ping:
  assumes "lk_result lk = Continue" "tk_session (lk_task lk) < length (rg_sessions (lk_registry lk))"
  shows "hub_turn P wall (Input (Message (ws_msg Ping))) lk =
    lk\<lparr>lk_registry := upd_session (tk_session (lk_task lk)) (push_sent Pong) (lk_registry lk),
       lk_down := lk_down lk @ [(lk_clock lk, Pong)]\<rparr>"
  using assms
  by (simp add: hub_turn_def session_step_def on_message_def handle_frame_def ws_msg_def frame_proves_liveness_def
      upd_session_nth try_send_def push_sent_def)

lemma hub_turn_goaway:
  assumes "fits (GoAway reason)"
  shows "hub_turn P wall (Input (Message (ws_msg (GoAway reason)))) lk = lk\<lparr>lk_result := BreakOk\<rparr>"
  using assms
  by (simp add: hub_turn_def session_step_def on_message_def handle_frame_def ws_msg_def frame_proves_liveness_def)

lemma hub_turn_tick:
  assumes "is_active wall (tk_tether (lk_task lk)) (lk_registry lk)" "lk_result lk = Continue"
    and "lk_clock lk \<le> ls_last_seen (hub_session lk) + TETHER_SILENCE"
    and "tk_session (lk_task lk) < length (rg_sessions (lk_registry lk))"
  shows "hub_turn P wall Tick lk =
    (if int TETHER_PING_INTERVAL \<le> int (lk_clock lk) - tk_last_ping (lk_task lk)
     then lk\<lparr>lk_task := (lk_task lk)\<lparr>tk_last_ping := int (lk_clock lk)\<rparr>,
             lk_registry := upd_session (tk_session (lk_task lk)) (push_sent Ping) (lk_registry lk),
             lk_tick := lk_clock lk + TETHER_TICK,
             lk_down := lk_down lk @ [(lk_clock lk, Ping)]\<rparr>
     else lk\<lparr>lk_tick := lk_clock lk + TETHER_TICK\<rparr>)"
proof -
  have "\<not> TETHER_SILENCE < lk_clock lk - ls_last_seen (hub_session lk)" using assms(3) by simp
  with assms show ?thesis
    by (simp add: hub_turn_def session_step_def on_tick_def upd_session_nth try_send_def push_sent_def)
qed

abbreviation dead_at :: "timed_session \<Rightarrow> nat" where
  "dead_at s \<equiv> hb_dead (ts_heartbeat (tc_session s))"

lemma tether_turn_ended: "tc_ended s \<noteq> None \<Longrightarrow> tether_turn ev s lk = lk\<lparr>lk_tether := Some s\<rparr>"
  by (simp add: tether_turn_def timed_step_def)

lemma tether_turn_not_due: "\<not> due s ev \<Longrightarrow> tether_turn ev s lk = lk\<lparr>lk_tether := Some s\<rparr>"
  by (simp add: tether_turn_def timed_step_def)

lemma timed_ok_heartbeat:
  assumes "timed_ok now lease s"
  shows "hb_pong_deadline (ts_heartbeat (tc_session s)) = None" "hb_overdue (ts_heartbeat (tc_session s)) = 0"
  using assms tether_machine.inv_reach by (auto simp: timed_ok_def tether_ok_def)

text \<open>A frame of an idle hub keeps the tether alive from now on; a PING is answered.\<close>

lemma tether_turn_frame:
  assumes "timed_ok now lease s" "tc_ended s = None" "f = Ping \<or> f = Pong"
  obtains s' where "tether_turn (FromHub (HubFrame (ws_msg f))) s lk =
      lk\<lparr>lk_up := lk_up lk @ (if f = Ping then [(lk_clock lk, Pong)] else []), lk_tether := Some s'\<rparr>"
    "timed_ok now lease s'" "tc_ended s' = None" "tc_clock s' = tc_clock s" "dead_at s' = tc_clock s + PING_TIMEOUT"
proof -
  let ?s = "timed_step s (Occur Sent Sent (FromHub (HubFrame (ws_msg f))))"
  have "tether_turn (FromHub (HubFrame (ws_msg f))) s lk =
      lk\<lparr>lk_up := lk_up lk @ (if f = Ping then [(lk_clock lk, Pong)] else []), lk_tether := Some ?s\<rparr> \<and>
    tc_ended ?s = None \<and> tc_clock ?s = tc_clock s \<and> dead_at ?s = tc_clock s + PING_TIMEOUT"
    using assms(2,3) timed_ok_heartbeat [OF assms(1)]
    by (auto simp: tether_turn_def timed_step_def tether_step_def ws_msg_def tether_frame_def tether_send_def
        heartbeat_reset_def mark_alive_def)
  with timed_ok_step [OF assms(1)] that show ?thesis by blast
qed

lemma tether_turn_ping:
  assumes "timed_ok now lease s" "tc_ended s = None" "due s PingTick"
  obtains s' where "tether_turn PingTick s lk = lk\<lparr>lk_up := lk_up lk @ [(lk_clock lk, Ping)], lk_tether := Some s'\<rparr>"
    "timed_ok now lease s'" "tc_ended s' = None" "tc_clock s' = tc_clock s" "dead_at s' = dead_at s"
proof -
  let ?s = "timed_step s (Occur Sent Sent PingTick)"
  have "tether_turn PingTick s lk = lk\<lparr>lk_up := lk_up lk @ [(lk_clock lk, Ping)], lk_tether := Some ?s\<rparr> \<and>
    tc_ended ?s = None \<and> tc_clock ?s = tc_clock s \<and> dead_at ?s = dead_at s"
    using assms(2,3) by (simp add: tether_turn_def timed_step_def tether_step_def tether_send_def)
  with timed_ok_step [OF assms(1)] that show ?thesis by blast
qed

abbreviation farewell :: frame where
  "farewell \<equiv> GoAway (asc ''lease refresh'')"

lemma tether_turn_lease:
  assumes "tc_ended s = None" "due s LeaseTick"
  obtains s' where "tether_turn LeaseTick s lk = lk\<lparr>lk_up := lk_up lk @ [(lk_clock lk, farewell)], lk_tether := Some s'\<rparr>"
    "tc_ended s' = Some TOk"
proof -
  let ?s = "timed_step s (Occur Sent Sent LeaseTick)"
  have "tether_turn LeaseTick s lk = lk\<lparr>lk_up := lk_up lk @ [(lk_clock lk, farewell)], lk_tether := Some ?s\<rparr> \<and>
    tc_ended ?s = Some TOk"
    using assms by (simp add: tether_turn_def timed_step_def tether_step_def tether_send_def del: asc_simps)
  with that show ?thesis by blast
qed

section \<open>The invariant\<close>

abbreviation gap :: nat where "gap \<equiv> TETHER_PING_INTERVAL + TETHER_TICK"

abbreviation pings :: "(nat \<times> frame) list \<Rightarrow> nat list" where "pings \<equiv> instants (\<lambda>f. f = Ping)"
abbreviation proofs :: "(nat \<times> frame) list \<Rightarrow> nat list" where "proofs \<equiv> instants (\<lambda>f. f \<noteq> Ping)"

definition hub_half :: "nat \<Rightarrow> nat \<Rightarrow> 'h link \<Rightarrow> bool" where
  "hub_half delay limit lk \<longleftrightarrow>
     lk_result lk = Continue \<and> tk_session (lk_task lk) < length (rg_sessions (lk_registry lk)) \<and>
     tk_deadline (lk_task lk) = limit \<and>
     lk_clock lk \<le> lk_tick lk \<and> int (lk_tick lk) \<le> tk_last_ping (lk_task lk) + int gap \<and>
     (\<forall>x f. (x, f) \<in> set (lk_down lk) \<union> set (lk_up lk) \<longrightarrow> x \<le> lk_clock lk \<and> lk_clock lk \<le> x + delay)"

text \<open>Before the tether has read WELCOME.\<close>

definition awaiting :: "nat \<Rightarrow> 64 word \<Rightarrow> 'h link \<Rightarrow> bool" where
  "awaiting now lease lk \<longleftrightarrow>
     lk_tether lk = None \<and> lk_up lk = [] \<and> ls_last_seen (hub_session lk) = now \<and>
     (\<exists>rest. lk_down lk = (now, Welcome lease) # rest \<and> snd ` set rest \<subseteq> {Ping} \<and>
        gaps gap now (pings rest) \<and> tk_last_ping (lk_task lk) \<le> int (last (now # pings rest)))"

text \<open>
  While both loops run: from the last frame the tether counts its silence from, through the
  PINGs on their way to it, no gap is longer than the hub's; and likewise from the last
  PONG the hub has read through the PONGs on their way and the PINGs not yet answered.
\<close>

definition serving_link :: "nat \<Rightarrow> nat \<Rightarrow> 64 word \<Rightarrow> 'h link \<Rightarrow> bool" where
  "serving_link delay now lease lk \<longleftrightarrow>
     (\<exists>s begun v. lk_tether lk = Some s \<and> tc_ended s = None \<and> timed_ok begun lease s \<and>
        begun \<le> now + delay \<and> tc_clock s = lk_clock lk \<and>
        snd ` set (lk_down lk) \<union> snd ` set (lk_up lk) \<subseteq> {Ping, Pong} \<and>
        dead_at s = v + PING_TIMEOUT \<and> v \<le> lk_clock lk \<and> gaps gap v (pings (lk_down lk)) \<and>
        tk_last_ping (lk_task lk) \<le> int (last (v # pings (lk_down lk)))) \<and>
     (let u = ls_last_seen (hub_session lk); w = last (u # proofs (lk_up lk)) in
        gaps (gap + delay) u (proofs (lk_up lk)) \<and> gaps gap w (pings (lk_down lk)) \<and>
        tk_last_ping (lk_task lk) \<le> int (last (w # pings (lk_down lk))))"

text \<open>After the tether has closed for a new lease and before the hub has read that.\<close>

definition closing :: "nat \<Rightarrow> nat \<Rightarrow> 64 word \<Rightarrow> 'h link \<Rightarrow> bool" where
  "closing delay now lease lk \<longleftrightarrow>
     (\<exists>s pre g. lk_tether lk = Some s \<and> tc_ended s = Some TOk \<and>
        lk_up lk = pre @ [(g, farewell)] \<and> snd ` set pre \<subseteq> {Ping, Pong} \<and>
        g \<le> now + delay + lease_delay lease \<and>
        gaps (gap + delay) (ls_last_seen (hub_session lk)) (proofs (lk_up lk)))"

definition link_ok :: "nat \<Rightarrow> nat \<Rightarrow> nat \<Rightarrow> 64 word \<Rightarrow> 'h link \<Rightarrow> bool" where
  "link_ok delay limit now lease lk \<longleftrightarrow>
     hub_half delay limit lk \<and> (awaiting now lease lk \<or> serving_link delay now lease lk \<or> closing delay now lease lk) \<or>
     lk_result lk = BreakOk \<and> (\<exists>s. lk_tether lk = Some s \<and> tc_ended s = Some TOk)"

section \<open>Every step keeps it\<close>

lemma chain_bound:
  assumes "gaps g v xs" "\<forall>x \<in> set xs. c \<le> x + delay" "lp \<le> int (last (v # xs))" "int c \<le> lp + int g"
  shows "c \<le> v + g + delay"
  using assms by (cases xs) force+

lemma hub_half_clock: "hub_half delay limit lk \<Longrightarrow> int (lk_clock lk) \<le> tk_last_ping (lk_task lk) + int gap"
  by (auto simp: hub_half_def)

lemma hub_half_frame:
  "hub_half delay limit lk \<Longrightarrow> (x, f) \<in> set (lk_down lk) \<union> set (lk_up lk) \<Longrightarrow> x \<le> lk_clock lk \<and> lk_clock lk \<le> x + delay"
  unfolding hub_half_def by blast

lemma hub_half_pings:
  assumes "hub_half delay limit lk"
  shows "\<forall>x \<in> set (pings (lk_down lk)). x \<le> lk_clock lk \<and> lk_clock lk \<le> x + delay"
    and "\<forall>x \<in> set (proofs (lk_up lk)). x \<le> lk_clock lk \<and> lk_clock lk \<le> x + delay"
  using assms set_instants by (fastforce simp: hub_half_def)+

text \<open>Neither liveness timer can be due, and the hub's lease outlasts the tether's.\<close>

lemma serving_alive:
  assumes "hub_half delay limit lk" "serving_link delay now lease lk" "delay < secs 10" "lk_tether lk = Some s"
  shows "lk_clock lk < dead_at s"
proof -
  obtain v where v: "dead_at s = v + PING_TIMEOUT" "gaps gap v (pings (lk_down lk))"
      "tk_last_ping (lk_task lk) \<le> int (last (v # pings (lk_down lk)))"
    using assms(2,4) by (auto simp: serving_link_def)
  have "lk_clock lk \<le> v + gap + delay"
    using chain_bound [OF v(2) _ v(3) hub_half_clock [OF assms(1)]] hub_half_pings(1) [OF assms(1)] by blast
  with v(1) assms(3) show ?thesis
    by (simp add: PING_TIMEOUT_def TETHER_PING_INTERVAL_def TETHER_TICK_def secs_def)
qed

lemma hub_hears:
  assumes "hub_half delay limit lk" "awaiting now lease lk \<or> serving_link delay now lease lk \<or> closing delay now lease lk"
  shows "lk_clock lk \<le> ls_last_seen (hub_session lk) + gap + 2 * delay"
  using assms(2)
proof (elim disjE)
  assume "awaiting now lease lk"
  then obtain rest where "lk_down lk = (now, Welcome lease) # rest" "ls_last_seen (hub_session lk) = now"
    by (auto simp: awaiting_def)
  with hub_half_frame [OF assms(1), of now "Welcome lease"] show ?thesis by simp
next
  let ?u = "ls_last_seen (hub_session lk)" and ?w = "last (ls_last_seen (hub_session lk) # proofs (lk_up lk))"
  assume "serving_link delay now lease lk"
  then have q: "gaps (gap + delay) ?u (proofs (lk_up lk))" and p: "gaps gap ?w (pings (lk_down lk))"
      "tk_last_ping (lk_task lk) \<le> int (last (?w # pings (lk_down lk)))"
    by (simp_all add: serving_link_def Let_def)
  show ?thesis
  proof (cases "proofs (lk_up lk)")
    case Nil
    have "lk_clock lk \<le> ?w + gap + delay"
      using chain_bound [OF p(1) _ p(2) hub_half_clock [OF assms(1)]] hub_half_pings(1) [OF assms(1)] by blast
    with Nil show ?thesis by simp
  next
    case (Cons x xs)
    with q hub_half_pings(2) [OF assms(1)] show ?thesis by auto
  qed
next
  assume "closing delay now lease lk"
  then obtain pre g where "lk_up lk = pre @ [(g, farewell)]"
    and q: "gaps (gap + delay) (ls_last_seen (hub_session lk)) (proofs (lk_up lk))"
    by (auto simp: closing_def)
  then have "proofs (lk_up lk) \<noteq> []" by simp
  then obtain x xs where "proofs (lk_up lk) = x # xs" by (auto simp: neq_Nil_conv)
  with q hub_half_pings(2) [OF assms(1)] show ?thesis by auto
qed

lemma before_deadline:
  assumes "hub_half delay limit lk" "awaiting now lease lk \<or> serving_link delay now lease lk \<or> closing delay now lease lk"
    and "now + lease_delay lease + 2 * delay < limit"
  shows "lk_clock lk < tk_deadline (lk_task lk)"
proof -
  have "lk_clock lk \<le> now + lease_delay lease + 2 * delay"
    using assms(2)
  proof (elim disjE)
    assume "awaiting now lease lk"
    with hub_half_frame [OF assms(1), of now "Welcome lease"] show ?thesis by (auto simp: awaiting_def)
  next
    assume "serving_link delay now lease lk"
    then show ?thesis by (auto simp: serving_link_def timed_ok_def)
  next
    assume "closing delay now lease lk"
    then obtain pre g where "lk_up lk = pre @ [(g, farewell)]" "g \<le> now + delay + lease_delay lease"
      by (auto simp: closing_def)
    with hub_half_frame [OF assms(1), of g farewell] show ?thesis by simp
  qed
  with assms(1,3) show ?thesis by (simp add: hub_half_def)
qed

lemma link_ok_elapse:
  assumes "link_ok delay limit now lease lk"
  shows "link_ok delay limit now lease (idle_step delay P lk (Elapse n))"
proof (cases "may_pass delay (lk_clock lk + n) lk")
  case True
  let ?lk = "idle_step delay P lk (Elapse n)"
  have lk: "?lk = lk\<lparr>lk_clock := lk_clock lk + n, lk_tether := map_option (\<lambda>s. timed_step s (Pass n)) (lk_tether lk)\<rparr>"
    using True by (simp add: idle_step_def)
  have ended: "timed_step s (Pass n) = s" if "tc_ended s = Some x" for s x
    using that by (simp add: timed_step_def)
  have half: "hub_half delay limit ?lk" if "hub_half delay limit lk"
  proof -
    have "lk_clock lk + n \<le> x + delay" if "(x, f) \<in> set (lk_down lk) \<union> set (lk_up lk)" for x f
      using that True by (auto simp: may_pass_def list_all_iff)
    moreover have "lk_clock lk + n \<le> lk_tick lk"
      using True that by (simp add: may_pass_def hub_half_def)
    ultimately show ?thesis
      using that unfolding lk hub_half_def by (simp add: trans_le_add1)
  qed
  have "serving_link delay now lease ?lk" if sv: "serving_link delay now lease lk"
  proof -
    obtain s where s: "lk_tether lk = Some s" "tc_ended s = None" "tc_clock s = lk_clock lk"
      using sv by (auto simp: serving_link_def)
    have "list_all (\<lambda>t. tc_clock s + n \<le> t) (timers s)"
      using True s by (simp add: may_pass_def)
    then have pass: "timed_step s (Pass n) = s\<lparr>tc_clock := tc_clock s + n\<rparr>"
      using s(2) by (simp add: timed_step_def)
    have "timed_ok b l (s\<lparr>tc_clock := tc_clock s + n\<rparr>)" if "timed_ok b l s" for b l
      using timed_ok_step [OF that, of "Pass n"] pass by simp
    moreover obtain b v where "timed_ok b lease s" "b \<le> now + delay"
        "snd ` set (lk_down lk) \<union> snd ` set (lk_up lk) \<subseteq> {Ping, Pong}" "dead_at s = v + PING_TIMEOUT" "v \<le> lk_clock lk"
        "gaps gap v (pings (lk_down lk))" "tk_last_ping (lk_task lk) \<le> int (last (v # pings (lk_down lk)))"
      using sv s(1) by (auto simp: serving_link_def)
    ultimately show ?thesis
      using sv s unfolding lk serving_link_def
      by (intro conjI exI [of _ "timed_step s (Pass n)"] exI [of _ b] exI [of _ v]) (simp_all add: pass)
  qed
  moreover have "awaiting now lease ?lk" if "awaiting now lease lk"
    using that unfolding lk by (simp add: awaiting_def)
  moreover have "closing delay now lease ?lk" if "closing delay now lease lk"
    using that ended unfolding lk by (fastforce simp: closing_def)
  moreover have "lk_result ?lk = BreakOk \<and> (\<exists>s. lk_tether ?lk = Some s \<and> tc_ended s = Some TOk)"
    if "lk_result lk = BreakOk \<and> (\<exists>s. lk_tether lk = Some s \<and> tc_ended s = Some TOk)"
    using that ended unfolding lk by fastforce
  ultimately show ?thesis using assms half unfolding link_ok_def by blast
qed (use assms in \<open>simp add: idle_step_def\<close>)

lemma link_ok_tick:
  assumes "link_ok delay limit now lease lk" "delay < secs 10"
    and "is_active wall (tk_tether (lk_task lk)) (lk_registry lk)"
  shows "link_ok delay limit now lease (idle_step delay P lk (HubTick wall))"
proof (cases "lk_result lk = Continue \<and> lk_tick lk \<le> lk_clock lk")
  case True
  with assms(1) have half: "hub_half delay limit lk"
    and phase: "awaiting now lease lk \<or> serving_link delay now lease lk \<or> closing delay now lease lk"
    by (auto simp: link_ok_def)
  let ?s = "tk_session (lk_task lk)"
  have s: "?s < length (rg_sessions (lk_registry lk))" using half by (simp add: hub_half_def)
  have "lk_clock lk \<le> ls_last_seen (hub_session lk) + TETHER_SILENCE"
    using hub_hears [OF half phase] assms(2)
    by (simp add: TETHER_SILENCE_def TETHER_PING_INTERVAL_def TETHER_TICK_def secs_def)
  note tick = hub_turn_tick [OF assms(3) conjunct1 [OF True] this s, of P]
  show ?thesis
  proof (cases "int TETHER_PING_INTERVAL \<le> int (lk_clock lk) - tk_last_ping (lk_task lk)")
    case ping: True
    let ?lk = "lk\<lparr>lk_task := (lk_task lk)\<lparr>tk_last_ping := int (lk_clock lk)\<rparr>,
        lk_registry := upd_session ?s (push_sent Ping) (lk_registry lk),
        lk_tick := lk_clock lk + TETHER_TICK, lk_down := lk_down lk @ [(lk_clock lk, Ping)]\<rparr>"
    have lk: "idle_step delay P lk (HubTick wall) = ?lk" using True ping tick by (simp add: idle_step_def)
    have seen: "ls_last_seen (hub_session ?lk) = ls_last_seen (hub_session lk)"
      using s by (simp add: upd_session_nth push_sent_def)
    have c: "int (lk_clock lk) \<le> tk_last_ping (lk_task lk) + int gap" by (rule hub_half_clock [OF half])
    have "hub_half delay limit ?lk"
      using half by (auto simp: hub_half_def upd_session_def)
    moreover have "awaiting now lease ?lk" if "awaiting now lease lk"
      using that c seen by (fastforce simp: awaiting_def gaps_snoc)
    moreover have "serving_link delay now lease ?lk" if sv: "serving_link delay now lease lk"
    proof -
      let ?w = "last (ls_last_seen (hub_session lk) # proofs (lk_up lk))"
      have "gaps gap v (pings (lk_down lk) @ [lk_clock lk])"
        if "gaps gap v (pings (lk_down lk))" "tk_last_ping (lk_task lk) \<le> int (last (v # pings (lk_down lk)))" for v
        using that c by (auto simp: gaps_snoc)
      then show ?thesis
        using sv seen unfolding serving_link_def Let_def by (auto 0 3)
    qed
    moreover have "closing delay now lease ?lk" if "closing delay now lease lk"
      using that seen by (simp add: closing_def)
    ultimately show ?thesis using phase unfolding lk link_ok_def by blast
  next
    case quiet: False
    let ?lk = "lk\<lparr>lk_tick := lk_clock lk + TETHER_TICK\<rparr>"
    have lk: "idle_step delay P lk (HubTick wall) = ?lk" using True quiet tick by (simp add: idle_step_def)
    have "hub_half delay limit ?lk"
      using half quiet by (auto simp: hub_half_def)
    moreover have "awaiting now lease ?lk = awaiting now lease lk"
      "serving_link delay now lease ?lk = serving_link delay now lease lk"
      "closing delay now lease ?lk = closing delay now lease lk"
      by (simp_all add: awaiting_def serving_link_def closing_def)
    ultimately show ?thesis using phase unfolding lk link_ok_def by blast
  qed
qed (use assms in \<open>auto simp: idle_step_def\<close>)

lemma link_ok_lease:
  assumes "link_ok delay limit now lease lk" "now + lease_delay lease + 2 * delay < limit"
  shows "idle_step delay P lk HubLease = lk"
proof (cases "lk_result lk = Continue")
  case True
  with assms(1) have "hub_half delay limit lk"
    "awaiting now lease lk \<or> serving_link delay now lease lk \<or> closing delay now lease lk"
    by (auto simp: link_ok_def)
  from before_deadline [OF this assms(2)] show ?thesis by (simp add: idle_step_def)
qed (simp add: idle_step_def)

lemma last_mono: "x \<le> (y :: nat) \<Longrightarrow> last (x # xs) \<le> last (y # xs)"
  by simp

lemma hub_half_delivered:
  assumes "hub_half delay limit lk"
  shows "lk_down lk = q # rest \<Longrightarrow> hub_half delay limit (lk\<lparr>lk_down := rest, lk_tether := t\<rparr>)"
    and "lk_up lk = q # rest \<Longrightarrow> hub_half delay limit (lk\<lparr>lk_up := rest\<rparr>)"
  using assms by (simp_all add: hub_half_def)

lemma hub_half_sent:
  assumes "hub_half delay limit lk"
  shows "hub_half delay limit (lk\<lparr>lk_up := lk_up lk @ [(lk_clock lk, f)], lk_tether := t\<rparr>)"
    and "hub_half delay limit (lk\<lparr>lk_tether := t\<rparr>)"
  using assms by (auto simp: hub_half_def)

lemma serving_to_tether:
  assumes "hub_half delay limit lk" "serving_link delay now lease lk" "lk_down lk = (x, f) # rest"
  shows "hub_half delay limit (idle_step delay P lk ToTether) \<and>
    serving_link delay now lease (idle_step delay P lk ToTether)"
proof -
  let ?u = "ls_last_seen (hub_session lk)" and ?w = "last (ls_last_seen (hub_session lk) # proofs (lk_up lk))"
  obtain s b v where s: "lk_tether lk = Some s" "tc_ended s = None" "timed_ok b lease s" "b \<le> now + delay"
      "tc_clock s = lk_clock lk" "snd ` set (lk_down lk) \<union> snd ` set (lk_up lk) \<subseteq> {Ping, Pong}"
      "v \<le> lk_clock lk" "gaps gap v (pings (lk_down lk))" "tk_last_ping (lk_task lk) \<le> int (last (v # pings (lk_down lk)))"
    and q: "gaps (gap + delay) ?u (proofs (lk_up lk))" "gaps gap ?w (pings (lk_down lk))"
      "tk_last_ping (lk_task lk) \<le> int (last (?w # pings (lk_down lk)))"
    using assms(2) by (auto simp: serving_link_def Let_def)
  have f: "f = Ping \<or> f = Pong" using s(6) assms(3) by auto
  have x: "x \<le> lk_clock lk" "lk_clock lk \<le> x + delay"
    using hub_half_frame [OF assms(1), of x f] assms(3) by auto
  let ?lk = "lk\<lparr>lk_down := rest\<rparr>"
  obtain s' where s': "tether_turn (FromHub (HubFrame (ws_msg f))) s ?lk =
      ?lk\<lparr>lk_up := lk_up lk @ (if f = Ping then [(lk_clock lk, Pong)] else []), lk_tether := Some s'\<rparr>"
      "timed_ok b lease s'" "tc_ended s' = None" "tc_clock s' = lk_clock lk" "dead_at s' = lk_clock lk + PING_TIMEOUT"
    by (rule tether_turn_frame [OF s(3,2) f, of ?lk]) (rule that; simp add: s(5))
  have lk: "idle_step delay P lk ToTether =
      lk\<lparr>lk_down := rest, lk_up := lk_up lk @ (if f = Ping then [(lk_clock lk, Pong)] else []), lk_tether := Some s'\<rparr>"
    using s'(1) s(1) assms(3) by (simp add: idle_step_def)
  have half: "hub_half delay limit (idle_step delay P lk ToTether)"
    using hub_half_sent(1) [OF hub_half_delivered(1) [OF assms(1,3), of "lk_tether lk"], where f = Pong and t = "Some s'"]
      hub_half_delivered(1) [OF assms(1,3), of "Some s'"]
    unfolding lk by (simp split: if_split)
  have frames: "snd ` set rest \<union> snd ` set (lk_up lk @ (if f = Ping then [(lk_clock lk, Pong)] else [])) \<subseteq> {Ping, Pong}"
    using s(6) assms(3) by auto
  have down: "gaps gap (lk_clock lk) (pings rest)" "tk_last_ping (lk_task lk) \<le> int (last (lk_clock lk # pings rest))"
    using s(7-9) f x(1) unfolding assms(3) by (auto intro: gaps_mono)
  have up: "gaps (gap + delay) ?u (proofs (lk_up lk) @ (if f = Ping then [lk_clock lk] else []))"
    and rest: "gaps gap (last (?u # proofs (lk_up lk) @ (if f = Ping then [lk_clock lk] else []))) (pings rest)"
      "tk_last_ping (lk_task lk) \<le> int (last (last (?u # proofs (lk_up lk) @ (if f = Ping then [lk_clock lk] else [])) # pings rest))"
    using q f x down unfolding assms(3) by (auto simp: gaps_snoc)
  have "serving_link delay now lease (idle_step delay P lk ToTether)"
    using f
  proof (elim disjE)
    assume f: "f = Ping"
    show ?thesis
      unfolding lk serving_link_def Let_def
      using s'(2-5) s(4) frames down up rest unfolding f
      by (intro conjI exI [of _ s'] exI [of _ b] exI [of _ "lk_clock lk"]) simp_all
  next
    assume f: "f = Pong"
    show ?thesis
      unfolding lk serving_link_def Let_def
      using s'(2-5) s(4) frames down up rest unfolding f
      by (intro conjI exI [of _ s'] exI [of _ b] exI [of _ "lk_clock lk"]) simp_all
  qed
  with half show ?thesis by blast
qed

lemma link_ok_to_tether:
  assumes "link_ok delay limit now lease lk"
  shows "link_ok delay limit now lease (idle_step delay P lk ToTether)"
proof (cases "lk_down lk")
  case Nil
  with assms show ?thesis by (simp add: idle_step_def)
next
  case (Cons q rest)
  obtain x f where q: "q = (x, f)" by (cases q)
  have stays: "idle_step delay P lk ToTether = lk\<lparr>lk_down := rest, lk_tether := Some s\<rparr>"
    if "lk_tether lk = Some s" "tc_ended s = Some TOk" for s
    using that Cons q by (simp add: idle_step_def tether_turn_ended)
  consider (awaiting) "hub_half delay limit lk" "awaiting now lease lk"
    | (serving) "hub_half delay limit lk" "serving_link delay now lease lk"
    | (closing) "hub_half delay limit lk" "closing delay now lease lk"
    | (ended) "lk_result lk = BreakOk" "\<exists>s. lk_tether lk = Some s \<and> tc_ended s = Some TOk"
    using assms unfolding link_ok_def by blast
  then show ?thesis
  proof cases
    case awaiting
    then have w: "lk_tether lk = None" "lk_up lk = []" "ls_last_seen (hub_session lk) = now" "x = now" "f = Welcome lease"
        "snd ` set rest \<subseteq> {Ping}" "gaps gap now (pings rest)"
        "tk_last_ping (lk_task lk) \<le> int (last (now # pings rest))"
      using Cons q by (auto simp: awaiting_def)
    let ?s = "timed_begin (lk_clock lk) lease"
    have "await_welcome [HubMessage (ws_msg (Welcome lease))] = Some (Inr lease)"
      using fits_idle(3) [of lease] by (simp add: ws_msg_def)
    then have lk: "idle_step delay P lk ToTether = lk\<lparr>lk_down := rest, lk_tether := Some ?s\<rparr>"
      using w Cons q by (simp add: idle_step_def del: await_welcome.simps)
    have late: "now \<le> lk_clock lk" "lk_clock lk \<le> now + delay"
      using hub_half_frame [OF awaiting(1), of x f] Cons q w by auto
    have "gaps gap (lk_clock lk) (pings rest)" "tk_last_ping (lk_task lk) \<le> int (last (lk_clock lk # pings rest))"
      using w late by (auto intro: gaps_mono)
    then have "serving_link delay now lease (lk\<lparr>lk_down := rest, lk_tether := Some ?s\<rparr>)"
      unfolding serving_link_def Let_def
      using w late timed_ok_begin [of "lk_clock lk" lease]
      by (intro conjI exI [of _ ?s] exI [of _ "lk_clock lk"])
        (auto simp: timed_begin_def session_begin_def heartbeat_new_def)
    then show ?thesis
      using hub_half_delivered(1) [OF awaiting(1) Cons] unfolding lk link_ok_def by blast
  next
    case serving
    then show ?thesis
      using serving_to_tether [of delay limit lk now lease x f rest P] Cons q unfolding link_ok_def by blast
  next
    case closing
    then obtain s where s: "lk_tether lk = Some s" "tc_ended s = Some TOk" by (auto simp: closing_def)
    have "closing delay now lease (lk\<lparr>lk_down := rest, lk_tether := Some s\<rparr>)"
      using closing(2) s unfolding closing_def by simp
    then show ?thesis
      using hub_half_delivered(1) [OF closing(1) Cons] unfolding stays [OF s] link_ok_def by blast
  next
    case ended
    then show ?thesis using stays by (auto simp: link_ok_def)
  qed
qed

lemma serving_to_hub:
  assumes "hub_half delay limit lk" "serving_link delay now lease lk" "lk_up lk = (x, f) # rest"
  shows "hub_half delay limit (idle_step delay P lk (ToHub wall)) \<and>
    serving_link delay now lease (idle_step delay P lk (ToHub wall))"
proof -
  let ?s = "tk_session (lk_task lk)"
  have f: "f = Ping \<or> f = Pong" using assms(2,3) by (auto simp: serving_link_def)
  have r: "lk_result lk = Continue" "?s < length (rg_sessions (lk_registry lk))"
    using assms(1) by (simp_all add: hub_half_def)
  have x: "x \<le> lk_clock lk" using hub_half_frame [OF assms(1), of x f] assms(3) by auto
  note half = hub_half_delivered(2) [OF assms(1,3)]
  show ?thesis
    using f
  proof (elim disjE)
    assume f: "f = Ping"
    let ?r = "upd_session ?s (push_sent Pong) (lk_registry lk)"
    have lk: "idle_step delay P lk (ToHub wall) =
        lk\<lparr>lk_up := rest, lk_registry := ?r, lk_down := lk_down lk @ [(lk_clock lk, Pong)]\<rparr>"
      using r assms(3) f hub_turn_ping [of "lk\<lparr>lk_up := rest\<rparr>" P wall] by (simp add: idle_step_def)
    have "ls_last_seen (rg_sessions ?r ! ?s) = ls_last_seen (hub_session lk)"
      using r(2) by (simp add: upd_session_nth push_sent_def)
    moreover have "hub_half delay limit (idle_step delay P lk (ToHub wall))"
      using half unfolding lk by (auto simp: hub_half_def upd_session_def)
    ultimately show ?thesis
      using assms(2) unfolding lk serving_link_def assms(3) f by (auto simp: Let_def)
  next
    assume f: "f = Pong"
    let ?r = "upd_session ?s (\<lambda>ls. ls\<lparr>ls_last_seen := lk_clock lk\<rparr>) (lk_registry lk)"
    have lk: "idle_step delay P lk (ToHub wall) = lk\<lparr>lk_up := rest, lk_registry := ?r\<rparr>"
      using r assms(3) f hub_turn_pong [of "lk\<lparr>lk_up := rest\<rparr>" P wall] by (simp add: idle_step_def)
    have seen: "ls_last_seen (rg_sessions ?r ! ?s) = lk_clock lk"
      using r(2) by (simp add: upd_session_nth)
    let ?u = "ls_last_seen (hub_session lk)"
    have q: "gaps (gap + delay) ?u (x # proofs rest)" "gaps gap (last (x # proofs rest)) (pings (lk_down lk))"
        "tk_last_ping (lk_task lk) \<le> int (last (last (x # proofs rest) # pings (lk_down lk)))"
      using assms(2) unfolding serving_link_def assms(3) f by (auto simp: Let_def)
    have "last (x # proofs rest) \<le> last (lk_clock lk # proofs rest)" using x by simp
    then have "gaps (gap + delay) (lk_clock lk) (proofs rest)"
      "gaps gap (last (lk_clock lk # proofs rest)) (pings (lk_down lk))"
      "tk_last_ping (lk_task lk) \<le> int (last (last (lk_clock lk # proofs rest) # pings (lk_down lk)))"
      using q x last_mono [of _ "last (lk_clock lk # proofs rest)" "pings (lk_down lk)"]
      by (auto intro: gaps_mono)
    moreover have "hub_half delay limit (idle_step delay P lk (ToHub wall))"
      using half unfolding lk by (auto simp: hub_half_def upd_session_def)
    ultimately show ?thesis
      using assms(2) seen unfolding lk serving_link_def assms(3) f by (auto simp: Let_def)
  qed
qed

lemma link_ok_to_hub:
  assumes "link_ok delay limit now lease lk"
  shows "link_ok delay limit now lease (idle_step delay P lk (ToHub wall))"
proof (cases "lk_up lk")
  case Nil
  with assms show ?thesis by (simp add: idle_step_def)
next
  case (Cons q rest)
  obtain x f where q: "q = (x, f)" by (cases q)
  consider (serving) "hub_half delay limit lk" "serving_link delay now lease lk"
    | (closing) "hub_half delay limit lk" "closing delay now lease lk"
    | (ended) "lk_result lk = BreakOk" "\<exists>s. lk_tether lk = Some s \<and> tc_ended s = Some TOk"
    using assms Cons unfolding link_ok_def awaiting_def by auto
  then show ?thesis
  proof cases
    case serving
    then show ?thesis
      using serving_to_hub [of delay limit lk now lease x f rest P wall] Cons q unfolding link_ok_def by blast
  next
    case closing
    let ?s = "tk_session (lk_task lk)"
    obtain s pre g where s: "lk_tether lk = Some s" "tc_ended s = Some TOk" "lk_up lk = pre @ [(g, farewell)]"
        "snd ` set pre \<subseteq> {Ping, Pong}" "g \<le> now + delay + lease_delay lease"
        "gaps (gap + delay) (ls_last_seen (hub_session lk)) (proofs (lk_up lk))"
      using closing(2) by (auto simp: closing_def)
    have r: "lk_result lk = Continue" "?s < length (rg_sessions (lk_registry lk))"
      using closing(1) by (simp_all add: hub_half_def)
    note half = hub_half_delivered(2) [OF closing(1) Cons]
    show ?thesis
    proof (cases pre)
      case Nil
      then have "f = farewell" using s(3) Cons q by simp
      then have "idle_step delay P lk (ToHub wall) = lk\<lparr>lk_up := rest, lk_result := BreakOk\<rparr>"
        using r Cons q hub_turn_goaway [OF fits_idle(4), of P wall "lk\<lparr>lk_up := rest\<rparr>"]
        by (simp add: idle_step_def del: asc_simps)
      with s(1,2) show ?thesis by (simp add: link_ok_def)
    next
      case pre: (Cons p pre')
      then have rest: "rest = pre' @ [(g, farewell)]" "snd ` set pre' \<subseteq> {Ping, Pong}" "f = Ping \<or> f = Pong"
        using s(3,4) Cons q by auto
      have x: "x \<le> lk_clock lk" using hub_half_frame [OF closing(1), of x f] Cons q by auto
      from rest(3) show ?thesis
      proof (elim disjE)
        assume f: "f = Ping"
        let ?r = "upd_session ?s (push_sent Pong) (lk_registry lk)"
        have lk: "idle_step delay P lk (ToHub wall) =
            lk\<lparr>lk_up := rest, lk_registry := ?r, lk_down := lk_down lk @ [(lk_clock lk, Pong)]\<rparr>"
          using r Cons q f hub_turn_ping [of "lk\<lparr>lk_up := rest\<rparr>" P wall] by (simp add: idle_step_def)
        have "ls_last_seen (rg_sessions ?r ! ?s) = ls_last_seen (hub_session lk)"
          using r(2) by (simp add: upd_session_nth push_sent_def)
        then have "closing delay now lease (idle_step delay P lk (ToHub wall))"
          using s rest unfolding lk closing_def Cons q f by (simp del: asc_simps)
        moreover have "hub_half delay limit (idle_step delay P lk (ToHub wall))"
          using half unfolding lk by (auto simp: hub_half_def upd_session_def)
        ultimately show ?thesis unfolding link_ok_def by blast
      next
        assume f: "f = Pong"
        let ?r = "upd_session ?s (\<lambda>ls. ls\<lparr>ls_last_seen := lk_clock lk\<rparr>) (lk_registry lk)"
        have lk: "idle_step delay P lk (ToHub wall) = lk\<lparr>lk_up := rest, lk_registry := ?r\<rparr>"
          using r Cons q f hub_turn_pong [of "lk\<lparr>lk_up := rest\<rparr>" P wall] by (simp add: idle_step_def)
        have seen: "ls_last_seen (rg_sessions ?r ! ?s) = lk_clock lk"
          using r(2) by (simp add: upd_session_nth)
        have "gaps (gap + delay) (lk_clock lk) (proofs rest)"
          using s(6) x unfolding Cons q f by (auto intro: gaps_mono)
        then have "closing delay now lease (idle_step delay P lk (ToHub wall))"
          using s(1,2,5) rest seen unfolding lk closing_def by (simp del: asc_simps)
        moreover have "hub_half delay limit (idle_step delay P lk (ToHub wall))"
          using half unfolding lk by (auto simp: hub_half_def upd_session_def)
        ultimately show ?thesis unfolding link_ok_def by blast
      qed
    qed
  next
    case ended
    with Cons q show ?thesis by (simp add: link_ok_def idle_step_def)
  qed
qed

lemma link_ok_timer:
  assumes "link_ok delay limit now lease lk" "delay < secs 10"
  shows "link_ok delay limit now lease (idle_step delay P lk (TetherTimer ev))"
proof (cases "\<exists>s. lk_tether lk = Some s \<and> tc_ended s = None \<and> ev \<in> {LeaseTick, PingTick, DeadTick} \<and> due s ev")
  case False
  then have "idle_step delay P lk (TetherTimer ev) = lk"
    by (auto simp: idle_step_def tether_turn_not_due tether_turn_ended split: option.split)
  with assms show ?thesis by simp
next
  case True
  then obtain s where s: "lk_tether lk = Some s" "tc_ended s = None" "ev \<in> {LeaseTick, PingTick, DeadTick}" "due s ev"
    by blast
  then have half: "hub_half delay limit lk" and sv: "serving_link delay now lease lk"
    using assms(1) by (auto simp: link_ok_def awaiting_def closing_def)
  let ?u = "ls_last_seen (hub_session lk)" and ?w = "last (ls_last_seen (hub_session lk) # proofs (lk_up lk))"
  obtain b v where b: "timed_ok b lease s" "b \<le> now + delay"
      "tc_clock s = lk_clock lk" "snd ` set (lk_down lk) \<union> snd ` set (lk_up lk) \<subseteq> {Ping, Pong}" "dead_at s = v + PING_TIMEOUT"
      "v \<le> lk_clock lk" "gaps gap v (pings (lk_down lk))" "tk_last_ping (lk_task lk) \<le> int (last (v # pings (lk_down lk)))"
    and q: "gaps (gap + delay) ?u (proofs (lk_up lk))" "gaps gap ?w (pings (lk_down lk))"
      "tk_last_ping (lk_task lk) \<le> int (last (?w # pings (lk_down lk)))"
    using sv s(1) by (auto simp: serving_link_def Let_def)
  have "ev \<noteq> DeadTick"
    using serving_alive [OF half sv assms(2) s(1)] s(4) b(3) by auto
  with s(3) consider "ev = LeaseTick" | "ev = PingTick" by blast
  then show ?thesis
  proof cases
    case 1
    with s(4) have "due s LeaseTick" by simp
    then obtain s' where s': "tether_turn LeaseTick s lk =
        lk\<lparr>lk_up := lk_up lk @ [(lk_clock lk, farewell)], lk_tether := Some s'\<rparr>" "tc_ended s' = Some TOk"
      by (rule tether_turn_lease [OF s(2)])
    have lk: "idle_step delay P lk (TetherTimer ev) =
        lk\<lparr>lk_up := lk_up lk @ [(lk_clock lk, farewell)], lk_tether := Some s'\<rparr>"
      using s'(1) s(1) 1 by (simp add: idle_step_def)
    have "lk_clock lk \<le> ?w + gap + delay"
      using chain_bound [OF q(2) _ q(3) hub_half_clock [OF half]] hub_half_pings(1) [OF half] by blast
    then have "gaps (gap + delay) ?u (proofs (lk_up lk) @ [lk_clock lk])"
      using q(1) by (simp add: gaps_snoc)
    moreover have "lk_clock lk \<le> now + delay + lease_delay lease"
      using b(1-3) by (simp add: timed_ok_def)
    moreover have "snd ` set (lk_up lk) \<subseteq> {Ping, Pong}" using b(4) by blast
    ultimately have "closing delay now lease (idle_step delay P lk (TetherTimer ev))"
      unfolding lk closing_def using s'(2)
      by (intro exI [of _ s'] exI [of _ "lk_up lk"] exI [of _ "lk_clock lk"]) (simp del: asc_simps)
    then show ?thesis
      using hub_half_sent(1) [OF half, where f = farewell and t = "Some s'"] unfolding lk link_ok_def by blast
  next
    case 2
    with s(4) have "due s PingTick" by simp
    then obtain s' where s': "tether_turn PingTick s lk =
        lk\<lparr>lk_up := lk_up lk @ [(lk_clock lk, Ping)], lk_tether := Some s'\<rparr>" "timed_ok b lease s'"
        "tc_ended s' = None" "tc_clock s' = tc_clock s" "dead_at s' = dead_at s"
      by (rule tether_turn_ping [OF b(1) s(2)])
    have lk: "idle_step delay P lk (TetherTimer ev) =
        lk\<lparr>lk_up := lk_up lk @ [(lk_clock lk, Ping)], lk_tether := Some s'\<rparr>"
      using s'(1) s(1) 2 by (simp add: idle_step_def)
    have "serving_link delay now lease (idle_step delay P lk (TetherTimer ev))"
      unfolding lk serving_link_def Let_def using s'(2-5) b q
      by (intro conjI exI [of _ s'] exI [of _ b] exI [of _ v]) simp_all
    then show ?thesis
      using hub_half_sent(1) [OF half, where f = Ping and t = "Some s'"] unfolding lk link_ok_def by blast
  qed
qed

lemma link_ok_step:
  assumes "link_ok delay limit now lease lk" "delay < secs 10" "now + lease_delay lease + 2 * delay < limit"
    and "\<forall>w. e = HubTick w \<longrightarrow> is_active w (tk_tether (lk_task lk)) (lk_registry lk)"
  shows "link_ok delay limit now lease (idle_step delay P lk e)"
proof (cases e)
  case (HubTick w)
  with assms show ?thesis using link_ok_tick [OF assms(1,2)] by simp
next
  case HubLease
  with assms(1) show ?thesis by (simp add: link_ok_lease [OF assms(1,3)])
qed (use link_ok_elapse [OF assms(1)] link_ok_to_tether [OF assms(1)] link_ok_to_hub [OF assms(1)]
    link_ok_timer [OF assms(1,2)] in simp_all)

text \<open>The registrations and the name of the session's tether stay as they are.\<close>

lemma hub_turn_same:
  "rg_by_id (lk_registry (hub_turn P wall ev lk)) = rg_by_id (lk_registry lk) \<and>
   tk_tether (lk_task (hub_turn P wall ev lk)) = tk_tether (lk_task lk)"
proof -
  obtain result tk r where step: "session_step P wall (lk_clock lk) Sent Sent ev (lk_task lk) (lk_registry lk) = (result, tk, r)"
    by (metis prod.exhaust)
  then have "tk_tether tk = tk_tether (lk_task lk)"
    by (cases ev) (auto simp: session_step_def on_tick_def split: if_splits prod.splits)
  with confined_step [OF step] show ?thesis by (simp add: hub_turn_def step confined_def)
qed

lemma idle_step_same:
  "rg_by_id (lk_registry (idle_step delay P lk e)) = rg_by_id (lk_registry lk) \<and>
   tk_tether (lk_task (idle_step delay P lk e)) = tk_tether (lk_task lk)"
  using hub_turn_same
  by (cases e) (auto simp: idle_step_def tether_turn_def Let_def split: list.split option.split sum.split)

lemma link_ok_run:
  assumes "link_ok delay limit now lease lk" "delay < secs 10" "now + lease_delay lease + 2 * delay < limit"
    and "\<forall>w. HubTick w \<in> set es \<longrightarrow> is_active w (tk_tether (lk_task lk)) (lk_registry lk)"
  shows "link_ok delay limit now lease (foldl (idle_step delay P) lk es)"
  using assms(1,4)
proof (induction es arbitrary: lk)
  case (Cons e es)
  have "is_active w (tk_tether (lk_task (idle_step delay P lk e))) (lk_registry (idle_step delay P lk e)) =
      is_active w (tk_tether (lk_task lk)) (lk_registry lk)" for w
    using idle_step_same [of delay P lk e] by (simp add: is_active_def)
  then show ?case
    using Cons.IH [of "idle_step delay P lk e"] Cons.prems link_ok_step [OF Cons.prems(1) assms(2,3), of e P] by simp
qed simp

lemma link_ok_start:
  assumes "link_start sha wall now credential l r = Some lk"
  shows "link_ok delay (now + l_ttl l) now (of_nat (l_ttl l div secs 1)) lk \<and>
    tk_tether (lk_task lk) = l_tether_id l"
proof -
  obtain tk r' where a: "attach_session sha wall now now credential l r = (Some tk, r')"
    and lk: "lk = \<lparr>lk_clock = now, lk_task = tk, lk_registry = r', lk_tick = now + TETHER_TICK,
        lk_result = Continue, lk_down = [(now, Welcome (of_nat (l_ttl l div secs 1)))], lk_up = [], lk_tether = None\<rparr>"
    using assms by (auto simp: link_start_def split: prod.splits option.splits)
  have tk: "tk = \<lparr>tk_tether = l_tether_id l, tk_session = length (rg_sessions r), tk_deadline = now + l_ttl l,
      tk_last_ping = int now - int TETHER_PING_INTERVAL, tk_revoked = False\<rparr>"
    and len: "length (rg_sessions r') = Suc (length (rg_sessions r))"
    and seen: "ls_last_seen (rg_sessions r' ! length (rg_sessions r)) = now"
    using a by (auto simp: attach_session_def attach_def Let_def cancel_session_nth session_new_def nth_append
        split: option.splits if_splits)
  have "hub_half delay (now + l_ttl l) lk"
    unfolding lk tk hub_half_def using len by auto
  moreover have "awaiting now (of_nat (l_ttl l div secs 1)) lk"
    unfolding lk tk awaiting_def using seen by simp
  ultimately show ?thesis unfolding link_ok_def lk tk by auto
qed

section \<open>Properties\<close>

text \<open>
  C32: An idle connection stays up, when its lease leaves room: from the end of the
  handshake on, when frames take at most \<open>delay\<close>, less than ten seconds, in either
  direction, when the tether's renewal, sent \<open>lease_delay\<close> after WELCOME, and two such
  delays fit into the lease the hub granted (\<open>lease_delay + 2 * delay < l_ttl\<close>; three
  quarters of a lease above eight delays and of seven seconds or more do), when the
  registration stays valid and nothing but the keepalive travels, then under every order of
  timers and arrivals neither side declares the other dead and the hub's lease does not
  expire under the tether: the hub's session goes on, hearing from the tether within its
  silence limit, until the tether itself has closed in good order to renew its lease. For
  the shortest lease, five seconds, the third condition fails, whatever the delay: the
  tether renews at five seconds too, when the lease is over.
\<close>
theorem idle_session_stays_up:
  assumes "link_start sha wall now credential l r = Some lk" "delay < secs 10"
    and "lease_delay (of_nat (l_ttl l div secs 1)) + 2 * delay < l_ttl l"
    and "\<forall>w. HubTick w \<in> set es \<longrightarrow> is_active w (l_tether_id l) (lk_registry lk)"
    and "foldl (idle_step delay P) lk es = lk'"
  shows "(lk_result lk' = Continue \<and> lk_clock lk' < tk_deadline (lk_task lk') \<and>
        lk_clock lk' - ls_last_seen (hub_session lk') \<le> TETHER_SILENCE \<or>
      lk_result lk' = BreakOk \<and> (\<exists>s. lk_tether lk' = Some s \<and> tc_ended s = Some TOk)) \<and>
    (\<forall>s. lk_tether lk' = Some s \<longrightarrow>
       tc_ended s = None \<and> lk_clock lk' < dead_at s \<or> tc_ended s = Some TOk)"
proof -
  let ?lease = "of_nat (l_ttl l div secs 1) :: 64 word"
  note start = link_ok_start [OF assms(1), of delay]
  have limit: "now + lease_delay ?lease + 2 * delay < now + l_ttl l" using assms(3) by simp
  have "link_ok delay (now + l_ttl l) now ?lease (foldl (idle_step delay P) lk es)"
    by (rule link_ok_run [OF conjunct1 [OF start] assms(2) limit]) (use start assms(4) in simp)
  then have ok: "link_ok delay (now + l_ttl l) now ?lease lk'" unfolding assms(5) .
  show ?thesis
  proof (cases "lk_result lk' = Continue")
    case True
    with ok have half: "hub_half delay (now + l_ttl l) lk'"
      and phase: "awaiting now ?lease lk' \<or> serving_link delay now ?lease lk' \<or> closing delay now ?lease lk'"
      by (auto simp: link_ok_def)
    have "lk_clock lk' - ls_last_seen (hub_session lk') \<le> TETHER_SILENCE"
      using hub_hears [OF half phase] assms(2)
      by (simp add: TETHER_SILENCE_def TETHER_PING_INTERVAL_def TETHER_TICK_def secs_def)
    moreover have "tc_ended s = None \<and> lk_clock lk' < dead_at s \<or> tc_ended s = Some TOk" if "lk_tether lk' = Some s" for s
      using phase that serving_alive [OF half _ assms(2) that] by (auto simp: awaiting_def serving_link_def closing_def)
    ultimately show ?thesis using True before_deadline [OF half phase limit] by blast
  qed (use ok in \<open>auto simp: link_ok_def hub_half_def\<close>)
qed

text \<open>A connection through its first PING, answered one second after it was written.\<close>

definition example_link :: "unit link" where
  "example_link =
     \<lparr>lk_clock = 0,
      lk_task = \<lparr>tk_tether = [97], tk_session = 0, tk_deadline = secs 60, tk_last_ping = - int (secs 10), tk_revoked = False\<rparr>,
      lk_registry = example_registry, lk_tick = secs 5, lk_result = Continue, lk_down = [(0, Welcome 60)], lk_up = [],
      lk_tether = None\<rparr>"

lemma example_link_start:
  "link_start (\<lambda>x. x) 0 0 [1] \<lparr>l_tether_id = [97], l_ttl = secs 60\<rparr>
     (snd (register_tether (\<lambda>x. x) [97] [98] [1] (registry_new (secs 60)))) = Some example_link"
proof -
  have "attach_session (\<lambda>x. x) 0 0 0 [1] \<lparr>l_tether_id = [97], l_ttl = secs 60\<rparr>
      (snd (register_tether (\<lambda>x. x) [97] [98] [1] (registry_new (secs 60)))) =
    (Some (lk_task example_link), example_registry)"
    unfolding attach_session_def example_registry_def example_link_def
    by (simp add: attach_def register_tether_def registry_new_def evict_def remaining_def Let_def TETHER_PING_INTERVAL_def)
  then show ?thesis
    by (simp add: link_start_def example_link_def TETHER_TICK_def secs_def)
qed

definition example_run :: "idle_event list" where
  "example_run = [ToTether, Elapse (secs 5), HubTick 0, ToTether, Elapse (secs 1), ToHub 0]"

lemma example_run_clock:
  "let lk = foldl (idle_step (secs 1) deaf_parser) example_link example_run
   in lk_clock lk = secs 6 \<and> ls_last_seen (hub_session lk) = secs 6"
proof -
  let ?step = "idle_step (secs 1) deaf_parser"
  let ?hb = "\<lambda>p d. \<lparr>hb_ping_tick = p, hb_dead = d, hb_overdue = 0, hb_pong_deadline = None\<rparr>"
  let ?tether = "\<lambda>c heard sent. \<lparr>tc_clock = c, tc_lease = secs 45,
      tc_session = \<lparr>ts_streams = [], ts_pumps = [], ts_sent = sent, ts_heartbeat = ?hb (heard + secs 10) (heard + secs 25)\<rparr>,
      tc_ended = None, tc_welcomed = 0, tc_heard = heard\<rparr>"
  let ?hub = "\<lambda>sent seen. example_registry\<lparr>rg_sessions :=
      [\<lparr>ls_generation = 1, ls_sent = sent, ls_aborted = False, ls_last_seen = seen, ls_streams = [], ls_closed = False,
        ls_next_id = 1\<rparr>]\<rparr>"
  let ?link = "\<lambda>c ping tick sent seen down up tether. \<lparr>lk_clock = c,
      lk_task = \<lparr>tk_tether = [97], tk_session = 0, tk_deadline = secs 60, tk_last_ping = ping, tk_revoked = False\<rparr>,
      lk_registry = ?hub sent seen, lk_tick = tick, lk_result = Continue, lk_down = down, lk_up = up,
      lk_tether = tether\<rparr> :: unit link"
  note secs = secs_def TETHER_TICK_def TETHER_SILENCE_def TETHER_PING_INTERVAL_def PING_INTERVAL_def PING_TIMEOUT_def
  have "lease_delay 60 = secs 45" by (simp add: lease_delay_def secs_def)
  moreover have "await_welcome [HubMessage (ws_msg (Welcome 60))] = Some (Inr 60)"
    using fits_idle(3) [of 60] by (simp add: ws_msg_def)
  ultimately have 1: "?step (?link 0 (- int (secs 10)) (secs 5) [] 0 [(0, Welcome 60)] [] None) ToTether =
      ?link 0 (- int (secs 10)) (secs 5) [] 0 [] [] (Some (?tether 0 0 []))"
    by (simp add: idle_step_def timed_begin_def session_begin_def heartbeat_new_def PING_INTERVAL_def PING_TIMEOUT_def
        del: await_welcome.simps)
  have 2: "?step (?link 0 (- int (secs 10)) (secs 5) [] 0 [] [] (Some (?tether 0 0 []))) (Elapse (secs 5)) =
      ?link (secs 5) (- int (secs 10)) (secs 5) [] 0 [] [] (Some (?tether (secs 5) 0 []))"
    by (simp add: idle_step_def may_pass_def timers_def timed_step_def secs)
  have active: "is_active 0 [97] (?hub sent seen)" for sent seen
    by (simp add: is_active_def example_registry_eq remaining_def)
  have 3: "?step (?link (secs 5) (- int (secs 10)) (secs 5) [] 0 [] [] (Some (?tether (secs 5) 0 []))) (HubTick 0) =
      ?link (secs 5) (int (secs 5)) (secs 10) [Ping] 0 [(secs 5, Ping)] [] (Some (?tether (secs 5) 0 []))"
    by (simp add: idle_step_def hub_turn_def session_step_def on_tick_def active upd_session_def try_send_def push_sent_def secs)
  have 4: "?step (?link (secs 5) (int (secs 5)) (secs 10) [Ping] 0 [(secs 5, Ping)] [] (Some (?tether (secs 5) 0 []))) ToTether =
      ?link (secs 5) (int (secs 5)) (secs 10) [Ping] 0 [] [(secs 5, Pong)] (Some (?tether (secs 5) (secs 5) [Pong]))"
    by (simp add: idle_step_def tether_turn_def timed_step_def tether_step_def tether_frame_def tether_send_def
        heartbeat_reset_def ws_msg_def secs)
  have 5: "?step (?link (secs 5) (int (secs 5)) (secs 10) [Ping] 0 [] [(secs 5, Pong)] (Some (?tether (secs 5) (secs 5) [Pong])))
        (Elapse (secs 1)) =
      ?link (secs 6) (int (secs 5)) (secs 10) [Ping] 0 [] [(secs 5, Pong)] (Some (?tether (secs 6) (secs 5) [Pong]))"
    by (simp add: idle_step_def may_pass_def timers_def timed_step_def secs)
  have 6: "?step (?link (secs 6) (int (secs 5)) (secs 10) [Ping] 0 [] [(secs 5, Pong)] (Some (?tether (secs 6) (secs 5) [Pong])))
        (ToHub 0) =
      ?link (secs 6) (int (secs 5)) (secs 10) [Ping] (secs 6) [] [] (Some (?tether (secs 6) (secs 5) [Pong]))"
    by (simp add: idle_step_def hub_turn_pong) (simp add: upd_session_def)
  have 0: "example_link = ?link 0 (- int (secs 10)) (secs 5) [] 0 [(0, Welcome 60)] [] None"
    by (simp add: example_link_def example_registry_eq session_new_def)
  show ?thesis unfolding example_run_def foldl.simps 0 1 2 3 4 5 6 by simp
qed

theorem idle_session_stays_up_witness:
  "\<exists>lk' :: unit link. foldl (idle_step (secs 1) deaf_parser) example_link example_run = lk' \<and> lk_clock lk' = secs 6 \<and>
     (lk_result lk' = Continue \<and> lk_clock lk' < tk_deadline (lk_task lk') \<or>
      lk_result lk' = BreakOk \<and> (\<exists>s. lk_tether lk' = Some s \<and> tc_ended s = Some TOk))"
proof -
  have "lease_delay 60 = secs 45" by (simp add: lease_delay_def secs_def)
  then have "lease_delay (of_nat (l_ttl \<lparr>l_tether_id = [97], l_ttl = secs 60\<rparr> div secs 1)) + 2 * secs 1 <
      l_ttl \<lparr>l_tether_id = [97], l_ttl = secs 60\<rparr>"
    by (simp add: secs_def)
  from idle_session_stays_up [OF example_link_start _ this _ refl, of example_run deaf_parser] example_run_clock
  show ?thesis
    by (simp add: example_run_def Let_def example_link_def example_registry_eq is_active_def remaining_def secs_def)
qed

end
