(* ===== verification/Tasks.thy ===== *)
theory Tasks
  imports Tunnel
begin

text \<open>
  Ownership of the spawned tasks of a process (\<open>tasks.rs\<close>, and the places of \<open>tunnel.rs\<close>
  and \<open>hub.rs\<close> that spawn a task and keep a handle on it). A task is known by its index. It
  keeps what the code keeps about it: whether \<open>abort()\<close> was called on it, whether its future
  is gone (returned, or dropped after the abort) and the handles among its locals. Dropping
  a handle calls \<open>abort()\<close>; a future that goes away drops its locals. Of the runtime nothing is
  taken but what it documents: \<open>abort()\<close> asks, and does nothing to a task that has ended; when
  a task that was asked goes away is open, so the events below may come in any order.
  Listeners and socket writers, which run in such tasks, are at the end.
\<close>

section \<open>Tasks and handles\<close>

type_synonym tid = nat

text \<open>
  The variable or map entry that holds a handle: an \<open>AbortOnDrop\<close> of a socket writer or an
  engine connection, a \<open>StreamHandle\<close> of the tether's stream map, the abort handle of a
  \<open>StreamGuard\<close>.
\<close>

datatype keeper = KWriter | KStream stream_id | KConnection | KUpload

text \<open>
  How far the task of a pump is: before \<open>forward_engine\<close> has a connection, within the exchange,
  back from it. A pump knows its stream and the session whose completion channel it holds.
\<close>

datatype progress = Dialing | Exchanging | Replying

datatype role = ROwner | RWriter | RPump stream_id nat | RConnection | RUpload

record spawned =
  tk_role :: role
  tk_progress :: progress
  tk_asked :: bool
  tk_gone :: bool
  tk_holds :: "(keeper \<times> tid) list"

definition new_task :: "role \<Rightarrow> spawned" where
  "new_task r = \<lparr>tk_role = r, tk_progress = Dialing, tk_asked = False, tk_gone = False, tk_holds = []\<rparr>"

text \<open>\<open>JoinHandle::abort\<close> and \<open>AbortHandle::abort\<close>.\<close>

definition abort_task :: "tid \<Rightarrow> spawned list \<Rightarrow> spawned list" where
  "abort_task t ts = ts[t := (ts ! t)\<lparr>tk_asked := True\<rparr>]"

text \<open>The \<open>drop\<close> of \<open>AbortOnDrop\<close>, of \<open>StreamHandle\<close>, and the first part of that of \<open>StreamGuard\<close>.\<close>

definition abort_on_drop :: "tid \<Rightarrow> spawned list \<Rightarrow> spawned list" where
  "abort_on_drop t = abort_task t"

definition stream_handle_drop :: "tid \<Rightarrow> spawned list \<Rightarrow> spawned list" where
  "stream_handle_drop t = abort_task t"

definition guard_drop_upload :: "tid \<Rightarrow> spawned list \<Rightarrow> spawned list" where
  "guard_drop_upload t = abort_task t"

fun drop_handle :: "keeper \<times> tid \<Rightarrow> spawned list \<Rightarrow> spawned list" where
  "drop_handle (KWriter, t) = abort_on_drop t"
| "drop_handle (KConnection, t) = abort_on_drop t"
| "drop_handle (KStream _, t) = stream_handle_drop t"
| "drop_handle (KUpload, t) = guard_drop_upload t"

text \<open>Spawning a task whose handle goes to \<open>k\<close> of the task \<open>h\<close>: the handle that was there is dropped.\<close>

definition spawn_kept :: "tid \<Rightarrow> keeper \<Rightarrow> role \<Rightarrow> spawned list \<Rightarrow> spawned list" where
  "spawn_kept h k r ts =
     (let ts' = (case map_of (tk_holds (ts ! h)) k of Some old \<Rightarrow> drop_handle (k, old) ts | None \<Rightarrow> ts)
      in ts'[h := (ts' ! h)\<lparr>tk_holds := AList.update k (length ts) (tk_holds (ts' ! h))\<rparr>] @ [new_task r])"

text \<open>\<open>drop(handle)\<close>, or the removal of its map entry.\<close>

definition release :: "tid \<Rightarrow> keeper \<Rightarrow> spawned list \<Rightarrow> spawned list" where
  "release h k ts =
     (case map_of (tk_holds (ts ! h)) k of
        None \<Rightarrow> ts
      | Some c \<Rightarrow>
          drop_handle (k, c) (ts[h := (ts ! h)\<lparr>tk_holds := AList.delete k (tk_holds (ts ! h))\<rparr>]))"

text \<open>A future goes away, by its return, a panic or an abort: its locals are dropped.\<close>

definition vanish :: "tid \<Rightarrow> spawned list \<Rightarrow> spawned list" where
  "vanish t ts =
     fold drop_handle (tk_holds (ts ! t)) (ts[t := (ts ! t)\<lparr>tk_gone := True, tk_holds := []\<rparr>])"

text \<open>The runtime stops every task an abort was asked for, one after the other.\<close>

definition pending :: "spawned list \<Rightarrow> tid option" where
  "pending ts = find (\<lambda>t. tk_asked (ts ! t) \<and> \<not> tk_gone (ts ! t)) [0..<length ts]"

definition unfinished :: "spawned list \<Rightarrow> nat" where
  "unfinished ts = length (filter (\<lambda>k. \<not> tk_gone k) ts)"


section \<open>What the operations leave behind\<close>

lemma drop_handle_abort: "drop_handle h = abort_task (snd h)"
  by (cases h rule: drop_handle.cases)
    (simp_all add: abort_on_drop_def stream_handle_drop_def guard_drop_upload_def)

lemma length_abort_task [simp]: "length (abort_task t ts) = length ts"
  by (simp add: abort_task_def)

lemma abort_task_nth:
  "i < length ts \<Longrightarrow> abort_task t ts ! i = (ts ! i)\<lparr>tk_asked := tk_asked (ts ! i) \<or> t = i\<rparr>"
  by (cases "i = t") (auto simp: abort_task_def)

lemma length_drop_handle [simp]: "length (drop_handle h ts) = length ts"
  by (simp add: drop_handle_abort)

lemma drop_handle_nth:
  "i < length ts \<Longrightarrow> drop_handle h ts ! i = (ts ! i)\<lparr>tk_asked := tk_asked (ts ! i) \<or> snd h = i\<rparr>"
  by (simp add: drop_handle_abort abort_task_nth)

lemma length_drop_all [simp]: "length (fold drop_handle hs ts) = length ts"
  by (induction hs arbitrary: ts) auto

lemma drop_all_nth:
  "i < length ts \<Longrightarrow>
     fold drop_handle hs ts ! i = (ts ! i)\<lparr>tk_asked := tk_asked (ts ! i) \<or> i \<in> snd ` set hs\<rparr>"
proof (induction hs arbitrary: ts)
  case (Cons h hs)
  then show ?case by (cases "snd h = i") (simp_all add: drop_handle_nth)
qed simp

lemma length_spawn_kept [simp]: "length (spawn_kept h k r ts) = Suc (length ts)"
  by (simp add: spawn_kept_def Let_def split: option.split)

lemma length_release [simp]: "length (release h k ts) = length ts"
  by (simp add: release_def split: option.split)

lemma release_empty [simp]: "release h k ts = [] \<longleftrightarrow> ts = []"
  by (metis length_release length_0_conv)

lemma length_vanish [simp]: "length (vanish t ts) = length ts"
  by (simp add: vanish_def)

lemma spawn_kept_nth:
  assumes "h < length ts" "i < length ts"
  shows "spawn_kept h k r ts ! i = (ts ! i)
     \<lparr>tk_asked := tk_asked (ts ! i) \<or> map_of (tk_holds (ts ! h)) k = Some i,
      tk_holds := (if i = h then AList.update k (length ts) (tk_holds (ts ! h)) else tk_holds (ts ! i))\<rparr>"
  using assms
  by (auto simp: spawn_kept_def Let_def nth_append drop_handle_nth nth_list_update split: option.split)

lemma spawn_kept_new: "h < length ts \<Longrightarrow> spawn_kept h k r ts ! length ts = new_task r"
  by (auto simp: spawn_kept_def Let_def nth_append split: option.split)

lemma release_nth:
  assumes "h < length ts" "i < length ts"
  shows "release h k ts ! i = (ts ! i)
     \<lparr>tk_asked := tk_asked (ts ! i) \<or> map_of (tk_holds (ts ! h)) k = Some i,
      tk_holds := (if i = h then AList.delete k (tk_holds (ts ! h)) else tk_holds (ts ! i))\<rparr>"
proof (cases "map_of (tk_holds (ts ! h)) k")
  case None
  then have "AList.delete k (tk_holds (ts ! h)) = tk_holds (ts ! h)"
    by (simp add: delete_id map_of_eq_None_iff)
  with None show ?thesis by (auto simp: release_def)
qed (use assms in \<open>auto simp: release_def drop_handle_nth nth_list_update\<close>)

lemma vanish_nth:
  assumes "t < length ts" "i < length ts"
  shows "vanish t ts ! i = (ts ! i)
     \<lparr>tk_asked := tk_asked (ts ! i) \<or> i \<in> snd ` set (tk_holds (ts ! t)),
      tk_gone := tk_gone (ts ! i) \<or> i = t,
      tk_holds := (if i = t then [] else tk_holds (ts ! i))\<rparr>"
  using assms by (auto simp: vanish_def drop_all_nth nth_list_update)

lemma vanish_gone:
  "t < length ts \<Longrightarrow> i < length ts \<Longrightarrow> tk_gone (vanish t ts ! i) \<longleftrightarrow> tk_gone (ts ! i) \<or> i = t"
  by (simp add: vanish_nth)

section \<open>The ownership invariant\<close>

definition kept :: "spawned list \<Rightarrow> tid \<Rightarrow> bool" where
  "kept ts c \<longleftrightarrow> (\<exists>h < length ts. c \<in> snd ` set (tk_holds (ts ! h)))"

lemma keptI: "h < length ts \<Longrightarrow> c \<in> snd ` set (tk_holds (ts ! h)) \<Longrightarrow> kept ts c"
  unfolding kept_def by blast

lemma keptE:
  assumes "kept ts c"
  obtains h where "h < length ts" "c \<in> snd ` set (tk_holds (ts ! h))"
  using assms unfolding kept_def by blast

text \<open>Which task keeps which: the roots keep writers, pumps and uploads, a pump its connection.\<close>

fun keeps :: "role \<Rightarrow> keeper \<Rightarrow> role \<Rightarrow> bool" where
  "keeps ROwner KWriter RWriter = True"
| "keeps ROwner (KStream sid) (RPump sid' _) = (sid = sid')"
| "keeps ROwner KUpload RUpload = True"
| "keeps (RPump _ _) KConnection RConnection = True"
| "keeps _ _ _ = False"

definition holds_ok :: "spawned list \<Rightarrow> tid \<Rightarrow> bool" where
  "holds_ok ts h \<longleftrightarrow>
     (tk_gone (ts ! h) \<longrightarrow> tk_holds (ts ! h) = []) \<and>
     distinct (map fst (tk_holds (ts ! h))) \<and>
     (\<forall>(k, c) \<in> set (tk_holds (ts ! h)).
        h < c \<and> c < length ts \<and> keeps (tk_role (ts ! h)) k (tk_role (ts ! c)))"

definition owned_ok :: "spawned list \<Rightarrow> bool" where
  "owned_ok ts \<longleftrightarrow>
     (\<forall>h < length ts. holds_ok ts h) \<and>
     (\<forall>c < length ts. tk_role (ts ! c) \<noteq> ROwner \<and> \<not> tk_gone (ts ! c) \<and> \<not> tk_asked (ts ! c) \<longrightarrow> kept ts c)"

lemma owned_okI:
  assumes "\<And>h. h < length ts \<Longrightarrow> holds_ok ts h"
    and "\<And>c. \<lbrakk>c < length ts; tk_role (ts ! c) \<noteq> ROwner; \<not> tk_gone (ts ! c); \<not> tk_asked (ts ! c)\<rbrakk> \<Longrightarrow> kept ts c"
  shows "owned_ok ts"
  using assms by (simp add: owned_ok_def)

lemma owned_ok_holds: "owned_ok ts \<Longrightarrow> h < length ts \<Longrightarrow> holds_ok ts h"
  by (simp add: owned_ok_def)

lemma owned_ok_kept:
  "\<lbrakk>owned_ok ts; c < length ts; tk_role (ts ! c) \<noteq> ROwner; \<not> tk_gone (ts ! c); \<not> tk_asked (ts ! c)\<rbrakk> \<Longrightarrow> kept ts c"
  by (simp add: owned_ok_def)

lemma owned_ok_abort:
  assumes "owned_ok ts"
  shows "owned_ok (abort_task t ts)"
proof (rule owned_okI)
  fix h assume "h < length (abort_task t ts)"
  with owned_ok_holds [OF assms, of h] show "holds_ok (abort_task t ts) h"
    by (auto simp: holds_ok_def abort_task_nth)
next
  fix c assume "c < length (abort_task t ts)" "tk_role (abort_task t ts ! c) \<noteq> ROwner"
    "\<not> tk_gone (abort_task t ts ! c)" "\<not> tk_asked (abort_task t ts ! c)"
  then have "kept ts c" using owned_ok_kept [OF assms, of c] by (simp add: abort_task_nth)
  then obtain h where "h < length ts" "c \<in> snd ` set (tk_holds (ts ! h))" by (rule keptE)
  then show "kept (abort_task t ts) c" by (intro keptI [of h]) (simp_all add: abort_task_nth)
qed

lemma set_delete: "set (AList.delete k xs) = {p \<in> set xs. fst p \<noteq> k}"
  by (auto simp: AList.delete_eq)

lemma in_snd_delete:
  assumes "distinct (map fst xs)" "c \<in> snd ` set xs" "map_of xs k \<noteq> Some c"
  shows "c \<in> snd ` set (AList.delete k xs)"
proof -
  from assms(2) obtain l where l: "(l, c) \<in> set xs" by auto
  with assms(1,3) have "l \<noteq> k" by auto
  with l have "(l, c) \<in> set (AList.delete k xs)" by (simp add: set_delete)
  then show ?thesis by force
qed

lemma in_snd_update:
  assumes "distinct (map fst xs)" "c \<in> snd ` set xs" "map_of xs k \<noteq> Some c"
  shows "c \<in> snd ` set (AList.update k v xs)"
proof -
  from assms(2) obtain l where l: "(l, c) \<in> set xs" by auto
  with assms(1,3) have "l \<noteq> k" by auto
  moreover from assms(1) l have "map_of xs l = Some c" by simp
  ultimately have "map_of (AList.update k v xs) l = Some c" by (simp add: update_conv')
  then show ?thesis by (auto dest: map_of_SomeD intro: rev_image_eqI)
qed

lemma owned_ok_release:
  assumes ok: "owned_ok ts" and h: "h < length ts"
  shows "owned_ok (release h k ts)"
proof (rule owned_okI)
  fix i assume "i < length (release h k ts)"
  then have i: "i < length ts" by simp
  from owned_ok_holds [OF ok i] show "holds_ok (release h k ts) i"
    by (cases "i = h") (auto simp: holds_ok_def release_nth h i AList.distinct_delete set_delete)
next
  fix c assume "c < length (release h k ts)" "tk_role (release h k ts ! c) \<noteq> ROwner"
    "\<not> tk_gone (release h k ts ! c)" "\<not> tk_asked (release h k ts ! c)"
  then have c: "c < length ts" and still: "map_of (tk_holds (ts ! h)) k \<noteq> Some c" and "kept ts c"
    using owned_ok_kept [OF ok, of c] by (auto simp: release_nth h)
  from \<open>kept ts c\<close> obtain i where i: "i < length ts" "c \<in> snd ` set (tk_holds (ts ! i))" by (rule keptE)
  have "distinct (map fst (tk_holds (ts ! h)))"
    using owned_ok_holds [OF ok h] by (simp add: holds_ok_def)
  from in_snd_delete [OF this _ still] i have "c \<in> snd ` set (tk_holds (release h k ts ! i))"
    by (auto simp: release_nth h)
  with i(1) show "kept (release h k ts) c" by (intro keptI [of i]) simp_all
qed

lemma owned_ok_vanish:
  assumes ok: "owned_ok ts" and t: "t < length ts"
  shows "owned_ok (vanish t ts)"
proof (rule owned_okI)
  fix i assume "i < length (vanish t ts)"
  then have i: "i < length ts" by simp
  from owned_ok_holds [OF ok i] show "holds_ok (vanish t ts) i"
    by (auto simp: holds_ok_def vanish_nth t i)
next
  fix c assume "c < length (vanish t ts)" "tk_role (vanish t ts ! c) \<noteq> ROwner"
    "\<not> tk_gone (vanish t ts ! c)" "\<not> tk_asked (vanish t ts ! c)"
  then have "kept ts c" and still: "c \<notin> snd ` set (tk_holds (ts ! t))"
    using owned_ok_kept [OF ok, of c] by (auto simp: vanish_nth t)
  from \<open>kept ts c\<close> obtain i where i: "i < length ts" "c \<in> snd ` set (tk_holds (ts ! i))" by (rule keptE)
  with still have "c \<in> snd ` set (tk_holds (vanish t ts ! i))" by (auto simp: vanish_nth t)
  with i(1) show "kept (vanish t ts) c" by (intro keptI [of i]) simp_all
qed

lemma owned_ok_spawn_kept:
  assumes ok: "owned_ok ts" and h: "h < length ts" "\<not> tk_gone (ts ! h)" "keeps (tk_role (ts ! h)) k r"
  shows "owned_ok (spawn_kept h k r ts)" (is "owned_ok ?ts")
proof (rule owned_okI)
  fix i assume "i < length ?ts"
  then consider "i = length ts" | "i < length ts" by fastforce
  then show "holds_ok ?ts i"
  proof cases
    case 1 then show ?thesis by (simp add: holds_ok_def spawn_kept_new h(1) new_task_def)
  next
    case 2
    have keep: "?ts ! c = (ts ! c)
      \<lparr>tk_asked := tk_asked (ts ! c) \<or> map_of (tk_holds (ts ! h)) k = Some c,
       tk_holds := (if c = h then AList.update k (length ts) (tk_holds (ts ! h)) else tk_holds (ts ! c))\<rparr>"
      if "c < length ts" for c by (rule spawn_kept_nth [OF h(1) that])
    have new: "?ts ! length ts = new_task r" by (rule spawn_kept_new [OF h(1)])
    have dist: "distinct (map fst (tk_holds (?ts ! i)))"
      using owned_ok_holds [OF ok 2] by (cases "i = h") (simp_all add: spawn_kept_nth h(1) 2 holds_ok_def AList.distinct_update)
    have "i < c \<and> c < length ?ts \<and> keeps (tk_role (?ts ! i)) l (tk_role (?ts ! c))"
      if "(l, c) \<in> set (tk_holds (?ts ! i))" for l c
    proof (cases "i = h \<and> l = k")
      case True
      with that dist have "map_of (tk_holds (?ts ! i)) l = Some c" by simp
      with True 2 have "c = length ts" by (simp add: keep update_conv')
      with True h new 2 show ?thesis by (simp add: keep new_task_def)
    next
      case False
      with that dist have "map_of (tk_holds (?ts ! i)) l = Some c" by simp
      with False 2 have "map_of (tk_holds (ts ! i)) l = Some c"
        by (auto simp: keep update_conv' split: if_splits)
      then have "(l, c) \<in> set (tk_holds (ts ! i))" by (rule map_of_SomeD)
      with owned_ok_holds [OF ok 2] show ?thesis by (auto simp: holds_ok_def keep 2)
    qed
    moreover have "tk_gone (?ts ! i) \<longrightarrow> tk_holds (?ts ! i) = []"
      using owned_ok_holds [OF ok 2] h(2) by (auto simp: keep 2 holds_ok_def)
    ultimately show ?thesis using dist unfolding holds_ok_def by blast
  qed
next
  fix c assume c: "c < length ?ts" "tk_role (?ts ! c) \<noteq> ROwner" "\<not> tk_gone (?ts ! c)" "\<not> tk_asked (?ts ! c)"
  show "kept ?ts c"
  proof (cases "c = length ts")
    case True
    have "length ts \<in> snd ` set (AList.update k (length ts) (tk_holds (ts ! h)))"
      by (metis (mono_tags, lifting) image_eqI map_of_SomeD snd_conv update_conv' fun_upd_same)
    with True h(1) show ?thesis by (intro keptI [of h]) (simp_all add: spawn_kept_nth)
  next
    case False
    with c have "c < length ts" and still: "map_of (tk_holds (ts ! h)) k \<noteq> Some c" and "kept ts c"
      using owned_ok_kept [OF ok, of c] by (auto simp: spawn_kept_nth h(1))
    from \<open>kept ts c\<close> obtain i where i: "i < length ts" "c \<in> snd ` set (tk_holds (ts ! i))" by (rule keptE)
    have "distinct (map fst (tk_holds (ts ! h)))"
      using owned_ok_holds [OF ok h(1)] by (simp add: holds_ok_def)
    from in_snd_update [OF this _ still] i have "c \<in> snd ` set (tk_holds (?ts ! i))"
      by (auto simp: spawn_kept_nth h(1))
    with i(1) show ?thesis by (intro keptI [of i]) simp_all
  qed
qed

text \<open>A root is spawned with nobody to keep it.\<close>

lemma owned_ok_root:
  assumes ok: "owned_ok ts"
  shows "owned_ok (ts @ [new_task ROwner])"
proof (rule owned_okI)
  fix i assume "i < length (ts @ [new_task ROwner])"
  then show "holds_ok (ts @ [new_task ROwner]) i"
    using owned_ok_holds [OF ok, of i]
    by (cases "i = length ts") (auto simp: holds_ok_def nth_append new_task_def)
next
  fix c assume c: "c < length (ts @ [new_task ROwner])" "tk_role ((ts @ [new_task ROwner]) ! c) \<noteq> ROwner"
    "\<not> tk_gone ((ts @ [new_task ROwner]) ! c)" "\<not> tk_asked ((ts @ [new_task ROwner]) ! c)"
  then have "c < length ts" by (auto simp: nth_append new_task_def split: if_splits)
  with c have "kept ts c" using owned_ok_kept [OF ok, of c] by (simp add: nth_append)
  then obtain h where "h < length ts" "c \<in> snd ` set (tk_holds (ts ! h))" by (rule keptE)
  then show "kept (ts @ [new_task ROwner]) c" by (intro keptI [of h]) (simp_all add: nth_append)
qed

section \<open>Letting the runtime settle\<close>

lemma pending_Some:
  "pending ts = Some t \<Longrightarrow> t < length ts \<and> tk_asked (ts ! t) \<and> \<not> tk_gone (ts ! t)"
  by (auto simp: pending_def find_Some_iff)

lemma pending_None: "pending ts = None \<Longrightarrow> t < length ts \<Longrightarrow> tk_asked (ts ! t) \<Longrightarrow> tk_gone (ts ! t)"
  by (auto simp: pending_def find_None_iff)

lemma unfinished_card: "unfinished ts = card {i. i < length ts \<and> \<not> tk_gone (ts ! i)}"
  unfolding unfinished_def by (rule length_filter_conv_card)

lemma unfinished_vanish:
  assumes "t < length ts" "\<not> tk_gone (ts ! t)"
  shows "unfinished (vanish t ts) < unfinished ts"
proof -
  have eq: "{i. i < length ts \<and> \<not> tk_gone (vanish t ts ! i)} = {i. i < length ts \<and> \<not> tk_gone (ts ! i)} - {t}"
    by (auto simp: vanish_gone [OF assms(1)])
  show ?thesis unfolding unfinished_card length_vanish eq
    using assms by (intro card_Diff1_less) auto
qed

function settle :: "spawned list \<Rightarrow> spawned list" where
  "settle ts = (case pending ts of None \<Rightarrow> ts | Some t \<Rightarrow> settle (vanish t ts))"
  by pat_completeness auto
termination
  by (relation "measure unfinished") (auto dest!: pending_Some intro: unfinished_vanish)

declare settle.simps [simp del]

lemma settle_induct [case_names vanish]:
  assumes "P ts" and "\<And>ts t. \<lbrakk>P ts; t < length ts; tk_asked (ts ! t); \<not> tk_gone (ts ! t)\<rbrakk> \<Longrightarrow> P (vanish t ts)"
  shows "P (settle ts)"
  using assms(1)
proof (induction ts rule: settle.induct)
  case (1 ts)
  then show ?case using assms(2) [of ts]
    by (cases "pending ts") (auto simp: settle.simps [of ts] dest!: pending_Some)
qed

lemma settle_quiet: "pending (settle ts) = None"
proof (induction ts rule: settle.induct)
  case (1 ts)
  then show ?case by (cases "pending ts") (auto simp: settle.simps [of ts])
qed

text \<open>
  Settling ends tasks and nothing else: no task appears, changes its part or gains a handle,
  and no task goes away that was not asked to.
\<close>

lemma settle_frame:
  "length (settle ts) = length ts \<and>
   (\<forall>i < length ts. tk_role (settle ts ! i) = tk_role (ts ! i) \<and>
      set (tk_holds (settle ts ! i)) \<subseteq> set (tk_holds (ts ! i)) \<and>
      (tk_gone (ts ! i) \<longrightarrow> tk_gone (settle ts ! i)) \<and>
      (tk_gone (settle ts ! i) \<longrightarrow> tk_gone (ts ! i) \<or> tk_asked (settle ts ! i)))"
  (is "?P (settle ts)")
  by (rule settle_induct [where P = ?P]) (auto simp: vanish_nth)

lemma owned_ok_settle: "owned_ok ts \<Longrightarrow> owned_ok (settle ts)"
  by (rule settle_induct [where P = owned_ok]) (auto intro: owned_ok_vanish)

text \<open>The root a running task belongs to: the chain of holders.\<close>

definition holding :: "spawned list \<Rightarrow> (tid \<times> tid) set" where
  "holding ts = {(h, c). h < length ts \<and> c \<in> snd ` set (tk_holds (ts ! h))}"

lemma running_rooted:
  assumes ok: "owned_ok ts" and quiet: "pending ts = None"
  shows "t < length ts \<Longrightarrow> \<not> tk_gone (ts ! t) \<Longrightarrow>
    \<exists>r < length ts. tk_role (ts ! r) = ROwner \<and> \<not> tk_gone (ts ! r) \<and> (r, t) \<in> (holding ts)\<^sup>*"
proof (induction t rule: less_induct)
  case (less t)
  show ?case
  proof (cases "tk_role (ts ! t) = ROwner")
    case True with less.prems show ?thesis by blast
  next
    case False
    with less.prems quiet have "kept ts t" using owned_ok_kept [OF ok] pending_None by blast
    then obtain h where h: "h < length ts" "t \<in> snd ` set (tk_holds (ts ! h))" by (rule keptE)
    then have "h < t" "\<not> tk_gone (ts ! h)" using owned_ok_holds [OF ok h(1)] by (auto simp: holds_ok_def)
    from less.IH [OF this(1) h(1) this(2)] obtain r where
      "r < length ts" "tk_role (ts ! r) = ROwner" "\<not> tk_gone (ts ! r)" "(r, h) \<in> (holding ts)\<^sup>*" by blast
    moreover have "(h, t) \<in> holding ts" using h by (simp add: holding_def)
    ultimately show ?thesis by (blast intro: rtrancl_into_rtrancl)
  qed
qed

text \<open>So once the roots hold nothing, nothing but roots is left.\<close>

lemma empty_roots_alone:
  assumes "owned_ok ts" "\<And>r. \<lbrakk>r < length ts; tk_role (ts ! r) = ROwner\<rbrakk> \<Longrightarrow> tk_holds (ts ! r) = []"
    and t: "t < length ts" "\<not> tk_gone (settle ts ! t)"
  shows "tk_role (ts ! t) = ROwner"
proof -
  let ?s = "settle ts"
  have len: "length ?s = length ts" using settle_frame by simp
  from running_rooted [OF owned_ok_settle [OF assms(1)] settle_quiet, of t] t len
  obtain r where r: "r < length ts" "tk_role (?s ! r) = ROwner" "(r, t) \<in> (holding ?s)\<^sup>*" by auto
  then have "tk_holds (?s ! r) = []" using assms(2) [of r] settle_frame [of ts] by auto
  with r(3) have "t = r" by (auto elim: converse_rtranclE simp: holding_def)
  with r show ?thesis using settle_frame [of ts] by auto
qed


section \<open>The tasks of a tether\<close>

text \<open>
  Task 0 runs \<open>run_client\<close>, and in it \<open>serve_over\<close> of one session after the other. Each
  session has a completion channel of its own, which its pumps report to.
\<close>

record tether_tasks =
  tt_tasks :: "spawned list"
  tt_session :: nat
  tt_done :: "stream_id list"

definition streams_of :: "(keeper \<times> tid) list \<Rightarrow> (stream_id \<times> tid) list" where
  "streams_of hs = List.map_filter (\<lambda>(k, c). case k of KStream sid \<Rightarrow> Some (sid, c) | _ \<Rightarrow> None) hs"

definition stream_table :: "tether_tasks \<Rightarrow> (stream_id \<times> tid) list" where
  "stream_table tt = streams_of (tk_holds (tt_tasks tt ! 0))"

definition session_open :: "tether_tasks \<Rightarrow> bool" where
  "session_open tt \<longleftrightarrow> map_of (tk_holds (tt_tasks tt ! 0)) KWriter \<noteq> None"

text \<open>The head of \<open>serve_over\<close>: the socket's writer, an empty stream map, a new channel.\<close>

definition session_starts :: "tether_tasks \<Rightarrow> tether_tasks" where
  "session_starts tt =
     (if tk_gone (tt_tasks tt ! 0) \<or> tk_holds (tt_tasks tt ! 0) \<noteq> [] then tt
      else tt\<lparr>tt_tasks := spawn_kept 0 KWriter RWriter (tt_tasks tt),
              tt_session := Suc (tt_session tt), tt_done := []\<rparr>)"

definition pump_opens :: "stream_id \<Rightarrow> tether_tasks \<Rightarrow> tether_tasks" where
  "pump_opens sid tt =
     (if tk_gone (tt_tasks tt ! 0) \<or> \<not> session_open tt \<or> MAX_CONCURRENT_STREAMS \<le> length (stream_table tt) then tt
      else tt\<lparr>tt_tasks := spawn_kept 0 (KStream sid) (RPump sid (tt_session tt)) (tt_tasks tt)\<rparr>)"

definition stream_removed :: "stream_id \<Rightarrow> tether_tasks \<Rightarrow> tether_tasks" where
  "stream_removed sid tt = tt\<lparr>tt_tasks := release 0 (KStream sid) (tt_tasks tt)\<rparr>"

definition completion_taken :: "tether_tasks \<Rightarrow> tether_tasks" where
  "completion_taken tt =
     (case tt_done tt of [] \<Rightarrow> tt | sid # rest \<Rightarrow> (stream_removed sid tt)\<lparr>tt_done := rest\<rparr>)"

text \<open>The end of \<open>serve_over\<close>: \<open>streams.clear()\<close>, the channels, \<open>drop(writer)\<close>.\<close>

definition session_over :: "tether_tasks \<Rightarrow> tether_tasks" where
  "session_over tt =
     tt\<lparr>tt_tasks := release 0 KWriter
          (fold (\<lambda>(sid, _). release 0 (KStream sid)) (stream_table tt) (tt_tasks tt)),
        tt_done := []\<rparr>"

text \<open>A pump: the connection of \<open>forward_engine\<close>, its return, the report of the stream.\<close>

definition is_pump :: "role \<Rightarrow> bool" where
  "is_pump r \<longleftrightarrow> (case r of RPump _ _ \<Rightarrow> True | _ \<Rightarrow> False)"

definition pump_at :: "progress list \<Rightarrow> tid \<Rightarrow> spawned list \<Rightarrow> bool" where
  "pump_at ps t ts \<longleftrightarrow>
     t < length ts \<and> is_pump (tk_role (ts ! t)) \<and> \<not> tk_gone (ts ! t) \<and> tk_progress (ts ! t) \<in> set ps"

definition set_progress :: "tid \<Rightarrow> progress \<Rightarrow> spawned list \<Rightarrow> spawned list" where
  "set_progress t p ts = ts[t := (ts ! t)\<lparr>tk_progress := p\<rparr>]"

definition engine_connects :: "tid \<Rightarrow> spawned list \<Rightarrow> spawned list" where
  "engine_connects t ts =
     (if pump_at [Dialing] t ts then spawn_kept t KConnection RConnection (set_progress t Exchanging ts)
      else ts)"

definition engine_answers :: "tid \<Rightarrow> spawned list \<Rightarrow> spawned list" where
  "engine_answers t ts =
     (if pump_at [Dialing, Exchanging] t ts then release t KConnection (set_progress t Replying ts) else ts)"

definition pump_reports :: "tid \<Rightarrow> tether_tasks \<Rightarrow> tether_tasks" where
  "pump_reports t tt =
     (if pump_at [Replying] t (tt_tasks tt)
      then (case tk_role (tt_tasks tt ! t) of
              RPump sid g \<Rightarrow>
                tt\<lparr>tt_tasks := vanish t (tt_tasks tt),
                   tt_done := tt_done tt @ (if g = tt_session tt \<and> session_open tt then [sid] else [])\<rparr>
            | _ \<Rightarrow> tt)
      else tt)"

definition task_goes :: "tid \<Rightarrow> spawned list \<Rightarrow> spawned list" where
  "task_goes t ts = (if t < length ts \<and> \<not> tk_gone (ts ! t) then vanish t ts else ts)"

datatype tether_task_event =
    SessionStarts
  | PumpOpens stream_id
  | StreamRemoved stream_id
  | CompletionTaken
  | SessionEnds
  | EngineConnects tid
  | EngineAnswers tid
  | PumpReports tid
  | TaskGoes tid

definition tether_task_step :: "tether_tasks \<Rightarrow> tether_task_event \<Rightarrow> tether_tasks" where
  "tether_task_step tt e =
     (case e of
        SessionStarts \<Rightarrow> session_starts tt
      | PumpOpens sid \<Rightarrow> pump_opens sid tt
      | StreamRemoved sid \<Rightarrow> stream_removed sid tt
      | CompletionTaken \<Rightarrow> completion_taken tt
      | SessionEnds \<Rightarrow> session_over tt
      | EngineConnects t \<Rightarrow> tt\<lparr>tt_tasks := engine_connects t (tt_tasks tt)\<rparr>
      | EngineAnswers t \<Rightarrow> tt\<lparr>tt_tasks := engine_answers t (tt_tasks tt)\<rparr>
      | PumpReports t \<Rightarrow> pump_reports t tt
      | TaskGoes t \<Rightarrow> tt\<lparr>tt_tasks := task_goes t (tt_tasks tt)\<rparr>)"

definition tether_tasks_start :: "tether_tasks \<Rightarrow> bool" where
  "tether_tasks_start tt \<longleftrightarrow> tt = \<lparr>tt_tasks = [new_task ROwner], tt_session = 0, tt_done = []\<rparr>"

section \<open>The tasks of a hub\<close>

text \<open>
  The accept loops spawn a task for every tether and every caller and keep nothing of it:
  these are roots, which end by themselves. The task of a tether session keeps its writer,
  the one of a caller, through the \<open>StreamGuard\<close> of its response, the upload of its request;
  the session's \<open>complete\<close> and \<open>fail\<close> cancel the upload as well.
\<close>

datatype accept_result = AcceptOk | AcceptFailed

definition tether_accept :: "accept_result \<Rightarrow> spawned list \<Rightarrow> spawned list" where
  "tether_accept r ts = (case r of AcceptOk \<Rightarrow> ts @ [new_task ROwner] | AcceptFailed \<Rightarrow> ts)"

definition caller_accept :: "accept_result \<Rightarrow> spawned list \<Rightarrow> spawned list" where
  "caller_accept r ts = (case r of AcceptOk \<Rightarrow> ts @ [new_task ROwner] | AcceptFailed \<Rightarrow> ts)"

datatype hub_task_event =
    TetherAccept accept_result
  | CallerAccept accept_result
  | SessionAttached tid
  | SessionDetached tid
  | UploadStarted tid
  | GuardDropped tid
  | UploadFinished tid
  | HubTaskGoes tid

definition live_root :: "tid \<Rightarrow> spawned list \<Rightarrow> bool" where
  "live_root h ts \<longleftrightarrow> h < length ts \<and> tk_role (ts ! h) = ROwner \<and> \<not> tk_gone (ts ! h)"

definition hub_task_step :: "spawned list \<Rightarrow> hub_task_event \<Rightarrow> spawned list" where
  "hub_task_step ts e =
     (case e of
        TetherAccept r \<Rightarrow> tether_accept r ts
      | CallerAccept r \<Rightarrow> caller_accept r ts
      | SessionAttached h \<Rightarrow>
          if live_root h ts \<and> tk_holds (ts ! h) = [] then spawn_kept h KWriter RWriter ts else ts
      | SessionDetached h \<Rightarrow> if live_root h ts then release h KWriter ts else ts
      | UploadStarted h \<Rightarrow> if live_root h ts then spawn_kept h KUpload RUpload ts else ts
      | GuardDropped h \<Rightarrow> if live_root h ts then release h KUpload ts else ts
      | UploadFinished t \<Rightarrow> if t < length ts \<and> tk_role (ts ! t) = RUpload then abort_task t ts else ts
      | HubTaskGoes t \<Rightarrow> task_goes t ts)"

definition hub_tasks_start :: "spawned list \<Rightarrow> bool" where
  "hub_tasks_start ts \<longleftrightarrow> ts = [new_task ROwner]"

section \<open>The proxy's listener and the socket writers\<close>

text \<open>
  The loop of \<open>run_proxy\<close>: \<open>accept?\<close> leaves it with the error, the interrupt with success; before
  that it goes on waiting.
\<close>

datatype proxy_event = ProxyAccept accept_result | Interrupt

fun proxy_loop :: "proxy_event list \<Rightarrow> spawned list \<Rightarrow> (string + unit) option \<times> spawned list" where
  "proxy_loop [] ts = (None, ts)"
| "proxy_loop (ProxyAccept AcceptOk # es) ts = proxy_loop es (ts @ [new_task ROwner])"
| "proxy_loop (ProxyAccept AcceptFailed # _) ts = (Some (Inl ''accept''), ts)"
| "proxy_loop (Interrupt # _) ts = (Some (Inr ()), ts)"

text \<open>
  The writer tasks: the messages the channel yields, each with whether \<open>sink.send\<close> took it, and
  what reached the sink. The tether's ends quietly at a failure, the hub's with the error.
\<close>

fun tether_writer :: "('m \<times> bool) list \<Rightarrow> 'm list" where
  "tether_writer [] = []"
| "tether_writer ((m, ok) # ms) = (if ok then m # tether_writer ms else [])"

fun hub_writer :: "('m \<times> bool) list \<Rightarrow> 'm list \<times> (string + unit)" where
  "hub_writer [] = ([], Inr ())"
| "hub_writer ((m, ok) # ms) =
     (if ok then (let (sent, r) = hub_writer ms in (m # sent, r)) else ([], Inl ''websocket error''))"

section \<open>The invariant of both\<close>

lemma owned_ok_init: "owned_ok [new_task ROwner]"
  by (simp add: owned_ok_def holds_ok_def new_task_def)

lemma owned_ok_goes: "owned_ok ts \<Longrightarrow> owned_ok (task_goes t ts)"
  by (simp add: task_goes_def owned_ok_vanish)

lemma length_set_progress [simp]: "length (set_progress t p ts) = length ts"
  by (simp add: set_progress_def)

lemma set_progress_nth:
  "i < length ts \<Longrightarrow>
     set_progress t p ts ! i = (ts ! i)\<lparr>tk_progress := if i = t then p else tk_progress (ts ! i)\<rparr>"
  by (auto simp: set_progress_def nth_list_update)

lemma owned_ok_progress:
  assumes ok: "owned_ok ts"
  shows "owned_ok (set_progress t p ts)"
proof (rule owned_okI)
  fix h assume "h < length (set_progress t p ts)"
  with owned_ok_holds [OF ok, of h] show "holds_ok (set_progress t p ts) h"
    by (auto simp: holds_ok_def set_progress_nth)
next
  fix c assume "c < length (set_progress t p ts)" "tk_role (set_progress t p ts ! c) \<noteq> ROwner"
    "\<not> tk_gone (set_progress t p ts ! c)" "\<not> tk_asked (set_progress t p ts ! c)"
  then have "kept ts c" using owned_ok_kept [OF ok, of c] by (simp add: set_progress_nth)
  then obtain h where "h < length ts" "c \<in> snd ` set (tk_holds (ts ! h))" by (rule keptE)
  then show "kept (set_progress t p ts) c" by (intro keptI [of h]) (simp_all add: set_progress_nth)
qed

lemma owned_ok_connects: "owned_ok ts \<Longrightarrow> owned_ok (engine_connects t ts)"
  unfolding engine_connects_def
  by (auto simp: pump_at_def is_pump_def set_progress_nth split: role.splits
      intro!: owned_ok_spawn_kept owned_ok_progress)

lemma owned_ok_answers: "owned_ok ts \<Longrightarrow> owned_ok (engine_answers t ts)"
  unfolding engine_answers_def
  by (auto simp: pump_at_def intro!: owned_ok_release owned_ok_progress)

lemma owned_ok_accept:
  "owned_ok ts \<Longrightarrow> owned_ok (tether_accept r ts)" "owned_ok ts \<Longrightarrow> owned_ok (caller_accept r ts)"
  by (simp_all add: tether_accept_def caller_accept_def owned_ok_root split: accept_result.split)

lemma hub_tasks_ok_step: "owned_ok ts \<Longrightarrow> owned_ok (hub_task_step ts e)"
  by (auto simp: hub_task_step_def live_root_def split: hub_task_event.split
      intro: owned_ok_accept owned_ok_spawn_kept owned_ok_release owned_ok_abort owned_ok_goes)

interpretation hub_tasks_machine: invariant_machine hub_task_step hub_tasks_start owned_ok
  by unfold_locales (auto simp: hub_tasks_start_def owned_ok_init hub_tasks_ok_step)


text \<open>No operation changes the part a task plays.\<close>

definition roles :: "spawned list \<Rightarrow> role list" where
  "roles ts = map tk_role ts"

lemma roles_update: "tk_role x = tk_role (ts ! h) \<Longrightarrow> roles (ts[h := x]) = roles ts"
  unfolding roles_def
proof (rule nth_equalityI)
  fix i assume "tk_role x = tk_role (ts ! h)" "i < length (map tk_role (ts[h := x]))"
  then show "map tk_role (ts[h := x]) ! i = map tk_role ts ! i" by (cases "h = i") auto
qed simp

lemma roles_abort [simp]: "roles (abort_task t ts) = roles ts"
  by (simp add: abort_task_def roles_update)

lemma roles_drop [simp]: "roles (drop_handle h ts) = roles ts"
  by (simp add: drop_handle_abort)

lemma roles_drop_all [simp]: "roles (fold drop_handle hs ts) = roles ts"
  by (induction hs arbitrary: ts) auto

lemma roles_release [simp]: "roles (release h k ts) = roles ts"
  by (simp add: release_def roles_update split: option.split)

lemma roles_vanish [simp]: "roles (vanish t ts) = roles ts"
  by (simp add: vanish_def roles_update)

lemma roles_progress [simp]: "roles (set_progress t p ts) = roles ts"
  by (simp add: set_progress_def roles_update)

lemma roles_append [simp]: "roles (ts @ us) = roles ts @ roles us"
  by (simp add: roles_def)

lemma roles_spawn [simp]: "roles (spawn_kept h k r ts) = roles ts @ [r]"
proof -
  have "roles [new_task r] = [r]" by (simp add: roles_def new_task_def)
  then show ?thesis by (simp add: spawn_kept_def Let_def roles_update split: option.split)
qed

lemma roles_goes [simp]: "roles (task_goes t ts) = roles ts"
  by (simp add: task_goes_def)

lemma roles_answers [simp]: "roles (engine_answers t ts) = roles ts"
  by (simp add: engine_answers_def)

lemma nth_roles: "i < length ts \<Longrightarrow> tk_role (ts ! i) = roles ts ! i"
  by (simp add: roles_def)

lemma length_roles [simp]: "length (roles ts) = length ts"
  by (simp add: roles_def)

text \<open>In a tether, task 0 is the one root and nothing is uploaded.\<close>

definition tether_roles :: "role list \<Rightarrow> bool" where
  "tether_roles rs \<longleftrightarrow> rs \<noteq> [] \<and> hd rs = ROwner \<and> ROwner \<notin> set (tl rs) \<and> RUpload \<notin> set rs"

lemma tether_roles_snoc:
  "tether_roles rs \<Longrightarrow> r \<noteq> ROwner \<Longrightarrow> r \<noteq> RUpload \<Longrightarrow> tether_roles (rs @ [r])"
  by (cases rs) (auto simp: tether_roles_def)

definition tether_tasks_ok :: "tether_tasks \<Rightarrow> bool" where
  "tether_tasks_ok tt \<longleftrightarrow> owned_ok (tt_tasks tt) \<and> tether_roles (roles (tt_tasks tt))"

lemma tether_root:
  assumes "tether_roles (roles ts)"
  shows "0 < length ts" "tk_role (ts ! 0) = ROwner"
    and "\<lbrakk>c < length ts; tk_role (ts ! c) = ROwner\<rbrakk> \<Longrightarrow> c = 0"
    and "c < length ts \<Longrightarrow> tk_role (ts ! c) \<noteq> RUpload"
proof -
  from assms obtain rs where rs: "roles ts = ROwner # rs" "ROwner \<notin> set rs" "RUpload \<notin> set (roles ts)"
    by (cases "roles ts") (auto simp: tether_roles_def)
  then show pos: "0 < length ts" using length_roles [of ts] by auto
  with rs show "tk_role (ts ! 0) = ROwner" by (simp add: nth_roles)
  show "c = 0" if "c < length ts" "tk_role (ts ! c) = ROwner"
  proof (cases c)
    case (Suc d)
    with that(1) rs(1) length_roles [of ts] have "d < length rs" by auto
    then have "rs ! d \<in> set rs" by simp
    with Suc that rs show ?thesis by (simp add: nth_roles)
  qed
  show "tk_role (ts ! c) \<noteq> RUpload" if "c < length ts"
    using that rs(3) by (metis length_roles nth_mem nth_roles)
qed

lemma owned_ok_release_root: "owned_ok ts \<Longrightarrow> ts \<noteq> [] \<Longrightarrow> owned_ok (release 0 k ts)"
  by (simp add: owned_ok_release)

lemma tether_ok_release: "tether_tasks_ok tt \<Longrightarrow> tether_tasks_ok (tt\<lparr>tt_tasks := release 0 k (tt_tasks tt)\<rparr>)"
  by (auto simp: tether_tasks_ok_def intro: owned_ok_release dest: tether_root(1))

lemma tether_tasks_frame:
  "tt_tasks tt' = tt_tasks tt \<Longrightarrow> tether_tasks_ok tt' = tether_tasks_ok tt"
  by (simp add: tether_tasks_ok_def)

lemma ok_release_streams:
  "owned_ok ts \<Longrightarrow> ts \<noteq> [] \<Longrightarrow>
     owned_ok (fold (\<lambda>(sid, _). release 0 (KStream sid)) l ts) \<and>
     roles (fold (\<lambda>(sid, _). release 0 (KStream sid)) l ts) = roles ts \<and>
     length (fold (\<lambda>(sid, _). release 0 (KStream sid)) l ts) = length ts"
proof (induction l arbitrary: ts)
  case (Cons a l)
  from Cons.IH [of "release 0 (KStream (fst a)) ts"] Cons.prems show ?case
    by (cases a) (simp add: owned_ok_release_root)
qed simp

lemma tether_ok_ends: "tether_tasks_ok tt \<Longrightarrow> tether_tasks_ok (session_over tt)"
  using ok_release_streams [of "tt_tasks tt" "stream_table tt"] tether_root(1) [of "tt_tasks tt"]
  by (simp add: tether_tasks_ok_def session_over_def owned_ok_release)

lemma tether_tasks_ok_start: "tether_tasks_start tt \<Longrightarrow> tether_tasks_ok tt"
  by (simp add: tether_tasks_start_def tether_tasks_ok_def owned_ok_init)
    (simp add: roles_def new_task_def tether_roles_def)

lemma tether_tasks_ok_step:
  assumes ok: "tether_tasks_ok tt"
  shows "tether_tasks_ok (tether_task_step tt e)"
proof -
  have parts: "owned_ok (tt_tasks tt)" "tether_roles (roles (tt_tasks tt))"
    using ok by (simp_all add: tether_tasks_ok_def)
  note root = tether_root [OF parts(2)]
  show ?thesis
  proof (cases e)
    case SessionStarts
    with parts root(1,2) show ?thesis
      by (auto simp: tether_task_step_def session_starts_def tether_tasks_ok_def
          intro!: owned_ok_spawn_kept tether_roles_snoc)
  next
    case (PumpOpens sid)
    with parts root(1,2) show ?thesis
      by (auto simp: tether_task_step_def pump_opens_def tether_tasks_ok_def
          intro!: owned_ok_spawn_kept tether_roles_snoc)
  next
    case (EngineConnects t)
    have "tether_roles (roles (engine_connects t (tt_tasks tt)))"
      using parts(2) by (simp add: engine_connects_def tether_roles_snoc)
    with EngineConnects parts show ?thesis
      by (simp add: tether_task_step_def tether_tasks_ok_def owned_ok_connects)
  next
    case (PumpReports t)
    with parts show ?thesis
      by (auto simp: tether_task_step_def pump_reports_def tether_tasks_ok_def pump_at_def owned_ok_vanish
          split: role.split)
  next
    case (StreamRemoved sid)
    with ok show ?thesis by (simp add: tether_task_step_def stream_removed_def tether_ok_release)
  next
    case CompletionTaken
    have "tether_tasks_ok (x\<lparr>tt_done := d\<rparr>) = tether_tasks_ok x" for x d by (rule tether_tasks_frame) simp
    with CompletionTaken ok show ?thesis
      by (simp add: tether_task_step_def completion_taken_def stream_removed_def tether_ok_release split: list.split)
  next
    case SessionEnds
    with ok show ?thesis by (simp add: tether_task_step_def tether_ok_ends)
  qed (use parts in \<open>simp_all add: tether_task_step_def tether_tasks_ok_def owned_ok_answers owned_ok_goes\<close>)
qed

interpretation tether_tasks_machine: invariant_machine tether_task_step tether_tasks_start tether_tasks_ok
  by unfold_locales (auto intro: tether_tasks_ok_start tether_tasks_ok_step)

text \<open>At the end of a session the client holds nothing.\<close>

lemma released_streams:
  assumes "0 < length ts"
  shows "set (tk_holds (fold (\<lambda>(sid, _). release 0 (KStream sid)) l ts ! 0)) =
    {p \<in> set (tk_holds (ts ! 0)). fst p \<notin> KStream ` fst ` set l}"
  using assms
proof (induction l arbitrary: ts)
  case (Cons a l)
  from Cons.IH [of "release 0 (KStream (fst a)) ts"] Cons.prems
  show ?case by (cases a) (auto simp: release_nth set_delete)
qed simp

lemma set_streams_of: "(sid, c) \<in> set (streams_of hs) \<longleftrightarrow> (KStream sid, c) \<in> set hs"
  by (induction hs) (auto simp: streams_of_def List.map_filter_def split: keeper.splits)

lemma session_over_empty:
  assumes ok: "tether_tasks_ok tt"
  shows "tk_holds (tt_tasks (session_over tt) ! 0) = []"
proof -
  let ?ts = "tt_tasks tt" and ?us = "fold (\<lambda>(sid, _). release 0 (KStream sid)) (stream_table tt) (tt_tasks tt)"
  have parts: "owned_ok ?ts" "tether_roles (roles ?ts)" using ok by (simp_all add: tether_tasks_ok_def)
  note root = tether_root [OF parts(2)]
  have "p = KWriter" if "(p, c) \<in> set (tk_holds (?us ! 0))" for p c
  proof -
    from that have p: "(p, c) \<in> set (tk_holds (?ts ! 0))" "p \<notin> KStream ` fst ` set (stream_table tt)"
      by (auto simp: released_streams [OF root(1)])
    then have "c < length ?ts \<and> keeps (tk_role (?ts ! 0)) p (tk_role (?ts ! c))"
      using owned_ok_holds [OF parts(1) root(1)] by (auto simp: holds_ok_def)
    with root(2,4) have "p = KWriter \<or> (\<exists>sid. p = KStream sid)"
      by (cases p; cases "tk_role (?ts ! c)") auto
    moreover have "(sid, c) \<in> set (stream_table tt)" if "p = KStream sid" for sid
      using p(1) that by (simp add: stream_table_def set_streams_of)
    ultimately show ?thesis using p(2) by force
  qed
  then have "set (AList.delete KWriter (tk_holds (?us ! 0))) = {}" by (auto simp: set_delete)
  then show ?thesis
    using ok_release_streams [OF parts(1), of "stream_table tt"] root(1) by (simp add: session_over_def release_nth)
qed


section \<open>The session of the tunnel on its tasks\<close>

text \<open>
  \<open>Tunnel\<close> keeps, for the pumps of one session, which stream each serves and whether it was
  aborted. \<open>f\<close> lists the tasks that run these pumps.
\<close>

definition session_rel :: "tid list \<Rightarrow> tether_session \<Rightarrow> tether_tasks \<Rightarrow> bool" where
  "session_rel f t tt \<longleftrightarrow>
     length f = length (ts_pumps t) \<and> distinct f \<and>
     (\<forall>p < length f. f ! p < length (tt_tasks tt) \<and> is_pump (tk_role (tt_tasks tt ! (f ! p))) \<and>
        tk_asked (tt_tasks tt ! (f ! p)) = pm_aborted (ts_pumps t ! p)) \<and>
     (\<forall>p \<in> snd ` set (ts_streams t). p < length f) \<and>
     stream_table tt = map (\<lambda>(sid, p). (sid, f ! p)) (ts_streams t)"

text \<open>What one pass of \<open>run_session\<close> asks of the tasks.\<close>

definition task_events :: "send_result \<Rightarrow> tether_event \<Rightarrow> tether_session \<Rightarrow> tether_task_event list" where
  "task_events in_res ev t =
     (case ev of
        PumpDone sid \<Rightarrow> [StreamRemoved sid]
      | FromHub (HubFrame m) \<Rightarrow>
          (case tether_decode m of
             Inr (Some (Open sid _)) \<Rightarrow>
               if MAX_CONCURRENT_STREAMS \<le> length (ts_streams t) then [] else [PumpOpens sid]
           | Inr (Some (End sid _)) \<Rightarrow> [StreamRemoved sid]
           | Inr (Some (Data sid _)) \<Rightarrow> if in_res = Full then [StreamRemoved sid] else []
           | Inr (Some (HalfEnd sid)) \<Rightarrow> if in_res = Full then [StreamRemoved sid] else []
           | _ \<Rightarrow> [])
      | _ \<Rightarrow> [])"

lemma streams_of_Nil [simp]: "streams_of [] = []"
  by (simp add: streams_of_def)

lemma streams_of_Cons [simp]:
  "streams_of ((k, c) # hs) = (case k of KStream sid \<Rightarrow> (sid, c) # streams_of hs | _ \<Rightarrow> streams_of hs)"
  by (cases k) (simp_all add: streams_of_def)

lemma streams_of_update: "streams_of (AList.update (KStream sid) c hs) = AList.update sid c (streams_of hs)"
  by (induction hs) (auto split: keeper.split)

lemma streams_of_delete: "streams_of (AList.delete (KStream sid) hs) = AList.delete sid (streams_of hs)"
  by (induction hs) (auto simp: AList.delete_eq split: keeper.split)

lemma streams_of_lookup: "map_of (streams_of hs) sid = map_of hs (KStream sid)"
  by (induction hs) (auto split: keeper.split)

lemma set_update_subset: "set (AList.update k v xs) \<subseteq> insert (k, v) (set xs)"
  by (induction xs) auto

lemma map_update_snd:
  "map (\<lambda>(k, v). (k, g v)) (AList.update k v xs) = AList.update k (g v) (map (\<lambda>(k, v). (k, g v)) xs)"
  by (induction xs) auto

lemma map_delete_snd:
  "map (\<lambda>(k, v). (k, g v)) (AList.delete k xs) = AList.delete k (map (\<lambda>(k, v). (k, g v)) xs)"
  by (induction xs) (auto simp: AList.delete_eq)

lemma map_of_snd: "map_of (map (\<lambda>(k, v). (k, g v)) xs) k = map_option g (map_of xs k)"
  by (induction xs) auto

lemma release_role: "i < length ts \<Longrightarrow> tk_role (release h k ts ! i) = tk_role (ts ! i)"
  by (simp add: nth_roles)

lemma rel_table_lookup:
  assumes "session_rel f t tt"
  shows "map_of (tk_holds (tt_tasks tt ! 0)) (KStream sid) = map_option ((!) f) (map_of (ts_streams t) sid)"
  using assms unfolding session_rel_def stream_table_def
  by (metis map_of_snd streams_of_lookup)

lemma upd_pump_table [simp]: "ts_streams (upd_pump p g t) = ts_streams t"
  by (simp add: upd_pump_def)

lemma rel_input:
  assumes "session_rel f t tt" "\<And>pm. pm_aborted (g pm) = pm_aborted pm"
  shows "session_rel f (upd_pump p g t) tt"
proof -
  have "pm_aborted ((ts_pumps t)[p := g (ts_pumps t ! p)] ! q) = pm_aborted (ts_pumps t ! q)" for q
    by (cases "p = q"; cases "q < length (ts_pumps t)") (simp_all add: assms(2) list_update_beyond)
  with assms(1) show ?thesis by (auto simp: session_rel_def upd_pump_def)
qed

lemma abort_pump_asked:
  "p < length (ts_pumps t) \<Longrightarrow>
     pm_aborted (ts_pumps (abort_pump q t) ! p) \<longleftrightarrow> pm_aborted (ts_pumps t ! p) \<or> q = p"
  by (cases "p = q") (simp_all add: abort_pump_def upd_pump_def)

lemma abort_pump_frame [simp]:
  "ts_streams (abort_pump q t) = ts_streams t" "length (ts_pumps (abort_pump q t)) = length (ts_pumps t)"
  by (simp_all add: abort_pump_def upd_pump_def)

text \<open>Removing a stream from the table asks for the abort of its pump, on both sides.\<close>

lemma rel_drop:
  assumes rel: "session_rel f t tt" and ne: "tt_tasks tt \<noteq> []"
  shows "session_rel f (drop_stream sid t) (stream_removed sid tt)"
proof (cases "map_of (ts_streams t) sid")
  case None
  with rel_table_lookup [OF rel, of sid] have "stream_removed sid tt = tt"
    by (simp add: stream_removed_def release_def)
  with None rel show ?thesis by (simp add: drop_stream_def)
next
  case (Some q)
  let ?t = "drop_stream sid t" and ?u = "stream_removed sid tt"
  have len: "length f = length (ts_pumps t)" and dist: "distinct f" and q: "q < length f"
    using rel map_of_SomeD [OF Some] by (auto simp: session_rel_def)
  have look: "map_of (tk_holds (tt_tasks tt ! 0)) (KStream sid) = Some (f ! q)"
    using rel_table_lookup [OF rel] Some by simp
  have table: "stream_table ?u = AList.delete sid (stream_table tt)"
    using ne by (simp add: stream_table_def stream_removed_def release_nth streams_of_delete)
  have "tk_asked (tt_tasks ?u ! (f ! p)) = pm_aborted (ts_pumps ?t ! p)" if p: "p < length f" for p
  proof -
    have "f ! p < length (tt_tasks tt)" "tk_asked (tt_tasks tt ! (f ! p)) = pm_aborted (ts_pumps t ! p)"
      using rel p by (auto simp: session_rel_def)
    then show ?thesis
      using Some look p q ne dist len
      by (auto simp: stream_removed_def release_nth drop_stream_def abort_pump_def upd_pump_def
          nth_list_update nth_eq_iff_index_eq)
  qed
  then show ?thesis
    using rel Some table
    by (auto simp: session_rel_def stream_removed_def drop_stream_def abort_pump_def upd_pump_def
        map_delete_snd set_delete release_role)
qed

lemma rel_open:
  assumes rel: "session_rel f t tt" and ne: "tt_tasks tt \<noteq> []"
    and run: "\<not> tk_gone (tt_tasks tt ! 0)" "session_open tt"
    and room: "\<not> MAX_CONCURRENT_STREAMS \<le> length (ts_streams t)"
  shows "session_rel (f @ [length (tt_tasks tt)]) (open_stream sid head t) (pump_opens sid tt)"
proof -
  let ?t = "open_stream sid head t" and ?u = "pump_opens sid tt" and ?ts = "tt_tasks tt"
  let ?f = "f @ [length ?ts]"
  have parts: "length f = length (ts_pumps t)" "distinct f" "stream_table tt = map (\<lambda>(sid, p). (sid, f ! p)) (ts_streams t)"
    "\<And>p. p < length f \<Longrightarrow>
       f ! p < length ?ts \<and> is_pump (tk_role (?ts ! (f ! p))) \<and> tk_asked (?ts ! (f ! p)) = pm_aborted (ts_pumps t ! p)"
    "\<And>s p. (s, p) \<in> set (ts_streams t) \<Longrightarrow> p < length f"
    using rel by (auto simp: session_rel_def)
  have u: "tt_tasks ?u = spawn_kept 0 (KStream sid) (RPump sid (tt_session tt)) ?ts"
    using run room parts(3) by (simp add: pump_opens_def)
  have look: "map_of (tk_holds (?ts ! 0)) (KStream sid) = map_option ((!) f) (map_of (ts_streams t) sid)"
    by (rule rel_table_lookup [OF rel])
  have len: "length (ts_pumps ?t) = Suc (length (ts_pumps t))"
    by (simp add: open_stream_def Let_def abort_pump_def upd_pump_def split: option.split)
  have "length ?ts \<notin> set f" using parts(4) by (metis in_set_conv_nth less_irrefl)
  then have new: "distinct ?f" using parts(2) by simp
  have asked: "tk_asked (tt_tasks ?u ! (?f ! p)) = pm_aborted (ts_pumps ?t ! p)" if p: "p < length ?f" for p
  proof (cases "p = length f")
    case True
    then show ?thesis using ne parts(1)
      by (auto simp: u spawn_kept_new new_task_def open_stream_def Let_def nth_append abort_pump_def upd_pump_def
          split: option.split)
  next
    case False
    with p have p: "p < length f" by simp
    have "tk_asked (tt_tasks ?u ! (f ! p)) \<longleftrightarrow> pm_aborted (ts_pumps t ! p) \<or> map_of (ts_streams t) sid = Some p"
    proof -
      have "map_option ((!) f) (map_of (ts_streams t) sid) = Some (f ! p) \<longleftrightarrow> map_of (ts_streams t) sid = Some p"
        using p parts(2) parts(5) [OF map_of_SomeD] by (auto simp: nth_eq_iff_index_eq)
      with parts(4) [OF p] ne look show ?thesis by (simp add: u spawn_kept_nth)
    qed
    with p parts(1) show ?thesis
      by (auto simp: nth_append open_stream_def Let_def abort_pump_asked split: option.split)
  qed
  have "stream_table ?u = AList.update sid (length ?ts) (stream_table tt)"
    using ne by (simp add: stream_table_def u spawn_kept_nth streams_of_update)
  moreover have "map (\<lambda>(s, p). (s, f ! p)) (ts_streams t) = map (\<lambda>(s, p). (s, ?f ! p)) (ts_streams t)"
    using parts(5) by (auto simp: nth_append)
  moreover have st: "ts_streams ?t = AList.update sid (length (ts_pumps t)) (ts_streams t)"
    by (simp add: open_stream_def Let_def abort_pump_def split: option.split)
  moreover have "?f ! length (ts_pumps t) = length ?ts" using parts(1) by (metis nth_append_length)
  ultimately have table: "stream_table ?u = map (\<lambda>(s, p). (s, ?f ! p)) (ts_streams ?t)"
    using parts(3) by (simp add: map_update_snd)
  have "p < length ?f" if "(s, p) \<in> set (ts_streams ?t)" for s p
  proof -
    have "p = length (ts_pumps t) \<or> (s, p) \<in> set (ts_streams t)"
      using that set_update_subset [of sid "length (ts_pumps t)" "ts_streams t"] unfolding st by auto
    with parts(1,5) show ?thesis by force
  qed
  moreover have "?f ! p < length (tt_tasks ?u) \<and> is_pump (tk_role (tt_tasks ?u ! (?f ! p)))" if "p < length ?f" for p
  proof (cases "p = length f")
    case True
    with ne show ?thesis by (simp add: u spawn_kept_new new_task_def is_pump_def)
  next
    case False
    with that have "p < length f" by simp
    with parts(4) [OF this] ne show ?thesis by (simp add: u nth_append spawn_kept_nth)
  qed
  ultimately show ?thesis using new asked table len parts(1) by (auto simp: session_rel_def)
qed


lemma rel_frame:
  assumes "session_rel f t tt" "ts_streams t' = ts_streams t" "ts_pumps t' = ts_pumps t"
  shows "session_rel f t' tt"
  using assms by (auto simp: session_rel_def)

lemma rel_send: "session_rel f t tt \<Longrightarrow> session_rel f (snd (tether_send res fr t)) tt"
  by (erule rel_frame) (simp_all add: tether_send_def)

lemma rel_feed:
  assumes rel: "session_rel f t tt" and ne: "tt_tasks tt \<noteq> []"
  shows "session_rel f (snd (feed_stream in_res res sid bytes t))
    (if in_res = Full then stream_removed sid tt else tt)"
proof (cases "map_of (ts_streams t) sid")
  case None
  with rel_drop [OF rel ne, of sid] rel show ?thesis
    by (simp add: feed_stream_def enqueue_stream_input_def drop_stream_def)
next
  case (Some p)
  with rel rel_drop [OF rel ne, of sid] rel_input [OF rel] rel_send show ?thesis
    by (cases in_res) (simp_all add: feed_stream_def enqueue_stream_input_def)
qed


lemma released_asked:
  assumes "ts \<noteq> []" "i < length ts"
  shows "tk_asked (fold (\<lambda>(sid, _). release 0 (KStream sid)) l ts ! i) \<longleftrightarrow>
    tk_asked (ts ! i) \<or> (\<exists>sid \<in> fst ` set l. map_of (tk_holds (ts ! 0)) (KStream sid) = Some i)"
  using assms
proof (induction l arbitrary: ts)
  case (Cons a l)
  have iff: "(if b then None else x) = Some i \<longleftrightarrow> \<not> b \<and> x = Some i" for b x by simp
  from Cons.IH [of "release 0 (KStream (fst a)) ts"] Cons.prems
  have "tk_asked (fold (\<lambda>(sid, _). release 0 (KStream sid)) (a # l) ts ! i) \<longleftrightarrow>
    (tk_asked (ts ! i) \<or> map_of (tk_holds (ts ! 0)) (KStream (fst a)) = Some i) \<or>
    (\<exists>sid \<in> fst ` set l. sid \<noteq> fst a \<and> map_of (tk_holds (ts ! 0)) (KStream sid) = Some i)"
    by (cases a) (simp add: release_nth AList.delete_conv' iff)
  then show ?case by (simp, metis)
qed simp

lemma released_role:
  "i < length ts \<Longrightarrow> tk_role (fold (\<lambda>(sid, _). release 0 (KStream sid)) l ts ! i) = tk_role (ts ! i)"
  by (induction l arbitrary: ts) (auto simp: nth_roles)

lemma held_role:
  assumes "owned_ok ts" "h < length ts" "map_of (tk_holds (ts ! h)) k = Some c"
  shows "c < length ts \<and> keeps (tk_role (ts ! h)) k (tk_role (ts ! c))"
  using owned_ok_holds [OF assms(1,2)] map_of_SomeD [OF assms(3)] by (auto simp: holds_ok_def)

lemma map_of_range: "distinct (map fst xs) \<Longrightarrow> (\<exists>k. map_of xs k = Some v) \<longleftrightarrow> v \<in> snd ` set xs"
  by (auto dest: map_of_SomeD intro: rev_image_eqI map_of_is_SomeI)

text \<open>The end of a session is the teardown of the tunnel.\<close>

lemma rel_teardown:
  assumes rel: "session_rel f t tt" and ok: "tether_tasks_ok tt" and t: "tether_ok t"
  shows "session_rel f (tether_teardown t) (session_over tt)"
proof -
  let ?ts = "tt_tasks tt" and ?us = "fold (\<lambda>(sid, _). release 0 (KStream sid)) (stream_table tt) (tt_tasks tt)"
  have parts: "owned_ok ?ts" "tether_roles (roles ?ts)" using ok by (simp_all add: tether_tasks_ok_def)
  note root = tether_root [OF parts(2)]
  have us: "owned_ok ?us" "length ?us = length ?ts"
    using ok_release_streams [OF parts(1), of "stream_table tt"] root(1) by auto
  have f: "length f = length (ts_pumps t)" "distinct f" "\<And>p. p \<in> snd ` set (ts_streams t) \<Longrightarrow> p < length f"
    "\<And>p. p < length f \<Longrightarrow> f ! p < length ?ts \<and> is_pump (tk_role (?ts ! (f ! p))) \<and>
       tk_asked (?ts ! (f ! p)) = pm_aborted (ts_pumps t ! p)"
    using rel by (auto simp: session_rel_def)
  have table: "stream_table tt = map (\<lambda>(sid, p). (sid, f ! p)) (ts_streams t)"
    using rel by (simp add: session_rel_def)
  have "tk_asked (tt_tasks (session_over tt) ! (f ! p)) = pm_aborted (ts_pumps (tether_teardown t) ! p)"
    if p: "p < length f" for p
  proof -
    have "map_of (tk_holds (?us ! 0)) KWriter \<noteq> Some (f ! p)"
    proof
      assume w: "map_of (tk_holds (?us ! 0)) KWriter = Some (f ! p)"
      have "keeps (tk_role (?ts ! 0)) KWriter (tk_role (?ts ! (f ! p)))"
        using held_role [OF us(1) _ w] us(2) root(1) f(4) [OF p] by (simp add: released_role)
      with f(4) [OF p] root(2) show False by (cases "tk_role (?ts ! (f ! p))") (auto simp: is_pump_def)
    qed
    then have "tk_asked (tt_tasks (session_over tt) ! (f ! p)) \<longleftrightarrow> tk_asked (?us ! (f ! p))"
      using us(2) root(1) f(4) [OF p] by (simp add: session_over_def release_nth)
    also have "\<dots> \<longleftrightarrow> tk_asked (?ts ! (f ! p)) \<or> (\<exists>sid. map_of (ts_streams t) sid = Some p)"
    proof -
      have "map_option ((!) f) (map_of (ts_streams t) sid) = Some (f ! p) \<longleftrightarrow> map_of (ts_streams t) sid = Some p" for sid
        using p f(2) f(3) [OF rev_image_eqI [OF map_of_SomeD]] by (auto simp: nth_eq_iff_index_eq)
      moreover have "sid \<in> fst ` set (stream_table tt)" if "map_of (ts_streams t) sid = Some p" for sid
        using map_of_SomeD [OF that] by (force simp: table)
      ultimately have "(\<exists>sid \<in> fst ` set (stream_table tt). map_of (tk_holds (?ts ! 0)) (KStream sid) = Some (f ! p)) \<longleftrightarrow>
        (\<exists>sid. map_of (ts_streams t) sid = Some p)"
        unfolding rel_table_lookup [OF rel] by blast
      then show ?thesis using released_asked [of ?ts "f ! p" "stream_table tt"] root(1) f(4) [OF p] by simp
    qed
    also have "(\<exists>sid. map_of (ts_streams t) sid = Some p) \<longleftrightarrow> p \<in> snd ` set (ts_streams t)"
      using t by (intro map_of_range) (simp add: tether_ok_def)
    finally show ?thesis
      using p f(1) f(4) [OF p] fold_abort [of "ts_streams t" t] f(3)
      by (auto simp: tether_teardown_def)
  qed
  moreover have "f ! p < length (tt_tasks (session_over tt)) \<and> is_pump (tk_role (tt_tasks (session_over tt) ! (f ! p)))"
    if "p < length f" for p
    using f(4) [OF that] us(2) root(1) by (simp add: session_over_def release_nth released_role)
  moreover have "stream_table (session_over tt) = []"
    using session_over_empty [OF ok] by (simp add: stream_table_def)
  ultimately show ?thesis using f(1,2) fold_abort [of "ts_streams t" t]
    by (simp add: session_rel_def tether_teardown_def)
qed


text \<open>What the other tasks do concerns no entry of the table.\<close>

lemma rel_others:
  assumes rel: "session_rel f t tt" and len: "length (tt_tasks tt) \<le> length (tt_tasks tt')"
    and same: "\<And>i. \<lbrakk>i < length (tt_tasks tt); is_pump (tk_role (tt_tasks tt ! i))\<rbrakk> \<Longrightarrow>
      tk_role (tt_tasks tt' ! i) = tk_role (tt_tasks tt ! i) \<and> tk_asked (tt_tasks tt' ! i) = tk_asked (tt_tasks tt ! i)"
    and client: "tk_holds (tt_tasks tt' ! 0) = tk_holds (tt_tasks tt ! 0)"
  shows "session_rel f t tt'"
proof -
  have p: "f ! p < length (tt_tasks tt) \<and> is_pump (tk_role (tt_tasks tt ! (f ! p))) \<and>
      tk_asked (tt_tasks tt ! (f ! p)) = pm_aborted (ts_pumps t ! p)" if "p < length f" for p
    using rel that by (simp add: session_rel_def)
  have "f ! p < length (tt_tasks tt') \<and> is_pump (tk_role (tt_tasks tt' ! (f ! p))) \<and>
      tk_asked (tt_tasks tt' ! (f ! p)) = pm_aborted (ts_pumps t ! p)" if "p < length f" for p
    using p [OF that] same [of "f ! p"] len by auto
  then show ?thesis using rel client by (auto simp: session_rel_def stream_table_def)
qed

lemma keeps_no_pump: "keeps r k r' \<Longrightarrow> r \<noteq> ROwner \<Longrightarrow> \<not> is_pump r'"
  by (cases "(r, k, r')" rule: keeps.cases) (auto simp: is_pump_def)

lemma others_hold_no_pump:
  assumes "owned_ok ts" "h < length ts" "tk_role (ts ! h) \<noteq> ROwner" "c \<in> snd ` set (tk_holds (ts ! h))"
  shows "\<not> is_pump (tk_role (ts ! c))"
proof -
  from assms(4) obtain k where "(k, c) \<in> set (tk_holds (ts ! h))" by auto
  with owned_ok_holds [OF assms(1,2)] have "keeps (tk_role (ts ! h)) k (tk_role (ts ! c))"
    by (auto simp: holds_ok_def)
  then show ?thesis using assms(3) by (rule keeps_no_pump)
qed

fun of_client :: "tether_task_event \<Rightarrow> bool" where
  "of_client (EngineConnects _) = False"
| "of_client (EngineAnswers _) = False"
| "of_client (PumpReports _) = False"
| "of_client (TaskGoes c) = (c = 0)"
| "of_client _ = True"

lemma rel_vanish:
  assumes ok: "tether_tasks_ok tt" and rel: "session_rel f t tt" and c: "c < length (tt_tasks tt)" "c \<noteq> 0"
    and tt': "tt_tasks tt' = vanish c (tt_tasks tt)"
  shows "session_rel f t tt'"
proof (rule rel_others [OF rel])
  have parts: "owned_ok (tt_tasks tt)" "tether_roles (roles (tt_tasks tt))"
    using ok by (simp_all add: tether_tasks_ok_def)
  have "tk_role (tt_tasks tt ! c) \<noteq> ROwner" using tether_root(3) [OF parts(2) c(1)] c(2) by blast
  note none = others_hold_no_pump [OF parts(1) c(1) this]
  show "tk_role (tt_tasks tt' ! i) = tk_role (tt_tasks tt ! i) \<and> tk_asked (tt_tasks tt' ! i) = tk_asked (tt_tasks tt ! i)"
    if "i < length (tt_tasks tt)" "is_pump (tk_role (tt_tasks tt ! i))" for i
    using that none [of i] c(1) by (auto simp: tt' vanish_nth)
  show "tk_holds (tt_tasks tt' ! 0) = tk_holds (tt_tasks tt ! 0)"
    using c tether_root(1) [OF parts(2)] by (simp add: tt' vanish_nth)
qed (simp add: tt')

lemma rel_other_step:
  assumes ok: "tether_tasks_ok tt" and rel: "session_rel f t tt" and e: "\<not> of_client e"
  shows "session_rel f t (tether_task_step tt e)"
proof -
  let ?ts = "tt_tasks tt"
  have parts: "owned_ok ?ts" "tether_roles (roles ?ts)" using ok by (simp_all add: tether_tasks_ok_def)
  note root = tether_root [OF parts(2)]
  have ne: "?ts \<noteq> []" using root(1) by simp
  have pump: "c < length ?ts \<and> c \<noteq> 0 \<and> tk_role (?ts ! c) \<noteq> ROwner" if "pump_at ps c ?ts" for ps c
    using that root(2) by (cases "c = 0") (auto simp: pump_at_def is_pump_def)
  have ask: "map_of (tk_holds (?ts ! c)) KConnection \<noteq> Some i"
    if "pump_at ps c ?ts" "is_pump (tk_role (?ts ! i))" for ps c i
    using others_hold_no_pump [OF parts(1), of c i] pump [OF that(1)] that(2)
    by (metis imageI map_of_SomeD snd_conv)
  show ?thesis
  proof (cases e)
    case (EngineConnects c)
    show ?thesis
    proof (cases "pump_at [Dialing] c ?ts")
      case True
      with EngineConnects pump [OF True] ask [OF True] show ?thesis
        by (intro rel_others [OF rel])
          (auto simp: tether_task_step_def engine_connects_def spawn_kept_nth set_progress_nth ne)
    qed (use EngineConnects rel in \<open>simp add: tether_task_step_def engine_connects_def\<close>)
  next
    case (EngineAnswers c)
    show ?thesis
    proof (cases "pump_at [Dialing, Exchanging] c ?ts")
      case True
      with EngineAnswers pump [OF True] ask [OF True] show ?thesis
        by (intro rel_others [OF rel])
          (auto simp: tether_task_step_def engine_answers_def release_nth set_progress_nth ne)
    qed (use EngineAnswers rel in \<open>simp add: tether_task_step_def engine_answers_def\<close>)
  next
    case (PumpReports c)
    show ?thesis
    proof (cases "pump_at [Replying] c ?ts")
      case True
      with PumpReports pump [OF True] rel_vanish [OF ok rel, of c] rel show ?thesis
        by (simp add: tether_task_step_def pump_reports_def split: role.split)
    qed (use PumpReports rel in \<open>simp add: tether_task_step_def pump_reports_def\<close>)
  next
    case (TaskGoes c)
    with e rel rel_vanish [OF ok rel, of c] show ?thesis
      by (simp add: tether_task_step_def task_goes_def)
  qed (use e in simp_all)
qed

lemma rel_session_step:
  assumes rel: "session_rel f t tt" and ne: "tt_tasks tt \<noteq> []"
    and run: "\<not> tk_gone (tt_tasks tt ! 0)" "session_open tt"
  shows "\<exists>g. session_rel (f @ g) (snd (tether_step now in_res res ev t))
    (foldl tether_task_step tt (task_events in_res ev t))"
proof -
  have keep: "\<exists>g. session_rel (f @ g) t' tt" if "session_rel f t' tt" for t'
    using that by (intro exI [of _ "[]"]) simp
  have drop: "\<exists>g. session_rel (f @ g) (drop_stream sid t) (stream_removed sid tt)" for sid
    using rel_drop [OF rel ne] by (intro exI [of _ "[]"]) simp
  have feed: "\<exists>g. session_rel (f @ g) (snd (feed_stream in_res res sid bytes t))
      (if in_res = Full then stream_removed sid tt else tt)" for sid bytes
    using rel_feed [OF rel ne] by (intro exI [of _ "[]"]) simp
  have frame: "\<exists>g. session_rel (f @ g) (snd (fst (tether_frame in_res res fr t)))
      (foldl tether_task_step tt (task_events in_res (FromHub (HubFrame m)) t))"
    if "tether_decode m = Inr (Some fr)" for fr m
  proof (cases fr)
    case (Open sid head)
    with that rel_open [OF rel ne run, of sid head] keep [OF rel_send [OF rel]] show ?thesis
      by (auto simp: task_events_def tether_frame_def tether_task_step_def)
  next
    case (Pong)
    with that keep [OF rel_frame [OF rel]] show ?thesis
      by (simp add: task_events_def tether_frame_def)
  qed (use that rel drop feed keep [OF rel] keep [OF rel_send [OF rel]] in
      \<open>auto simp: task_events_def tether_frame_def tether_task_step_def\<close>)
  show ?thesis
  proof (cases "\<exists>m fr. ev = FromHub (HubFrame m) \<and> tether_decode m = Inr (Some fr)")
    case True
    then obtain m fr where ev: "ev = FromHub (HubFrame m)" "tether_decode m = Inr (Some fr)" by blast
    let ?r = "tether_frame in_res res fr t"
    obtain g where g: "session_rel (f @ g) (snd (fst ?r)) (foldl tether_task_step tt (task_events in_res ev t))"
      using frame [OF ev(2)] ev(1) by blast
    have "ts_streams (snd (tether_step now in_res res ev t)) = ts_streams (snd (fst ?r)) \<and>
      ts_pumps (snd (tether_step now in_res res ev t)) = ts_pumps (snd (fst ?r))"
      by (simp add: tether_step_def ev split: prod.split)
    then show ?thesis using rel_frame [OF g] by blast
  next
    case False
    then have "task_events in_res ev t = (case ev of PumpDone sid \<Rightarrow> [StreamRemoved sid] | _ \<Rightarrow> [])"
      by (auto simp: task_events_def split: tether_event.split session_input.split sum.split option.split)
    moreover have "ts_streams (snd (tether_step now in_res res ev t)) = ts_streams t \<and>
      ts_pumps (snd (tether_step now in_res res ev t)) = ts_pumps t" if "\<And>sid. ev \<noteq> PumpDone sid"
      using False that
      by (cases ev) (auto simp: tether_step_def tether_send_def split: session_input.split sum.split option.split)
    ultimately show ?thesis using drop keep [OF rel_frame [OF rel]]
      by (cases ev) (auto simp: tether_step_def tether_task_step_def)
  qed
qed

section \<open>Properties\<close>

text \<open>
  C28: No task outlives its owner in the tether. In every reachable state, whatever the order in
  which the session opens, replaces, removes and completes streams, pumps connect, answer and
  report, and tasks come to their end, each task that still runs without having been told to
  stop is kept by an older task that has not gone; and when the session returns, or its
  future is dropped, or the client holds nothing, cancelling what was asked for leaves no
  writer, no pump and no engine connection, of this session or of an earlier one.
\<close>
theorem tether_tasks_owned:
  assumes "reach tether_task_step tether_tasks_start tt"
  shows "(\<forall>c < length (tt_tasks tt). c \<noteq> 0 \<and> \<not> tk_gone (tt_tasks tt ! c) \<and> \<not> tk_asked (tt_tasks tt ! c) \<longrightarrow>
      (\<exists>h < c. \<exists>k. (k, c) \<in> set (tk_holds (tt_tasks tt ! h)) \<and> \<not> tk_gone (tt_tasks tt ! h) \<and>
        keeps (tk_role (tt_tasks tt ! h)) k (tk_role (tt_tasks tt ! c)))) \<and>
    (\<forall>c < length (tt_tasks tt). \<not> tk_gone (settle (tt_tasks (session_over tt)) ! c) \<longrightarrow> c = 0) \<and>
    (\<forall>c < length (tt_tasks tt). tk_gone (settle (task_goes 0 (tt_tasks tt)) ! c)) \<and>
    (tk_holds (tt_tasks tt ! 0) = [] \<longrightarrow>
      (\<forall>c < length (tt_tasks tt). \<not> tk_gone (settle (tt_tasks tt) ! c) \<longrightarrow> c = 0))"
proof -
  let ?ts = "tt_tasks tt"
  have ok: "tether_tasks_ok tt" by (rule tether_tasks_machine.inv_reach [OF assms])
  have parts: "owned_ok ?ts" "tether_roles (roles ?ts)" using ok by (simp_all add: tether_tasks_ok_def)
  note root = tether_root [OF parts(2)]
  have alone: "c = 0"
    if "owned_ok us" "roles us = roles ?ts" "tk_holds (us ! 0) = []" "c < length us" "\<not> tk_gone (settle us ! c)" for us c
  proof -
    have r: "tether_roles (roles us)" using that(2) parts(2) by simp
    have "tk_role (us ! c) = ROwner"
      using empty_roots_alone [OF that(1) _ that(4,5)] that(3) tether_root(3) [OF r] by blast
    then show ?thesis using tether_root(3) [OF r that(4)] by blast
  qed
  have len: "length us = length ?ts" if "roles us = roles ?ts" for us using that by (metis length_roles)
  have owned: "\<exists>h < c. \<exists>k. (k, c) \<in> set (tk_holds (?ts ! h)) \<and> \<not> tk_gone (?ts ! h) \<and>
      keeps (tk_role (?ts ! h)) k (tk_role (?ts ! c))"
    if c: "c < length ?ts" "c \<noteq> 0" "\<not> tk_gone (?ts ! c)" "\<not> tk_asked (?ts ! c)" for c
  proof -
    have "kept ?ts c" using owned_ok_kept [OF parts(1) c(1) _ c(3,4)] root(3) [OF c(1)] c(2) by blast
    then obtain h where h: "h < length ?ts" "c \<in> snd ` set (tk_holds (?ts ! h))" by (rule keptE)
    then obtain k where k: "(k, c) \<in> set (tk_holds (?ts ! h))" by auto
    with owned_ok_holds [OF parts(1) h(1)]
    have "h < c \<and> \<not> tk_gone (?ts ! h) \<and> keeps (tk_role (?ts ! h)) k (tk_role (?ts ! c))"
      by (auto simp: holds_ok_def)
    with k show ?thesis by blast
  qed
  have ends: "owned_ok (tt_tasks (session_over tt))" "roles (tt_tasks (session_over tt)) = roles ?ts"
    using tether_ok_ends [OF ok] ok_release_streams [OF parts(1), of "stream_table tt"] root(1)
    by (simp_all add: tether_tasks_ok_def session_over_def)
  have goes: "tk_holds (task_goes 0 ?ts ! 0) = [] \<and> tk_gone (task_goes 0 ?ts ! 0)"
    using owned_ok_holds [OF parts(1) root(1)] root(1) by (auto simp: task_goes_def vanish_nth holds_ok_def)
  have none: "tk_gone (settle (task_goes 0 ?ts) ! c)" if c: "c < length ?ts" for c
  proof (rule ccontr)
    assume run: "\<not> tk_gone (settle (task_goes 0 ?ts) ! c)"
    have "c = 0" using alone [OF owned_ok_goes [OF parts(1)] _ _ _ run] goes c len [of "task_goes 0 ?ts"] by simp
    with run goes settle_frame [of "task_goes 0 ?ts"] len [of "task_goes 0 ?ts"] c show False by auto
  qed
  show ?thesis
    using owned alone [OF ends session_over_empty [OF ok]] len [OF ends(2)] none alone [OF parts(1) refl] by auto
qed


theorem tether_tasks_owned_witness:
  "\<exists>tt. reach tether_task_step tether_tasks_start tt \<and> map tk_role (tt_tasks tt) = [ROwner, RWriter, RPump 1 1, RConnection] \<and>
     (\<forall>c \<in> {1, 2, 3}. \<not> tk_gone (tt_tasks tt ! c) \<and> tk_gone (settle (tt_tasks (session_over tt)) ! c))"
proof -
  let ?s = "\<lparr>tt_tasks = [new_task ROwner], tt_session = 0, tt_done = []\<rparr>"
  let ?t = "foldl tether_task_step ?s [SessionStarts, PumpOpens 1, EngineConnects 2]"
  have "tether_tasks_start ?s" by (simp add: tether_tasks_start_def)
  then have r: "reach tether_task_step tether_tasks_start ?t" by (intro reach_foldl reach_start)
  have roles: "map tk_role (tt_tasks ?t) = [ROwner, RWriter, RPump 1 1, RConnection]"
    and run: "map tk_gone (tt_tasks ?t) = [False, False, False, False]"
    by (simp_all add: tether_task_step_def session_starts_def spawn_kept_def new_task_def pump_opens_def session_open_def
        stream_table_def MAX_CONCURRENT_STREAMS_def engine_connects_def pump_at_def is_pump_def set_progress_def)
  have len: "length (tt_tasks ?t) = 4" using arg_cong [OF roles, of length] by simp
  have "\<not> tk_gone (tt_tasks ?t ! c)" if "c < 4" for c
  proof -
    have "tk_gone (tt_tasks ?t ! c) = [False, False, False, False] ! c"
      using that len by (simp flip: run)
    with that show ?thesis by (auto simp: nth_Cons split: nat.splits)
  qed
  moreover have "tk_gone (settle (tt_tasks (session_over ?t)) ! c)" if "c < 4" "c \<noteq> 0" for c
    using conjunct1 [OF conjunct2 [OF tether_tasks_owned [OF r]]] that len by auto
  ultimately have "\<forall>c \<in> {1, 2, 3}. \<not> tk_gone (tt_tasks ?t ! c) \<and> tk_gone (settle (tt_tasks (session_over ?t)) ! c)"
    by simp
  then show ?thesis by (intro exI [of _ ?t] conjI r roles)
qed

text \<open>
  C29: The tasks do what the tunnel's session asks for. A session begins with no pump; each pass
  of \<open>run_session\<close> is matched by the removal or the opening of a stream handle, so the
  session's table names exactly the tasks that serve its streams and a pump counts as aborted
  exactly when an abort of its task was asked for; what pumps, connections and writers do
  meanwhile does not disturb that; and the end of \<open>serve_over\<close> is the tunnel's teardown.
\<close>
theorem session_on_tasks:
  assumes tt: "reach tether_task_step tether_tasks_start tt"
    and t: "reach tether_run_step tether_start t" and rel: "session_rel f t tt"
  shows "(\<not> tk_gone (tt_tasks tt ! 0) \<and> tk_holds (tt_tasks tt ! 0) = [] \<and> tether_start t' \<longrightarrow>
        session_rel [] t' (session_starts tt) \<and> session_open (session_starts tt)) \<and>
    (\<not> tk_gone (tt_tasks tt ! 0) \<and> session_open tt \<longrightarrow>
        (\<exists>g. session_rel (f @ g) (tether_run_step t (now, in_res, res, ev))
           (foldl tether_task_step tt (task_events in_res ev t)))) \<and>
    (\<not> of_client e \<longrightarrow> session_rel f t (tether_task_step tt e)) \<and>
    session_rel f (tether_teardown t) (session_over tt)"
proof -
  have ok: "tether_tasks_ok tt" by (rule tether_tasks_machine.inv_reach [OF tt])
  then have ne: "tt_tasks tt \<noteq> []" using tether_root(1) [of "tt_tasks tt"] by (simp add: tether_tasks_ok_def)
  have fresh: "session_rel [] t' (session_starts tt) \<and> session_open (session_starts tt)"
    if "\<not> tk_gone (tt_tasks tt ! 0)" "tk_holds (tt_tasks tt ! 0) = []" "tether_start t'"
    using that ne by (auto simp: session_rel_def session_starts_def session_open_def stream_table_def tether_start_def
        spawn_kept_nth)
  have "\<exists>g. session_rel (f @ g) (tether_run_step t (now, in_res, res, ev))
      (foldl tether_task_step tt (task_events in_res ev t))"
    if "\<not> tk_gone (tt_tasks tt ! 0)" "session_open tt"
    using rel_session_step [OF rel ne that] by (simp add: tether_run_step_def)
  with fresh rel_other_step [OF ok rel] rel_teardown [OF rel ok tether_machine.inv_reach [OF t]]
  show ?thesis by blast
qed

theorem session_on_tasks_witness:
  "\<exists>tt t. reach tether_task_step tether_tasks_start tt \<and> reach tether_run_step tether_start t \<and>
     session_rel [] t tt \<and> (\<exists>g. session_rel g (tether_run_step t (1, Sent, Sent, FromHub (HubFrame (ws_msg (Open 1 [2])))))
       (pump_opens 1 tt)) \<and> session_rel [] (tether_teardown t) (session_over tt)"
proof -
  let ?s = "\<lparr>tt_tasks = [new_task ROwner], tt_session = 0, tt_done = []\<rparr>"
  let ?tt = "tether_task_step ?s SessionStarts"
  let ?t = "\<lparr>ts_streams = [], ts_pumps = [], ts_sent = [], ts_heartbeat = heartbeat_new 0\<rparr>"
  have start: "tether_tasks_start ?s" "tether_start ?t" by (auto simp: tether_tasks_start_def tether_start_def)
  then have r: "reach tether_task_step tether_tasks_start ?s" "reach tether_run_step tether_start ?t"
    by (auto intro: reach_start)
  have rtt: "reach tether_task_step tether_tasks_start ?tt" by (rule reach_step [OF r(1)])
  have "session_rel [] ?t ?s" by (simp add: session_rel_def stream_table_def new_task_def)
  from session_on_tasks [OF r this, of ?t] start(2)
  have rel: "session_rel [] ?t ?tt" "session_open ?tt" by (simp_all add: new_task_def tether_task_step_def)
  have run: "\<not> tk_gone (tt_tasks ?tt ! 0)"
    by (simp add: tether_task_step_def session_starts_def spawn_kept_def new_task_def)
  have ev: "task_events Sent (FromHub (HubFrame (ws_msg (Open 1 [2])))) ?t = [PumpOpens 1]"
    by (simp add: task_events_def ws_msg_def fits_def payload_len_def MAX_CONCURRENT_STREAMS_def)
  from session_on_tasks [OF rtt r(2) rel(1)] rel(2) run
  have "\<exists>g. session_rel ([] @ g) (tether_run_step ?t (1, Sent, Sent, FromHub (HubFrame (ws_msg (Open 1 [2])))))
      (foldl tether_task_step ?tt (task_events Sent (FromHub (HubFrame (ws_msg (Open 1 [2])))) ?t))"
    and "session_rel [] (tether_teardown ?t) (session_over ?tt)" by blast+
  with r(2) rtt rel(1) show ?thesis unfolding ev by (intro exI [of _ ?tt] exI [of _ ?t]) (simp add: tether_task_step_def)
qed

text \<open>
  In the hub the writer of a session and the upload of a forwarded request run for nobody:
  once what was cancelled is gone, each that still runs is kept by the session, or the
  caller's connection, that started it, and that one runs.
\<close>
lemma hub_tasks_owned:
  assumes "reach hub_task_step hub_tasks_start ts" "c < length ts" "tk_role (ts ! c) \<in> {RWriter, RUpload}"
    and "\<not> tk_gone (settle ts ! c)"
  shows "\<exists>h < c. \<exists>k. (k, c) \<in> set (tk_holds (settle ts ! h)) \<and> live_root h (settle ts)"
proof -
  let ?s = "settle ts"
  have ok: "owned_ok ?s" by (intro owned_ok_settle hub_tasks_machine.inv_reach [OF assms(1)])
  have c: "c < length ?s" "tk_role (?s ! c) \<in> {RWriter, RUpload}"
    using settle_frame [of ts] assms(2,3) by auto
  have "\<not> tk_asked (?s ! c)" using pending_None [OF settle_quiet c(1)] assms(4) by blast
  with owned_ok_kept [OF ok c(1)] c(2) assms(4) have "kept ?s c" by auto
  then obtain h where h: "h < length ?s" "c \<in> snd ` set (tk_holds (?s ! h))" by (rule keptE)
  then obtain k where k: "(k, c) \<in> set (tk_holds (?s ! h))" by auto
  with owned_ok_holds [OF ok h(1)]
  have "h < c \<and> \<not> tk_gone (?s ! h) \<and> keeps (tk_role (?s ! h)) k (tk_role (?s ! c))"
    by (auto simp: holds_ok_def)
  moreover from this c(2) have "tk_role (?s ! h) = ROwner"
    by (cases "(tk_role (?s ! h), k, tk_role (?s ! c))" rule: keeps.cases) auto
  ultimately show ?thesis using h(1) k by (auto simp: live_root_def)
qed


text \<open>
  A failed accept ends the proxy, and only that and the interrupt do; the hub's two listeners
  go on after one.
\<close>
lemma proxy_loop_ends:
  "fst (proxy_loop es ts) = Some (Inl e) \<longleftrightarrow>
     e = ''accept'' \<and> (\<exists>n rest. es = replicate n (ProxyAccept AcceptOk) @ ProxyAccept AcceptFailed # rest)"
proof (induction es ts rule: proxy_loop.induct)
  case (2 es ts)
  have "(\<exists>n rest. ProxyAccept AcceptOk # es = replicate n (ProxyAccept AcceptOk) @ ProxyAccept AcceptFailed # rest) \<longleftrightarrow>
      (\<exists>n rest. es = replicate n (ProxyAccept AcceptOk) @ ProxyAccept AcceptFailed # rest)" (is "?l = ?r")
  proof
    assume ?l
    then obtain n rest where *: "ProxyAccept AcceptOk # es = replicate n (ProxyAccept AcceptOk) @ ProxyAccept AcceptFailed # rest"
      by blast
    then show ?r by (cases n) auto
  next
    assume ?r
    then obtain n rest where "es = replicate n (ProxyAccept AcceptOk) @ ProxyAccept AcceptFailed # rest" by blast
    then show ?l by (intro exI [of _ "Suc n"] exI [of _ rest]) simp
  qed
  with 2 show ?case by simp
next
  case (3 es ts)
  have "\<exists>n rest. ProxyAccept AcceptFailed # es = replicate n (ProxyAccept AcceptOk) @ ProxyAccept AcceptFailed # rest"
    by (intro exI [of _ 0] exI [of _ es]) simp
  then show ?case by auto
next
  case (4 es ts)
  have "Interrupt # es \<noteq> replicate n (ProxyAccept AcceptOk) @ ProxyAccept AcceptFailed # rest" for n rest
    by (cases n) auto
  then show ?case by auto
qed (auto simp: append_eq_Cons_conv)

lemma listeners_go_on:
  "length (foldl (\<lambda>ts r. tether_accept r ts) ts rs) = length ts + length (filter (\<lambda>r. r = AcceptOk) rs)"
  "length (foldl (\<lambda>ts r. caller_accept r ts) ts rs) = length ts + length (filter (\<lambda>r. r = AcceptOk) rs)"
  by (induction rs arbitrary: ts) (auto simp: tether_accept_def caller_accept_def split: accept_result.split)

text \<open>Both writers put an initial part of the channel's messages on the wire, in their order.\<close>
lemma writers_keep_order:
  "tether_writer ms = map fst (takeWhile snd ms)"
  "fst (hub_writer ms) = map fst (takeWhile snd ms)"
  "snd (hub_writer ms) = Inr () \<longleftrightarrow> list_all snd ms"
  by (induction ms) (auto simp: case_prod_beta Let_def split: if_splits)

end
