(* ===== verification/Bystanders.thy ===== *)
theory Bystanders
  imports Retired
begin

text \<open>
  What the events of the hub do to the streams of one session that is not the one they are
  about. Registrations, revocations and refreshes, other tethers with whatever they send,
  other callers, uploads and dropped handles may close a session and fail its streams; they
  put nothing into an answer, complete none and move no stream to another session.
\<close>

section \<open>A session and the streams opened on it\<close>

text \<open>The part of a stream that its caller's request and its tether's answer make up.\<close>

definition same_answer :: "'h stream_state \<Rightarrow> 'h stream_state \<Rightarrow> bool" where
  "same_answer st st' \<longleftrightarrow>
     ss_method st' = ss_method st \<and> ss_path st' = ss_path st \<and> ss_headers st' = ss_headers st \<and>
     ss_head st' = ss_head st \<and> ss_chunks st' = ss_chunks st \<and> (is_complete st' \<longrightarrow> is_complete st)"

definition held :: "live_session \<Rightarrow> xref set" where
  "held ls = snd ` set (ls_streams ls)"

text \<open>The streams \<open>X\<close> are in no table but that of session \<open>s\<close>.\<close>

definition separate :: "sref \<Rightarrow> xref set \<Rightarrow> 'h registry \<Rightarrow> bool" where
  "separate s X r \<longleftrightarrow> (\<forall>x \<in> X. x < length (rg_streams r)) \<and>
     (\<forall>j < length (rg_sessions r). j \<noteq> s \<longrightarrow> (\<forall>x \<in> X. x \<notin> held (rg_sessions r ! j)))"

text \<open>One session to another state of itself: frames that open nothing are queued, streams leave.\<close>

definition settles :: "live_session \<Rightarrow> live_session \<Rightarrow> bool" where
  "settles a b \<longleftrightarrow>
     (\<exists>fs. ls_sent b = ls_sent a @ fs \<and> (\<forall>f \<in> set fs. opened f = None)) \<and>
     set (ls_streams b) \<subseteq> set (ls_streams a)"

definition quiet :: "sref \<Rightarrow> xref set \<Rightarrow> 'h registry \<Rightarrow> 'h registry \<Rightarrow> bool" where
  "quiet s X r r' \<longleftrightarrow> (s < length (rg_sessions r) \<and> separate s X r \<longrightarrow>
     separate s X r' \<and> length (rg_sessions r) \<le> length (rg_sessions r') \<and>
     settles (rg_sessions r ! s) (rg_sessions r' ! s) \<and>
     (\<forall>x \<in> X. same_answer (rg_streams r ! x) (rg_streams r' ! x)))"

lemma same_answer_refl [simp]: "same_answer st st"
  by (simp add: same_answer_def)

lemma same_answer_trans: "same_answer a b \<Longrightarrow> same_answer b c \<Longrightarrow> same_answer a c"
  by (simp add: same_answer_def)

lemma settles_refl [simp]: "settles a a"
  by (auto simp: settles_def)

lemma settles_trans: "settles a b \<Longrightarrow> settles b c \<Longrightarrow> settles a c"
  unfolding settles_def by (elim conjE exE, intro conjI) (auto simp: subset_iff)

lemma quiet_trans [trans]: "quiet s X a b \<Longrightarrow> quiet s X b c \<Longrightarrow> quiet s X a c"
  unfolding quiet_def by (meson le_trans less_le_trans same_answer_trans settles_trans)

text \<open>Only the two stores matter.\<close>

lemma quiet_same: "rg_sessions r' = rg_sessions r \<Longrightarrow> rg_streams r' = rg_streams r \<Longrightarrow> quiet s X r r'"
  by (simp add: quiet_def separate_def)

lemma quiet_refl [simp]: "quiet s X r r"
  by (simp add: quiet_same)

lemma quiet_stores:
  assumes "quiet s X r r'" "rg_sessions q = rg_sessions r" "rg_streams q = rg_streams r"
    "rg_sessions q' = rg_sessions r'" "rg_streams q' = rg_streams r'"
  shows "quiet s X q q'"
  using assms by (simp add: quiet_def separate_def)

lemma quiet_upd_session:
  assumes "\<And>ls. settles ls (f ls)"
  shows "quiet s X r (upd_session t f r)"
proof -
  have sub: "x \<in> held ls" if "x \<in> held (f ls)" for x ls
    using assms [of ls] that by (auto simp: settles_def held_def)
  from assms show ?thesis by (auto simp: quiet_def separate_def upd_session_nth dest: sub)
qed

lemma quiet_upd_stream:
  assumes "\<And>st. same_answer st (g st)"
  shows "quiet s X r (upd_stream x g r)"
  using assms by (auto simp: quiet_def separate_def upd_stream_nth)

lemma quiet_fold: "(\<And>x r. quiet s X r (g x r)) \<Longrightarrow> quiet s X r (fold g xs r)"
  by (induction xs arbitrary: r) (auto intro: quiet_trans)

section \<open>Each operation\<close>

lemma same_answer_fail [simp]: "same_answer st (stream_fail st)"
  by (simp add: same_answer_def stream_fail_def finisher_defs is_complete_def split: option.split)

lemma quiet_close: "quiet s X r (close_session t r)"
proof -
  have "quiet s X r (upd_session t (\<lambda>ls. ls\<lparr>ls_closed := True, ls_streams := []\<rparr>) r)"
    by (rule quiet_upd_session) (simp add: settles_def)
  also have "quiet s X \<dots> (close_session t r)"
    unfolding close_session_def Let_def by (intro quiet_fold quiet_upd_stream) simp
  finally show ?thesis .
qed

lemma quiet_cancel: "quiet s X r (cancel_session t r)"
  unfolding cancel_session_def
  by (rule quiet_trans [OF quiet_close quiet_upd_session]) (simp add: settles_def)

lemma quiet_evict: "quiet s X r (evict tid r)"
  by (auto simp: evict_def split: option.split intro: quiet_trans [OF quiet_same quiet_cancel])

lemma quiet_register: "quiet s X r (snd (register_tether sha tid label c r))"
  by (auto simp: register_tether_def Let_def intro: quiet_trans [OF quiet_same quiet_evict])

lemma quiet_revoke: "quiet s X r (snd (revoke tid r))"
  by (auto simp: revoke_def quiet_evict intro: quiet_trans [OF quiet_same quiet_evict] split: option.split)

lemma quiet_replace: "quiet s X r (replace_records wall recs r)"
proof -
  have "quiet s X r (drop_changed keep l r)" for keep l
    unfolding drop_changed_def by (rule quiet_fold) (auto simp: quiet_cancel)
  then show ?thesis unfolding replace_records_alt Let_def by (rule quiet_stores) simp_all
qed

lemma quiet_new_session:
  "quiet s X r (r\<lparr>rg_sessions := rg_sessions r @ [session_new gen now], rg_next_generation := n, rg_live := l\<rparr>)"
  by (auto simp: quiet_def separate_def nth_append session_new_def held_def)

lemma quiet_attach: "quiet s X r (snd (attach sha wall now tid c r))"
  by (auto simp: attach_def Let_def split: option.split
      intro: quiet_new_session quiet_trans [OF quiet_new_session quiet_cancel])

lemma quiet_attach_session: "attach_session sha wall now started c l r = (tk, r') \<Longrightarrow> quiet s X r r'"
  using quiet_attach [of s X r sha wall now "l_tether_id l" c]
  by (auto simp: attach_session_def split: prod.splits option.splits)

lemma quiet_detach: "quiet s X r (detach tid t r)"
  by (auto simp: detach_def split: option.split intro: quiet_same)

lemma settles_push: "opened f = None \<Longrightarrow> settles ls (push_sent f ls)"
  by (auto simp: settles_def push_sent_def)

lemma quiet_try_send: "opened f = None \<Longrightarrow> quiet s X r (try_send t f res r)"
  by (simp add: try_send_def quiet_upd_session settles_push)

lemma quiet_send_or_abort: "opened f = None \<Longrightarrow> quiet s X r (send_or_abort t f res r)"
  by (simp add: send_or_abort_def quiet_try_send quiet_upd_session settles_def)

lemma quiet_upload_finish: "quiet s X r (upload_finish t x sid result res r)"
  by (simp add: upload_finish_def quiet_trans [OF quiet_upd_stream quiet_send_or_abort])

lemma quiet_guard_drop: "quiet s X r (guard_drop t x sid res r)"
proof -
  have "quiet s X r (upd_stream x (\<lambda>st. st\<lparr>ss_aborted := ss_aborted st @ [x]\<rparr>) r)" (is "quiet s X r ?a")
    by (rule quiet_upd_stream) (simp add: same_answer_def is_complete_def)
  also have "quiet s X ?a (upd_session t (\<lambda>ls. ls\<lparr>ls_streams := AList.delete sid (ls_streams ls)\<rparr>) ?a)"
    by (rule quiet_upd_session) (auto simp: settles_def AList.delete_eq)
  finally show ?thesis
    by (auto simp: guard_drop_def Let_def intro: quiet_trans [OF _ quiet_send_or_abort])
qed

text \<open>Whatever the session of another tether is made to do.\<close>

lemma quiet_confined:
  assumes "confined t r r'" "t \<noteq> s" "t < length (rg_sessions r)"
  shows "quiet s X r r'"
  unfolding quiet_def
proof (intro impI)
  assume a: "s < length (rg_sessions r) \<and> separate s X r"
  have len: "length (rg_sessions r') = length (rg_sessions r)" "length (rg_streams r') = length (rg_streams r)"
    using assms(1) by (simp_all add: confined_def shrinks_def)
  have same: "rg_sessions r' ! i = rg_sessions r ! i" if "i \<noteq> t" for i
    using assms(1) that by (simp add: confined_def)
  have sub: "held (rg_sessions r' ! t) \<subseteq> held (rg_sessions r ! t)"
    using assms(1) by (auto simp: confined_def held_def)
  have out: "x \<notin> held (rg_sessions r ! t)" if "x \<in> X" for x
    using a assms(2,3) that by (auto simp: separate_def)
  have "x \<notin> held (rg_sessions r' ! j)" if "j < length (rg_sessions r)" "j \<noteq> s" "x \<in> X" for j x
    using a that out [OF that(3)] sub same [of j] by (cases "j = t") (auto simp: separate_def)
  then have "separate s X r'" using a len by (simp add: separate_def)
  moreover have "rg_streams r' ! x = rg_streams r ! x" if "x \<in> X" for x
    using assms(1) out [OF that] by (simp add: confined_def held_def)
  ultimately show "separate s X r' \<and> length (rg_sessions r) \<le> length (rg_sessions r') \<and>
      settles (rg_sessions r ! s) (rg_sessions r' ! s) \<and> (\<forall>x\<in>X. same_answer (rg_streams r ! x) (rg_streams r' ! x))"
    using same [of s] assms(2) len by simp
qed

text \<open>A request put on another session, or refused.\<close>

lemma quiet_start_forward:
  assumes "t < length (rg_sessions r)" "start_forward H t req r = (res, r')"
    and "t \<noteq> s \<or> (\<exists>e. res = Inl e)"
  shows "quiet s X r r'"
proof (rule start_forward_cases [OF assms(1), of H req])
  fix e assume "start_forward H t req r = (Inl e, upd_session t (\<lambda>ls. ls\<lparr>ls_next_id := ls_next_id ls + 1\<rparr>) r)"
  with assms(2) have "r' = upd_session t (\<lambda>ls. ls\<lparr>ls_next_id := ls_next_id ls + 1\<rparr>) r" by simp
  then show ?thesis by (simp add: quiet_upd_session settles_def)
next
  fix sid x and st :: "'a stream_state"
  assume x: "x = length (rg_streams r)"
    and "start_forward H t req r = (Inr \<lparr>fw_id = sid, fw_stream = x, fw_session = t\<rparr>,
      (upd_session t (opened_session sid x (open_head H req)) r)\<lparr>rg_streams := rg_streams r @ [st]\<rparr>)"
  with assms(2) have r': "r' = (upd_session t (opened_session sid x (open_head H req)) r)\<lparr>rg_streams := rg_streams r @ [st]\<rparr>"
    and res: "t \<noteq> s" using assms(3) by auto
  have "set (AList.update k v al) \<subseteq> insert (k, v) (set al)" for k :: stream_id and v :: xref and al
    by (induction al) auto
  then have table: "held (opened_session sid x head ls) \<subseteq> insert x (held ls)" for head ls
    by (fastforce simp: opened_session_def push_sent_def held_def)
  show ?thesis
    using res x table [of "open_head H req" "rg_sessions r ! t"]
    by (auto simp: r' quiet_def separate_def upd_session_nth nth_append)
qed (use assms(2) in simp)


section \<open>The hub's events\<close>

text \<open>Task \<open>i\<close> is the one that serves session \<open>s\<close>.\<close>

fun task_session :: "task_state \<Rightarrow> sref option" where
  "task_session (Running tk) = Some (tk_session tk)"
| "task_session (Leaving tk) = Some (tk_session tk)"
| "task_session (Closed_off tk) = Some (tk_session tk)"
| "task_session Gone = None"

definition serves :: "nat \<Rightarrow> sref \<Rightarrow> 'h hub \<Rightarrow> bool" where
  "serves i s h \<longleftrightarrow>
     i < length (hb_tasks h) \<and> s < length (rg_sessions (hb_registry h)) \<and>
     (\<forall>t. task_session (hb_tasks h ! i) = Some t \<longrightarrow> t = s) \<and>
     (\<forall>j < length (hb_tasks h). \<forall>t. task_session (hb_tasks h ! j) = Some t \<longrightarrow>
        t < length (rg_sessions (hb_registry h)) \<and> (t = s \<longrightarrow> j = i))"

lemma servesI:
  assumes "i < length (hb_tasks h)" "s < length (rg_sessions (hb_registry h))"
    and "\<And>t. task_session (hb_tasks h ! i) = Some t \<Longrightarrow> t = s"
    and "\<And>j t. \<lbrakk>j < length (hb_tasks h); task_session (hb_tasks h ! j) = Some t\<rbrakk> \<Longrightarrow>
      t < length (rg_sessions (hb_registry h)) \<and> (t = s \<longrightarrow> j = i)"
  shows "serves i s h"
  unfolding serves_def using assms by blast

lemma servesD:
  assumes "serves i s h"
  shows "i < length (hb_tasks h)" "s < length (rg_sessions (hb_registry h))"
    and "task_session (hb_tasks h ! i) = Some t \<Longrightarrow> t = s"
    and "\<lbrakk>j < length (hb_tasks h); task_session (hb_tasks h ! j) = Some t\<rbrakk> \<Longrightarrow>
      t < length (rg_sessions (hb_registry h)) \<and> (t = s \<longrightarrow> j = i)"
  using assms unfolding serves_def by blast+

fun is_running :: "task_state \<Rightarrow> bool" where
  "is_running (Running _) = True"
| "is_running _ = False"

text \<open>A task that stays with its session, and does not come back to its loop.\<close>

definition goes_on :: "task_state list \<Rightarrow> task_state list \<Rightarrow> bool" where
  "goes_on ts ts' \<longleftrightarrow> length ts' = length ts \<and>
     (\<forall>j < length ts. (task_session (ts' ! j) = task_session (ts ! j) \<or> task_session (ts' ! j) = None) \<and>
        (is_running (ts' ! j) \<longrightarrow> is_running (ts ! j)))"

lemma serves_goes_on:
  assumes "serves i s h" "goes_on (hb_tasks h) (hb_tasks h')"
    and "length (rg_sessions (hb_registry h)) \<le> length (rg_sessions (hb_registry h'))"
  shows "serves i s h'"
proof -
  have keep: "task_session (hb_tasks h ! j) = Some t" if "j < length (hb_tasks h)" "task_session (hb_tasks h' ! j) = Some t" for j t
    using assms(2) that unfolding goes_on_def by (metis option.distinct(1))
  have len: "length (hb_tasks h') = length (hb_tasks h)" using assms(2) by (simp add: goes_on_def)
  show ?thesis
  proof (rule servesI)
    show "i < length (hb_tasks h')" "s < length (rg_sessions (hb_registry h'))" using servesD(1,2) [OF assms(1)] assms(3) len by simp_all
    show "t = s" if "task_session (hb_tasks h' ! i) = Some t" for t
      using servesD(3) [OF assms(1) keep [OF servesD(1) [OF assms(1)] that]] .
    show "t < length (rg_sessions (hb_registry h')) \<and> (t = s \<longrightarrow> j = i)"
      if "j < length (hb_tasks h')" "task_session (hb_tasks h' ! j) = Some t" for j t
    proof -
      have j: "j < length (hb_tasks h)" using that(1) len by simp
      from servesD(4) [OF assms(1) j keep [OF j that(2)]] assms(3) show ?thesis by (auto intro: less_le_trans)
    qed
  qed
qed

lemma goes_on_update:
  "(task_session t = task_session (ts ! j) \<or> task_session t = None) \<Longrightarrow>
   (is_running t \<longrightarrow> is_running (ts ! j)) \<Longrightarrow> goes_on ts (ts[j := t])"
proof -
  assume a: "task_session t = task_session (ts ! j) \<or> task_session t = None" "is_running t \<longrightarrow> is_running (ts ! j)"
  have "(task_session (ts[j := t] ! k) = task_session (ts ! k) \<or> task_session (ts[j := t] ! k) = None) \<and>
      (is_running (ts[j := t] ! k) \<longrightarrow> is_running (ts ! k))" if "k < length ts" for k
    using a that by (cases "k = j") auto
  then show ?thesis by (simp add: goes_on_def)
qed

lemma goes_on_refl [simp]: "goes_on ts ts"
  by (simp add: goes_on_def)

definition from_tether :: "nat \<Rightarrow> 'h hub_event \<Rightarrow> bool" where
  "from_tether i e =
     (case e of
        HSession j _ _ _ _ ev \<Rightarrow> (case ev of Input (Message _) \<Rightarrow> j = i | _ \<Rightarrow> False)
      | _ \<Rightarrow> False)"

text \<open>An event at its own session that is not a message from the tether.\<close>

lemma quiet_own:
  assumes "session_step P wall now cr res ev tk r = (result, tk', r')" "\<And>m. ev \<noteq> Input (Message m)"
  shows "quiet s X r r'"
proof (cases ev)
  case (Input inp)
  with assms show ?thesis by (cases inp) (auto simp: session_step_def on_message_def)
next
  case Tick
  with assms(1) show ?thesis
    by (auto simp: session_step_def on_tick_def quiet_try_send split: if_splits)
qed (use assms(1) in \<open>auto simp: session_step_def split: if_splits\<close>)

lemma hub_session_quiet:
  assumes "serves i s h" "\<not> from_tether i (HSession j wall now cr res ev)"
  shows "quiet s X (hb_registry h) (hb_registry (hub_step P H sha h (HSession j wall now cr res ev)))"
proof (cases "j < length (hb_tasks h) \<and> (\<exists>tk. hb_tasks h ! j = Running tk)")
  case True
  then obtain tk where j: "j < length (hb_tasks h)" "hb_tasks h ! j = Running tk" by blast
  obtain result tk' r' where step: "session_step P wall now cr res ev tk (hb_registry h) = (result, tk', r')"
    by (metis prod.exhaust)
  have "tk_session tk < length (rg_sessions (hb_registry h)) \<and> (tk_session tk = s \<longrightarrow> j = i)"
    using assms(1) j unfolding serves_def by (metis task_session.simps(1))
  then have "quiet s X (hb_registry h) r'"
    using quiet_confined [OF confined_step [OF step]] quiet_own [OF step] assms(2)
    by (cases "tk_session tk = s") (auto simp: from_tether_def split: session_event.splits input.splits)
  with j step show ?thesis by (simp add: hub_step_def on_session_def)
qed (auto simp: hub_step_def on_session_def split: task_state.split)

definition calls_within :: "sref \<Rightarrow> forwarded option list \<Rightarrow> forwarded option list \<Rightarrow> bool" where
  "calls_within s cs cs' \<longleftrightarrow> (\<forall>fw. Some fw \<in> set cs \<and> fw_session fw = s \<longrightarrow> Some fw \<in> set cs')"

lemma calls_within_refl [simp]: "calls_within s cs cs"
  by (simp add: calls_within_def)

lemma calls_within_drop: "calls_within s (cs[k := None]) cs"
  by (auto simp: calls_within_def dest!: set_update_subset_insert [THEN subsetD])

text \<open>An attempt to place a request on session \<open>t\<close>, as the hub sees it.\<close>

lemma forward_quiet_or_opens:
  assumes "t < length (rg_sessions (hb_registry h))" "h' = add_call (start_forward H t req (hb_registry h)) h"
  obtains (quiet) "\<And>X. quiet s X (hb_registry h) (hb_registry h')" "calls_within s (hb_calls h') (hb_calls h)"
  | (opens) req' fw where "start_forward H s req' (hb_registry h) = (Inr fw, hb_registry h')"
      "hb_calls h' = hb_calls h @ [Some fw]"
proof (cases "start_forward H t req (hb_registry h)")
  case (Pair res r')
  have fw: "fw_session fw = t" if "res = Inr fw" for fw
    using Pair that by (cases rule: start_forward_cases [OF assms(1), of H req]) auto
  show ?thesis
  proof (cases "t = s \<and> (\<exists>fw. res = Inr fw)")
    case True
    then obtain fw where "t = s" "res = Inr fw" by blast
    with Pair show ?thesis by (intro opens [of req fw]) (auto simp: assms(2) add_call_def)
  next
    case False
    have "quiet s X (hb_registry h) r'" for X
      using False by (intro quiet_start_forward [OF assms(1) Pair]) (cases res, auto)
    with Pair False fw show ?thesis
      by (intro quiet) (auto simp: assms(2) add_call_def calls_within_def split: sum.splits)
  qed
qed

lemma hub_event_cases:
  assumes ok: "hub_ok h" and sv: "serves i s h" and e: "\<not> from_tether i e" and h': "h' = hub_step P H sha h e"
  obtains (quiet) "\<And>X. quiet s X (hb_registry h) (hb_registry h')" "calls_within s (hb_calls h') (hb_calls h)"
  | (opens) req fw where "start_forward H s req (hb_registry h) = (Inr fw, hb_registry h')"
      "hb_calls h' = hb_calls h @ [Some fw]"
proof -
  have reg: "registry_ok (hb_registry h)" using ok by (simp add: hub_ok_def)
  have same: "add_call (Inl err, hb_registry h) h = h" for err by (simp add: add_call_def)
  show ?thesis
  proof (cases e)
    case (HForward wall reserved tid req)
    show ?thesis
    proof (cases "h' = h")
      case True with quiet show ?thesis by simp
    next
      case False
      then obtain t where "map_of (rg_live (hb_registry h)) tid = Some t"
          "h' = add_call (start_forward H t req (hb_registry h)) h"
        by (auto simp: h' HForward hub_step_def Let_def forward_def same split: option.splits if_splits sum.splits)
      from forward_quiet_or_opens [OF live_in_range [OF reg this(1)] this(2)] show ?thesis
        using quiet opens by metis
    qed
  next
    case (HForwardAny wall now tx_closed reserve req)
    show ?thesis
    proof (cases "h' = h")
      case True with quiet show ?thesis by simp
    next
      case False
      then obtain tid t where "reserve_route wall now tx_closed reserve (hb_registry h) = Inr (tid, t)"
          and h2: "h' = add_call (start_forward H t req (hb_registry h)) h"
        by (auto simp: h' HForwardAny hub_step_def Let_def forward_any_def same split: sum.splits)
      from reserve_route_InrD(1) [OF this(1)] have "t < length (rg_sessions (hb_registry h))"
        by (rule eligible_in_range [OF reg])
      from forward_quiet_or_opens [OF this h2] show ?thesis using quiet opens by metis
    qed
  next
    case (HAdmit t req)
    show ?thesis
    proof (cases "t < length (rg_sessions (hb_registry h))")
      case True
      then have "h' = add_call (start_forward H t req (hb_registry h)) h"
        by (simp add: h' HAdmit hub_step_def Let_def)
      from forward_quiet_or_opens [OF True this] show ?thesis using quiet opens by metis
    next
      case False
      then have "h' = h" by (simp add: h' HAdmit hub_step_def Let_def)
      with quiet show ?thesis by simp
    qed
  next
    case (HSession j wall now cr res ev)
    have "hb_calls h' = hb_calls h"
      by (simp add: h' HSession hub_step_def on_session_def split: task_state.split prod.split)
    with hub_session_quiet [OF sv e [unfolded HSession]] quiet show ?thesis by (simp add: h' HSession)
  next
    case (HDrop k res)
    then show ?thesis
      by (intro quiet) (auto simp: h' hub_step_def Let_def quiet_guard_drop calls_within_drop split: option.split)
  next
    case (HAttach wall now started c l)
    then show ?thesis
      by (intro quiet) (auto simp: h' hub_step_def Let_def split: option.split prod.split dest: quiet_attach_session)
  qed (intro quiet; simp add: h' hub_step_def Let_def quiet_register quiet_replace quiet_revoke quiet_close
      quiet_detach quiet_upload_finish split: option.split task_state.split)+
qed

lemma attach_session_new:
  assumes "attach_session sha wall now started c l r = (Some tk, r')"
  shows "tk_session tk = length (rg_sessions r) \<and> length (rg_sessions r') = Suc (length (rg_sessions r)) \<and>
    length (rg_streams r') = length (rg_streams r) \<and> (registry_ok r \<longrightarrow>
      ls_sent (rg_sessions r' ! tk_session tk) = [] \<and> ls_streams (rg_sessions r' ! tk_session tk) = [])"
  using assms
  by (auto simp: attach_session_def attach_def Let_def cancel_session_nth session_new_def
      split: prod.splits option.splits if_splits)

text \<open>Either the tasks go on, or one more session is attached.\<close>

lemma tasks_go_on:
  assumes "\<And>wall now started c l. e \<noteq> HAttach wall now started c l"
  shows "goes_on (hb_tasks h) (hb_tasks (hub_step P H sha h e))"
proof (cases e)
  case (HSession j wall now cr res ev)
  then show ?thesis
    by (auto simp: hub_step_def on_session_def split: task_state.split prod.split
        dest!: session_step_task intro!: goes_on_update)
qed (use assms in \<open>auto simp: hub_step_def Let_def split: option.split task_state.split intro!: goes_on_update\<close>)

lemma hub_tasks_cases:
  obtains (same) "goes_on (hb_tasks h) (hb_tasks (hub_step P H sha h e))"
  | (attached) wall now started c l tk r' where "e = HAttach wall now started c l"
      "attach_session sha wall now started c l (hb_registry h) = (Some tk, r')"
      "hub_step P H sha h e = h\<lparr>hb_registry := r', hb_tasks := hb_tasks h @ [Running tk]\<rparr>"
proof (cases "\<exists>wall now started c l. e = HAttach wall now started c l")
  case True
  then obtain wall now started c l where e: "e = HAttach wall now started c l" by blast
  obtain found r' where a: "attach_session sha wall now started c l (hb_registry h) = (found, r')"
    by (metis prod.exhaust)
  show ?thesis
  proof (cases found)
    case None
    with a e show ?thesis by (intro same) (simp add: hub_step_def)
  next
    case (Some tk)
    with a e show ?thesis by (intro attached) (simp_all add: hub_step_def)
  qed
next
  case False
  then show ?thesis by (intro same tasks_go_on) blast
qed

lemma serves_step:
  assumes sv: "serves i s h"
  shows "serves i s (hub_step P H sha h e)"
proof (cases rule: hub_tasks_cases [of h P H sha e])
  case same
  from serves_goes_on [OF sv this sessions_grow] show ?thesis .
next
  case (attached wall now started c l tk r')
  note new = attach_session_new [OF attached(2)]
  have tasks: "hb_tasks (hub_step P H sha h e) = hb_tasks h @ [Running tk]"
    and reg: "hb_registry (hub_step P H sha h e) = r'" by (simp_all add: attached(3))
  show ?thesis
  proof (rule servesI)
    show "i < length (hb_tasks (hub_step P H sha h e))" "s < length (rg_sessions (hb_registry (hub_step P H sha h e)))"
      using servesD(1,2) [OF sv] new by (simp_all add: tasks reg)
    show "t = s" if "task_session (hb_tasks (hub_step P H sha h e) ! i) = Some t" for t
      using that servesD(1) [OF sv] servesD(3) [OF sv] by (simp add: tasks nth_append)
    show "t < length (rg_sessions (hb_registry (hub_step P H sha h e))) \<and> (t = s \<longrightarrow> j = i)"
      if "j < length (hb_tasks (hub_step P H sha h e))" "task_session (hb_tasks (hub_step P H sha h e) ! j) = Some t" for j t
    proof (cases "j = length (hb_tasks h)")
      case True
      with that(2) new servesD(2) [OF sv] show ?thesis by (auto simp: tasks reg)
    next
      case False
      with that have j: "j < length (hb_tasks h)" "task_session (hb_tasks h ! j) = Some t"
        by (simp_all add: tasks nth_append)
      from servesD(4) [OF sv j] new show ?thesis by (auto simp: reg)
    qed
  qed
qed

text \<open>References of a hub lead somewhere.\<close>

definition hub_refs :: "'h hub \<Rightarrow> bool" where
  "hub_refs h \<longleftrightarrow>
     (\<forall>j < length (hb_tasks h). \<forall>t. task_session (hb_tasks h ! j) = Some t \<longrightarrow> t < length (rg_sessions (hb_registry h))) \<and>
     (\<forall>fw. Some fw \<in> set (hb_calls h) \<longrightarrow> fw_session fw < length (rg_sessions (hb_registry h)))"

lemma hub_refsI:
  assumes "\<And>j t. \<lbrakk>j < length (hb_tasks h); task_session (hb_tasks h ! j) = Some t\<rbrakk> \<Longrightarrow> t < length (rg_sessions (hb_registry h))"
    and "\<And>fw. Some fw \<in> set (hb_calls h) \<Longrightarrow> fw_session fw < length (rg_sessions (hb_registry h))"
  shows "hub_refs h"
  unfolding hub_refs_def using assms by blast

lemma hub_refsD:
  assumes "hub_refs h"
  shows "\<lbrakk>j < length (hb_tasks h); task_session (hb_tasks h ! j) = Some t\<rbrakk> \<Longrightarrow> t < length (rg_sessions (hb_registry h))"
    and "Some fw \<in> set (hb_calls h) \<Longrightarrow> fw_session fw < length (rg_sessions (hb_registry h))"
  using assms unfolding hub_refs_def by blast+


lemma hub_calls_refs:
  assumes "hub_ok h" "Some fw \<in> set (hb_calls (hub_step P H sha h e))"
  shows "Some fw \<in> set (hb_calls h) \<or> fw_session fw < length (rg_sessions (hb_registry h))"
proof -
  have reg: "registry_ok (hb_registry h)" using assms(1) by (simp add: hub_ok_def)
  have start: "fw_session fw = t" if "start_forward H t req r = (Inr fw, r')" "t < length (rg_sessions r)" for t req r r'
    using that(1) by (cases rule: start_forward_cases [OF that(2), of H req]) auto
  have none: "Some fw \<in> set (hb_calls h)" if "Some fw \<in> set ((hb_calls h)[k := None])" for k
    using that by (auto dest!: set_update_subset_insert [THEN subsetD])
  show ?thesis
  proof (cases e)
    case (HForward wall reserved tid req)
    with assms(2) start live_in_range [OF reg, of tid] show ?thesis
      by (auto simp: hub_step_def Let_def add_call_def forward_def split: option.splits if_splits sum.splits prod.splits)
  next
    case (HForwardAny wall now tx_closed reserve req)
    have "t < length (rg_sessions (hb_registry h))" if "reserve_route wall now tx_closed reserve (hb_registry h) = Inr (tid, t)" for tid t
      using reserve_route_InrD(1) [OF that] by (rule eligible_in_range [OF reg])
    with HForwardAny assms(2) start show ?thesis
      by (auto simp: hub_step_def Let_def add_call_def forward_any_def split: sum.splits prod.splits)
  next
    case (HAdmit t req)
    with assms(2) start [of t req "hb_registry h"] show ?thesis
      by (auto simp: hub_step_def Let_def add_call_def split: if_splits sum.splits prod.splits)
  qed (use assms(2) none in \<open>auto simp: hub_step_def Let_def on_session_def
      split: option.splits task_state.splits if_splits prod.splits\<close>)
qed

lemma hub_refs_step:
  assumes "hub_ok h" "hub_refs h"
  shows "hub_refs (hub_step P H sha h e)"
proof (rule hub_refsI)
  let ?h = "hub_step P H sha h e"
  have grow: "length (rg_sessions (hb_registry h)) \<le> length (rg_sessions (hb_registry ?h))" by (rule sessions_grow)
  show "fw_session fw < length (rg_sessions (hb_registry ?h))" if "Some fw \<in> set (hb_calls ?h)" for fw
    using hub_calls_refs [OF assms(1) that] hub_refsD(2) [OF assms(2)] grow by (auto intro: less_le_trans)
  show "t < length (rg_sessions (hb_registry ?h))" if "j < length (hb_tasks ?h)" "task_session (hb_tasks ?h ! j) = Some t" for j t
  proof (cases rule: hub_tasks_cases [of h P H sha e])
    case same
    with that have "j < length (hb_tasks h)" "task_session (hb_tasks h ! j) = Some t"
      by (auto simp: goes_on_def)
    from hub_refsD(1) [OF assms(2) this] grow show ?thesis by simp
  next
    case (attached wall now started c l tk r')
    with that show ?thesis
      using attach_session_new [OF attached(2)] hub_refsD(1) [OF assms(2), of j t]
      by (cases "j = length (hb_tasks h)") (auto simp: nth_append)
  qed
qed

interpretation refs_machine:
  invariant_machine "hub_step P H sha" hub_start "\<lambda>h. hub_ok h \<and> hub_refs h" for P H sha
proof unfold_locales
  fix h :: "'a hub" and e
  show "hub_ok h \<and> hub_refs h" if "hub_start h"
    using that by (auto simp: hub_start_def hub_ok_def registry_ok_new hub_refs_def)
  show "hub_ok (hub_step P H sha h e) \<and> hub_refs (hub_step P H sha h e)" if "hub_ok h \<and> hub_refs h"
    using that hub_ok_step hub_refs_step by blast
qed

end
