(* ===== verification/Multiplex.thy ===== *)
theory Multiplex
  imports Bystanders Request_Path "HOL-Library.Sublist"
begin

text \<open>
  Many callers over one tether. The whole hub (every other tether, caller and administrator
  included) and one tether's session are joined by the two directions of their connection:
  what the hub's session queued is read by the tether in order, what the tether and its
  pumps wrote is read by the hub in order. Pumps write as their engine answers come in, in
  any order among each other, and callers come, upload and leave at any time. Both readers
  may be arbitrarily late, and a pump that was told to stop may still write what it had: an
  aborted task of the code stops at its next await, so the model has every run of the code.
\<close>

section \<open>The connected machines\<close>

text \<open>
  The command queue of the hub's session and the tether's writer channel are the two ordered
  lists \<open>ls_sent\<close> and \<open>nw_wire\<close>; \<open>nw_taken\<close> and \<open>nw_got\<close> count what the two readers have taken
  of them. \<open>nw_out\<close> holds, per pump, the outcome of its exchange once it has one, and how
  many of its frames it has written.
\<close>

record ('h, 'g) network =
  nw_hub :: "'h hub"
  nw_task :: nat
  nw_session :: sref
  nw_taken :: nat
  nw_tether :: tether_session
  nw_up :: bool
  nw_out :: "('g engine_response option option \<times> nat) list"
  nw_wire :: "frame list"
  nw_got :: nat

definition hub_queue :: "sref \<Rightarrow> 'h hub \<Rightarrow> frame list" where
  "hub_queue s h = ls_sent (rg_sessions (hb_registry h) ! s)"

text \<open>
  The tether after one pass of its loop: what it wrote itself is on the wire, a new pump has
  written nothing, and a pass that leaves the loop is followed by the teardown.
\<close>

definition after_pass ::
    "tether_result \<times> tether_session \<Rightarrow> ('h, 'g) network \<Rightarrow> ('h, 'g) network" where
  "after_pass = (\<lambda>(result, t) nw.
     nw\<lparr>nw_tether := (if result = TContinue then t else tether_teardown t),
        nw_up := (result = TContinue),
        nw_wire := nw_wire nw @ drop (length (ts_sent (nw_tether nw))) (ts_sent t),
        nw_out := nw_out nw @ replicate (length (ts_pumps t) - length (nw_out nw)) (None, 0)\<rparr>)"

text \<open>The tether reads the next frame; one too large to be decoded fails its reader.\<close>

definition down_link :: "nat \<Rightarrow> send_result \<Rightarrow> send_result \<Rightarrow> ('h, 'g) network \<Rightarrow> ('h, 'g) network" where
  "down_link now in_res res nw =
     (let sent = hub_queue (nw_session nw) (nw_hub nw)
      in if nw_up nw \<and> nw_taken nw < length sent
         then let f = sent ! nw_taken nw;
                  ev = FromHub (if fits f then HubFrame (ws_msg f) else HubFailed)
              in after_pass (tether_step now in_res res ev (nw_tether nw)) (nw\<lparr>nw_taken := Suc (nw_taken nw)\<rparr>)
         else nw)"

text \<open>A pass for anything else: its timers, completed pumps, the end of the connection.\<close>

definition tether_side ::
    "nat \<Rightarrow> send_result \<Rightarrow> send_result \<Rightarrow> tether_event \<Rightarrow> ('h, 'g) network \<Rightarrow> ('h, 'g) network" where
  "tether_side now in_res res ev nw =
     (case ev of
        FromHub (HubFrame _) \<Rightarrow> nw
      | _ \<Rightarrow> if nw_up nw then after_pass (tether_step now in_res res ev (nw_tether nw)) nw else nw)"

text \<open>The engine's answer to a pump becomes known; the pump writes its next frame.\<close>

definition exchange_ends :: "pref \<Rightarrow> 'g engine_response option \<Rightarrow> ('h, 'g) network \<Rightarrow> ('h, 'g) network" where
  "exchange_ends p ex nw =
     (if p < length (nw_out nw) \<and> fst (nw_out nw ! p) = None
      then nw\<lparr>nw_out := (nw_out nw)[p := (Some ex, 0)]\<rparr> else nw)"

definition pump_writes :: "'g header_api \<Rightarrow> pref \<Rightarrow> ('h, 'g) network \<Rightarrow> ('h, 'g) network" where
  "pump_writes HT p nw =
     (if nw_up nw \<and> p < length (nw_out nw)
      then (case nw_out nw ! p of
              (Some ex, n) \<Rightarrow>
                (let fs = pump_frames HT (pm_stream (ts_pumps (nw_tether nw) ! p)) ex
                 in if n < length fs
                    then nw\<lparr>nw_wire := nw_wire nw @ [fs ! n], nw_out := (nw_out nw)[p := (Some ex, Suc n)]\<rparr>
                    else nw)
            | (None, _) \<Rightarrow> nw)
      else nw)"

text \<open>The hub's session reads the next frame, as long as it is in its loop.\<close>

definition up_link ::
    "'h head_parser \<Rightarrow> 'h header_api \<Rightarrow> (bytes \<Rightarrow> bytes) \<Rightarrow> nat \<Rightarrow> nat \<Rightarrow> send_result \<Rightarrow> send_result \<Rightarrow>
     ('h, 'g) network \<Rightarrow> ('h, 'g) network" where
  "up_link P H sha wall now chunk_res res nw =
     (if nw_got nw < length (nw_wire nw) \<and> is_running (hb_tasks (nw_hub nw) ! nw_task nw)
      then let f = nw_wire nw ! nw_got nw;
               inp = (if fits f then Message (ws_msg f) else InputError)
           in nw\<lparr>nw_hub := hub_step P H sha (nw_hub nw) (HSession (nw_task nw) wall now chunk_res res (Input inp)),
                 nw_got := Suc (nw_got nw)\<rparr>
      else nw)"

text \<open>Any other event of the hub, and the frames of a caller's upload task.\<close>

definition hub_side ::
    "'h head_parser \<Rightarrow> 'h header_api \<Rightarrow> (bytes \<Rightarrow> bytes) \<Rightarrow> 'h hub_event \<Rightarrow> ('h, 'g) network \<Rightarrow> ('h, 'g) network" where
  "hub_side P H sha e nw =
     (if from_tether (nw_task nw) e then nw else nw\<lparr>nw_hub := hub_step P H sha (nw_hub nw) e\<rparr>)"

definition upload_sends :: "nat \<Rightarrow> bytes \<Rightarrow> send_result \<Rightarrow> ('h, 'g) network \<Rightarrow> ('h, 'g) network" where
  "upload_sends k chunk res nw =
     (let h = nw_hub nw in
      case (if k < length (hb_calls h) then hb_calls h ! k else None) of
        None \<Rightarrow> nw
      | Some fw \<Rightarrow>
          let f = (if chunk = [] then HalfEnd (fw_id fw) else Data (fw_id fw) chunk)
          in nw\<lparr>nw_hub := h\<lparr>hb_registry := try_send (fw_session fw) f res (hb_registry h)\<rparr>\<rparr>)"

datatype ('h, 'g) network_event =
    HubSide "'h hub_event"
  | UploadSends nat bytes send_result
  | DownLink nat send_result send_result
  | TetherSide nat send_result send_result tether_event
  | ExchangeEnds pref "'g engine_response option"
  | PumpWrites pref
  | UpLink nat nat send_result send_result

definition network_step ::
    "'h head_parser \<Rightarrow> 'h header_api \<Rightarrow> 'g header_api \<Rightarrow> (bytes \<Rightarrow> bytes) \<Rightarrow>
     ('h, 'g) network \<Rightarrow> ('h, 'g) network_event \<Rightarrow> ('h, 'g) network" where
  "network_step P H HT sha nw e =
     (case e of
        HubSide he \<Rightarrow> hub_side P H sha he nw
      | UploadSends k chunk res \<Rightarrow> upload_sends k chunk res nw
      | DownLink now in_res res \<Rightarrow> down_link now in_res res nw
      | TetherSide now in_res res ev \<Rightarrow> tether_side now in_res res ev nw
      | ExchangeEnds p ex \<Rightarrow> exchange_ends p ex nw
      | PumpWrites p \<Rightarrow> pump_writes HT p nw
      | UpLink wall now chunk_res res \<Rightarrow> up_link P H sha wall now chunk_res res nw)"

text \<open>The connection begins where the hub, in whatever state, has attached the tether.\<close>

definition network_start ::
    "'h head_parser \<Rightarrow> 'h header_api \<Rightarrow> (bytes \<Rightarrow> bytes) \<Rightarrow> ('h, 'g) network \<Rightarrow> bool" where
  "network_start P H sha nw \<longleftrightarrow>
     (\<exists>h wall now started c l tk r t. reach (hub_step P H sha) hub_start h \<and>
        attach_session sha wall now started c l (hb_registry h) = (Some tk, r) \<and> tether_start t \<and>
        nw = \<lparr>nw_hub = h\<lparr>hb_registry := r, hb_tasks := hb_tasks h @ [Running tk]\<rparr>,
              nw_task = length (hb_tasks h), nw_session = tk_session tk, nw_taken = 0,
              nw_tether = t, nw_up = True, nw_out = [], nw_wire = [], nw_got = 0\<rparr>)"

section \<open>The tether's side\<close>

text \<open>The frames that carry a stream's answer and say that it is whole.\<close>

fun carries :: "stream_id \<Rightarrow> frame \<Rightarrow> bool" where
  "carries sid (RespHead a _) = (a = sid)"
| "carries sid (Data a _) = (a = sid)"
| "carries sid (End a reason) = (a = sid \<and> reason = [])"
| "carries _ _ = False"

definition pump_opening :: "pump \<Rightarrow> frame" where
  "pump_opening pm = Open (pm_stream pm) (pm_head pm)"

text \<open>What a pump has written.\<close>

definition written :: "'g header_api \<Rightarrow> stream_id \<Rightarrow> 'g engine_response option option \<times> nat \<Rightarrow> frame list" where
  "written HT sid = (\<lambda>(ex, n). case ex of None \<Rightarrow> [] | Some e \<Rightarrow> take n (pump_frames HT sid e))"

definition tether_inv ::
    "'g header_api \<Rightarrow> frame list \<Rightarrow> nat \<Rightarrow> tether_session \<Rightarrow> ('g engine_response option option \<times> nat) list \<Rightarrow>
     frame list \<Rightarrow> bool" where
  "tether_inv HT sent taken t out wire \<longleftrightarrow>
     taken \<le> length sent \<and>
     set (map pump_opening (ts_pumps t)) \<subseteq> set (take taken sent) \<and> distinct (map pm_stream (ts_pumps t)) \<and>
     length out = length (ts_pumps t) \<and>
     (\<forall>p < length out. fst (out ! p) = None \<longrightarrow> snd (out ! p) = 0) \<and>
     (\<forall>p < length out. let sid = pm_stream (ts_pumps t ! p)
        in filter (carries sid) wire = filter (carries sid) (written HT sid (out ! p))) \<and>
     (\<forall>sid. sid \<notin> pm_stream ` set (ts_pumps t) \<longrightarrow> filter (carries sid) wire = [])"

lemma pump_heads_upd [simp]: "(\<And>pm. pump_opening (f pm) = pump_opening pm) \<Longrightarrow> map pump_opening (ts_pumps (upd_pump p f t)) = map pump_opening (ts_pumps t)"
proof -
  assume "\<And>pm. pump_opening (f pm) = pump_opening pm"
  then show ?thesis by (intro nth_equalityI) (auto simp: upd_pump_nth)
qed

lemma pump_heads_abort [simp]: "map pump_opening (ts_pumps (abort_pump p t)) = map pump_opening (ts_pumps t)"
  by (simp add: abort_pump_def pump_opening_def)

lemma pump_heads_drop [simp]: "map pump_opening (ts_pumps (drop_stream sid t)) = map pump_opening (ts_pumps t)"
  by (simp add: drop_stream_def pump_heads_abort split: option.split)

lemma pump_heads_teardown [simp]: "map pump_opening (ts_pumps (tether_teardown t)) = map pump_opening (ts_pumps t)"
proof -
  have "map pump_opening (ts_pumps (fold (\<lambda>(_, p). abort_pump p) l t)) = map pump_opening (ts_pumps t)" for l
    by (induction l arbitrary: t) auto
  then show ?thesis by (simp add: tether_teardown_def)
qed

lemma sent_updates [simp]:
  "ts_sent (abort_pump p t) = ts_sent t" "ts_sent (drop_stream sid t) = ts_sent t"
  by (simp_all add: abort_pump_def drop_stream_def split: option.split)

lemma sent_teardown [simp]: "ts_sent (tether_teardown t) = ts_sent t"
proof -
  have "ts_sent (fold (\<lambda>(_, p). abort_pump p) l t) = ts_sent t" for l
    by (induction l arbitrary: t) auto
  then show ?thesis by (simp add: tether_teardown_def)
qed

text \<open>
  One pass of the tether: it writes no frame that carries an answer, and its pumps are the
  old ones and, after an OPEN that was let in, one for that.
\<close>

definition pass_effect :: "frame option \<Rightarrow> tether_session \<Rightarrow> tether_session \<Rightarrow> bool" where
  "pass_effect f t t' \<longleftrightarrow>
     (\<exists>fs. ts_sent t' = ts_sent t @ fs \<and> (\<forall>f \<in> set fs. \<forall>sid. \<not> carries sid f)) \<and>
     (map pump_opening (ts_pumps t') = map pump_opening (ts_pumps t) \<or>
      (\<exists>sid head. f = Some (Open sid head) \<and> map pump_opening (ts_pumps t') = map pump_opening (ts_pumps t) @ [Open sid head]))"

lemma pass_same:
  "ts_sent t' = ts_sent t \<Longrightarrow> map pump_opening (ts_pumps t') = map pump_opening (ts_pumps t) \<Longrightarrow> pass_effect f t t'"
  by (auto simp: pass_effect_def)

lemma pass_send:
  "ts_sent t' = ts_sent t \<Longrightarrow> map pump_opening (ts_pumps t') = map pump_opening (ts_pumps t) \<Longrightarrow> (\<And>sid. \<not> carries sid fr) \<Longrightarrow>
   pass_effect f t (snd (tether_send res fr t'))"
  by (auto simp: pass_effect_def tether_send_def)

lemma pass_feed: "pass_effect f t (snd (feed_stream in_res res sid bs t))"
proof -
  have "pass_effect f t (upd_pump p (\<lambda>pm. pm\<lparr>pm_input := pm_input pm @ [bs]\<rparr>) t)" for p
    by (intro pass_same) (simp_all add: pump_opening_def)
  moreover have "pass_effect f t (snd (tether_send res (End sid (asc ''request body exceeded tether backpressure'')) (drop_stream sid t)))"
    by (intro pass_send) auto
  ultimately show ?thesis
    by (auto simp: feed_stream_def enqueue_stream_input_def pass_same simp del: asc_simps
        split: option.split send_result.split)
qed

lemma pass_frame: "pass_effect (Some fr) t (snd (fst (tether_frame in_res res fr t)))"
proof (cases fr)
  case (Open sid head)
  have "map pump_opening (ts_pumps (open_stream sid head t)) = map pump_opening (ts_pumps t) @ [Open sid head]"
    "ts_sent (open_stream sid head t) = ts_sent t"
    by (simp_all add: open_stream_def Let_def pump_opening_def split: option.split)
  then have "pass_effect (Some (Open sid head)) t (open_stream sid head t)" by (auto simp: pass_effect_def)
  moreover have "pass_effect (Some fr) t (snd (tether_send res (End sid (asc ''overloaded'')) t))"
    by (intro pass_send) auto
  ultimately show ?thesis using Open by (simp add: tether_frame_def del: asc_simps)
next
  case Ping
  have "pass_effect (Some fr) t (snd (tether_send res Pong t))" by (intro pass_send) auto
  with Ping show ?thesis by (simp add: tether_frame_def)
qed (auto simp: tether_frame_def pass_feed intro!: pass_same)

lemma pass_step: "pass_effect (frame_of ev) t (snd (tether_step now in_res res ev t))"
proof (cases "frame_of ev")
  case (Some f)
  from tether_step_frame [OF Some, of now in_res res t] pass_frame [of f t in_res res] Some show ?thesis
    by (auto simp: pass_effect_def)
next
  case None
  then show ?thesis
  proof (cases ev)
    case PingTick
    have "pass_effect None t (snd (tether_send res Ping t))" by (intro pass_send) auto
    then show ?thesis using None
      by (auto simp: PingTick tether_step_def pass_effect_def Let_def split: prod.splits)
  next
    case LeaseTick
    have "pass_effect None t (snd (tether_send res (GoAway (asc ''lease refresh'')) t))" by (intro pass_send) auto
    then show ?thesis using None by (simp add: LeaseTick tether_step_def del: asc_simps)
  qed (use None in \<open>auto simp: tether_step_def frame_of_def intro!: pass_same
      split: session_input.splits sum.splits option.splits\<close>)
qed

text \<open>The invariant of the tether's side, from its parts.\<close>

lemma tether_invI:
  assumes "taken \<le> length sent" "set (map pump_opening (ts_pumps t)) \<subseteq> set (take taken sent)"
    and "distinct (map pm_stream (ts_pumps t))" "length out = length (ts_pumps t)"
    and "\<And>p. p < length out \<Longrightarrow> fst (out ! p) = None \<Longrightarrow> snd (out ! p) = 0"
    and "\<And>p sid. p < length out \<Longrightarrow> pm_stream (ts_pumps t ! p) = sid \<Longrightarrow>
      filter (carries sid) wire = filter (carries sid) (written HT sid (out ! p))"
    and "\<And>sid. sid \<notin> pm_stream ` set (ts_pumps t) \<Longrightarrow> filter (carries sid) wire = []"
  shows "tether_inv HT sent taken t out wire"
  using assms unfolding tether_inv_def Let_def by blast

lemma tether_invD:
  assumes "tether_inv HT sent taken t out wire"
  shows "taken \<le> length sent" "set (map pump_opening (ts_pumps t)) \<subseteq> set (take taken sent)"
    and "distinct (map pm_stream (ts_pumps t))" "length out = length (ts_pumps t)"
    and "p < length out \<Longrightarrow> fst (out ! p) = None \<Longrightarrow> snd (out ! p) = 0"
    and "p < length out \<Longrightarrow> pm_stream (ts_pumps t ! p) = sid \<Longrightarrow>
      filter (carries sid) wire = filter (carries sid) (written HT sid (out ! p))"
    and "sid \<notin> pm_stream ` set (ts_pumps t) \<Longrightarrow> filter (carries sid) wire = []"
  using assms unfolding tether_inv_def Let_def by blast+

lemma streams_of_openings:
  assumes "map pump_opening ps = map pump_opening qs"
  shows "map pm_stream ps = map pm_stream qs"
proof -
  have "map pm_stream ps = map (\<lambda>f. the (opened f)) (map pump_opening ps)" for ps
    by (simp add: pump_opening_def)
  with assms show ?thesis by metis
qed

lemma tether_inv_start: "tether_start t \<Longrightarrow> tether_inv HT sent 0 t [] []"
  by (auto simp: tether_start_def intro!: tether_invI)

lemma tether_inv_more: "tether_inv HT sent taken t out wire \<Longrightarrow> tether_inv HT (sent @ fs) taken t out wire"
  using tether_invD [of HT sent taken t out wire] by (intro tether_invI) auto

text \<open>Only the pumps' openings matter, and frames that carry nothing change nothing.\<close>

lemma tether_inv_same:
  assumes "tether_inv HT sent taken t out wire" "map pump_opening (ts_pumps t') = map pump_opening (ts_pumps t)"
    and "\<forall>f \<in> set fs. \<forall>sid. \<not> carries sid f" "taken \<le> taken'" "taken' \<le> length sent"
  shows "tether_inv HT sent taken' t' out (wire @ fs)"
proof -
  note inv = tether_invD [OF assms(1)]
  have streams: "map pm_stream (ts_pumps t') = map pm_stream (ts_pumps t)"
    using streams_of_openings [OF assms(2)] .
  then have len: "length (ts_pumps t') = length (ts_pumps t)" by (metis length_map)
  have nth: "pm_stream (ts_pumps t' ! p) = pm_stream (ts_pumps t ! p)" if "p < length out" for p
    using streams len inv(4) that by (metis nth_map)
  have img: "pm_stream ` set (ts_pumps t') = pm_stream ` set (ts_pumps t)"
    using streams by (metis set_map)
  have none: "filter (carries sid) fs = []" for sid using assms(3) by (simp add: filter_empty_conv)
  have "set (take taken sent) \<subseteq> set (take taken' sent)" using assms(4) by (rule set_take_subset_set_take)
  with inv(2) have sub: "set (map pump_opening (ts_pumps t')) \<subseteq> set (take taken' sent)"
    unfolding assms(2) by blast
  show ?thesis
    using sub inv assms(5) by (intro tether_invI) (auto simp: streams len nth img none)
qed

text \<open>A new pump is one for a stream nothing was written for.\<close>

lemma tether_inv_open:
  assumes "tether_inv HT sent taken t out wire" "taken < length sent" "sent ! taken = Open sid head"
    and "distinct (List.map_filter opened sent)"
    and "map pump_opening (ts_pumps t') = map pump_opening (ts_pumps t) @ [Open sid head]"
    and "\<forall>f \<in> set fs. \<forall>sid. \<not> carries sid f"
  shows "tether_inv HT sent (Suc taken) t' (out @ [(None, 0)]) (wire @ fs)"
proof -
  note inv = tether_invD [OF assms(1)]
  have map: "map pm_stream ps = map (\<lambda>f. the (opened f)) (map pump_opening ps)" for ps
    by (simp add: pump_opening_def)
  have streams: "map pm_stream (ts_pumps t') = map pm_stream (ts_pumps t) @ [sid]"
    unfolding map assms(5) by simp
  then have len: "length (ts_pumps t') = Suc (length (ts_pumps t))" by (metis length_map length_append_singleton)
  have nth: "pm_stream (ts_pumps t' ! p) = (map pm_stream (ts_pumps t) @ [sid]) ! p" if "p < length (ts_pumps t')" for p
    using streams that by (metis nth_map)
  have img: "pm_stream ` set (ts_pumps t') = insert sid (pm_stream ` set (ts_pumps t))"
    using streams by (metis Un_insert_right list.set(1) list.set(2) set_append set_map sup_bot_right)
  have split: "take (Suc taken) sent = take taken sent @ [Open sid head]"
    using assms(2,3) by (simp add: take_Suc_conv_app_nth)
  have fresh: "sid \<notin> pm_stream ` set (ts_pumps t)"
  proof
    assume "sid \<in> pm_stream ` set (ts_pumps t)"
    then obtain pm where "pm \<in> set (ts_pumps t)" "pm_stream pm = sid" by blast
    with inv(2) have "Open sid (pm_head pm) \<in> set (take taken sent)"
      by (force simp: pump_opening_def)
    then have "sid \<in> set (List.map_filter opened (take taken sent))"
      by (force simp: map_filter_def)
    moreover have "distinct (List.map_filter opened (take (Suc taken) sent))"
      using assms(4) by (metis append_take_drop_id distinct_append map_filter_def filter_append map_append)
    ultimately show False by (simp add: split map_filter_def)
  qed
  have none: "filter (carries a) fs = []" for a using assms(6) by (simp add: filter_empty_conv)
  show ?thesis
  proof (rule tether_invI)
    show "set (map pump_opening (ts_pumps t')) \<subseteq> set (take (Suc taken) sent)"
      unfolding assms(5) split using inv(2) by auto
    show "distinct (map pm_stream (ts_pumps t'))" unfolding streams using inv(3) fresh by simp
    fix p a assume p: "p < length (out @ [(None, 0)])" "pm_stream (ts_pumps t' ! p) = a"
    show "filter (carries a) (wire @ fs) = filter (carries a) (written HT a ((out @ [(None, 0)]) ! p))"
    proof (cases "p = length out")
      case True
      with p nth len inv(4) have "a = sid" by (simp add: nth_append)
      with True inv(7) [OF fresh] show ?thesis by (simp add: none written_def)
    next
      case False
      with p nth len inv(4) have "p < length out" "pm_stream (ts_pumps t ! p) = a" by (simp_all add: nth_append)
      with inv(6) show ?thesis by (simp add: none nth_append)
    qed
  qed (use inv assms(2) len img none in \<open>auto simp: nth_append less_Suc_eq\<close>)
qed

text \<open>The steps of the network that concern the tether.\<close>

definition tether_part :: "'g header_api \<Rightarrow> ('h, 'g) network \<Rightarrow> bool" where
  "tether_part HT nw \<longleftrightarrow>
     tether_inv HT (hub_queue (nw_session nw) (nw_hub nw)) (nw_taken nw) (nw_tether nw) (nw_out nw) (nw_wire nw)"

lemma after_pass_simps [simp]:
  "nw_hub (after_pass q nw) = nw_hub nw" "nw_task (after_pass q nw) = nw_task nw"
  "nw_session (after_pass q nw) = nw_session nw" "nw_taken (after_pass q nw) = nw_taken nw"
  "nw_got (after_pass q nw) = nw_got nw"
  by (simp_all add: after_pass_def split: prod.split)

lemma tether_part_pass:
  assumes "pass_effect f (nw_tether nw) (snd q)"
    and "tether_inv HT sent taken (nw_tether nw) (nw_out nw) (nw_wire nw)" "distinct (List.map_filter opened sent)"
    and "taken' \<le> length sent" "taken \<le> taken'"
    and "\<And>sid head. f = Some (Open sid head) \<Longrightarrow> taken < length sent \<and> sent ! taken = Open sid head \<and> taken' = Suc taken"
  shows "tether_inv HT sent taken' (nw_tether (after_pass q nw)) (nw_out (after_pass q nw)) (nw_wire (after_pass q nw))"
proof -
  obtain result t where q: "q = (result, t)" by (cases q)
  let ?t = "if result = TContinue then t else tether_teardown t"
  from assms(1) obtain fs where sent: "ts_sent t = ts_sent (nw_tether nw) @ fs" and fs: "\<forall>f \<in> set fs. \<forall>sid. \<not> carries sid f"
    by (auto simp: pass_effect_def q)
  have heads: "map pump_opening (ts_pumps ?t) = map pump_opening (ts_pumps t)" by simp
  then have len: "length (ts_pumps t) = length (ts_pumps ?t)" by (metis length_map)
  note out = tether_invD(4) [OF assms(2)]
  from assms(1) consider
      "map pump_opening (ts_pumps t) = map pump_opening (ts_pumps (nw_tether nw))"
    | sid head where "f = Some (Open sid head)"
        "map pump_opening (ts_pumps t) = map pump_opening (ts_pumps (nw_tether nw)) @ [Open sid head]"
    by (auto simp: pass_effect_def q)
  then show ?thesis
  proof cases
    case 1
    then have "length (ts_pumps t) = length (nw_out nw)" by (metis length_map out)
    with tether_inv_same [OF assms(2) heads [unfolded 1] fs assms(5,4)] show ?thesis
      by (simp add: after_pass_def q sent)
  next
    case 2
    then have "length (ts_pumps t) = Suc (length (nw_out nw))" by (metis length_map length_append_singleton out)
    moreover from assms(6) [OF 2(1)] have o: "taken < length sent" "sent ! taken = Open sid head" "taken' = Suc taken" by auto
    ultimately show ?thesis
      using tether_inv_open [OF assms(2) o(1,2) assms(3) heads [unfolded 2] fs] by (simp add: after_pass_def q sent)
  qed
qed

lemma frame_of_hub [simp]: "fits f \<Longrightarrow> frame_of (FromHub (HubFrame (ws_msg f))) = Some f"
  by (simp add: frame_of_def ws_msg_def)

lemma tether_part_down:
  assumes "tether_part HT nw" "distinct (List.map_filter opened (hub_queue (nw_session nw) (nw_hub nw)))"
  shows "tether_part HT (down_link now in_res res nw)"
proof -
  let ?sent = "hub_queue (nw_session nw) (nw_hub nw)"
  let ?nw = "nw\<lparr>nw_taken := Suc (nw_taken nw)\<rparr>"
  let ?f = "?sent ! nw_taken nw"
  let ?ev = "FromHub (if fits ?f then HubFrame (ws_msg ?f) else HubFailed)"
  show ?thesis
  proof (cases "nw_up nw \<and> nw_taken nw < length ?sent")
    case True
    have ev: "frame_of ?ev = (if fits ?f then Some ?f else None)" by (simp add: frame_of_def ws_msg_def)
    have "tether_inv HT ?sent (Suc (nw_taken nw)) (nw_tether (after_pass (tether_step now in_res res ?ev (nw_tether nw)) ?nw))
        (nw_out (after_pass (tether_step now in_res res ?ev (nw_tether nw)) ?nw))
        (nw_wire (after_pass (tether_step now in_res res ?ev (nw_tether nw)) ?nw))"
      using assms True pass_step [of ?ev "nw_tether nw" now in_res res]
      by (intro tether_part_pass [where nw = ?nw and f = "frame_of ?ev" and taken = "nw_taken nw"])
        (auto simp: tether_part_def ev split: if_splits)
    with True show ?thesis by (simp add: tether_part_def down_link_def Let_def)
  next
    case False
    then have "down_link now in_res res nw = nw" by (simp only: down_link_def Let_def if_False)
    with assms show ?thesis by simp
  qed
qed

lemma tether_part_side:
  assumes "tether_part HT nw" "distinct (List.map_filter opened (hub_queue (nw_session nw) (nw_hub nw)))"
  shows "tether_part HT (tether_side now in_res res ev nw)"
proof (cases "nw_up nw \<and> (\<forall>m. ev \<noteq> FromHub (HubFrame m))")
  case True
  then have none: "frame_of ev = None"
    by (auto simp: frame_of_def split: tether_event.split session_input.split)
  have "tether_inv HT (hub_queue (nw_session nw) (nw_hub nw)) (nw_taken nw)
      (nw_tether (after_pass (tether_step now in_res res ev (nw_tether nw)) nw))
      (nw_out (after_pass (tether_step now in_res res ev (nw_tether nw)) nw))
      (nw_wire (after_pass (tether_step now in_res res ev (nw_tether nw)) nw))"
    using assms pass_step [of ev "nw_tether nw" now in_res res] tether_invD(1) none
    by (intro tether_part_pass [where f = None and taken = "nw_taken nw"]) (auto simp: tether_part_def)
  moreover have "tether_side now in_res res ev nw = after_pass (tether_step now in_res res ev (nw_tether nw)) nw"
    using True by (cases ev) (auto simp: tether_side_def split: session_input.split)
  ultimately show ?thesis by (simp add: tether_part_def)
qed (use assms in \<open>auto simp: tether_side_def split: tether_event.split session_input.split\<close>)

lemma tether_part_exchange:
  assumes "tether_part HT nw"
  shows "tether_part HT (exchange_ends p ex nw)"
proof -
  note inv = tether_invD [OF assms [unfolded tether_part_def]]
  have "written HT sid (nw_out nw ! p) = []" if "fst (nw_out nw ! p) = None" for sid
    using that by (cases "nw_out nw ! p") (simp add: written_def)
  then show ?thesis
    using assms inv
    by (auto simp: exchange_ends_def tether_part_def nth_list_update written_def intro!: tether_invI split: if_splits)
qed

lemma tether_part_write:
  assumes "tether_part HT nw"
  shows "tether_part HT (pump_writes HT p nw)"
proof (cases "pump_writes HT p nw = nw")
  case False
  then obtain ex n where p: "p < length (nw_out nw)" "nw_out nw ! p = (Some ex, n)"
    by (auto simp: pump_writes_def split: if_splits prod.splits option.splits)
  let ?t = "nw_tether nw"
  let ?sid = "pm_stream (ts_pumps ?t ! p)"
  let ?fs = "pump_frames HT ?sid ex"
  from False p have n: "n < length ?fs"
    and nw': "pump_writes HT p nw = nw\<lparr>nw_wire := nw_wire nw @ [?fs ! n], nw_out := (nw_out nw)[p := (Some ex, Suc n)]\<rparr>"
    by (auto simp: pump_writes_def Let_def split: if_splits)
  note inv = tether_invD [OF assms [unfolded tether_part_def]]
  have own: "\<not> carries sid (?fs ! n)" if "sid \<noteq> ?sid" for sid
  proof -
    have "\<forall>f \<in> set ?fs. \<not> carries sid f" using that by (auto simp: pump_frames_eq split: option.split)
    with n show ?thesis by simp
  qed
  have other: "pm_stream (ts_pumps ?t ! q) \<noteq> ?sid" if "q < length (nw_out nw)" "q \<noteq> p" for q
    using nth_eq_iff_index_eq [OF inv(3), of q p] that p(1) inv(4) by auto
  have "?sid \<in> pm_stream ` set (ts_pumps ?t)" using p(1) inv(4) by simp
  then have "tether_inv HT (hub_queue (nw_session nw) (nw_hub nw)) (nw_taken nw) ?t
      ((nw_out nw)[p := (Some ex, Suc n)]) (nw_wire nw @ [?fs ! n])"
    using inv p n own other \<open>?sid \<in> _\<close>
  proof (intro tether_invI)
    show "filter (carries a) (nw_wire nw @ [?fs ! n]) = []" if "a \<notin> pm_stream ` set (ts_pumps ?t)" for a
    proof -
      have "a \<noteq> ?sid" using that \<open>?sid \<in> _\<close> by blast
      with inv(7) [OF that] own show ?thesis by simp
    qed
  qed (auto simp: nth_list_update written_def take_Suc_conv_app_nth)
  then show ?thesis unfolding nw' by (simp add: tether_part_def)
qed (use assms in simp)

text \<open>What is on the wire for one stream is the beginning of the answer its pump hands over.\<close>

definition answer_frames :: "'g header_api \<Rightarrow> stream_id \<Rightarrow> 'g engine_response \<Rightarrow> frame list" where
  "answer_frames HT sid res =
     RespHead sid (encode_response_head HT (er_status res) (er_reason res) (er_headers res)) #
     map (Data sid) (data_chunks (er_body res)) @ (if EngineError \<in> set (er_body res) then [] else [End sid []])"

lemma carries_pump_frames:
  "filter (carries sid) (pump_frames HT sid (Some res)) = [] \<or>
   filter (carries sid) (pump_frames HT sid (Some res)) = answer_frames HT sid res"
  by (simp add: pump_frames_eq answer_frames_def)

lemma wire_of_stream:
  assumes "tether_part HT nw" "filter (carries sid) (nw_wire nw) \<noteq> []"
  shows "\<exists>p < length (ts_pumps (nw_tether nw)). \<exists>res.
    Open sid (pm_head (ts_pumps (nw_tether nw) ! p)) \<in> set (hub_queue (nw_session nw) (nw_hub nw)) \<and>
    fst (nw_out nw ! p) = Some (Some res) \<and> pm_stream (ts_pumps (nw_tether nw) ! p) = sid \<and>
    prefix (filter (carries sid) (nw_wire nw)) (answer_frames HT sid res)"
proof -
  note inv = tether_invD [OF assms(1) [unfolded tether_part_def]]
  let ?ps = "ts_pumps (nw_tether nw)"
  from inv(7) assms(2) have "sid \<in> pm_stream ` set ?ps" by blast
  then obtain p where p: "p < length ?ps" "pm_stream (?ps ! p) = sid" by (auto simp: in_set_conv_nth)
  obtain ex n where out: "nw_out nw ! p = (ex, n)" by (cases "nw_out nw ! p")
  from inv(4,6) p assms(2) have w: "filter (carries sid) (nw_wire nw) = filter (carries sid) (written HT sid (ex, n))"
    using out by simp
  with assms(2) obtain e where ex: "ex = Some e" by (auto simp: written_def split: option.splits)
  have pre: "prefix (filter (carries sid) (nw_wire nw)) (filter (carries sid) (pump_frames HT sid e))"
    unfolding w ex written_def by (simp add: filter_mono_prefix take_is_prefix)
  have "pump_frames HT sid None = [End sid (asc ''engine request or response failed'')]" by (simp add: pump_frames_eq)
  with pre assms(2) obtain res where e: "e = Some res" by (cases e) auto
  have "prefix (filter (carries sid) (nw_wire nw)) (answer_frames HT sid res)"
    using carries_pump_frames [of sid HT res] pre assms(2) unfolding e by auto
  moreover have "Open sid (pm_head (?ps ! p)) \<in> set (take (nw_taken nw) (hub_queue (nw_session nw) (nw_hub nw)))"
    using inv(2) p by (auto simp: pump_opening_def image_subset_iff)
  ultimately show ?thesis
    using p out e ex by (intro exI [of _ p]) (auto dest: in_set_takeD)
qed

end
