(* ===== verification/Crosstalk.thy ===== *)
theory Crosstalk
  imports Multiplex End_To_End
begin

text \<open>
  No cross-talk between the callers of one tether: what the hub's session makes of the frames
  it reads for each of its calls, the invariant of the connected machines of \<open>Multiplex\<close>, and
  the property that an answer reaches the call whose request it answers.
\<close>

section \<open>The hub's side\<close>

text \<open>
  What a stream has of the frames \<open>G\<close> that were read for it: the head and data of a
  beginning, and its completion only from an END that followed them.
\<close>

definition has_beginning :: "'h head_parser \<Rightarrow> stream_id \<Rightarrow> frame list \<Rightarrow> 'h stream_state \<Rightarrow> bool" where
  "has_beginning P sid G st \<longleftrightarrow>
     ss_head st = None \<and> ss_chunks st = [] \<and> \<not> is_complete st \<or>
     (\<exists>hd res bs rest. G = RespHead sid hd # map (Data sid) bs @ rest \<and>
        parse_head P hd = Some (res, []) \<and> ss_head st = Some res \<and> ss_chunks st = map Chunk bs \<and>
        (is_complete st \<longrightarrow> (\<exists>more. rest = End sid [] # more)))"

text \<open>A stream that is still served has all of them.\<close>

definition has_all :: "'h head_parser \<Rightarrow> stream_id \<Rightarrow> frame list \<Rightarrow> 'h stream_state \<Rightarrow> bool" where
  "has_all P sid G st \<longleftrightarrow> \<not> is_complete st \<and>
     (G = [] \<and> ss_head st = None \<and> ss_chunks st = [] \<or>
      (\<exists>hd res bs. G = RespHead sid hd # map (Data sid) bs \<and>
        parse_head P hd = Some (res, []) \<and> ss_head st = Some res \<and> ss_chunks st = map Chunk bs))"

lemma has_all_beginning: "has_all P sid G st \<Longrightarrow> has_beginning P sid G st"
  by (force simp: has_all_def has_beginning_def)

lemma has_beginning_more: "has_beginning P sid G st \<Longrightarrow> has_beginning P sid (G @ G') st"
proof -
  assume b: "has_beginning P sid G st"
  show ?thesis
  proof (cases "ss_head st")
    case None
    with b show ?thesis by (simp add: has_beginning_def)
  next
    case (Some r)
    with b obtain hd bs rest where "G = RespHead sid hd # map (Data sid) bs @ rest" "parse_head P hd = Some (r, [])"
        "ss_chunks st = map Chunk bs" "is_complete st \<longrightarrow> (\<exists>more. rest = End sid [] # more)"
      by (auto simp: has_beginning_def)
    with Some show ?thesis
      unfolding has_beginning_def
      by (intro disjI2 exI [of _ hd] exI [of _ r] exI [of _ bs] exI [of _ "rest @ G'"]) auto
  qed
qed

lemma has_beginning_same: "has_beginning P sid G st \<Longrightarrow> same_answer st st' \<Longrightarrow> has_beginning P sid G st'"
  unfolding has_beginning_def same_answer_def by (elim disjE exE conjE) auto

lemma has_all_same: "has_all P sid G st \<Longrightarrow> same_answer st st' \<Longrightarrow> has_all P sid G st'"
  unfolding has_all_def same_answer_def by auto

text \<open>One call on session \<open>s\<close>, with the frames of its stream that were read.\<close>

definition call_inv ::
    "'h head_parser \<Rightarrow> 'h header_api \<Rightarrow> sref \<Rightarrow> bool \<Rightarrow> frame list \<Rightarrow> forwarded \<Rightarrow> 'h registry \<Rightarrow> bool" where
  "call_inv P H s running G fw r \<longleftrightarrow>
     (let ls = rg_sessions r ! s; st = rg_streams r ! fw_stream fw; sid = fw_id fw in
      Open sid (encode_request_head H (ss_method st) (ss_path st) (ss_headers st)) \<in> set (ls_sent ls) \<and>
      (\<forall>(a, y) \<in> set (ls_streams ls). a = sid \<longleftrightarrow> y = fw_stream fw) \<and>
      has_beginning P sid G st \<and>
      (running \<and> (sid, fw_stream fw) \<in> set (ls_streams ls) \<longrightarrow> has_all P sid G st))"

lemma call_invI:
  assumes "Open (fw_id fw) (encode_request_head H (ss_method (rg_streams r ! fw_stream fw))
      (ss_path (rg_streams r ! fw_stream fw)) (ss_headers (rg_streams r ! fw_stream fw))) \<in> set (ls_sent (rg_sessions r ! s))"
    and "\<And>a y. (a, y) \<in> set (ls_streams (rg_sessions r ! s)) \<Longrightarrow> a = fw_id fw \<longleftrightarrow> y = fw_stream fw"
    and "has_beginning P (fw_id fw) G (rg_streams r ! fw_stream fw)"
    and "running \<Longrightarrow> (fw_id fw, fw_stream fw) \<in> set (ls_streams (rg_sessions r ! s)) \<Longrightarrow>
      has_all P (fw_id fw) G (rg_streams r ! fw_stream fw)"
  shows "call_inv P H s running G fw r"
  using assms unfolding call_inv_def Let_def by blast

lemma call_invD:
  assumes "call_inv P H s running G fw r"
  shows "Open (fw_id fw) (encode_request_head H (ss_method (rg_streams r ! fw_stream fw))
      (ss_path (rg_streams r ! fw_stream fw)) (ss_headers (rg_streams r ! fw_stream fw))) \<in> set (ls_sent (rg_sessions r ! s))"
    and "(a, y) \<in> set (ls_streams (rg_sessions r ! s)) \<Longrightarrow> a = fw_id fw \<longleftrightarrow> y = fw_stream fw"
    and "has_beginning P (fw_id fw) G (rg_streams r ! fw_stream fw)"
    and "running \<Longrightarrow> (fw_id fw, fw_stream fw) \<in> set (ls_streams (rg_sessions r ! s)) \<Longrightarrow>
      has_all P (fw_id fw) G (rg_streams r ! fw_stream fw)"
  using assms unfolding call_inv_def Let_def by blast+

text \<open>What leaves the stream's answer alone keeps the call's invariant.\<close>

lemma call_inv_settles:
  assumes "call_inv P H s running G fw r" "settles (rg_sessions r ! s) (rg_sessions r' ! s)"
    and "same_answer (rg_streams r ! fw_stream fw) (rg_streams r' ! fw_stream fw)" "running' \<longrightarrow> running"
  shows "call_inv P H s running' G fw r'"
proof -
  note inv = call_invD [OF assms(1)]
  let ?ls = "rg_sessions r ! s" and ?ls' = "rg_sessions r' ! s"
  have sub: "set (ls_sent ?ls) \<subseteq> set (ls_sent ?ls')" "set (ls_streams ?ls') \<subseteq> set (ls_streams ?ls)"
    using assms(2) by (auto simp: settles_def)
  show ?thesis
  proof (rule call_invI)
    show "Open (fw_id fw) (encode_request_head H (ss_method (rg_streams r' ! fw_stream fw))
        (ss_path (rg_streams r' ! fw_stream fw)) (ss_headers (rg_streams r' ! fw_stream fw))) \<in> set (ls_sent ?ls')"
      using inv(1) sub(1) assms(3) by (auto simp: same_answer_def)
    show "a = fw_id fw \<longleftrightarrow> y = fw_stream fw" if "(a, y) \<in> set (ls_streams ?ls')" for a y
      using inv(2) sub(2) that by blast
    show "has_beginning P (fw_id fw) G (rg_streams r' ! fw_stream fw)"
      by (rule has_beginning_same [OF inv(3) assms(3)])
    show "has_all P (fw_id fw) G (rg_streams r' ! fw_stream fw)"
      if "running'" "(fw_id fw, fw_stream fw) \<in> set (ls_streams ?ls')"
      using that assms(4) sub(2) by (intro has_all_same [OF inv(4) assms(3)]) auto
  qed
qed

lemma call_inv_more_read:
  assumes "call_inv P H s running G fw r" "\<not> running"
  shows "call_inv P H s False (G @ G') fw r"
  using call_invD [OF assms(1)] by (intro call_invI) (auto intro: has_beginning_more)

text \<open>A request put on the session: its stream is new, under a new identifier.\<close>

lemma start_forward_state:
  assumes "s < length (rg_sessions r)" "start_forward H s req r = (Inr fw, r')"
  shows "fw_session fw = s" "fw_stream fw = length (rg_streams r)" "length (rg_sessions r') = length (rg_sessions r)"
    and "rg_sessions r' ! s = opened_session (fw_id fw) (fw_stream fw) (open_head H req) (rg_sessions r ! s)"
    and "t \<noteq> s \<Longrightarrow> rg_sessions r' ! t = rg_sessions r ! t"
    and "\<exists>st. rg_streams r' = rg_streams r @ [st] \<and> ss_head st = None \<and> ss_chunks st = [] \<and> \<not> is_complete st \<and>
      open_head H req = encode_request_head H (ss_method st) (ss_path st) (ss_headers st)"
proof -
  have state: "\<exists>st. rg_streams r' = rg_streams r @ [st] \<and> ss_head st = None \<and> ss_chunks st = [] \<and> \<not> is_complete st \<and>
      open_head H req = encode_request_head H (ss_method st) (ss_path st) (ss_headers st)"
    using assms(2)
    by (auto simp: start_forward_def Let_def install_upload_def stream_state_new_def open_head_def is_complete_def
        split: if_splits sum.splits)
  then show "\<exists>st. rg_streams r' = rg_streams r @ [st] \<and> ss_head st = None \<and> ss_chunks st = [] \<and> \<not> is_complete st \<and>
      open_head H req = encode_request_head H (ss_method st) (ss_path st) (ss_headers st)" .
  obtain sid x st where fw: "fw = \<lparr>fw_id = sid, fw_stream = x, fw_session = s\<rparr>" "x = length (rg_streams r)"
    and r': "r' = (upd_session s (opened_session sid x (open_head H req)) r)\<lparr>rg_streams := rg_streams r @ [st]\<rparr>"
    using assms(2) by (cases rule: start_forward_cases [OF assms(1), of H req]) auto
  show "fw_session fw = s" "fw_stream fw = length (rg_streams r)" "length (rg_sessions r') = length (rg_sessions r)"
    "rg_sessions r' ! s = opened_session (fw_id fw) (fw_stream fw) (open_head H req) (rg_sessions r ! s)"
    "t \<noteq> s \<Longrightarrow> rg_sessions r' ! t = rg_sessions r ! t"
    using assms(1) by (simp_all add: fw r' upd_session_nth)
qed

text \<open>
  The calls that were there keep their invariant, and the new one has nothing of an answer,
  because nothing was read for its identifier yet.
\<close>

lemma opens_ids: "distinct (opens_of ls) \<Longrightarrow> ls_sent ls = fs @ [Open sid head] \<Longrightarrow> Open a h \<in> set fs \<Longrightarrow> a \<noteq> sid"
  by (force simp: opens_of_def map_filter_def)

lemma session_opens_distinct:
  assumes "registry_ok r" "s < length (rg_sessions r)"
  shows "distinct (opens_of (rg_sessions r ! s))"
proof -
  have "session_ok (length (rg_streams r)) (rg_sessions r ! s)"
    using assms by (simp add: registry_ok_def sessions_ok_def)
  then have "sorted_wrt (<) (map unat (opens_of (rg_sessions r ! s)))" by (simp add: session_ok_def)
  then show ?thesis using strict_sorted_iff distinct_map by blast
qed

lemma opened_session_sent:
  "ls_sent (opened_session sid x head ls) = ls_sent ls @ [Open sid head]"
  "set (ls_streams (opened_session sid x head ls)) \<subseteq> insert (sid, x) (set (ls_streams ls))"
proof -
  have "set (AList.update k v al) \<subseteq> insert (k, v) (set al)" for k :: stream_id and v :: xref and al
    by (induction al) auto
  then show "ls_sent (opened_session sid x head ls) = ls_sent ls @ [Open sid head]"
    "set (ls_streams (opened_session sid x head ls)) \<subseteq> insert (sid, x) (set (ls_streams ls))"
    by (simp_all add: opened_session_def)
qed

lemma call_inv_opens:
  assumes "registry_ok r" "s < length (rg_sessions r)" "start_forward H s req r = (Inr new, r')"
    and "call_inv P H s running G fw r" "fw_stream fw < length (rg_streams r)"
  shows "call_inv P H s running G fw r'"
proof -
  note new = start_forward_state [OF assms(2,3)]
  note inv = call_invD [OF assms(4)]
  have ok: "registry_ok r'" using registry_ok_start_forward [OF assms(1,2), of H req] assms(3) by simp
  have sent: "ls_sent (rg_sessions r' ! s) = ls_sent (rg_sessions r ! s) @ [Open (fw_id new) (open_head H req)]"
    unfolding new(4) by (rule opened_session_sent)
  have table: "set (ls_streams (rg_sessions r' ! s)) \<subseteq> insert (fw_id new, fw_stream new) (set (ls_streams (rg_sessions r ! s)))"
    unfolding new(4) by (rule opened_session_sent)
  have same: "rg_streams r' ! fw_stream fw = rg_streams r ! fw_stream fw"
    using new(6) assms(5) by (auto simp: nth_append)
  have "fw_id fw \<noteq> fw_id new"
    using opens_ids [OF session_opens_distinct [OF ok] sent inv(1)] assms(2) new(3) by simp
  moreover have "fw_stream fw \<noteq> fw_stream new" using assms(5) new(2) by simp
  ultimately have old: "(a, y) \<in> set (ls_streams (rg_sessions r ! s)) \<or> a \<noteq> fw_id fw \<and> y \<noteq> fw_stream fw"
    if "(a, y) \<in> set (ls_streams (rg_sessions r' ! s))" for a y
    using table that by auto
  show ?thesis
  proof (rule call_invI)
    show "a = fw_id fw \<longleftrightarrow> y = fw_stream fw" if "(a, y) \<in> set (ls_streams (rg_sessions r' ! s))" for a y
      using old [OF that] inv(2) by blast
    show "has_all P (fw_id fw) G (rg_streams r' ! fw_stream fw)"
      if "running" "(fw_id fw, fw_stream fw) \<in> set (ls_streams (rg_sessions r' ! s))"
      using inv(4) [OF that(1)] old [OF that(2)] by (simp add: same)
  qed (use inv in \<open>simp_all add: same sent\<close>)
qed

lemma call_inv_new:
  assumes "registry_ok r" "s < length (rg_sessions r)" "start_forward H s req r = (Inr fw, r')"
    and "G = []"
  shows "call_inv P H s running G fw r'"
proof -
  note new = start_forward_state [OF assms(2,3)]
  have ok: "registry_ok r'" using registry_ok_start_forward [OF assms(1,2), of H req] assms(3) by simp
  have s': "s < length (rg_sessions r')" using assms(2) new(3) by simp
  obtain st where st: "rg_streams r' ! fw_stream fw = st" "ss_head st = None" "ss_chunks st = []" "\<not> is_complete st"
      "open_head H req = encode_request_head H (ss_method st) (ss_path st) (ss_headers st)"
    using new(2,6) by auto
  have here: "(fw_id fw, fw_stream fw) \<in> set (ls_streams (rg_sessions r' ! s))"
    unfolding new(4) opened_session_def by (rule map_of_SomeD) (simp add: update_conv')
  have "a = fw_id fw \<longleftrightarrow> y = fw_stream fw" if "(a, y) \<in> set (ls_streams (rg_sessions r' ! s))" for a y
  proof -
    have "distinct (map fst (ls_streams (rg_sessions r' ! s)))"
      using ok s' by (simp add: registry_ok_def sessions_ok_def session_ok_def)
    with here that have "a = fw_id fw \<Longrightarrow> y = fw_stream fw" by (auto dest: eq_key_imp_eq_value)
    moreover have "y = fw_stream fw \<Longrightarrow> a = fw_id fw"
      using ok s' here that unfolding registry_ok_def owner_ok_def by blast
    ultimately show ?thesis by blast
  qed
  moreover have "Open (fw_id fw) (open_head H req) \<in> set (ls_sent (rg_sessions r' ! s))"
    unfolding new(4) by (simp add: opened_session_sent)
  ultimately show ?thesis
    using st by (intro call_invI) (simp_all add: has_beginning_def has_all_def assms(4))
qed

text \<open>A stream that left the table keeps what it has, whatever else is read for it.\<close>

lemma call_inv_gone:
  assumes "call_inv P H s running G fw r" "settles (rg_sessions r ! s) (rg_sessions r' ! s)"
    and "same_answer (rg_streams r ! fw_stream fw) (rg_streams r' ! fw_stream fw)"
    and "fw_id fw \<notin> fst ` set (ls_streams (rg_sessions r' ! s))"
  shows "call_inv P H s running' (G @ G') fw r'"
proof -
  have "call_inv P H s running G fw r'"
    by (rule call_inv_settles [OF assms(1-3)]) simp
  note inv = call_invD [OF this]
  show ?thesis
  proof (rule call_invI)
    show "has_all P (fw_id fw) (G @ G') (rg_streams r' ! fw_stream fw)"
      if "(fw_id fw, fw_stream fw) \<in> set (ls_streams (rg_sessions r' ! s))"
      using that assms(4) by force
  qed (use inv in \<open>auto intro: has_beginning_more\<close>)
qed

lemma delete_gone [simp]: "(sid, x) \<notin> set (AList.delete sid al)"
  by (simp add: AList.delete_eq)

lemma settles_delete: "settles ls (ls\<lparr>ls_streams := AList.delete sid (ls_streams ls)\<rparr>)"
  by (auto simp: settles_def delete_filter)

lemma reject_settles:
  assumes "opened (End sid reason) = None" "s < length (rg_sessions r)" "reject_stream s sid target reason res r = (result, r')"
  shows "settles (rg_sessions r ! s) (rg_sessions r' ! s)" "same_answer (rg_streams r ! x) (rg_streams r' ! x)"
    "sid \<notin> fst ` set (ls_streams (rg_sessions r' ! s))"
proof -
  let ?r = "case target of Some x \<Rightarrow> upd_stream x stream_fail r | None \<Rightarrow> r"
  have r': "r' = try_send s (End sid reason) res (remove_stream s sid ?r)"
    using assms(3) by (auto simp: reject_stream_def Let_def)
  have same: "rg_sessions ?r = rg_sessions r" by (simp split: option.split)
  show "same_answer (rg_streams r ! x) (rg_streams r' ! x)"
    by (simp add: r' upd_stream_nth split: option.split)
  let ?ls = "(rg_sessions r ! s)\<lparr>ls_streams := AList.delete sid (ls_streams (rg_sessions r ! s))\<rparr>"
  have "rg_sessions r' ! s = ?ls \<or> rg_sessions r' ! s = push_sent (End sid reason) ?ls"
    using assms(2) by (auto simp: r' try_send_def remove_stream_def upd_session_nth same)
  then show "settles (rg_sessions r ! s) (rg_sessions r' ! s)" "sid \<notin> fst ` set (ls_streams (rg_sessions r' ! s))"
    using settles_delete settles_trans [OF settles_delete settles_push [OF assms(1)]] by auto
qed

text \<open>The frames that carry an answer.\<close>

lemma call_inv_resp_head:
  assumes "s < length (rg_sessions r)" "call_inv P H s True G fw r" "fw_stream fw < length (rg_streams r)"
    and "on_resp_head P res s (fw_id fw) head r = (result, r')"
  shows "call_inv P H s True (G @ [RespHead (fw_id fw) head]) fw r'"
proof (cases "stream_of r s (fw_id fw)")
  case None
  with assms(4) have "r' = r" by (simp add: on_resp_head_def)
  with None show ?thesis
    by (intro call_inv_gone [OF assms(2)]) (auto simp: stream_of_def map_of_eq_None_iff)
next
  case (Some x)
  note inv = call_invD [OF assms(2)]
  have here: "(fw_id fw, x) \<in> set (ls_streams (rg_sessions r ! s))"
    using Some by (auto simp: stream_of_def dest: map_of_SomeD)
  with inv(2) have x: "x = fw_stream fw" by blast
  show ?thesis
  proof (cases "acceptable_head P head (rg_streams r ! x)")
    case None
    with Some assms(4) have "reject_stream s (fw_id fw) (Some x) (asc ''invalid response head'') res r = (result, r')"
      by (simp add: on_resp_head_def del: asc_simps)
    from reject_settles [OF _ assms(1) this] show ?thesis
      by (intro call_inv_gone [OF assms(2)]) (simp_all del: asc_simps)
  next
    case (Some h)
    with \<open>stream_of r s (fw_id fw) = Some x\<close> assms(4)
    have r': "r' = upd_stream x (\<lambda>st. st\<lparr>ss_head := Some h\<rparr>) r"
      by (simp add: on_resp_head_def)
    have head: "parse_head P head = Some (h, [])" "ss_head (rg_streams r ! x) = None"
      using Some by (auto simp: acceptable_head_def split: option.splits if_splits)
    let ?st = "rg_streams r ! x"
    have st': "rg_streams r' ! fw_stream fw = ?st\<lparr>ss_head := Some h\<rparr>"
      using assms(3) x by (simp add: r' upd_stream_nth)
    have "has_all P (fw_id fw) G ?st" using inv(4) here x by simp
    with head have "G = []" "ss_chunks ?st = []" "\<not> is_complete ?st" by (auto simp: has_all_def)
    then have all: "has_all P (fw_id fw) (G @ [RespHead (fw_id fw) head]) (rg_streams r' ! fw_stream fw)"
      using head(1) by (simp add: has_all_def st' is_complete_def)
    show ?thesis
    proof (rule call_invI)
      show "has_beginning P (fw_id fw) (G @ [RespHead (fw_id fw) head]) (rg_streams r' ! fw_stream fw)"
        using all by (rule has_all_beginning)
    qed (use inv(1,2) all in \<open>simp_all add: st' x, simp_all add: r'\<close>)
  qed
qed

lemma call_inv_data:
  assumes "s < length (rg_sessions r)" "call_inv P H s True G fw r" "fw_stream fw < length (rg_streams r)"
    and "on_data chunk_res res s (fw_id fw) bs r = (result, r')"
  shows "call_inv P H s True (G @ [Data (fw_id fw) bs]) fw r'"
proof -
  note inv = call_invD [OF assms(2)]
  let ?x = "fw_stream fw"
  show ?thesis
  proof (cases "stream_of r s (fw_id fw) = Some ?x \<and> ss_head (rg_streams r ! ?x) \<noteq> None \<and> chunk_res = Sent")
    case True
    then have here: "(fw_id fw, ?x) \<in> set (ls_streams (rg_sessions r ! s))"
      by (auto simp: stream_of_def dest: map_of_SomeD)
    have r': "r' = upd_stream ?x (\<lambda>st. st\<lparr>ss_chunks := ss_chunks st @ [Chunk bs]\<rparr>) r"
      using True assms(4) by (auto simp: on_data_def Let_def)
    let ?st = "rg_streams r ! ?x"
    have st': "rg_streams r' ! ?x = ?st\<lparr>ss_chunks := ss_chunks ?st @ [Chunk bs]\<rparr>"
      using assms(3) by (simp add: r' upd_stream_nth)
    have "has_all P (fw_id fw) G ?st" using inv(4) here by simp
    with True obtain hd h cs where G: "G = RespHead (fw_id fw) hd # map (Data (fw_id fw)) cs"
        "parse_head P hd = Some (h, [])" "ss_head ?st = Some h" "ss_chunks ?st = map Chunk cs" "\<not> is_complete ?st"
      by (auto simp: has_all_def)
    then have all: "has_all P (fw_id fw) (G @ [Data (fw_id fw) bs]) (rg_streams r' ! ?x)"
      unfolding has_all_def st'
      by (intro conjI disjI2 exI [of _ hd] exI [of _ h] exI [of _ "cs @ [bs]"]) (simp_all add: is_complete_def)
    show ?thesis
    proof (rule call_invI)
      show "has_beginning P (fw_id fw) (G @ [Data (fw_id fw) bs]) (rg_streams r' ! ?x)"
        using all by (rule has_all_beginning)
    qed (use inv(1,2) all in \<open>simp_all add: st', simp_all add: r'\<close>)
  next
    case False
    have rej: "reject_stream s (fw_id fw) (stream_of r s (fw_id fw)) (asc ''caller unavailable or response queue full'') res r = (result, r')"
    proof (cases "stream_of r s (fw_id fw)")
      case None
      with assms(4) show ?thesis by (simp add: on_data_def del: asc_simps)
    next
      case (Some x)
      then have "x = ?x" using inv(2) by (auto simp: stream_of_def dest: map_of_SomeD)
      with Some False assms(4) show ?thesis by (simp add: on_data_def Let_def del: asc_simps split: bool.splits)
    qed
    from reject_settles [OF _ assms(1) rej] show ?thesis
      by (intro call_inv_gone [OF assms(2)]) (simp_all del: asc_simps)
  qed
qed

lemma call_inv_end:
  assumes "s < length (rg_sessions r)" "call_inv P H s True G fw r" "fw_stream fw < length (rg_streams r)"
    and "on_end s (fw_id fw) [] r = (result, r')" "G \<noteq> []"
  shows "call_inv P H s True (G @ [End (fw_id fw) []]) fw r'"
proof (cases "stream_of r s (fw_id fw)")
  case None
  with assms(4) have "r' = r" by (simp add: on_end_def)
  with None show ?thesis
    by (intro call_inv_gone [OF assms(2)]) (auto simp: stream_of_def map_of_eq_None_iff)
next
  case (Some x)
  note inv = call_invD [OF assms(2)]
  have here: "(fw_id fw, x) \<in> set (ls_streams (rg_sessions r ! s))"
    using Some by (auto simp: stream_of_def dest: map_of_SomeD)
  with inv(2) have x: "x = fw_stream fw" by blast
  have r': "r' = remove_stream s (fw_id fw) (upd_stream x stream_complete r)"
    using Some assms(4) by (simp add: on_end_def)
  let ?st = "rg_streams r ! x"
  have st': "rg_streams r' ! fw_stream fw = stream_complete ?st"
    using assms(3) x by (simp add: r' upd_stream_nth)
  have req: "ss_method (stream_complete st) = ss_method st" "ss_path (stream_complete st) = ss_path st"
    "ss_headers (stream_complete st) = ss_headers st" for st :: "'a stream_state"
    by (simp_all add: stream_complete_def finisher_defs split: option.split)
  have ls': "rg_sessions r' ! s = (rg_sessions r ! s)\<lparr>ls_streams := AList.delete (fw_id fw) (ls_streams (rg_sessions r ! s))\<rparr>"
    using assms(1) by (simp add: r' remove_stream_def upd_session_nth)
  have "has_all P (fw_id fw) G ?st" using inv(4) here x by simp
  with assms(5) have beg: "has_beginning P (fw_id fw) (G @ [End (fw_id fw) []]) (stream_complete ?st)"
    by (force simp: has_all_def has_beginning_def)
  show ?thesis
  proof (rule call_invI)
    show "has_all P (fw_id fw) (G @ [End (fw_id fw) []]) (rg_streams r' ! fw_stream fw)"
      if "(fw_id fw, fw_stream fw) \<in> set (ls_streams (rg_sessions r' ! s))"
      using that by (simp add: ls')
  qed (use inv(1,2) beg x in \<open>auto simp: st' req ls' delete_filter\<close>)
qed

text \<open>Every other frame leaves the call's answer alone.\<close>

lemma call_inv_other:
  assumes "s < length (rg_sessions r)" "call_inv P H s True G fw r"
    and "handle_frame P chunk_res res s f r = (result, r')" "\<not> carries (fw_id fw) f"
  shows "call_inv P H s True G fw r'"
proof -
  note inv = call_invD [OF assms(2)]
  have elsewhere: "y \<noteq> fw_stream fw" if "stream_of r s a = Some y" "a \<noteq> fw_id fw" for a y
    using inv(2) that by (auto simp: stream_of_def dest: map_of_SomeD)
  have rej: "settles (rg_sessions r ! s) (rg_sessions r' ! s) \<and> same_answer (rg_streams r ! fw_stream fw) (rg_streams r' ! fw_stream fw)"
    if "reject_stream s a target reason res r = (result, r')" for a target reason
    using reject_settles [OF _ assms(1) that] by simp
  have "settles (rg_sessions r ! s) (rg_sessions r' ! s) \<and> same_answer (rg_streams r ! fw_stream fw) (rg_streams r' ! fw_stream fw)"
  proof (cases f)
    case (RespHead a head)
    with assms(3,4) rej elsewhere [of a] show ?thesis
      by (auto simp: handle_frame_def on_resp_head_def upd_stream_nth simp del: asc_simps split: option.splits)
  next
    case (Data a bs)
    with assms(3,4) rej elsewhere [of a] show ?thesis
      by (auto simp: handle_frame_def on_data_def Let_def upd_stream_nth simp del: asc_simps
          split: option.splits bool.splits)
  next
    case (End a reason)
    show ?thesis
    proof (cases "stream_of r s a")
      case None
      with End assms(3) show ?thesis by (simp add: handle_frame_def on_end_def)
    next
      case (Some y)
      with End assms(3) have r': "r' = remove_stream s a (upd_stream y (if reason = [] then stream_complete else stream_fail) r)"
        by (simp add: handle_frame_def on_end_def)
      have "settles (rg_sessions r ! s) (rg_sessions r' ! s)"
        using assms(1) settles_delete by (simp add: r' remove_stream_def upd_session_nth)
      moreover have "same_answer (rg_streams r ! fw_stream fw) (rg_streams r' ! fw_stream fw)"
        using elsewhere [OF Some] assms(4) End by (auto simp: r' upd_stream_nth)
      ultimately show ?thesis by simp
    qed
  next
    case Ping
    with assms(1,3) show ?thesis
      by (auto simp: handle_frame_def try_send_def upd_session_nth settles_push)
  qed (use assms(3) in \<open>auto simp: handle_frame_def\<close>)
  then show ?thesis by (intro call_inv_settles [OF assms(2)]) auto
qed

lemma call_inv_frame:
  assumes "s < length (rg_sessions r)" "call_inv P H s True G fw r" "fw_stream fw < length (rg_streams r)"
    and "handle_frame P chunk_res res s f r = (result, r')" "f = End (fw_id fw) [] \<longrightarrow> G \<noteq> []"
  shows "call_inv P H s True (G @ filter (carries (fw_id fw)) [f]) fw r'"
proof (cases "carries (fw_id fw) f")
  case True
  then consider head where "f = RespHead (fw_id fw) head" | bs where "f = Data (fw_id fw) bs" | "f = End (fw_id fw) []"
    by (cases f) auto
  then show ?thesis
    using call_inv_resp_head [OF assms(1-3)] call_inv_data [OF assms(1-3)] call_inv_end [OF assms(1-3)] assms(4,5)
    by cases (simp_all add: handle_frame_def)
next
  case False
  with call_inv_other [OF assms(1,2,4)] show ?thesis by simp
qed

text \<open>One pass of the session's loop for a message: it reads one frame, or ends the session.\<close>

lemma call_inv_message:
  assumes "s < length (rg_sessions r)" "call_inv P H s True G fw r" "fw_stream fw < length (rg_streams r)"
    and "on_message P now chunk_res res s (if fits f then Message (ws_msg f) else InputError) r = (result, r')"
    and "f = End (fw_id fw) [] \<longrightarrow> G \<noteq> []"
  shows "call_inv P H s (result = Continue) (G @ filter (carries (fw_id fw)) [f]) fw r'"
proof (cases "fits f")
  case True
  let ?r = "if frame_proves_liveness f then upd_session s (\<lambda>ls. ls\<lparr>ls_last_seen := now\<rparr>) r else r"
  have step: "handle_frame P chunk_res res s f ?r = (result, r')"
    using True assms(4) by (simp add: on_message_def ws_msg_def)
  have "call_inv P H s True G fw ?r"
    using assms(1,2) by (auto intro!: call_inv_settles [OF assms(2)] simp: upd_session_nth settles_def)
  from call_inv_frame [OF _ this _ step assms(5)] assms(1,3)
  have "call_inv P H s True (G @ filter (carries (fw_id fw)) [f]) fw r'" by simp
  then show ?thesis by (rule call_inv_settles) auto
next
  case False
  with assms(4) have end_it: "r' = r" "result \<noteq> Continue" by (auto simp: on_message_def)
  have "call_inv P H s False G fw r" by (rule call_inv_settles [OF assms(2)]) auto
  from call_inv_more_read [OF this] end_it show ?thesis by simp
qed

text \<open>A message only adds to what is queued and only takes streams out of the table.\<close>

lemma message_settles:
  assumes "s < length (rg_sessions r)" "on_message P now chunk_res res s inp r = (result, r')"
  shows "settles (rg_sessions r ! s) (rg_sessions r' ! s)"
proof -
  have frame: "settles (rg_sessions r ! s) (rg_sessions r' ! s)"
    if s: "s < length (rg_sessions r)" and h: "handle_frame P chunk_res res s f r = (result, r')" for f r result r'
  proof -
    have rej: "settles (rg_sessions r ! s) (rg_sessions r' ! s)"
      if "reject_stream s a target reason res r = (result, r')" for a target reason
      using reject_settles [OF _ s that] by simp
    show ?thesis
    proof (cases f)
      case (RespHead a head)
      with h rej show ?thesis
        by (auto simp: handle_frame_def on_resp_head_def simp del: asc_simps split: option.splits)
    next
      case (Data a bs)
      with h rej show ?thesis
        by (auto simp: handle_frame_def on_data_def Let_def simp del: asc_simps split: option.splits bool.splits)
    next
      case (End a reason)
      with h s show ?thesis
        by (auto simp: handle_frame_def on_end_def remove_stream_def upd_session_nth settles_delete split: option.splits)
    next
      case Ping
      with h s show ?thesis by (auto simp: handle_frame_def try_send_def upd_session_nth settles_push)
    qed (use h in \<open>auto simp: handle_frame_def\<close>)
  qed
  show ?thesis
  proof (cases "\<exists>m f. inp = Message m \<and> hub_decode m = Inr (Some f)")
    case True
    then obtain m f where m: "inp = Message m" "hub_decode m = Inr (Some f)" by blast
    let ?r = "if frame_proves_liveness f then upd_session s (\<lambda>ls. ls\<lparr>ls_last_seen := now\<rparr>) r else r"
    have "handle_frame P chunk_res res s f ?r = (result, r')"
      using assms(2) m by (simp add: on_message_def)
    from frame [OF _ this] assms(1) have "settles (rg_sessions ?r ! s) (rg_sessions r' ! s)" by simp
    moreover have "settles (rg_sessions r ! s) (rg_sessions ?r ! s)"
      using assms(1) by (simp add: upd_session_nth settles_def)
    ultimately show ?thesis using settles_trans by blast
  next
    case False
    with assms(2) show ?thesis
      by (auto simp: on_message_def split: input.splits sum.splits option.splits)
  qed
qed

section \<open>The invariant of the network\<close>

definition calls_on :: "sref \<Rightarrow> 'h hub \<Rightarrow> forwarded set" where
  "calls_on s h = {fw. Some fw \<in> set (hb_calls h) \<and> fw_session fw = s}"

definition read_for :: "stream_id \<Rightarrow> ('h, 'g) network \<Rightarrow> frame list" where
  "read_for sid nw = filter (carries sid) (take (nw_got nw) (nw_wire nw))"

lemma read_prefix: "prefix (read_for sid nw) (filter (carries sid) (nw_wire nw))"
  unfolding read_for_def by (rule filter_mono_prefix [OF take_is_prefix])

definition network_inv ::
    "'h head_parser \<Rightarrow> 'h header_api \<Rightarrow> 'g header_api \<Rightarrow> ('h, 'g) network \<Rightarrow> bool" where
  "network_inv P H HT nw \<longleftrightarrow>
     (let h = nw_hub nw; s = nw_session nw in
      hub_ok h \<and> hub_refs h \<and> serves (nw_task nw) s h \<and> tether_part HT nw \<and> nw_got nw \<le> length (nw_wire nw) \<and>
      separate s (fw_stream ` calls_on s h) (hb_registry h) \<and> inj_on fw_id (calls_on s h) \<and>
      (\<forall>fw \<in> calls_on s h.
         call_inv P H s (is_running (hb_tasks h ! nw_task nw)) (read_for (fw_id fw) nw) fw (hb_registry h)))"

lemma network_invI:
  assumes "hub_ok (nw_hub nw)" "hub_refs (nw_hub nw)" "serves (nw_task nw) (nw_session nw) (nw_hub nw)"
    and "tether_part HT nw" "nw_got nw \<le> length (nw_wire nw)"
    and "separate (nw_session nw) (fw_stream ` calls_on (nw_session nw) (nw_hub nw)) (hb_registry (nw_hub nw))"
    and "inj_on fw_id (calls_on (nw_session nw) (nw_hub nw))"
    and "\<And>fw. fw \<in> calls_on (nw_session nw) (nw_hub nw) \<Longrightarrow>
      call_inv P H (nw_session nw) (is_running (hb_tasks (nw_hub nw) ! nw_task nw)) (read_for (fw_id fw) nw) fw (hb_registry (nw_hub nw))"
  shows "network_inv P H HT nw"
  using assms by (simp add: network_inv_def Let_def)

lemma network_invD:
  assumes "network_inv P H HT nw"
  shows "hub_ok (nw_hub nw)" "hub_refs (nw_hub nw)" "serves (nw_task nw) (nw_session nw) (nw_hub nw)"
    and "tether_part HT nw" "nw_got nw \<le> length (nw_wire nw)"
    and "separate (nw_session nw) (fw_stream ` calls_on (nw_session nw) (nw_hub nw)) (hb_registry (nw_hub nw))"
    and "inj_on fw_id (calls_on (nw_session nw) (nw_hub nw))"
    and "fw \<in> calls_on (nw_session nw) (nw_hub nw) \<Longrightarrow>
      call_inv P H (nw_session nw) (is_running (hb_tasks (nw_hub nw) ! nw_task nw)) (read_for (fw_id fw) nw) fw (hb_registry (nw_hub nw))"
  using assms by (simp_all add: network_inv_def Let_def)

text \<open>A step of the tether's side adds to the wire and leaves the hub alone.\<close>

lemma network_inv_wire:
  assumes "network_inv P H HT nw" "tether_part HT nw'" "nw_hub nw' = nw_hub nw" "nw_task nw' = nw_task nw"
    "nw_session nw' = nw_session nw" "nw_got nw' = nw_got nw" "\<exists>fs. nw_wire nw' = nw_wire nw @ fs"
  shows "network_inv P H HT nw'"
proof -
  note inv = network_invD [OF assms(1)]
  have "read_for sid nw' = read_for sid nw" for sid
    using assms(6,7) inv(5) by (auto simp: read_for_def)
  with inv assms show ?thesis by (intro network_invI) auto
qed

lemma opens_of_queued: "hub_ok h \<Longrightarrow> s < length (rg_sessions (hb_registry h)) \<Longrightarrow> distinct (List.map_filter opened (hub_queue s h))"
  using session_opens_distinct [of "hb_registry h" s] by (simp add: hub_ok_def hub_queue_def opens_of_def)

lemma tether_part_grows:
  assumes "tether_part HT nw" "hub_queue (nw_session nw) h = hub_queue (nw_session nw) (nw_hub nw) @ fs"
  shows "tether_part HT (nw\<lparr>nw_hub := h\<rparr>)" "tether_part HT (nw\<lparr>nw_hub := h, nw_got := n\<rparr>)"
  using assms tether_inv_more by (auto simp: tether_part_def)

lemma settles_queued:
  "settles (rg_sessions (hb_registry h) ! s) (rg_sessions (hb_registry h') ! s) \<Longrightarrow> \<exists>fs. hub_queue s h' = hub_queue s h @ fs"
  by (auto simp: settles_def hub_queue_def)

text \<open>A step of the hub that is quiet about the session.\<close>

lemma network_inv_quiet:
  assumes "network_inv P H HT nw" "hub_ok h" "hub_refs h" "serves (nw_task nw) (nw_session nw) h"
    and "\<And>X. quiet (nw_session nw) X (hb_registry (nw_hub nw)) (hb_registry h)"
    and "calls_within (nw_session nw) (hb_calls h) (hb_calls (nw_hub nw))"
    and "is_running (hb_tasks h ! nw_task nw) \<longrightarrow> is_running (hb_tasks (nw_hub nw) ! nw_task nw)"
  shows "network_inv P H HT (nw\<lparr>nw_hub := h\<rparr>)"
proof -
  let ?s = "nw_session nw" and ?r = "hb_registry (nw_hub nw)"
  let ?X = "fw_stream ` calls_on ?s (nw_hub nw)"
  note inv = network_invD [OF assms(1)]
  have s: "?s < length (rg_sessions ?r)" by (rule servesD(2) [OF inv(3)])
  have sub: "calls_on ?s h \<subseteq> calls_on ?s (nw_hub nw)"
    using assms(6) by (auto simp: calls_on_def calls_within_def)
  from assms(5) [of ?X] s inv(6)
  have q: "separate ?s ?X (hb_registry h)" "settles (rg_sessions ?r ! ?s) (rg_sessions (hb_registry h) ! ?s)"
    "\<And>x. x \<in> ?X \<Longrightarrow> same_answer (rg_streams ?r ! x) (rg_streams (hb_registry h) ! x)"
    unfolding quiet_def by blast+
  have sep: "separate ?s (fw_stream ` calls_on ?s h) (hb_registry h)"
    using q(1) sub unfolding separate_def by blast
  from settles_queued [OF q(2)] obtain fs where "hub_queue ?s h = hub_queue ?s (nw_hub nw) @ fs" by blast
  from tether_part_grows(1) [OF inv(4) this] have part: "tether_part HT (nw\<lparr>nw_hub := h\<rparr>)" .
  have same: "read_for sid (nw\<lparr>nw_hub := h\<rparr>) = read_for sid nw" for sid by (simp add: read_for_def)
  have "call_inv P H ?s (is_running (hb_tasks h ! nw_task nw)) (read_for (fw_id fw) nw) fw (hb_registry h)"
    if "fw \<in> calls_on ?s h" for fw
  proof -
    from that sub have fw: "fw \<in> calls_on ?s (nw_hub nw)" by blast
    show ?thesis
      by (rule call_inv_settles [OF inv(8) [OF fw] q(2) q(3) assms(7)]) (rule imageI [OF fw])
  qed
  with assms(2-4) sep part inv(5) inj_on_subset [OF inv(7) sub] show ?thesis
    by (intro network_invI) (simp_all add: same)
qed

lemma running_goes_on:
  assumes "serves i s h" "is_running (hb_tasks (hub_step P H sha h e) ! i)"
  shows "is_running (hb_tasks h ! i)"
  using servesD(1) [OF assms(1)] assms(2)
  by (cases rule: hub_tasks_cases [of h P H sha e]) (auto simp: goes_on_def nth_append)

text \<open>A request is put on the session.\<close>

lemma network_inv_opens:
  assumes "network_inv P H HT nw" "hub_ok h" "hub_refs h" "serves (nw_task nw) (nw_session nw) h"
    and "start_forward H (nw_session nw) req (hb_registry (nw_hub nw)) = (Inr new, hb_registry h)"
    and "hb_calls h = hb_calls (nw_hub nw) @ [Some new]"
    and "is_running (hb_tasks h ! nw_task nw) \<longrightarrow> is_running (hb_tasks (nw_hub nw) ! nw_task nw)"
  shows "network_inv P H HT (nw\<lparr>nw_hub := h\<rparr>)"
proof -
  let ?s = "nw_session nw" and ?r = "hb_registry (nw_hub nw)"
  note inv = network_invD [OF assms(1)]
  have s: "?s < length (rg_sessions ?r)" by (rule servesD(2) [OF inv(3)])
  have ok: "registry_ok ?r" using inv(1) by (simp add: hub_ok_def)
  note opened = start_forward_state [OF s assms(5)]
  have calls: "calls_on ?s h = insert new (calls_on ?s (nw_hub nw))"
    using opened(1) by (auto simp: calls_on_def assms(6))
  have sent: "hub_queue ?s h = hub_queue ?s (nw_hub nw) @ [Open (fw_id new) (open_head H req)]"
    by (simp add: hub_queue_def opened(4) opened_session_sent)
  have below: "x < length (rg_streams ?r)" if "x \<in> held (rg_sessions ?r ! j)" "j < length (rg_sessions ?r)" for x j
  proof -
    have "session_ok (length (rg_streams ?r)) (rg_sessions ?r ! j)"
      using ok that(2) by (simp add: registry_ok_def sessions_ok_def)
    with that(1) show ?thesis by (auto simp: held_def session_ok_def)
  qed
  obtain st where streams: "rg_streams (hb_registry h) = rg_streams ?r @ [st]" using opened(6) by blast
  have sep: "separate ?s (fw_stream ` calls_on ?s h) (hb_registry h)"
    unfolding separate_def
  proof (intro conjI allI ballI impI)
    show "x < length (rg_streams (hb_registry h))" if "x \<in> fw_stream ` calls_on ?s h" for x
      using that inv(6) opened(2) by (auto simp: calls streams separate_def)
    show "x \<notin> held (rg_sessions (hb_registry h) ! j)"
      if "j < length (rg_sessions (hb_registry h))" "j \<noteq> ?s" "x \<in> fw_stream ` calls_on ?s h" for j x
    proof -
      have j: "j < length (rg_sessions ?r)" "rg_sessions (hb_registry h) ! j = rg_sessions ?r ! j"
        using that(1) opened(3) opened(5) [OF that(2)] by simp_all
      from that(3) consider "x = fw_stream new" | "x \<in> fw_stream ` calls_on ?s (nw_hub nw)" by (auto simp: calls)
      then show ?thesis
      proof cases
        case 1
        with below [of x j] j opened(2) show ?thesis by auto
      next
        case 2
        with inv(6) j that(2) show ?thesis unfolding separate_def by auto
      qed
    qed
  qed
  have part: "tether_part HT (nw\<lparr>nw_hub := h\<rparr>)" using tether_part_grows(1) [OF inv(4) sent] .
  have same: "read_for sid (nw\<lparr>nw_hub := h\<rparr>) = read_for sid nw" for sid by (simp add: read_for_def)
  let ?run = "is_running (hb_tasks h ! nw_task nw)"
  have old: "call_inv P H ?s ?run (read_for (fw_id fw) nw) fw (hb_registry h)" if "fw \<in> calls_on ?s (nw_hub nw)" for fw
  proof -
    have "fw_stream fw < length (rg_streams ?r)" using inv(6) that by (auto simp: separate_def)
    from call_inv_opens [OF ok s assms(5) inv(8) [OF that] this] show ?thesis
      by (rule call_inv_settles) (simp_all add: assms(7))
  qed
  have fresh: "a \<noteq> fw_id new" if "Open a head \<in> set (hub_queue ?s (nw_hub nw))" for a head
  proof -
    have "distinct (opens_of (rg_sessions (hb_registry h) ! ?s))"
      using assms(2) servesD(2) [OF assms(4)] by (intro session_opens_distinct) (simp_all add: hub_ok_def)
    from opens_ids [OF this sent [unfolded hub_queue_def]] that show ?thesis by (simp add: hub_queue_def)
  qed
  have "fw_id fw \<noteq> fw_id new" if "fw \<in> calls_on ?s (nw_hub nw)" for fw
    using call_invD(1) [OF inv(8) [OF that]] fresh by (simp add: hub_queue_def)
  then have ids: "inj_on fw_id (calls_on ?s h)" using inv(7) unfolding calls inj_on_insert by fastforce
  have "read_for (fw_id new) nw = []"
  proof (rule ccontr)
    assume "read_for (fw_id new) nw \<noteq> []"
    then have "filter (carries (fw_id new)) (nw_wire nw) \<noteq> []"
      by (auto simp: read_for_def filter_empty_conv dest: in_set_takeD)
    from wire_of_stream [OF inv(4) this] fresh show False by blast
  qed
  then have "call_inv P H ?s ?run (read_for (fw_id new) nw) new (hb_registry h)"
    by (rule call_inv_new [OF ok s assms(5)])
  with old assms(2-4) sep ids part inv(5) show ?thesis by (intro network_invI) (auto simp: same calls)
qed

lemma network_inv_hub:
  assumes "network_inv P H HT nw" "\<not> from_tether (nw_task nw) e"
  shows "network_inv P H HT (nw\<lparr>nw_hub := hub_step P H sha (nw_hub nw) e\<rparr>)"
proof -
  note inv = network_invD [OF assms(1)]
  let ?h = "hub_step P H sha (nw_hub nw) e"
  have keep: "hub_ok ?h" "hub_refs ?h" "serves (nw_task nw) (nw_session nw) ?h"
    using hub_ok_step [OF inv(1)] hub_refs_step [OF inv(1,2)] serves_step [OF inv(3)] by blast+
  have run: "is_running (hb_tasks ?h ! nw_task nw) \<longrightarrow> is_running (hb_tasks (nw_hub nw) ! nw_task nw)"
    using running_goes_on [OF inv(3)] by blast
  show ?thesis
  proof (rule hub_event_cases [OF inv(1,3) assms(2) refl])
    assume "\<And>X. quiet (nw_session nw) X (hb_registry (nw_hub nw)) (hb_registry ?h)"
      "calls_within (nw_session nw) (hb_calls ?h) (hb_calls (nw_hub nw))"
    from network_inv_quiet [OF assms(1) keep this run] show ?thesis .
  next
    fix req fw assume "start_forward H (nw_session nw) req (hb_registry (nw_hub nw)) = (Inr fw, hb_registry ?h)"
      "hb_calls ?h = hb_calls (nw_hub nw) @ [Some fw]"
    from network_inv_opens [OF assms(1) keep this run] show ?thesis .
  qed
qed

lemma network_inv_upload:
  assumes "network_inv P H HT nw"
  shows "network_inv P H HT (upload_sends k chunk res nw)"
proof -
  note inv = network_invD [OF assms]
  have "network_inv P H HT (nw\<lparr>nw_hub := (nw_hub nw)\<lparr>hb_registry := try_send t f res (hb_registry (nw_hub nw))\<rparr>\<rparr>)"
    if "opened f = None" for t f
  proof (rule network_inv_quiet [OF assms])
    let ?h = "(nw_hub nw)\<lparr>hb_registry := try_send t f res (hb_registry (nw_hub nw))\<rparr>"
    have len: "length (rg_sessions (hb_registry ?h)) = length (rg_sessions (hb_registry (nw_hub nw)))"
      by (simp add: try_send_def)
    show "hub_ok ?h" using inv(1) that by (simp add: hub_ok_def registry_ok_try_send)
    show "hub_refs ?h" using inv(2) len by (simp add: hub_refs_def)
    show "serves (nw_task nw) (nw_session nw) ?h"
      by (rule serves_goes_on [OF inv(3)]) (simp_all add: try_send_def)
  qed (simp_all add: quiet_try_send that)
  then show ?thesis using assms by (simp add: upload_sends_def Let_def split: option.split)
qed

text \<open>The hub's session reads a frame.\<close>

lemma network_inv_up:
  assumes "network_inv P H HT nw"
  shows "network_inv P H HT (up_link P H sha wall now chunk_res res nw)"
proof (cases "nw_got nw < length (nw_wire nw) \<and> is_running (hb_tasks (nw_hub nw) ! nw_task nw)")
  case True
  note inv = network_invD [OF assms]
  let ?h = "nw_hub nw" and ?i = "nw_task nw" and ?s = "nw_session nw"
  let ?r = "hb_registry ?h" and ?f = "nw_wire nw ! nw_got nw"
  obtain inp where inp: "inp = (if fits ?f then Message (ws_msg ?f) else InputError)" by blast
  obtain h' where step: "h' = hub_step P H sha ?h (HSession ?i wall now chunk_res res (Input inp))" by blast
  have up: "up_link P H sha wall now chunk_res res nw = nw\<lparr>nw_hub := h', nw_got := Suc (nw_got nw)\<rparr>" (is "_ = ?nw")
    unfolding step inp using True by (simp only: up_link_def Let_def if_True simp_thms)
  have i: "?i < length (hb_tasks ?h)" and s: "?s < length (rg_sessions ?r)" using servesD(1,2) [OF inv(3)] by simp_all
  from True obtain tk where tk: "hb_tasks ?h ! ?i = Running tk" by (cases "hb_tasks ?h ! ?i") auto
  with servesD(3) [OF inv(3)] have tks: "tk_session tk = ?s" by simp
  obtain result r' where msg: "on_message P now chunk_res res ?s inp ?r = (result, r')" by (metis prod.exhaust)
  have hub: "h' = ?h\<lparr>hb_registry := r', hb_tasks := (hb_tasks ?h)[?i := if result = Continue then Running tk else Leaving tk]\<rparr>"
    using i tk msg by (simp add: step hub_step_def on_session_def session_step_def tks)
  have keep: "hub_ok h'" "hub_refs h'" "serves ?i ?s h'"
    using hub_ok_step [OF inv(1)] hub_refs_step [OF inv(1,2)] serves_step [OF inv(3)] unfolding step by blast+
  have calls: "calls_on ?s h' = calls_on ?s ?h" by (simp add: calls_on_def hub)
  have conf: "confined ?s ?r r'" using confined_message [of ?s ?r P now chunk_res res inp] msg by simp
  then have len: "length (rg_sessions r') = length (rg_sessions ?r)" "length (rg_streams r') = length (rg_streams ?r)"
    and other: "\<And>j. j \<noteq> ?s \<Longrightarrow> rg_sessions r' ! j = rg_sessions ?r ! j"
    by (simp_all add: confined_def shrinks_def)
  have sep: "separate ?s (fw_stream ` calls_on ?s h') (hb_registry h')"
    using inv(6) unfolding calls by (simp add: hub separate_def len other)
  from message_settles [OF s msg] have "settles (rg_sessions ?r ! ?s) (rg_sessions (hb_registry h') ! ?s)" by (simp add: hub)
  from settles_queued [OF this] obtain fs where "hub_queue ?s h' = hub_queue ?s ?h @ fs" by blast
  from tether_part_grows(2) [OF inv(4) this] have part: "tether_part HT ?nw" .
  have read: "read_for sid ?nw = read_for sid nw @ filter (carries sid) [?f]" for sid
    using True by (simp add: read_for_def take_Suc_conv_app_nth)
  have "call_inv P H ?s (result = Continue) (read_for (fw_id fw) ?nw) fw r'" if "fw \<in> calls_on ?s ?h" for fw
  proof -
    have x: "fw_stream fw < length (rg_streams ?r)" using inv(6) that by (auto simp: separate_def)
    have call: "call_inv P H ?s True (read_for (fw_id fw) nw) fw ?r" using inv(8) [OF that] True by simp
    have "read_for (fw_id fw) nw \<noteq> []" if "?f = End (fw_id fw) []"
    proof
      assume empty: "read_for (fw_id fw) nw = []"
      have "read_for (fw_id fw) ?nw = [End (fw_id fw) []]" unfolding read empty by (simp add: that)
      with read_prefix [of "fw_id fw" ?nw] have pre: "prefix [End (fw_id fw) []] (filter (carries (fw_id fw)) (nw_wire nw))"
        by simp
      then have "filter (carries (fw_id fw)) (nw_wire nw) \<noteq> []" by auto
      from wire_of_stream [OF inv(4) this] obtain res where
        "prefix (filter (carries (fw_id fw)) (nw_wire nw)) (answer_frames HT (fw_id fw) res)" by blast
      with pre show False by (auto simp: answer_frames_def dest: prefix_order.trans)
    qed
    with call_inv_message [OF s call x msg [unfolded inp]] show ?thesis unfolding read by blast
  qed
  moreover have "is_running (hb_tasks h' ! ?i) = (result = Continue)" using i by (simp add: hub)
  ultimately show ?thesis
    unfolding up using keep sep part True calls inv(7) by (intro network_invI) (simp_all add: hub)
next
  case False
  then have "up_link P H sha wall now chunk_res res nw = nw" by (simp only: up_link_def Let_def if_False)
  with assms show ?thesis by simp
qed

lemma network_inv_start: "network_start P H sha nw \<Longrightarrow> network_inv P H HT nw"
proof -
  assume "network_start P H sha nw"
  then obtain h wall now started c l tk r t where reached: "reach (hub_step P H sha) hub_start h"
    and a: "attach_session sha wall now started c l (hb_registry h) = (Some tk, r)" and t: "tether_start t"
    and nw: "nw = \<lparr>nw_hub = h\<lparr>hb_registry := r, hb_tasks := hb_tasks h @ [Running tk]\<rparr>,
              nw_task = length (hb_tasks h), nw_session = tk_session tk, nw_taken = 0,
              nw_tether = t, nw_up = True, nw_out = [], nw_wire = [], nw_got = 0\<rparr>"
    unfolding network_start_def by blast
  let ?h = "h\<lparr>hb_registry := r, hb_tasks := hb_tasks h @ [Running tk]\<rparr>"
  have step: "hub_step P H sha h (HAttach wall now started c l) = ?h" using a by (simp add: hub_step_def)
  have ok: "hub_ok h" "hub_refs h" "hub_ok ?h" "hub_refs ?h"
    using refs_machine.inv_reach [OF reached] refs_machine.inv_reach [OF reach_step [OF reached]] step by metis+
  note new = attach_session_new [OF a]
  have none: "calls_on (tk_session tk) ?h = {}"
    using hub_refsD(2) [OF ok(2)] new by (force simp: calls_on_def)
  have serves: "serves (length (hb_tasks h)) (tk_session tk) ?h"
  proof (rule servesI)
    show "u < length (rg_sessions (hb_registry ?h)) \<and> (u = tk_session tk \<longrightarrow> j = length (hb_tasks h))"
      if "j < length (hb_tasks ?h)" "task_session (hb_tasks ?h ! j) = Some u" for j u
    proof (cases "j = length (hb_tasks h)")
      case False
      with that have "j < length (hb_tasks h)" "task_session (hb_tasks h ! j) = Some u" by (simp_all add: nth_append)
      from hub_refsD(1) [OF ok(2) this] new show ?thesis by simp
    qed (use that new in \<open>simp add: nth_append\<close>)
  qed (use new in \<open>simp_all add: nth_append\<close>)
  show ?thesis
    unfolding nw using ok(3,4) serves tether_inv_start [OF t]
    by (intro network_invI) (simp_all add: none tether_part_def separate_def)
qed

lemma network_inv_step:
  assumes "network_inv P H HT nw"
  shows "network_inv P H HT (network_step P H HT sha nw e)"
proof -
  note inv = network_invD [OF assms]
  have d: "distinct (List.map_filter opened (hub_queue (nw_session nw) (nw_hub nw)))"
    using opens_of_queued [OF inv(1) servesD(2) [OF inv(3)]] .
  show ?thesis
  proof (cases e)
    case (HubSide he)
    then show ?thesis using network_inv_hub [OF assms] assms by (simp add: network_step_def hub_side_def)
  next
    case (UploadSends k chunk res)
    then show ?thesis using network_inv_upload [OF assms] by (simp add: network_step_def)
  next
    case (DownLink now in_res res)
    have "network_inv P H HT (down_link now in_res res nw)"
      by (rule network_inv_wire [OF assms tether_part_down [OF inv(4) d]])
        (simp_all add: down_link_def Let_def after_pass_def split: prod.split)
    with DownLink show ?thesis by (simp add: network_step_def)
  next
    case (TetherSide now in_res res ev)
    have "network_inv P H HT (tether_side now in_res res ev nw)"
      by (rule network_inv_wire [OF assms tether_part_side [OF inv(4) d]])
        (simp_all add: tether_side_def after_pass_def split: prod.split tether_event.split session_input.split)
    with TetherSide show ?thesis by (simp add: network_step_def)
  next
    case (ExchangeEnds p ex)
    have "network_inv P H HT (exchange_ends p ex nw)"
      by (rule network_inv_wire [OF assms tether_part_exchange [OF inv(4)]]) (simp_all add: exchange_ends_def)
    with ExchangeEnds show ?thesis by (simp add: network_step_def)
  next
    case (PumpWrites p)
    have "network_inv P H HT (pump_writes HT p nw)"
      by (rule network_inv_wire [OF assms tether_part_write [OF inv(4)]])
        (auto simp: pump_writes_def Let_def split: prod.split option.split)
    with PumpWrites show ?thesis by (simp add: network_step_def)
  next
    case (UpLink wall now chunk_res res)
    then show ?thesis using network_inv_up [OF assms] by (simp add: network_step_def)
  qed
qed

text \<open>Frames of a beginning of an answer.\<close>

lemma frames_prefix:
  assumes "prefix (map (Data sid) bs @ rest) (map (Data sid) cs @ tail)" "tail = [] \<or> tail = [End sid []]"
  shows "prefix bs cs" "rest = End sid [] # ms \<Longrightarrow> bs = cs \<and> tail = [End sid []]"
proof -
  have "prefix bs cs \<and> (rest = End sid [] # ms \<longrightarrow> bs = cs \<and> tail = [End sid []])"
    using assms
  proof (induction bs arbitrary: cs)
    case Nil
    then show ?case by (cases cs) auto
  next
    case (Cons b bs)
    then show ?case by (cases cs) auto
  qed
  then show "prefix bs cs" "rest = End sid [] # ms \<Longrightarrow> bs = cs \<and> tail = [End sid []]" by blast+
qed

lemma same_opening:
  "distinct (List.map_filter opened fs) \<Longrightarrow> Open sid a \<in> set fs \<Longrightarrow> Open sid b \<in> set fs \<Longrightarrow> a = b"
proof (induction fs)
  case (Cons f fs)
  have "sid \<in> set (List.map_filter opened fs)" if "Open sid x \<in> set fs" for x
    using that by (force simp: map_filter_def)
  with Cons show ?case by (cases f) (auto simp: map_filter_simps)
qed simp

interpretation network_machine:
  invariant_machine "network_step P H HT sha" "network_start P H sha" "network_inv P H HT" for P H HT sha
  by unfold_locales (fact network_inv_start, fact network_inv_step)

section \<open>Two calls over one tether\<close>

text \<open>
  Two calls over one tether: the pumps write their frames in turn, the second call's answer is
  complete, and of the first one's the hub has read the head and the first chunk.
\<close>

definition example_other :: "unit request" where
  "example_other = \<lparr>rq_method = asc ''GET'', rq_path_and_query = Some (asc ''/b''), rq_headers = ()\<rparr>"

definition other_answer :: "unit engine_response" where
  "other_answer = \<lparr>er_status = 200, er_reason = [], er_headers = (), er_body = [EngineData [9]]\<rparr>"

definition example_traffic :: "(unit, unit) network_event list" where
  "example_traffic =
     [HubSide (HForward 0 Sent [97] example_request), HubSide (HForward 0 Sent [97] example_other),
      DownLink 0 Sent Sent, DownLink 0 Sent Sent,
      ExchangeEnds 1 (Some other_answer), ExchangeEnds 0 (Some example_answer),
      PumpWrites 1, PumpWrites 0, PumpWrites 0, PumpWrites 1, PumpWrites 1,
      UpLink 0 0 Sent Sent, UpLink 0 0 Sent Sent, UpLink 0 0 Sent Sent, UpLink 0 0 Sent Sent, UpLink 0 0 Sent Sent]"

definition example_connection :: "(unit, unit) network" where
  "example_connection =
     \<lparr>nw_hub = \<lparr>hb_registry = example_registry, hb_tasks = [Running
          \<lparr>tk_tether = [97], tk_session = 0, tk_deadline = secs 60, tk_last_ping = - int TETHER_PING_INTERVAL, tk_revoked = False\<rparr>],
        hb_calls = []\<rparr>,
      nw_task = 0, nw_session = 0, nw_taken = 0,
      nw_tether = \<lparr>ts_streams = [], ts_pumps = [], ts_sent = [], ts_heartbeat = heartbeat_new 0\<rparr>,
      nw_up = True, nw_out = [], nw_wire = [], nw_got = 0\<rparr>"

lemma example_connection_start: "network_start example_parser no_headers (\<lambda>x. x) example_connection"
proof -
  let ?start = "\<lparr>hb_registry = registry_new (secs 60), hb_tasks = [], hb_calls = []\<rparr> :: unit hub"
  let ?h = "hub_step example_parser no_headers (\<lambda>x. x) ?start (HRegister [97] [98] [1])"
  have "hub_start ?start" by (auto simp: hub_start_def)
  then have reached: "reach (hub_step example_parser no_headers (\<lambda>x. x)) hub_start ?h" by (intro reach_step reach_start)
  have "attach_session (\<lambda>x. x) 0 0 0 [1] \<lparr>l_tether_id = [97], l_ttl = secs 60\<rparr> (hb_registry ?h) =
      (Some \<lparr>tk_tether = [97], tk_session = 0, tk_deadline = secs 60, tk_last_ping = - int TETHER_PING_INTERVAL, tk_revoked = False\<rparr>,
       example_registry)"
    unfolding attach_session_def example_registry_def
    by (simp add: hub_step_def attach_def register_tether_def registry_new_def evict_def remaining_def Let_def)
  moreover have "tether_start \<lparr>ts_streams = [], ts_pumps = [], ts_sent = [], ts_heartbeat = heartbeat_new 0\<rparr>"
    by (auto simp: tether_start_def)
  moreover have "hb_tasks ?h = []" "hb_calls ?h = []" by (simp_all add: hub_step_def)
  ultimately show ?thesis
    unfolding network_start_def example_connection_def
    by (intro exI conjI) (rule reached, assumption, assumption, simp)
qed

lemma example_heads_fit:
  "length (encode_response_head no_headers 200 [] ()) \<le> 60"
  "parse_head example_parser (encode_response_head no_headers 200 [] ()) = Some (\<lparr>rs_status = 200, rs_headers = ()\<rparr>, [])"
  "fits (RespHead sid (encode_response_head no_headers 200 [] ()))"
  "fits (Open sid (encode_request_head no_headers (asc ''GET'') (asc ''/'') ()))"
  "fits (Open sid (encode_request_head no_headers (asc ''GET'') (asc ''/b'') ()))"
proof -
  show len: "length (encode_response_head no_headers 200 [] ()) \<le> 60"
    using length_to_dec_u64 [of 200]
    by (simp add: encode_response_head_def head_bytes_def no_headers_def)
  then show "parse_head example_parser (encode_response_head no_headers 200 [] ()) = Some (\<lparr>rs_status = 200, rs_headers = ()\<rparr>, [])"
    by (simp add: parse_head_def example_parser_def MAX_PENDING_HEAD_def)
  show "fits (RespHead sid (encode_response_head no_headers 200 [] ()))"
    using len by (simp add: fits_def payload_len_def)
qed (simp_all add: fits_def payload_len_def encode_request_head_def no_headers_def head_bytes_def)

lemma example_traffic_end:
  "let nw = foldl (network_step example_parser no_headers no_headers (\<lambda>x. x)) example_connection example_traffic;
       sts = rg_streams (hb_registry (nw_hub nw))
   in hb_calls (nw_hub nw) = [Some \<lparr>fw_id = 1, fw_stream = 0, fw_session = 0\<rparr>, Some \<lparr>fw_id = 2, fw_stream = 1, fw_session = 0\<rparr>] \<and>
     nw_session nw = 0 \<and> length (ts_pumps (nw_tether nw)) = 2 \<and>
     ss_chunks (sts ! 0) = [Chunk [5]] \<and> \<not> is_complete (sts ! 0) \<and> ss_chunks (sts ! 1) = [Chunk [9]] \<and> is_complete (sts ! 1)"
proof -
  let ?step = "network_step example_parser no_headers no_headers (\<lambda>x. x)"
  let ?rq = "\<lambda>p. encode_request_head no_headers (asc ''GET'') p ()"
  let ?a = "asc ''/''" and ?b = "asc ''/b''"
  let ?reg = "\<lambda>sent table nid sts. example_registry\<lparr>rg_sessions :=
      [\<lparr>ls_generation = 1, ls_sent = sent, ls_aborted = False, ls_last_seen = 0, ls_streams = table, ls_closed = False,
        ls_next_id = nid\<rparr>], rg_streams := sts\<rparr>"
  let ?net = "\<lambda>sent table nid sts calls taken pumps streams out wire got. 
     \<lparr>nw_hub = \<lparr>hb_registry = ?reg sent table nid sts, hb_tasks = [Running
          \<lparr>tk_tether = [97], tk_session = 0, tk_deadline = secs 60, tk_last_ping = - int TETHER_PING_INTERVAL, tk_revoked = False\<rparr>],
        hb_calls = calls\<rparr>,
      nw_task = 0, nw_session = 0, nw_taken = taken,
      nw_tether = \<lparr>ts_streams = streams, ts_pumps = pumps, ts_sent = [], ts_heartbeat = heartbeat_new 0\<rparr>,
      nw_up = True, nw_out = out, nw_wire = wire, nw_got = got\<rparr> :: (unit, unit) network"
  let ?st = "\<lambda>x p. install_upload x (stream_state_new (asc ''GET'') p ())"
  let ?c1 = "Some \<lparr>fw_id = 1, fw_stream = 0, fw_session = 0\<rparr>" and ?c2 = "Some \<lparr>fw_id = 2, fw_stream = 1, fw_session = 0\<rparr>"
  let ?o1 = "Open 1 (?rq ?a)" and ?o2 = "Open 2 (?rq ?b)"
  let ?pm = "\<lambda>sid p. \<lparr>pm_stream = sid, pm_head = ?rq p, pm_input = [], pm_aborted = False\<rparr>"
  let ?hd = "encode_response_head no_headers 200 [] ()"
  have active: "is_active 0 [97] (?reg sent table nid sts)" for sent table nid sts
    by (simp add: is_active_def example_registry_eq remaining_def)
  have 0: "example_connection = ?net [] [] 1 [] [] 0 [] [] [] [] 0"
    by (simp add: example_connection_def example_registry_eq session_new_def)
  note fwd = network_step_def hub_side_def from_tether_def hub_step_def forward_def reserve_stream_start_def
    start_forward_def admit_def add_call_def upd_session_def push_sent_def MAX_CONCURRENT_STREAMS_def
  have live: "map_of (rg_live example_registry) [97] = Some 0" by (simp add: example_registry_eq)
  have 1: "?step (?net [] [] 1 [] [] 0 [] [] [] [] 0) (HubSide (HForward 0 Sent [97] example_request)) =
      ?net [?o1] [(1, 0)] 2 [?st 0 ?a] [?c1] 0 [] [] [] [] 0"
    by (simp add: fwd live active example_request_def stream_state_new_def Let_def del: asc_simps)
  have 2: "?step (?net [?o1] [(1, 0)] 2 [?st 0 ?a] [?c1] 0 [] [] [] [] 0) (HubSide (HForward 0 Sent [97] example_other)) =
      ?net [?o1, ?o2] [(1, 0), (2, 1)] 3 [?st 0 ?a, ?st 1 ?b] [?c1, ?c2] 0 [] [] [] [] 0"
    by (simp add: fwd live active example_other_def stream_state_new_def Let_def del: asc_simps)
  have fresh: "heartbeat_reset 0 (heartbeat_new 0) = heartbeat_new 0"
    by (simp add: heartbeat_reset_def heartbeat_new_def PING_TIMEOUT_def PING_INTERVAL_def secs_def)
  note down = network_step_def down_link_def hub_queue_def tether_step_def tether_frame_def open_stream_def after_pass_def
    ws_msg_def example_heads_fit(4,5) fresh MAX_CONCURRENT_STREAMS_def
  have 3: "?step (?net [?o1, ?o2] [(1, 0), (2, 1)] 3 [?st 0 ?a, ?st 1 ?b] [?c1, ?c2] 0 [] [] [] [] 0) (DownLink 0 Sent Sent) =
      ?net [?o1, ?o2] [(1, 0), (2, 1)] 3 [?st 0 ?a, ?st 1 ?b] [?c1, ?c2] 1 [?pm 1 ?a] [(1, 0)] [(None, 0)] [] 0"
    by (simp add: down Let_def del: asc_simps)
  have 4: "?step (?net [?o1, ?o2] [(1, 0), (2, 1)] 3 [?st 0 ?a, ?st 1 ?b] [?c1, ?c2] 1 [?pm 1 ?a] [(1, 0)] [(None, 0)] [] 0)
        (DownLink 0 Sent Sent) =
      ?net [?o1, ?o2] [(1, 0), (2, 1)] 3 [?st 0 ?a, ?st 1 ?b] [?c1, ?c2] 2 [?pm 1 ?a, ?pm 2 ?b] [(1, 0), (2, 1)]
        [(None, 0), (None, 0)] [] 0"
    by (simp add: down Let_def del: asc_simps)
  let ?at = "\<lambda>table s1 s2 out wire got. ?net [?o1, ?o2] table 3 [s1, s2] [?c1, ?c2] 2 [?pm 1 ?a, ?pm 2 ?b] [(1, 0), (2, 1)] out wire got"
  let ?s1 = "?st 0 ?a" and ?s2 = "?st 1 ?b" and ?both = "[(1, 0), (2, 1)] :: (stream_id \<times> xref) list"
  let ?out = "\<lambda>n1 n2. [(Some (Some example_answer), n1), (Some (Some other_answer), n2)]"
  have 5: "?step (?at ?both ?s1 ?s2 [(None, 0), (None, 0)] [] 0) (ExchangeEnds 1 (Some other_answer)) =
      ?at ?both ?s1 ?s2 [(None, 0), (Some (Some other_answer), 0)] [] 0"
    by (simp add: network_step_def exchange_ends_def del: asc_simps)
  have 6: "?step (?at ?both ?s1 ?s2 [(None, 0), (Some (Some other_answer), 0)] [] 0) (ExchangeEnds 0 (Some example_answer)) =
      ?at ?both ?s1 ?s2 (?out 0 0) [] 0"
    by (simp add: network_step_def exchange_ends_def del: asc_simps)
  have fr1: "pump_frames no_headers 1 (Some example_answer) = [RespHead 1 ?hd, Data 1 [5], Data 1 [6, 7], End 1 []]"
    and fr2: "pump_frames no_headers 2 (Some other_answer) = [RespHead 2 ?hd, Data 2 [9], End 2 []]"
    by (simp_all add: pump_frames_eq example_answer_def other_answer_def data_chunks_def map_filter_simps)
      (simp_all add: no_headers_def)
  let ?w = "[RespHead 2 ?hd, RespHead 1 ?hd, Data 1 [5], Data 2 [9], End 2 []]"
  note wr = network_step_def pump_writes_def fr1 fr2
  have 7: "?step (?at ?both ?s1 ?s2 (?out 0 0) [] 0) (PumpWrites 1) = ?at ?both ?s1 ?s2 (?out 0 1) (take 1 ?w) 0"
    by (simp add: wr Let_def del: asc_simps)
  have 8: "?step (?at ?both ?s1 ?s2 (?out 0 1) (take 1 ?w) 0) (PumpWrites 0) = ?at ?both ?s1 ?s2 (?out 1 1) (take 2 ?w) 0"
    by (simp add: wr Let_def del: asc_simps)
  have 9: "?step (?at ?both ?s1 ?s2 (?out 1 1) (take 2 ?w) 0) (PumpWrites 0) = ?at ?both ?s1 ?s2 (?out 2 1) (take 3 ?w) 0"
    by (simp add: wr Let_def eval_nat_numeral del: asc_simps)
  have 10: "?step (?at ?both ?s1 ?s2 (?out 2 1) (take 3 ?w) 0) (PumpWrites 1) = ?at ?both ?s1 ?s2 (?out 2 2) (take 4 ?w) 0"
    by (simp add: wr Let_def eval_nat_numeral del: asc_simps)
  have 11: "?step (?at ?both ?s1 ?s2 (?out 2 2) (take 4 ?w) 0) (PumpWrites 1) = ?at ?both ?s1 ?s2 (?out 2 3) ?w 0"
    by (simp add: wr Let_def eval_nat_numeral del: asc_simps)
  let ?ok = "\<lparr>rs_status = 200, rs_headers = ()\<rparr>"
  let ?h1 = "?s1\<lparr>ss_head := Some ?ok\<rparr>" and ?h2 = "?s2\<lparr>ss_head := Some ?ok\<rparr>"
  note up = network_step_def up_link_def hub_step_def on_session_def session_step_def on_message_def ws_msg_def
    frame_proves_liveness_def handle_frame_def stream_of_def upd_stream_def
  have small: "fits (Data i [b])" "fits (End i [])" for i b by (simp_all add: fits_def payload_len_def)
  have empty: "ss_head (install_upload x (stream_state_new m q h)) = None"
    "ss_chunks (install_upload x (stream_state_new m q h)) = []"
    "ss_outcome (install_upload x (stream_state_new m q h)) = 0" for x m q and h :: unit
    by (simp_all add: install_upload_def)
  have 12: "?step (?at ?both ?s1 ?s2 (?out 2 3) ?w 0) (UpLink 0 0 Sent Sent) = ?at ?both ?s1 ?h2 (?out 2 3) ?w 1"
    by (simp add: up on_resp_head_def acceptable_head_def example_heads_fit(2,3) empty Let_def del: asc_simps)
  have 13: "?step (?at ?both ?s1 ?h2 (?out 2 3) ?w 1) (UpLink 0 0 Sent Sent) = ?at ?both ?h1 ?h2 (?out 2 3) ?w 2"
    by (simp add: up on_resp_head_def acceptable_head_def example_heads_fit(2,3) empty Let_def del: asc_simps)
  let ?d1 = "?h1\<lparr>ss_chunks := [Chunk [5]]\<rparr>" and ?d2 = "?h2\<lparr>ss_chunks := [Chunk [9]]\<rparr>"
  have 14: "?step (?at ?both ?h1 ?h2 (?out 2 3) ?w 2) (UpLink 0 0 Sent Sent) = ?at ?both ?d1 ?h2 (?out 2 3) ?w 3"
    by (simp add: up on_data_def small empty Let_def del: asc_simps)
  have 15: "?step (?at ?both ?d1 ?h2 (?out 2 3) ?w 3) (UpLink 0 0 Sent Sent) = ?at ?both ?d1 ?d2 (?out 2 3) ?w 4"
    by (simp add: up on_data_def small empty Let_def del: asc_simps)
  have 16: "?step (?at ?both ?d1 ?d2 (?out 2 3) ?w 4) (UpLink 0 0 Sent Sent) =
      ?at [(1, 0)] ?d1 (stream_complete ?d2) (?out 2 3) ?w 5"
    by (simp add: up on_end_def remove_stream_def upd_session_def small Let_def del: asc_simps)
  show ?thesis
    unfolding example_traffic_def foldl.simps 0 1 2 3 4 5 6 7 8 9 10 11 12 13 14 15 16
    by (simp add: is_complete_def empty)
qed

section \<open>Property\<close>

text \<open>
  C11: Answers are never mixed up: whatever callers, administrators, other tethers, uploads and
  timers do meanwhile, and however the pumps of one tether interleave their frames, whatever a
  call has of an answer comes from the exchange of a pump that was given that call's own
  request: the head is that answer's, the body is a beginning of its data in order, and the
  answer counts as complete only when the body is all of it and the engine's body ended
  without an error; and no other call of that tether has the pump's identifier.
\<close>
theorem answers_not_mixed:
  assumes "reach (network_step P H HT sha) (network_start P H sha) nw"
    and "Some fw \<in> set (hb_calls (nw_hub nw))" "fw_session fw = nw_session nw"
    and "st = rg_streams (hb_registry (nw_hub nw)) ! fw_stream fw"
    and "ss_head st \<noteq> None \<or> ss_chunks st \<noteq> [] \<or> is_complete st"
  shows "\<exists>p < length (ts_pumps (nw_tether nw)). \<exists>res h.
    pm_stream (ts_pumps (nw_tether nw) ! p) = fw_id fw \<and>
    pm_head (ts_pumps (nw_tether nw) ! p) = encode_request_head H (ss_method st) (ss_path st) (ss_headers st) \<and>
    fst (nw_out nw ! p) = Some (Some res) \<and> ss_head st = Some h \<and>
    parse_head P (encode_response_head HT (er_status res) (er_reason res) (er_headers res)) = Some (h, []) \<and>
    prefix (ss_chunks st) (map Chunk (data_chunks (er_body res))) \<and>
    (is_complete st \<longrightarrow> ss_chunks st = map Chunk (data_chunks (er_body res)) \<and> EngineError \<notin> set (er_body res)) \<and>
    (\<forall>fw'. Some fw' \<in> set (hb_calls (nw_hub nw)) \<and> fw_session fw' = nw_session nw \<and> fw_id fw' = fw_id fw \<longrightarrow> fw' = fw)"
proof -
  note inv = network_invD [OF network_machine.inv_reach [OF assms(1)]]
  let ?s = "nw_session nw" and ?sid = "fw_id fw"
  note call = call_invD [OF inv(8), of fw, unfolded assms(4) [symmetric]]
  have fw: "fw \<in> calls_on ?s (nw_hub nw)" using assms(2,3) by (simp add: calls_on_def)
  from call(3) [OF fw] assms(5) obtain hd h bs rest
    where G: "read_for ?sid nw = RespHead ?sid hd # map (Data ?sid) bs @ rest" and h: "parse_head P hd = Some (h, [])"
      and st: "ss_head st = Some h" "ss_chunks st = map Chunk bs" "is_complete st \<longrightarrow> (\<exists>more. rest = End ?sid [] # more)"
    by (auto simp: has_beginning_def)
  note pre = read_prefix [of ?sid nw]
  with G have "filter (carries ?sid) (nw_wire nw) \<noteq> []" by auto
  from wire_of_stream [OF inv(4) this] obtain p res where p: "p < length (ts_pumps (nw_tether nw))"
      "Open ?sid (pm_head (ts_pumps (nw_tether nw) ! p)) \<in> set (hub_queue ?s (nw_hub nw))"
      "fst (nw_out nw ! p) = Some (Some res)" "pm_stream (ts_pumps (nw_tether nw) ! p) = ?sid"
      "prefix (filter (carries ?sid) (nw_wire nw)) (answer_frames HT ?sid res)" by blast
  have "prefix (read_for ?sid nw) (answer_frames HT ?sid res)" using pre p(5) by (rule prefix_order.trans)
  then have hd: "hd = encode_response_head HT (er_status res) (er_reason res) (er_headers res)"
    and data: "prefix (map (Data ?sid) bs @ rest)
      (map (Data ?sid) (data_chunks (er_body res)) @ (if EngineError \<in> set (er_body res) then [] else [End ?sid []]))"
    unfolding G answer_frames_def by simp_all
  note body = frames_prefix [OF data]
  have "distinct (List.map_filter opened (hub_queue ?s (nw_hub nw)))"
    using opens_of_queued [OF inv(1) servesD(2) [OF inv(3)]] .
  from same_opening [OF this p(2)] call(1) [OF fw]
  have "pm_head (ts_pumps (nw_tether nw) ! p) = encode_request_head H (ss_method st) (ss_path st) (ss_headers st)"
    by (simp add: hub_queue_def)
  moreover have "fw' = fw" if "Some fw' \<in> set (hb_calls (nw_hub nw))" "fw_session fw' = ?s" "fw_id fw' = ?sid" for fw'
    using inj_onD [OF inv(7) that(3) _ fw] that(1,2) by (simp add: calls_on_def)
  ultimately show ?thesis using p h st body unfolding hd
    by (intro exI [of _ p] exI [of _ res] exI [of _ h] conjI) (auto intro: map_mono_prefix)
qed

theorem answers_not_mixed_witness:
  "\<exists>nw :: (unit, unit) network. \<exists>res res' p p'.
     reach (network_step example_parser no_headers no_headers (\<lambda>x. x)) (network_start example_parser no_headers (\<lambda>x. x)) nw \<and>
     fst (nw_out nw ! p) = Some (Some res) \<and> fst (nw_out nw ! p') = Some (Some res') \<and>
     pm_stream (ts_pumps (nw_tether nw) ! p) = 1 \<and> pm_stream (ts_pumps (nw_tether nw) ! p') = 2 \<and>
     prefix [Chunk [5]] (map Chunk (data_chunks (er_body res))) \<and> [Chunk [9]] = map Chunk (data_chunks (er_body res'))"
proof -
  let ?nw = "foldl (network_step example_parser no_headers no_headers (\<lambda>x. x)) example_connection example_traffic"
  have reached: "reach (network_step example_parser no_headers no_headers (\<lambda>x. x)) (network_start example_parser no_headers (\<lambda>x. x)) ?nw"
    by (intro reach_foldl reach_start example_connection_start)
  note e = example_traffic_end [unfolded Let_def]
  from answers_not_mixed [OF reached, of "\<lparr>fw_id = 1, fw_stream = 0, fw_session = 0\<rparr>", OF _ _ refl] e
  obtain p res where "fst (nw_out ?nw ! p) = Some (Some res)" "pm_stream (ts_pumps (nw_tether ?nw) ! p) = 1"
      "prefix [Chunk [5]] (map Chunk (data_chunks (er_body res)))" by auto
  moreover from answers_not_mixed [OF reached, of "\<lparr>fw_id = 2, fw_stream = 1, fw_session = 0\<rparr>", OF _ _ refl] e
  obtain p' res' where "fst (nw_out ?nw ! p') = Some (Some res')" "pm_stream (ts_pumps (nw_tether ?nw) ! p') = 2"
      "[Chunk [9]] = map Chunk (data_chunks (er_body res'))" by auto
  ultimately show ?thesis using reached
    by (intro exI [of _ ?nw] exI [of _ res] exI [of _ res'] exI [of _ p] exI [of _ p'] conjI)
qed

end
