(* ===== verification/Canary.thy ===== *)
theory Canary
  imports Main_CLI
begin

text \<open>
  The negative control of the streaming test (\<open>bin/buffering_canary.rs\<close>), a proxy that
  withholds the engine's response on purpose: its configuration, the request it reads, the
  request it forwards and what it answers. Sockets are arguments: the client's bytes with
  the way they end, and what the upstream connection yields for the bytes sent to it.
\<close>

section \<open>Strings\<close>

text \<open>
  \<open>String::from_utf8_lossy\<close>: every maximal prefix of a character that goes wrong becomes one
  replacement character. \<open>utf8_step\<close> tells how many bytes after the first one belong to the
  next piece, and whether it is a character.
\<close>

definition second_ok :: "nat \<Rightarrow> byte \<Rightarrow> bool" where
  "second_ok n b \<longleftrightarrow> cont b \<and> (n = 224 \<longrightarrow> 160 \<le> unat b) \<and> (n = 237 \<longrightarrow> unat b \<le> 159) \<and>
     (n = 240 \<longrightarrow> 144 \<le> unat b) \<and> (n = 244 \<longrightarrow> unat b \<le> 143)"

definition utf8_step :: "byte \<Rightarrow> bytes \<Rightarrow> nat \<times> bool" where
  "utf8_step b bs =
     (let n = unat b;
          at = (\<lambda>i. if i < length bs then bs ! i else 0)
      in if n < 128 then (0, True)
         else if 194 \<le> n \<and> n \<le> 223 then (if cont (at 0) then (1, True) else (0, False))
         else if 224 \<le> n \<and> n \<le> 239 then
           (if \<not> second_ok n (at 0) then (0, False) else if cont (at 1) then (2, True) else (1, False))
         else if 240 \<le> n \<and> n \<le> 244 then
           (if \<not> second_ok n (at 0) then (0, False)
            else if \<not> cont (at 1) then (1, False)
            else if cont (at 2) then (3, True) else (2, False))
         else (0, False))"

function utf8_lossy :: "bytes \<Rightarrow> bytes" where
  "utf8_lossy [] = []"
| "utf8_lossy (b # bs) =
     (let (k, ok) = utf8_step b bs
      in (if ok then b # take k bs else [0xEF, 0xBF, 0xBD]) @ utf8_lossy (drop k bs))"
  by pat_completeness auto
termination by (relation "measure length") auto

text \<open>\<open>str::lines\<close>: a last line without a line feed keeps its carriage return.\<close>

definition chomp_cr :: "bytes \<Rightarrow> bytes" where
  "chomp_cr l = (if l \<noteq> [] \<and> last l = 13 then butlast l else l)"

fun str_lines :: "bytes \<Rightarrow> bytes list" where
  "str_lines [] = []"
| "str_lines (b # bs) =
     (if b = 10 then [] # str_lines bs
      else (case position 10 bs of
              None \<Rightarrow> [b # bs]
            | Some i \<Rightarrow> chomp_cr (b # take i bs) # str_lines (drop (Suc i) bs)))"

definition starts_with :: "bytes \<Rightarrow> bytes \<Rightarrow> bool" where
  "starts_with p s \<longleftrightarrow> take (length p) s = p"

definition ends_with :: "bytes \<Rightarrow> bytes \<Rightarrow> bool" where
  "ends_with p s \<longleftrightarrow> length p \<le> length s \<and> drop (length s - length p) s = p"

section \<open>Configuration\<close>

record canary =
  cn_listen :: bytes
  cn_upstream_host :: bytes
  cn_token :: "bytes option"

text \<open>\<open>upstream.split("://").nth(1).and_then(|s| s.split('/').next())\<close>\<close>

definition upstream_host :: "bytes \<Rightarrow> bytes" where
  "upstream_host upstream =
     (let sep = asc ''://'' in
      case find_sub sep upstream of
        None \<Rightarrow> asc ''127.0.0.1:8000''
      | Some i \<Rightarrow>
          let rest = drop (i + 3) upstream;
              piece = (case find_sub sep rest of None \<Rightarrow> rest | Some j \<Rightarrow> take j rest)
          in hd (split_on 47 piece))"

definition canary_config :: "env \<Rightarrow> canary" where
  "canary_config env =
     \<lparr>cn_listen = env_or env ''ANVIL_RING_LISTEN'' ''127.0.0.1:8080'',
      cn_upstream_host = upstream_host (env_or env ''ANVIL_RING_UPSTREAM'' ''http://127.0.0.1:8000''),
      cn_token = nonempty_var (env_var env ''ANVIL_RING_TOKEN'')\<rparr>"

section \<open>Reading the request\<close>

definition head_end :: bytes where "head_end = [13, 10, 13, 10]"

text \<open>One byte at a time until the head is complete; \<open>None\<close> when the input ends before.\<close>

fun read_head :: "bytes \<Rightarrow> bytes \<Rightarrow> (bytes \<times> bytes) option" where
  "read_head req [] = (if ends_with head_end req then Some (req, []) else None)"
| "read_head req (b # bs) =
     (if ends_with head_end req then Some (req, b # bs) else read_head (req @ [b]) bs)"

text \<open>The comparison of the whole lowercased line.\<close>

definition canary_authorized :: "bytes option \<Rightarrow> bytes \<Rightarrow> bool" where
  "canary_authorized token head =
     (case token of
        None \<Rightarrow> True
      | Some expected \<Rightarrow>
          let have = (case find (starts_with (asc ''authorization:'')) (str_lines head) of
                        Some l \<Rightarrow> trim (chars l) | None \<Rightarrow> [])
          in have = cps ''authorization: bearer '' @ chars expected)"

definition content_length_of :: "bytes \<Rightarrow> nat" where
  "content_length_of head =
     (case List.map_filter (strip_prefix (asc ''content-length:'')) (str_lines head) of
        [] \<Rightarrow> 0
      | v # _ \<Rightarrow> (case parse_uint 64 (trim (chars v)) of Some n \<Rightarrow> n | None \<Rightarrow> 0))"

section \<open>Forwarding and answering\<close>

fun until_empty :: "bytes list \<Rightarrow> bytes list" where
  "until_empty [] = []"
| "until_empty (l # ls) = (if l = [] then [] else l # until_empty ls)"

definition rewrite_host :: "bytes \<Rightarrow> bytes \<Rightarrow> bytes" where
  "rewrite_host req host =
     (let txt = utf8_lossy req in
      case find_sub crlf txt of
        None \<Rightarrow> req
      | Some i \<Rightarrow>
          let line = take i txt;
              rest = drop (i + 2) txt;
              kept = filter (\<lambda>l. \<not> starts_with (asc ''host:'') (to_ascii_lowercase l)) (str_lines rest)
          in line @ crlf @ asc ''Host: '' @ host @ crlf @
             concat (map (\<lambda>l. l @ crlf) (until_empty kept)) @ crlf)"

text \<open>
  The upstream's reads, until the end, an error (the end of the list, like an empty read),
  or a window that looks like the last chunk.
\<close>

fun collect_response :: "bytes \<Rightarrow> bytes list \<Rightarrow> bytes" where
  "collect_response resp [] = resp"
| "collect_response resp (c # cs) =
     (if c = [] then resp
      else if find_sub [48, 13, 10, 13, 10] (resp @ c) \<noteq> None then resp @ c
      else collect_response (resp @ c) cs)"

datatype canary_outcome =
    NoReply
  | Refused bytes
  | Answered bytes bytes

definition refusal :: bytes where
  "refusal = asc ''HTTP/1.1 401 Unauthorized'' @ crlf @ asc ''content-length: 0'' @ crlf @
     asc ''connection: close'' @ crlf @ crlf"

text \<open>
  \<open>handle\<close>: \<open>clean\<close> tells whether the client's input ends with an end of file or with an
  error; \<open>up\<close> is what the upstream yields, \<open>None\<close> when it cannot be reached or written to.
\<close>

definition canary_handle ::
    "canary \<Rightarrow> bool \<Rightarrow> (bytes \<Rightarrow> bytes list option) \<Rightarrow> bytes \<Rightarrow> canary_outcome" where
  "canary_handle cn clean up input =
     (case read_head [] input of
        None \<Rightarrow> NoReply
      | Some (req, rest) \<Rightarrow>
          let head = to_ascii_lowercase (utf8_lossy req) in
          if \<not> canary_authorized (cn_token cn) head then Refused refusal
          else
            let remaining = content_length_of head in
            if length rest < remaining \<and> \<not> clean then NoReply
            else
              let sent = rewrite_host req (cn_upstream_host cn) @ take remaining rest in
              case up sent of
                None \<Rightarrow> NoReply
              | Some reads \<Rightarrow> Answered sent (collect_response [] reads))"

section \<open>Lemmas\<close>

lemma utf8_lossy_ascii: "ascii bs \<Longrightarrow> utf8_lossy bs = bs"
  by (induction bs) (auto simp: ascii_def utf8_step_def Let_def)

lemma utf8_decode_low:
  "utf8_decode bs = Some cs \<Longrightarrow> c < 128 \<Longrightarrow> c \<in> set cs \<longleftrightarrow> c \<in> unat ` set bs"
proof (induction bs arbitrary: cs rule: utf8_decode.induct)
  case (2 b0 bs)
  note IH = 2(1-4) and step = 2(5)
  consider (one) "unat b0 < 128" | (two) "194 \<le> unat b0" "unat b0 \<le> 223"
    | (three) "224 \<le> unat b0" "unat b0 \<le> 239" | (four) "240 \<le> unat b0" "unat b0 \<le> 244"
    using step by (fastforce simp: Let_def split: if_splits)
  then show ?case
  proof cases
    case one
    with IH(1) step \<open>c < 128\<close> show ?thesis by auto
  next
    case two
    with step obtain b1 r ds where d: "bs = b1 # r" "cont b1" "utf8_decode r = Some ds"
      "cs = ((unat b0 - 192) * 64 + low6 b1) # ds"
      by (auto simp: Let_def split: list.splits if_splits)
    with IH(2) two \<open>c < 128\<close> have "c \<in> set ds \<longleftrightarrow> c \<in> unat ` set r" by auto
    with d two \<open>c < 128\<close> show ?thesis by (auto simp: cont_def)
  next
    case three
    with step obtain b1 b2 r ds where d: "bs = b1 # b2 # r" "cont b1" "cont b2" "utf8_decode r = Some ds"
      "cs = (((unat b0 - 224) * 64 + low6 b1) * 64 + low6 b2) # ds" "unat b0 = 224 \<longrightarrow> 160 \<le> unat b1"
      "unat b0 = 237 \<longrightarrow> unat b1 \<le> 159"
      by (auto simp: Let_def split: list.splits if_splits)
    with IH(3) three \<open>c < 128\<close> have "c \<in> set ds \<longleftrightarrow> c \<in> unat ` set r" by auto
    moreover have "2 \<le> (unat b0 - 224) * 64 + low6 b1"
      using d(6) three by (cases "unat b0 = 224") (auto simp: low6_def)
    ultimately show ?thesis using d three \<open>c < 128\<close> by (auto simp: cont_def)
  next
    case four
    with step obtain b1 b2 b3 r ds where d: "bs = b1 # b2 # b3 # r" "cont b1" "cont b2" "cont b3"
      "utf8_decode r = Some ds" "unat b0 = 240 \<longrightarrow> 144 \<le> unat b1" "unat b0 = 244 \<longrightarrow> unat b1 \<le> 143"
      "cs = ((((unat b0 - 240) * 64 + low6 b1) * 64 + low6 b2) * 64 + low6 b3) # ds"
      by (auto simp: Let_def split: list.splits if_splits)
    with IH(4) four \<open>c < 128\<close> have "c \<in> set ds \<longleftrightarrow> c \<in> unat ` set r" by auto
    moreover have "1 \<le> (unat b0 - 240) * 64 + low6 b1"
      using d(6) four by (cases "unat b0 = 240") (auto simp: low6_def)
    ultimately show ?thesis using d four \<open>c < 128\<close> by (auto simp: cont_def)
  qed
qed simp

lemma chars_low:
  assumes "utf8_decode bs \<noteq> None" "c < 128"
  shows "c \<in> set (chars bs) \<longleftrightarrow> c \<in> unat ` set bs"
  using assms utf8_decode_low by (auto simp: chars_def)

lemma chars_of_low: "c \<in> set (chars bs) \<Longrightarrow> c < 128 \<Longrightarrow> c \<in> unat ` set bs"
  by (cases "utf8_decode bs = None") (auto simp: chars_def chars_low [symmetric])

lemma set_str_lines: "l \<in> set (str_lines bs) \<Longrightarrow> set l \<subseteq> set bs"
proof (induction bs rule: str_lines.induct)
  case (2 b bs)
  have "set (chomp_cr x) \<subseteq> set x" for x by (auto simp: chomp_cr_def dest: in_set_butlastD)
  moreover have "set (take i bs) \<subseteq> set bs" "set (drop i bs) \<subseteq> set bs" for i
    by (auto dest: in_set_takeD in_set_dropD)
  ultimately show ?case
    using 2 by (fastforce split: if_splits option.splits)
qed simp

lemma str_lines_crlf: "10 \<notin> set l \<Longrightarrow> str_lines (l @ crlf @ r) = l # str_lines r"
  by (cases l) (simp_all add: crlf_def chomp_cr_def position_append_notin)

lemma lowercase_bytes: "b \<in> set (to_ascii_lowercase bs) \<Longrightarrow> \<not> (65 \<le> unat b \<and> unat b \<le> 90)"
proof -
  have "\<not> (65 \<le> unat (lower c) \<and> unat (lower c) \<le> 90)" for c
    by (simp add: lower_def unat_word_ariths)
  then show "b \<in> set (to_ascii_lowercase bs) \<Longrightarrow> ?thesis" by (auto simp: to_ascii_lowercase_def)
qed

lemma uppercase_token_refused:
  assumes "utf8_decode t \<noteq> None" "b \<in> set t" "65 \<le> unat b" "unat b \<le> 90"
  shows "\<not> canary_authorized (Some t) (to_ascii_lowercase head)"
proof
  assume ok: "canary_authorized (Some t) (to_ascii_lowercase head)"
  have "unat b \<in> set (chars t)" using assms chars_low [of t "unat b"] by auto
  moreover obtain l where l: "l \<in> set (str_lines (to_ascii_lowercase head))"
    and "trim (chars l) = cps ''authorization: bearer '' @ chars t"
  proof (cases "find (starts_with (asc ''authorization:'')) (str_lines (to_ascii_lowercase head))")
    case None
    with ok show ?thesis by (simp add: canary_authorized_def)
  next
    case (Some l)
    then have "l \<in> set (str_lines (to_ascii_lowercase head))" by (auto simp: find_Some_iff)
    moreover have "trim (chars l) = cps ''authorization: bearer '' @ chars t"
      using ok unfolding canary_authorized_def Some by (simp only: option.case Let_def)
    ultimately show ?thesis by (rule that)
  qed
  ultimately have "unat b \<in> set (trim (chars l))" by simp
  then have "unat b \<in> set (chars l)" using set_trim_by [of is_whitespace "chars l"] by (auto simp: trim_def)
  then have "b \<in> set l" using assms(4) chars_of_low [of "unat b" l] by (auto dest: word_unat_eq_iff [THEN iffD2])
  then show False
    using set_str_lines [OF l] lowercase_bytes [of b head] assms by auto
qed

lemma canary_refuses_uppercase:
  assumes "cn_token cn = Some t" "utf8_decode t \<noteq> None" "b \<in> set t" "65 \<le> unat b" "unat b \<le> 90"
  shows "canary_handle cn clean up input \<in> {NoReply, Refused refusal}"
  using uppercase_token_refused [OF assms(2-)] assms(1)
  by (auto simp: canary_handle_def Let_def split: option.splits)

lemma find_sub_crlf: "13 \<notin> set l \<Longrightarrow> find_sub crlf (l @ crlf @ r) = Some (length l)"
  by (induction l) (auto simp: crlf_def)

lemma str_lines_fields:
  "\<forall>h \<in> set hs. 10 \<notin> set h \<Longrightarrow> str_lines (concat (map (\<lambda>h. h @ crlf) hs) @ crlf) = hs @ [[]]"
proof (induction hs)
  case Nil
  then show ?case using str_lines_crlf [of "[]" "[]"] by simp
next
  case (Cons h hs)
  then show ?case using str_lines_crlf [of h "concat (map (\<lambda>h. h @ crlf) hs) @ crlf"] by simp
qed

lemma until_empty_all: "[] \<notin> set ls \<Longrightarrow> until_empty (ls @ [] # r) = ls"
  by (induction ls) auto

text \<open>The request line is kept, every field but \<open>Host\<close> in its order, with one new \<open>Host\<close>.\<close>

lemma rewrite_host_exact:
  assumes "ascii line" "\<forall>h \<in> set hs. ascii h \<and> 10 \<notin> set h \<and> h \<noteq> []" "13 \<notin> set line"
  shows "rewrite_host (line @ crlf @ concat (map (\<lambda>h. h @ crlf) hs) @ crlf) host =
    line @ crlf @ asc ''Host: '' @ host @ crlf @
    concat (map (\<lambda>h. h @ crlf) (filter (\<lambda>h. \<not> starts_with (asc ''host:'') (to_ascii_lowercase h)) hs)) @ crlf"
proof -
  let ?req = "line @ crlf @ concat (map (\<lambda>h. h @ crlf) hs) @ crlf"
  let ?keep = "\<lambda>h. \<not> starts_with (asc ''host:'') (to_ascii_lowercase h)"
  have "ascii ?req" using assms by (auto simp: ascii_def crlf_def)
  then have decoded: "utf8_lossy ?req = ?req" by (rule utf8_lossy_ascii)
  have keep: "?keep []" by (simp add: starts_with_def to_ascii_lowercase_def)
  have "[] \<notin> set (filter ?keep hs)" using assms by auto
  then have "until_empty (filter ?keep (hs @ [[]])) = filter ?keep hs"
    using until_empty_all [of "filter ?keep hs" "[]"] keep by simp
  moreover have "str_lines (concat (map (\<lambda>h. h @ crlf) hs) @ crlf) = hs @ [[]]"
    using str_lines_fields assms by auto
  moreover have "drop (length line + 2) ?req = concat (map (\<lambda>h. h @ crlf) hs) @ crlf"
    by (simp add: crlf_def)
  ultimately show ?thesis
    unfolding rewrite_host_def decoded Let_def
    using find_sub_crlf [OF assms(3)] by simp
qed

text \<open>What the client receives is a prefix of the upstream's reads, all of them without the mark.\<close>

lemma collect_response_prefix: "\<exists>n. collect_response resp cs = resp @ concat (take n cs)"
proof (induction cs arbitrary: resp)
  case (Cons c cs)
  obtain n where "collect_response (resp @ c) cs = (resp @ c) @ concat (take n cs)" using Cons by blast
  then have "collect_response (resp @ c) cs = resp @ concat (take (Suc n) (c # cs))" by simp
  moreover have "resp = resp @ concat (take 0 (c # cs))" "resp @ c = resp @ concat (take (Suc 0) (c # cs))"
    by simp_all
  ultimately show ?case unfolding collect_response.simps by (smt (verit))
qed simp

lemma collect_response_whole:
  "[] \<notin> set cs \<Longrightarrow> find_sub [48, 13, 10, 13, 10] (resp @ concat cs) = None \<Longrightarrow>
   collect_response resp cs = resp @ concat cs"
proof (induction cs arbitrary: resp)
  case (Cons c cs)
  have "find_sub [48, 13, 10, 13, 10] (resp @ c) = None"
    using Cons.prems(2) find_sub_append [of "[48, 13, 10, 13, 10]" "resp @ c" _ "concat cs"]
    by (cases "find_sub [48, 13, 10, 13, 10] (resp @ c)") auto
  then show ?case using Cons by auto
qed simp

text \<open>A head whose last field ends in a zero already counts as the last chunk.\<close>

lemma canary_truncates:
  assumes "ends_with [48, 13, 10, 13, 10] head"
  shows "collect_response [] (head # body) = head"
proof -
  have "take 5 (drop (length head - 5) head) = [48, 13, 10, 13, 10]" "head \<noteq> []"
    using assms by (auto simp: ends_with_def eval_nat_numeral)
  then have "find_sub [48, 13, 10, 13, 10] head \<noteq> None"
    by (subst find_sub_None_iff) (auto intro!: exI [of _ "length head - 5"])
  with \<open>head \<noteq> []\<close> show ?thesis by simp
qed

text \<open>One request, read to its blank line, forwarded with the new host and answered in one piece.\<close>

lemma canary_example:
  "canary_handle \<lparr>cn_listen = [], cn_upstream_host = asc ''e'', cn_token = None\<rparr> True
     (\<lambda>_. Some [[1, 2], [3], [], [4]]) (asc ''G /'' @ crlf @ asc ''Host:x'' @ crlf @ crlf) =
   Answered (asc ''G /'' @ crlf @ asc ''Host: e'' @ crlf @ crlf) [1, 2, 3]"
  by code_simp

end
