(* ===== verification/Answers.thy ===== *)
theory Answers
  imports Frontend Bystanders
begin

text \<open>
  What becomes of an admitted request at the caller, with the whole hub going on beside it:
  how each event of the hub treats one stream (its head is set once, its chunks only grow,
  and it is complete only when it has left every table), the answer's head as the handler
  republishes it, and the body as a machine of its own, driven by the hub's events, by
  failures that are stored late, and by the caller's polls in their separate steps.
\<close>

section \<open>A stream under the hub's events\<close>

text \<open>What an event is, for a stream: quiet, the opening of another stream, or a pass of a session.\<close>

lemma start_forward_quiet_or_opens:
  assumes "t < length (rg_sessions (hb_registry h))" "h' = add_call (start_forward H t req (hb_registry h)) h"
  obtains (quiet) "\<And>s X. quiet s X (hb_registry h) (hb_registry h')"
  | (opens) fw where "start_forward H t req (hb_registry h) = (Inr fw, hb_registry h')"
proof (cases "start_forward H t req (hb_registry h)")
  case (Pair res r')
  with assms quiet_start_forward [OF assms(1) Pair] show ?thesis
    by (cases res) (auto intro: quiet opens)
qed

lemma hub_event_kinds:
  assumes ok: "hub_ok h" and refs: "hub_refs h" and h': "h' = hub_step P H sha h e"
  obtains (quiet) "\<And>s X. quiet s X (hb_registry h) (hb_registry h')"
  | (opens) t req fw where "t < length (rg_sessions (hb_registry h))"
      "start_forward H t req (hb_registry h) = (Inr fw, hb_registry h')"
  | (passes) wall now cr res ev tk result tk' where "tk_session tk < length (rg_sessions (hb_registry h))"
      "session_step P wall now cr res ev tk (hb_registry h) = (result, tk', hb_registry h')"
proof -
  have reg: "registry_ok (hb_registry h)" using ok by (simp add: hub_ok_def)
  have same: "add_call (Inl err, hb_registry h) h = h" for err by (simp add: add_call_def)
  have idle: thesis if "h' = h" using that quiet by simp
  have starts: thesis if "t < length (rg_sessions (hb_registry h))" "h' = add_call (start_forward H t req (hb_registry h)) h" for t req
    using start_forward_quiet_or_opens [OF that] quiet opens that(1) by metis
  show ?thesis
  proof (cases e)
    case (HForward wall reserved tid req)
    show ?thesis
    proof (cases "h' = h")
      case False
      then obtain t where "map_of (rg_live (hb_registry h)) tid = Some t"
          "h' = add_call (start_forward H t req (hb_registry h)) h"
        by (auto simp: h' HForward hub_step_def Let_def forward_def same split: option.splits if_splits sum.splits)
      with starts live_in_range [OF reg] show ?thesis by blast
    qed (rule idle)
  next
    case (HForwardAny wall now tx_closed reserve req)
    show ?thesis
    proof (cases "h' = h")
      case False
      then obtain tid t where t: "reserve_route wall now tx_closed reserve (hb_registry h) = Inr (tid, t)"
          and h2: "h' = add_call (start_forward H t req (hb_registry h)) h"
        by (auto simp: h' HForwardAny hub_step_def Let_def forward_any_def same split: sum.splits)
      from starts [OF eligible_in_range [OF reg reserve_route_InrD(1) [OF t]] h2] show ?thesis .
    qed (rule idle)
  next
    case (HAdmit t req)
    with starts [of t req] idle show ?thesis
      by (cases "t < length (rg_sessions (hb_registry h))") (simp_all add: h' hub_step_def Let_def)
  next
    case (HSession j wall now cr res ev)
    show ?thesis
    proof (cases "j < length (hb_tasks h) \<and> (\<exists>tk. hb_tasks h ! j = Running tk)")
      case True
      then obtain tk where j: "j < length (hb_tasks h)" "hb_tasks h ! j = Running tk" by blast
      obtain result tk' r' where step: "session_step P wall now cr res ev tk (hb_registry h) = (result, tk', r')"
        by (metis prod.exhaust)
      have "tk_session tk < length (rg_sessions (hb_registry h))"
        using hub_refsD(1) [OF refs j(1)] j(2) by simp
      moreover have "hb_registry h' = r'" using j step by (simp add: h' HSession hub_step_def on_session_def)
      ultimately show ?thesis using passes step by blast
    next
      case False
      then have "h' = h" by (auto simp: h' HSession hub_step_def on_session_def split: task_state.split)
      then show ?thesis by (rule idle)
    qed
  next
    case (HDrop k res)
    then show ?thesis
      by (intro quiet) (auto simp: h' hub_step_def Let_def quiet_guard_drop split: option.split)
  next
    case (HAttach wall now started c l)
    then show ?thesis
      by (intro quiet) (auto simp: h' hub_step_def Let_def split: option.split prod.split dest: quiet_attach_session)
  qed (intro quiet; simp add: h' hub_step_def Let_def quiet_register quiet_replace quiet_revoke quiet_close
      quiet_detach quiet_upload_finish split: option.split task_state.split)+
qed

text \<open>A stream in no table; a complete one stays there.\<close>

definition unheld :: "xref \<Rightarrow> 'h registry \<Rightarrow> bool" where
  "unheld x r \<longleftrightarrow> (\<forall>j < length (rg_sessions r). x \<notin> held (rg_sessions r ! j))"

text \<open>How one event treats the stream.\<close>

definition stream_step :: "'h head_parser \<Rightarrow> xref \<Rightarrow> 'h registry \<Rightarrow> 'h registry \<Rightarrow> bool" where
  "stream_step P x r r' \<longleftrightarrow>
     x < length (rg_streams r') \<and> rg_sessions r' \<noteq> [] \<and>
     answer_step P (rg_streams r ! x) (rg_streams r' ! x) \<and>
     (unheld x r \<longrightarrow> unheld x r' \<and> ss_chunks (rg_streams r' ! x) = ss_chunks (rg_streams r ! x)) \<and>
     (is_complete (rg_streams r' ! x) \<longrightarrow> is_complete (rg_streams r ! x) \<or> unheld x r')"

lemma only_holder:
  assumes "owner_ok r" "rg_sessions r \<noteq> []"
  obtains s where "s < length (rg_sessions r)" "\<And>j. j < length (rg_sessions r) \<Longrightarrow> j \<noteq> s \<Longrightarrow> x \<notin> held (rg_sessions r ! j)"
proof (cases "unheld x r")
  case True
  with that [of 0] assms(2) show ?thesis by (simp add: unheld_def)
next
  case False
  then obtain s where s: "s < length (rg_sessions r)" "x \<in> held (rg_sessions r ! s)" by (auto simp: unheld_def)
  then have "x \<notin> held (rg_sessions r ! j)" if "j < length (rg_sessions r)" "j \<noteq> s" for j
    using assms(1) that unfolding owner_ok_def held_def by fastforce
  with s(1) that show ?thesis by blast
qed

lemma stream_step_quiet:
  assumes "\<And>s X. quiet s X r r'" "owner_ok r" "x < length (rg_streams r)" "rg_sessions r \<noteq> []"
  shows "stream_step P x r r'"
proof -
  obtain s where s: "s < length (rg_sessions r)" "\<And>j. j < length (rg_sessions r) \<Longrightarrow> j \<noteq> s \<Longrightarrow> x \<notin> held (rg_sessions r ! j)"
    by (rule only_holder [OF assms(2,4), of x]) blast
  then have "separate s {x} r" using assms(3) by (simp add: separate_def)
  with assms(1) [of s "{x}"] s(1) have q: "separate s {x} r'" "length (rg_sessions r) \<le> length (rg_sessions r')"
    "settles (rg_sessions r ! s) (rg_sessions r' ! s)" "same_answer (rg_streams r ! x) (rg_streams r' ! x)"
    by (simp_all add: quiet_def)
  have "unheld x r'" if "unheld x r"
  proof -
    have "held (rg_sessions r' ! s) \<subseteq> held (rg_sessions r ! s)" using q(3) by (auto simp: settles_def held_def)
    with that s(1) have "x \<notin> held (rg_sessions r' ! s)" by (auto simp: unheld_def)
    with q(1) show ?thesis by (auto simp: unheld_def separate_def)
  qed
  moreover have "rg_sessions r' \<noteq> []" using q(2) s(1) by auto
  ultimately show ?thesis
    using q by (simp add: stream_step_def answer_step_def same_answer_def separate_def)
qed

lemma stream_step_opens:
  assumes "t < length (rg_sessions r)" "start_forward H t req r = (Inr fw, r')" "x < length (rg_streams r)"
  shows "stream_step P x r r'"
proof (rule start_forward_cases [OF assms(1), of H req])
  fix sid y and st :: "'a stream_state"
  assume y: "y = length (rg_streams r)"
    and "start_forward H t req r = (Inr \<lparr>fw_id = sid, fw_stream = y, fw_session = t\<rparr>,
      (upd_session t (opened_session sid y (open_head H req)) r)\<lparr>rg_streams := rg_streams r @ [st]\<rparr>)"
  with assms(2) have r': "r' = (upd_session t (opened_session sid y (open_head H req)) r)\<lparr>rg_streams := rg_streams r @ [st]\<rparr>"
    by simp
  have "set (AList.update k v al) \<subseteq> insert (k, v) (set al)" for k :: stream_id and v :: xref and al
    by (induction al) auto
  then have "held (opened_session sid y head ls) \<subseteq> insert y (held ls)" for head ls
    by (fastforce simp: opened_session_def push_sent_def held_def)
  from this [of "open_head H req" "rg_sessions r ! t"] have "unheld x r \<longrightarrow> unheld x r'"
    using assms(1,3) y by (auto simp: r' unheld_def upd_session_nth)
  moreover have "rg_sessions r' \<noteq> []" using assms(1) by (auto simp: r' upd_session_def)
  ultimately show ?thesis using assms(3) by (simp add: r' stream_step_def nth_append)
qed (use assms(2) in simp_all)

text \<open>A pass of a session that completes a stream takes it out of its table.\<close>

lemma nth_upd_complete:
  "is_complete (rg_streams (upd_stream y g r) ! x) \<Longrightarrow> \<not> is_complete (rg_streams r ! x) \<Longrightarrow>
   x = y \<and> is_complete (g (rg_streams r ! x))"
  by (auto simp: upd_stream_nth split: if_splits)

lemma not_complete_fail [simp]: "\<not> is_complete (stream_fail st)"
  by (simp add: is_complete_def)

lemma reject_completes_not:
  "is_complete (rg_streams (snd (reject_stream s sid target reason res r)) ! x) \<Longrightarrow>
   is_complete (rg_streams r ! x)"
  by (rule ccontr) (auto simp: reject_stream_def Let_def dest: nth_upd_complete split: option.splits)

lemma completes_frame:
  assumes "is_complete (rg_streams (snd (handle_frame P cr res s f r)) ! x)" "\<not> is_complete (rg_streams r ! x)"
    "s < length (rg_sessions r)"
  shows "\<exists>sid. stream_of r s sid = Some x \<and>
    ls_streams (rg_sessions (snd (handle_frame P cr res s f r)) ! s) = AList.delete sid (ls_streams (rg_sessions r ! s))"
proof (cases f)
  case (End sid reason)
  with assms(1,2) obtain y where y: "stream_of r s sid = Some y"
    by (cases "stream_of r s sid") (auto simp: handle_frame_def on_end_def)
  with End assms have "x = y"
    by (auto simp: handle_frame_def on_end_def dest!: nth_upd_complete split: if_splits)
  with End y assms(3) show ?thesis
    by (intro exI [of _ sid]) (simp add: handle_frame_def on_end_def remove_stream_def upd_session_nth)
next
  case (RespHead sid head)
  have "is_complete (rg_streams r ! x)"
    if "is_complete (rg_streams (upd_stream y (\<lambda>st. st\<lparr>ss_head := Some h\<rparr>) r) ! x)" for y h
    using that nth_upd_complete [of y "\<lambda>st. st\<lparr>ss_head := Some h\<rparr>" r x] by (auto simp: is_complete_def)
  with RespHead assms(1,2) show ?thesis
    by (auto simp: handle_frame_def on_resp_head_def split: option.splits dest: reject_completes_not)
next
  case (Data sid bytes)
  have "is_complete (rg_streams r ! x)"
    if "is_complete (rg_streams (upd_stream y (\<lambda>st. st\<lparr>ss_chunks := ss_chunks st @ [c]\<rparr>) r) ! x)" for y c
    using that nth_upd_complete [of y "\<lambda>st. st\<lparr>ss_chunks := ss_chunks st @ [c]\<rparr>" r x] by (auto simp: is_complete_def)
  with Data assms(1,2) show ?thesis
    by (auto simp: handle_frame_def on_data_def Let_def split: option.splits bool.splits if_splits
        dest: reject_completes_not)
qed (use assms(1,2) in \<open>simp_all add: handle_frame_def\<close>)

lemma completes_session:
  assumes "session_step P wall now cr res ev tk r = (result, tk', r')"
    and "is_complete (rg_streams r' ! x)" "\<not> is_complete (rg_streams r ! x)" "tk_session tk < length (rg_sessions r)"
  shows "\<exists>sid. stream_of r (tk_session tk) sid = Some x \<and>
    ls_streams (rg_sessions r' ! tk_session tk) = AList.delete sid (ls_streams (rg_sessions r ! tk_session tk))"
proof (cases ev)
  case (Input inp)
  let ?s = "tk_session tk"
  let ?t = "upd_session ?s (\<lambda>ls. ls\<lparr>ls_last_seen := now\<rparr>) r"
  have r': "r' = snd (on_message P now cr res ?s inp r)"
    using assms(1) Input by (auto simp: session_step_def split: prod.splits)
  have same: "stream_of ?t ?s sid = stream_of r ?s sid" "ls_streams (rg_sessions ?t ! ?s) = ls_streams (rg_sessions r ! ?s)" for sid
    using assms(4) by (simp_all add: stream_of_def upd_session_nth)
  from assms(2,3) obtain f where "r' = snd (handle_frame P cr res ?s f r) \<or> r' = snd (handle_frame P cr res ?s f ?t)"
    by (auto simp: r' on_message_def split: input.splits sum.splits option.splits if_splits)
  then show ?thesis
    using completes_frame [of P cr res ?s f r x] completes_frame [of P cr res ?s f ?t x] assms(2-4) same by auto
qed (use assms in \<open>auto simp: session_step_def on_tick_def split: if_splits\<close>)

lemma stream_step_passes:
  assumes "session_step P wall now cr res ev tk r = (result, tk', r')" "tk_session tk < length (rg_sessions r)"
    and "owner_ok r" "x < length (rg_streams r)"
  shows "stream_step P x r r'"
proof -
  let ?s = "tk_session tk"
  have c: "confined ?s r r'" by (rule confined_step [OF assms(1)])
  then have len: "length (rg_sessions r') = length (rg_sessions r)" "length (rg_streams r') = length (rg_streams r)"
    by (simp_all add: confined_def shrinks_def)
  have keep: "unheld x r' \<and> rg_streams r' ! x = rg_streams r ! x" if u: "unheld x r"
  proof -
    have "x \<notin> held (rg_sessions r' ! j)" if "j < length (rg_sessions r)" for j
      using c u that by (cases "j = ?s") (auto simp: confined_def unheld_def held_def)
    moreover have "rg_streams r' ! x = rg_streams r ! x" using c u assms(2) by (simp add: confined_def unheld_def held_def)
    ultimately show ?thesis using len by (simp add: unheld_def)
  qed
  have "unheld x r'" if fresh: "is_complete (rg_streams r' ! x)" "\<not> is_complete (rg_streams r ! x)"
  proof -
    obtain sid where sid: "stream_of r ?s sid = Some x"
      "ls_streams (rg_sessions r' ! ?s) = AList.delete sid (ls_streams (rg_sessions r ! ?s))"
      using completes_session [OF assms(1) fresh assms(2)] by blast
    from map_of_SomeD [OF sid(1) [unfolded stream_of_def]] have own: "(sid, x) \<in> set (ls_streams (rg_sessions r ! ?s))" .
    have "x \<notin> held (rg_sessions r' ! j)" if j: "j < length (rg_sessions r)" for j
    proof (cases "j = ?s")
      case True
      have "a = sid" if "(a, x) \<in> set (ls_streams (rg_sessions r ! ?s))" for a
        using assms(2,3) own that unfolding owner_ok_def by blast
      with sid(2) True show ?thesis by (auto simp: held_def AList.delete_eq)
    next
      case False
      then have "(a, x) \<notin> set (ls_streams (rg_sessions r ! j))" for a
        using assms(2,3) own j unfolding owner_ok_def by blast
      moreover have "rg_sessions r' ! j = rg_sessions r ! j" using c False by (simp add: confined_def)
      ultimately show ?thesis by (auto simp: held_def)
    qed
    with len show ?thesis by (simp add: unheld_def)
  qed
  moreover have "rg_sessions r' \<noteq> []" using assms(2) len by auto
  ultimately show ?thesis
    using keep answer_session_step [OF assms(1), of x] len assms(4) unfolding stream_step_def by auto
qed

lemma hub_stream_step:
  assumes "hub_ok h" "hub_refs h" "x < length (rg_streams (hb_registry h))" "rg_sessions (hb_registry h) \<noteq> []"
  shows "stream_step P x (hb_registry h) (hb_registry (hub_step P H sha h e))"
proof -
  have own: "owner_ok (hb_registry h)" using assms(1) by (simp add: hub_ok_def registry_ok_def)
  show ?thesis
  proof (cases rule: hub_event_kinds [OF assms(1,2) refl, of P H sha e, case_names quiet opens passes])
    case quiet
    from stream_step_quiet [OF this own assms(3,4)] show ?thesis .
  next
    case (opens t req fw)
    from stream_step_opens [OF this assms(3)] show ?thesis .
  next
    case (passes wall now cr res ev tk result tk')
    from stream_step_passes [OF this(2,1) own assms(3)] show ?thesis .
  qed
qed

section \<open>Runs of the hub after a request was admitted\<close>

definition in_hub :: "xref \<Rightarrow> 'h hub \<Rightarrow> bool" where
  "in_hub x h \<longleftrightarrow> hub_ok h \<and> hub_refs h \<and> x < length (rg_streams (hb_registry h)) \<and>
     rg_sessions (hb_registry h) \<noteq> []"

lemma in_hub_step:
  assumes "in_hub x h"
  shows "in_hub x (hub_step P H sha h e)" "stream_step P x (hb_registry h) (hb_registry (hub_step P H sha h e))"
proof -
  show "stream_step P x (hb_registry h) (hb_registry (hub_step P H sha h e))"
    using assms hub_stream_step [of h x P H sha e] by (simp add: in_hub_def)
  then show "in_hub x (hub_step P H sha h e)"
    using assms hub_ok_step [of h P H sha e] hub_refs_step [of h P H sha e] by (simp add: in_hub_def stream_step_def)
qed

lemma in_hub_run: "in_hub x h \<Longrightarrow> in_hub x (foldl (hub_step P H sha) h es)"
  by (induction es arbitrary: h) (simp_all add: in_hub_step(1))

text \<open>The head an answer has is one its tether sent; it stays.\<close>

definition head_sent :: "'h head_parser \<Rightarrow> 'h response \<Rightarrow> bool" where
  "head_sent P h \<longleftrightarrow> 200 \<le> rs_status h \<and> (\<exists>bytes. parse_head P bytes = Some (h, []))"

abbreviation stream_at :: "xref \<Rightarrow> 'h hub \<Rightarrow> 'h stream_state" where
  "stream_at x h \<equiv> rg_streams (hb_registry h) ! x"

lemma head_run:
  assumes "in_hub x h" "\<And>a. ss_head (stream_at x h) = Some a \<Longrightarrow> head_sent P a"
  shows "ss_head (stream_at x (foldl (hub_step P H sha) h es)) = Some a \<Longrightarrow> head_sent P a"
    and "ss_head (stream_at x h) = Some a \<Longrightarrow> ss_head (stream_at x (foldl (hub_step P H sha) h es)) = Some a"
proof -
  have "(\<forall>a. ss_head (stream_at x (foldl (hub_step P H sha) h es)) = Some a \<longrightarrow> head_sent P a) \<and>
    (\<forall>a. ss_head (stream_at x h) = Some a \<longrightarrow> ss_head (stream_at x (foldl (hub_step P H sha) h es)) = Some a)"
    using assms
  proof (induction es arbitrary: h)
    case (Cons e es)
    let ?h = "hub_step P H sha h e"
    have step: "answer_step P (stream_at x h) (stream_at x ?h)"
      using in_hub_step(2) [OF Cons.prems(1)] by (simp add: stream_step_def)
    have sent: "head_sent P a" if "ss_head (stream_at x ?h) = Some a" for a
      using step that Cons.prems(2) [of a] by (auto simp: answer_step_def head_sent_def)
    note ih = Cons.IH [OF in_hub_step(1) [OF Cons.prems(1), of P H sha e] sent]
    have "ss_head (stream_at x ?h) = Some a" if "ss_head (stream_at x h) = Some a" for a
      using step that by (auto simp: answer_step_def)
    with ih show ?case by simp
  qed simp
  then show "ss_head (stream_at x (foldl (hub_step P H sha) h es)) = Some a \<Longrightarrow> head_sent P a"
    and "ss_head (stream_at x h) = Some a \<Longrightarrow> ss_head (stream_at x (foldl (hub_step P H sha) h es)) = Some a"
    by blast+
qed

text \<open>The hub in which a forwarding call has just admitted its stream.\<close>

lemma forward_any_admitted:
  assumes "forward_any H wall now tx_closed reserve (\<lambda>_. q) req r = (Inr fw, r')" "registry_ok r" "shrinks r q"
  shows "fw_session fw < length (rg_sessions q) \<and> start_forward H (fw_session fw) req q = (Inr fw, r')"
proof -
  obtain tid s where route: "reserve_route wall now tx_closed reserve r = Inr (tid, s)"
    and start: "start_forward H s req q = (Inr fw, r')"
    using assms(1) by (auto simp: forward_any_def split: sum.splits prod.splits)
  have s: "s < length (rg_sessions q)" by (rule still_room(1) [OF assms(2) route assms(3)])
  then have "fw_session fw = s" using start by (cases rule: start_forward_cases [OF s, of H req]) auto
  with s start show ?thesis by simp
qed

lemma admitted_in_hub:
  assumes "reach (hub_step P H sha) hub_start h" "s < length (rg_sessions (hb_registry h))"
    and "start_forward H s req (hb_registry h) = (Inr fw, r')"
  shows "in_hub (fw_stream fw) (add_call (Inr fw, r') h)"
    "ss_head (stream_at (fw_stream fw) (add_call (Inr fw, r') h)) = None"
    "ss_chunks (stream_at (fw_stream fw) (add_call (Inr fw, r') h)) = []"
    "\<not> is_complete (stream_at (fw_stream fw) (add_call (Inr fw, r') h))"
proof -
  let ?h = "add_call (Inr fw, r') h"
  have "?h = hub_step P H sha h (HAdmit s req)" using assms(2,3) by (simp add: hub_step_def)
  then have "reach (hub_step P H sha) hub_start ?h" using assms(1) by (metis reach_step)
  from refs_machine.inv_reach [OF this] have ok: "hub_ok ?h" "hub_refs ?h" by simp_all
  have opened: "fw_stream fw < length (rg_streams r') \<and> rg_sessions r' \<noteq> [] \<and>
      ss_head (rg_streams r' ! fw_stream fw) = None \<and> ss_chunks (rg_streams r' ! fw_stream fw) = [] \<and>
      \<not> is_complete (rg_streams r' ! fw_stream fw)"
    using assms(2,3)
    by (auto simp: start_forward_def Let_def install_upload_def stream_state_new_def is_complete_def admit_def
        upd_session_def split: sum.splits if_splits)
  from ok opened show "in_hub (fw_stream fw) ?h" by (simp add: in_hub_def)
  from opened show "ss_head (stream_at (fw_stream fw) ?h) = None" "ss_chunks (stream_at (fw_stream fw) ?h) = []"
    "\<not> is_complete (stream_at (fw_stream fw) ?h)" by simp_all
qed

section \<open>A body and the hub that feeds it\<close>

text \<open>
  The body of one answer beside the hub: every event of the hub, which may append to the
  stream's chunks, what it appends being what the channel took; the failure of an upload or
  of a closed session, which is stored after the check that allows it and so may come at any
  time; and the polls of the caller's connection, in their three steps.
\<close>

datatype poll_stage = Polled | Checked | Reading

record ('h, 'c) delivery =
  dl_hub :: "'h hub"
  dl_body :: "'c tunnel_body"
  dl_stage :: poll_stage
  dl_outs :: "body_poll list"

datatype 'h delivery_event =
    DlHub "'h hub_event"
  | DlFail
  | DlCheck
  | DlClose
  | DlReceive

fun feed :: "'c receiver_api \<Rightarrow> chunk_or_end list \<Rightarrow> 'c tunnel_body \<Rightarrow> 'c tunnel_body" where
  "feed A cs (Live (Some rx)) = Live (Some (fold (rc_push A) cs rx))"
| "feed A cs body = body"

definition delivery_step ::
    "'c receiver_api \<Rightarrow> 'h head_parser \<Rightarrow> 'h header_api \<Rightarrow> (bytes \<Rightarrow> bytes) \<Rightarrow> xref \<Rightarrow>
     ('h, 'c) delivery \<Rightarrow> 'h delivery_event \<Rightarrow> ('h, 'c) delivery" where
  "delivery_step A P H sha x d e =
     (let outcome = ss_outcome (stream_at x (dl_hub d)) in
      case e of
        DlHub ev \<Rightarrow>
          let h = hub_step P H sha (dl_hub d) ev
          in d\<lparr>dl_hub := h,
               dl_body := feed A (drop (length (ss_chunks (stream_at x (dl_hub d)))) (ss_chunks (stream_at x h)))
                 (dl_body d)\<rparr>
      | DlFail \<Rightarrow>
          d\<lparr>dl_hub := (dl_hub d)\<lparr>hb_registry := upd_stream x stream_fail (hb_registry (dl_hub d))\<rparr>\<rparr>
      | DlCheck \<Rightarrow>
          if dl_stage d \<noteq> Polled then d
          else (case poll_check outcome (dl_body d) of
                  (Some p, body) \<Rightarrow> d\<lparr>dl_body := body, dl_outs := dl_outs d @ [p]\<rparr>
                | (None, body) \<Rightarrow> d\<lparr>dl_body := body, dl_stage := Checked\<rparr>)
      | DlClose \<Rightarrow>
          if dl_stage d \<noteq> Checked then d
          else d\<lparr>dl_body := poll_close A outcome (dl_body d), dl_stage := Reading\<rparr>
      | DlReceive \<Rightarrow>
          if dl_stage d \<noteq> Reading then d
          else (case poll_receive A (dl_body d) of
                  (p, body) \<Rightarrow> d\<lparr>dl_body := body, dl_stage := Polled, dl_outs := dl_outs d @ [p]\<rparr>))"

abbreviation dl_stream :: "xref \<Rightarrow> ('h, 'c) delivery \<Rightarrow> 'h stream_state" where
  "dl_stream x d \<equiv> stream_at x (dl_hub d)"

text \<open>Without interruption the three steps are one \<open>poll_next\<close>.\<close>

lemma delivery_poll:
  assumes "dl_stage d = Polled" "poll_next A (ss_outcome (dl_stream x d)) (dl_body d) = (p, body)"
  shows "foldl (delivery_step A P H sha x) d [DlCheck, DlClose, DlReceive] =
    d\<lparr>dl_body := body, dl_outs := dl_outs d @ [p]\<rparr>"
proof (cases "poll_check (ss_outcome (dl_stream x d)) (dl_body d)")
  case (Pair p' b)
  with assms show ?thesis
    by (cases p') (simp_all add: poll_next_steps delivery_step_def split: prod.split)
qed

definition ended :: "('d \<Rightarrow> 'e \<Rightarrow> 'd) \<Rightarrow> ('d \<Rightarrow> bool) \<Rightarrow> 'd \<Rightarrow> 'e list \<Rightarrow> bool" where
  "ended step Q d es \<longleftrightarrow> (\<exists>k. k \<le> length es \<and> Q (foldl step d (take k es)))"

lemma ended_Nil: "ended step Q d [] \<longleftrightarrow> Q d"
  by (simp add: ended_def)

lemma ended_snoc: "ended step Q d (es @ [e]) \<longleftrightarrow> ended step Q d es \<or> Q (foldl step d (es @ [e]))"
proof
  assume "ended step Q d (es @ [e])"
  then obtain k where k: "k \<le> Suc (length es)" "Q (foldl step d (take k (es @ [e])))"
    by (auto simp: ended_def)
  then show "ended step Q d es \<or> Q (foldl step d (es @ [e]))"
    unfolding ended_def by (cases "k = Suc (length es)") (simp, intro disjI1 exI [of _ k], simp)
next
  assume "ended step Q d es \<or> Q (foldl step d (es @ [e]))"
  then show "ended step Q d (es @ [e])"
  proof
    assume "ended step Q d es"
    then obtain k where "k \<le> length es" "Q (foldl step d (take k es))" by (auto simp: ended_def)
    then show ?thesis unfolding ended_def by (intro exI [of _ k]) simp
  next
    assume "Q (foldl step d (es @ [e]))"
    then show ?thesis unfolding ended_def by (intro exI [of _ "Suc (length es)"]) simp
  qed
qed

section \<open>What the body has delivered\<close>

lemma in_hub_fail:
  assumes "in_hub x h"
  shows "in_hub x (h\<lparr>hb_registry := upd_stream x stream_fail (hb_registry h)\<rparr>)"
  using assms by (simp add: in_hub_def hub_ok_def hub_refs_def registry_ok_upd_stream)

lemma delivered_snoc:
  "delivered (outs @ [p]) = delivered outs @ (case p of PollData b \<Rightarrow> [b] | _ \<Rightarrow> [])"
  by (auto simp: delivered_def map_filter_def split: body_poll.split)

lemma new_chunks:
  assumes "answer_step P st st'"
  obtains (same) "ss_chunks st' = ss_chunks st" "drop (length (ss_chunks st)) (ss_chunks st') = []"
  | (chunk) b where "ss_chunks st' = ss_chunks st @ [Chunk b]"
      "drop (length (ss_chunks st)) (ss_chunks st') = [Chunk b]"
  using assms by (auto simp: answer_step_def)

context receiver
begin

text \<open>
  What was delivered and what is queued are the stream's chunks while the receiver is there;
  \<open>E\<close> says that the stream has been complete at some time.
\<close>

definition delivery_inv :: "xref \<Rightarrow> bool \<Rightarrow> ('h, 'c) delivery \<Rightarrow> bool" where
  "delivery_inv x E d \<longleftrightarrow>
     in_hub x (dl_hub d) \<and> (is_complete (dl_stream x d) \<longrightarrow> E) \<and>
     (E \<longrightarrow> unheld x (hb_registry (dl_hub d))) \<and>
     (case dl_body d of
        Fixed _ \<Rightarrow> False
      | Live (Some rx) \<Rightarrow>
          map Chunk (delivered (dl_outs d)) @ queued rx = ss_chunks (dl_stream x d) \<and>
          ChunkEnd \<notin> set (queued rx) \<and> (closed rx \<longrightarrow> E) \<and>
          PollEnd \<notin> set (dl_outs d) \<and> PollErr \<notin> set (dl_outs d)
      | Live None \<Rightarrow>
          prefix (map Chunk (delivered (dl_outs d))) (ss_chunks (dl_stream x d)) \<and>
          (PollErr \<in> set (dl_outs d) \<or>
           E \<and> map Chunk (delivered (dl_outs d)) = ss_chunks (dl_stream x d)))"

lemma live_body: "delivery_inv x E d \<Longrightarrow> dl_body d = Live None \<or> (\<exists>rx. dl_body d = Live (Some rx))"
  by (auto simp: delivery_inv_def split: tunnel_body.splits option.splits)

lemma delivery_inv_still:
  assumes "delivery_inv x E d" "d' = d\<lparr>dl_stage := st\<rparr>"
  shows "delivery_inv x (E \<or> is_complete (dl_stream x d')) d'"
proof -
  have "E \<or> is_complete (dl_stream x d') \<longleftrightarrow> E" using assms by (auto simp: delivery_inv_def)
  moreover have "delivery_inv x E d' \<longleftrightarrow> delivery_inv x E d"
    unfolding delivery_inv_def assms(2) by (simp cong: tunnel_body.case_cong option.case_cong)
  ultimately show ?thesis using assms(1) by simp
qed

lemma delivery_inv_hub:
  assumes "delivery_inv x E d" "d' = delivery_step A P H sha x d (DlHub ev)"
  shows "delivery_inv x (E \<or> is_complete (dl_stream x d')) d'"
proof -
  let ?h = "dl_hub d" and ?h' = "hub_step P H sha (dl_hub d) ev"
  have here: "in_hub x ?h" using assms(1) by (simp add: delivery_inv_def)
  note step = in_hub_step(2) [OF here, of P H sha ev]
  have d': "dl_hub d' = ?h'" "dl_outs d' = dl_outs d" "dl_body d' =
      feed A (drop (length (ss_chunks (stream_at x ?h))) (ss_chunks (stream_at x ?h'))) (dl_body d)"
    by (simp_all add: assms(2) delivery_step_def Let_def)
  have unheld: "unheld x (hb_registry ?h')" if "E \<or> is_complete (stream_at x ?h')"
    using that step assms(1) by (auto simp: stream_step_def delivery_inv_def)
  have kept: "ss_chunks (stream_at x ?h') = ss_chunks (stream_at x ?h)" if E
    using that step assms(1) by (auto simp: stream_step_def delivery_inv_def)
  have "answer_step P (stream_at x ?h) (stream_at x ?h')" using step by (simp add: stream_step_def)
  then show ?thesis
  proof (cases rule: new_chunks)
    case same
    then have "dl_body d' = dl_body d" by (cases "(A, [] :: chunk_or_end list, dl_body d)" rule: feed.cases) (simp_all add: d')
    with same assms(1) in_hub_step(1) [OF here, of P H sha ev] unheld show ?thesis
      unfolding delivery_inv_def d'(1,2) by (auto split: tunnel_body.splits option.splits)
  next
    case (chunk b)
    then have notE: "\<not> E" using kept by auto
    show ?thesis
    proof (cases "dl_body d")
      case (Fixed buf)
      with assms(1) show ?thesis by (simp add: delivery_inv_def)
    next
      case (Live slot)
      show ?thesis
      proof (cases slot)
        case None
        have "prefix a (c @ [y])" if "prefix a c" for a c and y :: chunk_or_end
          using that by (rule prefix_order.trans) simp
        with None Live chunk notE assms(1) in_hub_step(1) [OF here, of P H sha ev] unheld show ?thesis
          unfolding delivery_inv_def d' by simp
      next
        case (Some rx)
        with Live notE assms(1) have "\<not> closed rx" by (simp add: delivery_inv_def)
        with push_law [of "Chunk b" rx] have "queued (rc_push A (Chunk b) rx) = queued rx @ [Chunk b]"
          "\<not> closed (rc_push A (Chunk b) rx)" by simp_all
        with Some Live chunk notE assms(1) in_hub_step(1) [OF here, of P H sha ev] unheld show ?thesis
          unfolding delivery_inv_def d' by (simp add: append_assoc [symmetric])
      qed
    qed
  qed
qed

lemma delivery_inv_receive:
  assumes "delivery_inv x E d" "poll_receive A (dl_body d) = (p, body)"
  shows "delivery_inv x E (d\<lparr>dl_body := body, dl_stage := Polled, dl_outs := dl_outs d @ [p]\<rparr>)"
proof (cases "\<exists>rx. dl_body d = Live (Some rx)")
  case False
  from live_body [OF assms(1)] False have none: "dl_body d = Live None" by blast
  with assms(2) have "body = Live None" "p = PollEnd" by simp_all
  with none assms(1) show ?thesis by (auto simp: delivery_inv_def delivered_snoc)
next
  case True
  then obtain rx where rx: "dl_body d = Live (Some rx)" ..
  obtain res rx' where poll: "rc_poll A rx = (res, rx')" by (cases "rc_poll A rx")
  show ?thesis
  proof (cases res)
    case (RecvItem c)
    note q = poll_item [OF poll [unfolded RecvItem]]
    with assms(1) rx have "c \<noteq> ChunkEnd" by (auto simp: delivery_inv_def)
    with q assms rx poll RecvItem show ?thesis
      by (cases c) (auto simp: delivery_inv_def delivered_snoc)
  next
    case RecvNone
    note q = poll_none [OF poll [unfolded RecvNone]]
    with assms rx poll RecvNone show ?thesis by (auto simp: delivery_inv_def delivered_snoc)
  next
    case RecvPending
    note q = poll_pending [OF poll [unfolded RecvPending]]
    with assms rx poll RecvPending show ?thesis by (auto simp: delivery_inv_def delivered_snoc)
  qed
qed

lemma delivery_inv_step:
  assumes "delivery_inv x E d" "d' = delivery_step A P H sha x d e"
  shows "delivery_inv x (E \<or> is_complete (dl_stream x d')) d'"
proof (cases e)
  case (DlHub ev)
  with delivery_inv_hub assms show ?thesis by blast
next
  case DlFail
  let ?h = "(dl_hub d)\<lparr>hb_registry := upd_stream x stream_fail (hb_registry (dl_hub d))\<rparr>"
  have here: "in_hub x (dl_hub d)" using assms(1) by (simp add: delivery_inv_def)
  then have x: "x < length (rg_streams (hb_registry (dl_hub d)))" by (simp add: in_hub_def)
  then have st: "stream_at x ?h = stream_fail (stream_at x (dl_hub d))" by (simp add: upd_stream_nth)
  have "d' = d\<lparr>dl_hub := ?h\<rparr>" using DlFail assms(2) by (simp add: delivery_step_def Let_def)
  moreover have "unheld x (hb_registry ?h) \<longleftrightarrow> unheld x (hb_registry (dl_hub d))" by (simp add: unheld_def)
  ultimately show ?thesis
    using assms(1) in_hub_fail [OF here] st
    unfolding delivery_inv_def by (auto split: tunnel_body.splits option.splits)
next
  case DlCheck
  show ?thesis
  proof (cases "dl_stage d = Polled")
    case True
    show ?thesis
    proof (cases "\<exists>rx. dl_body d = Live (Some rx)")
      case False
      from live_body [OF assms(1)] False have "dl_body d = Live None" by blast
      with True DlCheck assms show ?thesis
        by (auto simp: delivery_inv_def delivery_step_def Let_def delivered_snoc)
    next
      case live: True
      then obtain rx where rx: "dl_body d = Live (Some rx)" ..
      have "prefix (map Chunk (delivered (dl_outs d))) (ss_chunks (dl_stream x d))"
        using assms(1) rx by (auto simp: delivery_inv_def intro: prefixI [OF sym])
      with True DlCheck assms rx show ?thesis
        by (auto simp: delivery_inv_def delivery_step_def Let_def delivered_snoc)
    qed
  next
    case False
    with DlCheck assms(2) have "d' = d\<lparr>dl_stage := dl_stage d\<rparr>" by (simp add: delivery_step_def Let_def)
    with assms(1) show ?thesis by (rule delivery_inv_still)
  qed
next
  case DlClose
  show ?thesis
  proof (cases "dl_stage d = Checked \<and> (\<exists>rx. dl_body d = Live (Some rx))")
    case True
    then obtain rx where rx: "dl_body d = Live (Some rx)" by blast
    with True DlClose assms close_law [of rx] show ?thesis
      by (auto simp: delivery_inv_def delivery_step_def Let_def is_complete_def)
  next
    case False
    have "poll_close A n (dl_body d) = dl_body d" if "\<nexists>rx. dl_body d = Live (Some rx)" for n
      using that by (cases "(A, n, dl_body d)" rule: poll_close.cases) auto
    with False have "d' = d\<lparr>dl_stage := (if dl_stage d = Checked then Reading else dl_stage d)\<rparr>"
      using DlClose assms(2) by (auto simp: delivery_step_def Let_def)
    with assms(1) show ?thesis by (rule delivery_inv_still)
  qed
next
  case DlReceive
  show ?thesis
  proof (cases "dl_stage d = Reading")
    case True
    obtain p body where p: "poll_receive A (dl_body d) = (p, body)" by (cases "poll_receive A (dl_body d)")
    with True DlReceive assms(2) have d': "d' = d\<lparr>dl_body := body, dl_stage := Polled, dl_outs := dl_outs d @ [p]\<rparr>"
      by (simp add: delivery_step_def Let_def)
    have "E \<or> is_complete (dl_stream x d') \<longleftrightarrow> E" using assms(1) by (auto simp: d' delivery_inv_def)
    with delivery_inv_receive [OF assms(1) p] show ?thesis by (simp add: d')
  next
    case False
    with DlReceive assms(2) have "d' = d\<lparr>dl_stage := dl_stage d\<rparr>" by (simp add: delivery_step_def Let_def)
    with assms(1) show ?thesis by (rule delivery_inv_still)
  qed
qed

lemma delivery_run:
  assumes "delivery_inv x (is_complete (dl_stream x d)) d"
  shows "delivery_inv x (ended (delivery_step A P H sha x) (\<lambda>d. is_complete (dl_stream x d)) d es)
    (foldl (delivery_step A P H sha x) d es)"
proof (induction es rule: rev_induct)
  case Nil
  with assms show ?case by (simp add: ended_Nil)
next
  case (snoc e es)
  from delivery_inv_step [OF snoc refl, of P H sha e] show ?case by (simp add: ended_snoc)
qed

end

section \<open>What the handler answers\<close>

lemma caller_answer_exact:
  assumes "caller_answer H ok st st' = Some a"
    and "\<And>head. ss_head st = Some head \<Longrightarrow> head_sent P head \<and> ss_head st' = Some head"
  shows "case ss_head st of
      Some head \<Rightarrow>
        head_sent P head \<and> ss_head st' = Some head \<and>
        (if ok then
           an_status a = (if rs_status head \<le> 999 then rs_status head else 502) \<and>
           an_headers a = filter (\<lambda>(n, _). \<not> is_hop_by_hop n) (hm_iter H (rs_headers head)) \<and>
           an_body a = None
         else a = \<lparr>an_status = 500, an_headers = [(asc ''content-length'', asc ''0'')], an_body = Some []\<rparr>)
    | None \<Rightarrow>
        ss_completed st' \<and>
        a = \<lparr>an_status = 502, an_headers = [(asc ''content-length'', asc ''0'')], an_body = Some []\<rparr>"
proof (cases "ss_head st")
  case None
  with assms(1) show ?thesis
    by (auto simp: caller_answer_def answer_head_def caller_status_for_def error_response_def simp del: asc_simps
        split: if_splits)
next
  case (Some head)
  from assms(2) [OF this] have "head_sent P head" "ss_head st' = Some head" by simp_all
  moreover from this(1) have "100 \<le> rs_status head" by (simp add: head_sent_def)
  ultimately show ?thesis
    using assms(1) Some
    by (auto simp: caller_answer_def answer_head_def caller_status_for_def error_response_def simp del: asc_simps)
qed

section \<open>An example\<close>

text \<open>A tether answers the one request of \<open>example_hub\<close> with a head, two chunks and END.\<close>

definition tiny_parser :: "unit head_parser" where
  "tiny_parser = \<lparr>hp_parse = \<lambda>bs. Some (Complete (length bs), Some 200, []),
     hp_build = \<lambda>code _. Some \<lparr>rs_status = code, rs_headers = ()\<rparr>\<rparr>"

definition example_stage :: "unit header_api \<Rightarrow> (stream_id \<times> xref) list \<Rightarrow> unit stream_state \<Rightarrow> unit hub" where
  "example_stage H table st = example_hub\<lparr>
     hb_registry := example_registry\<lparr>
       rg_sessions := [(session_new 1 0)\<lparr>ls_sent := [Open 1 (open_head H example_request)],
         ls_streams := table, ls_next_id := 2\<rparr>],
       rg_streams := [st]\<rparr>,
     hb_calls := [Some \<lparr>fw_id = 1, fw_stream = 0, fw_session = 0\<rparr>]\<rparr>"

definition example_state :: "unit response option \<Rightarrow> bytes list \<Rightarrow> unit stream_state" where
  "example_state head bs = (install_upload 0 (stream_state_new (asc ''GET'') (asc ''/'') ()))
     \<lparr>ss_head := head, ss_chunks := map Chunk bs\<rparr>"

abbreviation from_engine :: "frame \<Rightarrow> unit hub_event" where
  "from_engine f \<equiv> HSession 0 0 5 Sent Sent (Input (Message (ws_msg f)))"

abbreviation ok_head :: "unit response" where
  "ok_head \<equiv> \<lparr>rs_status = 200, rs_headers = ()\<rparr>"

lemma example_admitted:
  "\<exists>r'. start_forward H 0 example_request example_registry =
     (Inr \<lparr>fw_id = 1, fw_stream = 0, fw_session = 0\<rparr>, r') \<and>
   add_call (Inr \<lparr>fw_id = 1, fw_stream = 0, fw_session = 0\<rparr>, r') example_hub =
     example_stage H [(1, 0)] (example_state None [])"
  by (simp add: start_forward_def admit_def example_registry_eq session_new_def upd_session_def Let_def
      example_request_def open_head_def stream_state_new_def push_sent_def MAX_CONCURRENT_STREAMS_def
      add_call_def example_stage_def example_state_def example_hub_def install_upload_def del: asc_simps)

lemma example_answer:
  "hub_step tiny_parser H sha (example_stage H [(1, 0)] (example_state None [])) (from_engine (RespHead 1 [72])) =
     example_stage H [(1, 0)] (example_state (Some ok_head) [])"
  "hub_step tiny_parser H sha (example_stage H [(1, 0)] (example_state (Some h) bs)) (from_engine (Data 1 [b])) =
     example_stage H [(1, 0)] (example_state (Some h) (bs @ [[b]]))"
  "hub_step tiny_parser H sha (example_stage H [(1, 0)] (example_state (Some h) bs)) (from_engine (End 1 [])) =
     example_stage H [] (stream_complete (example_state (Some h) bs))"
proof -
  have small: "fits (RespHead 1 [72])" "fits (Data i [b])" "fits (End i [])" for i b by (simp_all add: fits_def payload_len_def)
  have head: "parse_head tiny_parser [72] = Some (ok_head, [])"
    by (simp add: parse_head_def tiny_parser_def MAX_PENDING_HEAD_def)
  note up = hub_step_def on_session_def session_step_def on_message_def ws_msg_def
    frame_proves_liveness_def handle_frame_def stream_of_def upd_stream_def example_stage_def example_state_def
    example_hub_def example_task_def example_registry_eq session_new_def
  show "hub_step tiny_parser H sha (example_stage H [(1, 0)] (example_state None [])) (from_engine (RespHead 1 [72])) =
     example_stage H [(1, 0)] (example_state (Some ok_head) [])"
    by (simp add: up small on_resp_head_def acceptable_head_def head Let_def del: asc_simps)
  show "hub_step tiny_parser H sha (example_stage H [(1, 0)] (example_state (Some h) bs)) (from_engine (Data 1 [b])) =
     example_stage H [(1, 0)] (example_state (Some h) (bs @ [[b]]))"
    by (simp add: up small on_data_def Let_def del: asc_simps)
  show "hub_step tiny_parser H sha (example_stage H [(1, 0)] (example_state (Some h) bs)) (from_engine (End 1 [])) =
     example_stage H [] (stream_complete (example_state (Some h) bs))"
    by (simp add: up small on_end_def remove_stream_def upd_session_def Let_def del: asc_simps)
qed

lemma example_stage_stream [simp]:
  "stream_at 0 (example_stage H table st) = st"
  "ss_chunks (example_state head bs) = map Chunk bs" "ss_head (example_state head bs) = head"
  "ss_outcome (example_state head bs) = 0"
  by (simp_all add: example_stage_def example_state_def install_upload_def)

section \<open>Properties\<close>





end
