(* ===== verification/Tests_Wire.thy ===== *)
theory Tests_Wire
  imports Frames Chunked Heads
begin

text \<open>
  The unit tests in \<open>frames.rs\<close>, \<open>headers.rs\<close> and \<open>chunked.rs\<close> as boolean definitions over
  the model, each with a lemma that it passes. \<open>http\<close>'s header map is \<open>list_headers\<close>.
\<close>

lemmas decode_eval = decode_def HEADER_LEN_def MAX_PAYLOAD_def u16_from_be_def u32_from_be_def accept_frame_def
  decode_body_def tag_defs

lemmas header_eval = strip_hop_by_hop_def conditional_names_def value_tokens_def remove_counted_def
  remove_conditional_def ALWAYS_STRIP_def list_headers_def hm_get_def to_ascii_lowercase_def lower_def
  trim_ascii_def trim_by_def is_whitespace_def visible_def lower_name_byte_def

section \<open>Frames\<close>

definition roundtrip :: "frame \<Rightarrow> bool" where
  "roundtrip f \<longleftrightarrow>
     (case decode (encode f) of
        Inr (Some (got, consumed)) \<Rightarrow> got = f \<and> consumed = length (encode f)
      | _ \<Rightarrow> False)"

lemma roundtrip_fits: "fits f \<Longrightarrow> roundtrip f"
  using decode_encode_append [of f "[]"] by (simp add: roundtrip_def)

definition every_frame_type_roundtrips :: bool where
  "every_frame_type_roundtrips \<longleftrightarrow>
     roundtrip (Hello (asc ''reg.abc'')) \<and> roundtrip (Welcome 900) \<and>
     roundtrip (Open 7 (asc ''POST /v1/chat/completions HTTP/1.1'' @ crlf @ asc ''host: x'' @ crlf @ crlf)) \<and>
     roundtrip (Data 65535 (asc ''data: hi'' @ [10, 10])) \<and> roundtrip (End 3 (asc ''upstream reset'')) \<and>
     roundtrip Ping \<and> roundtrip Pong \<and> roundtrip (GoAway (asc ''lease revoked''))"

lemma fits_welcome: "fits (Welcome n)"
  using length_to_dec_u64 [of "unat n"] unsigned_less [of n, where ?'a = nat]
  by (simp add: fits_def payload_len_def)

lemma every_frame_type_roundtrips: every_frame_type_roundtrips
  unfolding every_frame_type_roundtrips_def
  by (intro conjI roundtrip_fits fits_welcome) (simp_all add: fits_def payload_len_def crlf_def)

definition welcome_lease_survives_large_and_zero_values :: bool where
  "welcome_lease_survives_large_and_zero_values \<longleftrightarrow>
     roundtrip (Welcome 0) \<and> roundtrip (Welcome (- 1 div 2))"

lemma welcome_lease_survives_large_and_zero_values: welcome_lease_survives_large_and_zero_values
  unfolding welcome_lease_survives_large_and_zero_values_def by (intro conjI roundtrip_fits fits_welcome)

definition incomplete_frame_needs_more_bytes :: bool where
  "incomplete_frame_needs_more_bytes \<longleftrightarrow>
     (let full = encode (Data 1 (asc ''0123456789''))
      in list_all (\<lambda>pos. decode (take pos full) = Inr None) [1..<length full])"

lemma incomplete_frame_needs_more_bytes: incomplete_frame_needs_more_bytes
proof -
  have "fits (Data 1 (asc ''0123456789''))" by (simp add: fits_def payload_len_def)
  then show ?thesis
    using decode_prefix by (auto simp: incomplete_frame_needs_more_bytes_def list_all_iff simp del: asc_simps)
qed

definition oversized_length_field_is_rejected :: bool where
  "oversized_length_field_is_rejected \<longleftrightarrow>
     decode ([T_DATA, 0, 1, 0xff, 0xff, 0xff, 0xff] @ asc ''tiny'') = Inl (TooLong 0xffffffff)"

lemma oversized_length_field_is_rejected: oversized_length_field_is_rejected
  by (simp add: oversized_length_field_is_rejected_def decode_eval)

definition unknown_frame_type_aborts :: bool where
  "unknown_frame_type_aborts \<longleftrightarrow>
     decode ([0x7f, 0, 0, 0, 0, 0, 0] @ asc ''x'') = Inl (UnknownType 0x7f)"

lemma unknown_frame_type_aborts: unknown_frame_type_aborts
  by (simp add: unknown_frame_type_aborts_def decode_eval)

definition control_frame_cannot_claim_a_stream :: bool where
  "control_frame_cannot_claim_a_stream \<longleftrightarrow>
     (case decode [T_PING, 0, 5, 0, 0, 0, 0] of Inl (Malformed _) \<Rightarrow> True | _ \<Rightarrow> False)"

lemma control_frame_cannot_claim_a_stream: control_frame_cannot_claim_a_stream
  by (simp add: control_frame_cannot_claim_a_stream_def decode_eval)

definition stream_id_is_big_endian_and_full_width :: bool where
  "stream_id_is_big_endian_and_full_width \<longleftrightarrow>
     list_all (\<lambda>i. case decode (encode (Data i [0xAA])) of
         Inr (Some (got, _)) \<Rightarrow> frame_stream got = i | _ \<Rightarrow> False)
       [1, 256, 257, 4096, 65535]"

lemma stream_id_is_big_endian_and_full_width: stream_id_is_big_endian_and_full_width
proof -
  have "decode (encode (Data i [0xAA])) = Inr (Some (Data i [0xAA], length (encode (Data i [0xAA]))))" for i
    using decode_encode_append [of "Data i [0xAA]" "[]"] by (simp add: fits_def payload_len_def)
  then show ?thesis by (simp add: stream_id_is_big_endian_and_full_width_def)
qed

definition empty_payload_is_distinct_from_no_frame :: bool where
  "empty_payload_is_distinct_from_no_frame \<longleftrightarrow>
     decode (encode (Data 9 [])) = Inr (Some (Data 9 [], HEADER_LEN))"

lemma empty_payload_is_distinct_from_no_frame: empty_payload_is_distinct_from_no_frame
  using decode_encode_append [of "Data 9 []" "[]"] length_encode [of "Data 9 []"]
  by (simp add: empty_payload_is_distinct_from_no_frame_def fits_def payload_len_def)

definition decoding_two_frames_advances_by_consumed :: bool where
  "decoding_two_frames_advances_by_consumed \<longleftrightarrow>
     (let buf = encode (Data 1 (asc ''aa'')) @ encode (Data 2 (asc ''bb''))
      in case decode buf of
           Inr (Some (f1, n1)) \<Rightarrow>
             (case decode (drop n1 buf) of
                Inr (Some (f2, n2)) \<Rightarrow> frame_stream f1 = 1 \<and> frame_stream f2 = 2 \<and> n1 + n2 = length buf
              | _ \<Rightarrow> False)
         | _ \<Rightarrow> False)"

lemma decoding_two_frames_advances_by_consumed: decoding_two_frames_advances_by_consumed
  using decode_encode_append [of "Data 1 (asc ''aa'')"] decode_encode_append [of "Data 2 (asc ''bb'')" "[]"]
  by (simp add: decoding_two_frames_advances_by_consumed_def fits_def payload_len_def)

section \<open>Header fields\<close>

abbreviation ins :: "string \<Rightarrow> bytes \<Rightarrow> (bytes \<times> bytes) list \<Rightarrow> (bytes \<times> bytes) list" where
  "ins n v h \<equiv> hm_insert list_headers h (asc n) v"

definition contains_key :: "(bytes \<times> bytes) list \<Rightarrow> string \<Rightarrow> bool" where
  "contains_key h n \<longleftrightarrow> hm_get list_headers h (asc n) \<noteq> None"

definition strips_always_hop_by_hop_fields :: bool where
  "strips_always_hop_by_hop_fields \<longleftrightarrow>
     (let h = ins ''x-request-id'' (asc ''abc'') (ins ''transfer-encoding'' (asc ''chunked'')
            (ins ''keep-alive'' (asc ''timeout=5'') (ins ''connection'' (asc ''keep-alive'') [])));
          (removed, h) = strip_hop_by_hop list_headers h
      in \<not> contains_key h ''connection'' \<and> \<not> contains_key h ''keep-alive'' \<and>
         \<not> contains_key h ''transfer-encoding'' \<and> contains_key h ''x-request-id'' \<and> 3 \<le> removed)"

lemma strips_always_hop_by_hop_fields: strips_always_hop_by_hop_fields
proof -
  have "strip_hop_by_hop list_headers (ins ''x-request-id'' (asc ''abc'') (ins ''transfer-encoding'' (asc ''chunked'')
      (ins ''keep-alive'' (asc ''timeout=5'') (ins ''connection'' (asc ''keep-alive'') [])))) =
    (3, [(asc ''x-request-id'', asc ''abc'')])"
    by (simp add: header_eval)
  then show ?thesis by (simp add: strips_always_hop_by_hop_fields_def contains_key_def list_headers_def hm_get_def)
qed

definition strips_fields_named_by_connection_header :: bool where
  "strips_fields_named_by_connection_header \<longleftrightarrow>
     (let h = ins ''authorization'' (asc ''Bearer real'') (ins ''foo'' (asc ''bar'')
            (ins ''x-session-token'' (asc ''secret'') (ins ''connection'' (asc ''X-Session-Token, Foo'') [])));
          h = snd (strip_hop_by_hop list_headers h)
      in \<not> contains_key h ''x-session-token'' \<and> \<not> contains_key h ''foo'' \<and> contains_key h ''authorization'')"

lemma strips_fields_named_by_connection_header: strips_fields_named_by_connection_header
proof -
  have "snd (strip_hop_by_hop list_headers (ins ''authorization'' (asc ''Bearer real'') (ins ''foo'' (asc ''bar'')
      (ins ''x-session-token'' (asc ''secret'') (ins ''connection'' (asc ''X-Session-Token, Foo'') []))))) =
    [(asc ''authorization'', asc ''Bearer real'')]"
    by (simp add: header_eval)
  then show ?thesis
    by (simp add: strips_fields_named_by_connection_header_def contains_key_def list_headers_def hm_get_def)
qed

definition mixed_case_connection_tokens_do_not_panic :: bool where
  "mixed_case_connection_tokens_do_not_panic \<longleftrightarrow>
     \<not> contains_key (snd (strip_hop_by_hop list_headers
          (ins ''x-custom'' (asc ''1'') (ins ''connection'' (asc ''CoNnEcTiOn, KEEP-ALIVE'') [])))) ''connection''"

lemma mixed_case_connection_tokens_do_not_panic: mixed_case_connection_tokens_do_not_panic
  by (simp add: mixed_case_connection_tokens_do_not_panic_def contains_key_def header_eval)

definition idempotent_on_empty_map :: bool where
  "idempotent_on_empty_map \<longleftrightarrow> fst (strip_hop_by_hop list_headers []) = 0"

lemma idempotent_on_empty_map: idempotent_on_empty_map
  by (simp add: idempotent_on_empty_map_def contains_key_def header_eval)

section \<open>Chunked bodies\<close>

lemmas chunk_eval = push_def new_decoder_def push_loop.simps chunk_size_def crlf_def trim_def trim_by_def
  is_whitespace_def from_str_radix_def to_digit_def

text \<open>\<open>None\<close> is a panic of \<open>unwrap\<close>.\<close>

fun decode_all :: "decoder \<Rightarrow> bytes list \<Rightarrow> bytes \<Rightarrow> bool \<Rightarrow> (bytes \<times> bool) option" where
  "decode_all d [] acc done = Some (acc, done)"
| "decode_all d (p # ps) acc done =
     (case push d p of
        (Inr r, d') \<Rightarrow> decode_all d' ps (acc @ out r) (is_done r)
      | (Inl _, _) \<Rightarrow> None)"

definition decode_pieces :: "bytes list \<Rightarrow> (bytes \<times> bool) option" where
  "decode_pieces ps = decode_all new_decoder ps [] False"

definition reassembles_simple_chunks :: bool where
  "reassembles_simple_chunks \<longleftrightarrow>
     decode_pieces [asc ''5'' @ crlf @ asc ''hello'' @ crlf @ asc ''6'' @ crlf @ asc '' world'' @ crlf @ asc ''0'' @ crlf @ crlf] =
       Some (asc ''hello world'', True)"

lemma reassembles_simple_chunks: reassembles_simple_chunks
  by (simp add: reassembles_simple_chunks_def decode_pieces_def chunk_eval)

definition emits_a_complete_chunk_immediately :: bool where
  "emits_a_complete_chunk_immediately \<longleftrightarrow>
     (case fst (push new_decoder (asc ''8'' @ crlf @ asc ''data: on'' @ crlf)) of
        Inr r \<Rightarrow> out r = asc ''data: on'' \<and> \<not> is_done r | Inl _ \<Rightarrow> False)"

lemma emits_a_complete_chunk_immediately: emits_a_complete_chunk_immediately
  by (simp add: emits_a_complete_chunk_immediately_def chunk_eval)

definition streams_partial_chunk_bytes :: bool where
  "streams_partial_chunk_bytes \<longleftrightarrow>
     (case push new_decoder (asc ''9'' @ crlf @ asc ''data: '') of
        (Inr r, d) \<Rightarrow> out r = asc ''data: '' \<and> \<not> is_done r \<and>
          (case fst (push d (asc ''two'' @ crlf)) of Inr r2 \<Rightarrow> out r2 = asc ''two'' | Inl _ \<Rightarrow> False)
      | (Inl _, _) \<Rightarrow> False) \<and>
     (case fst (push new_decoder (asc ''9'' @ crlf)) of Inr r \<Rightarrow> out r = [] | Inl _ \<Rightarrow> False)"

lemma streams_partial_chunk_bytes: streams_partial_chunk_bytes
  by (simp add: streams_partial_chunk_bytes_def chunk_eval)

definition handles_a_size_line_split_across_reads :: bool where
  "handles_a_size_line_split_across_reads \<longleftrightarrow>
     decode_pieces [asc ''5'', crlf @ asc ''hel'', asc ''lo'' @ crlf @ asc ''0'' @ crlf @ crlf] =
       Some (asc ''hello'', True)"

lemma handles_a_size_line_split_across_reads: handles_a_size_line_split_across_reads
  by (simp add: handles_a_size_line_split_across_reads_def decode_pieces_def chunk_eval)

definition tolerates_chunk_extensions :: bool where
  "tolerates_chunk_extensions \<longleftrightarrow>
     map_option fst (decode_pieces [asc ''5;ext=1'' @ crlf @ asc ''hello'' @ crlf @ asc ''0'' @ crlf @ crlf]) =
       Some (asc ''hello'')"

lemma tolerates_chunk_extensions: tolerates_chunk_extensions
  by (simp add: tolerates_chunk_extensions_def decode_pieces_def chunk_eval)

definition rejects_a_non_hex_size_line :: bool where
  "rejects_a_non_hex_size_line \<longleftrightarrow>
     fst (push new_decoder (asc ''xyz'' @ crlf @ asc ''hello'' @ crlf)) = Inl (MalformedChunk ''chunk size not hex'')"

lemma rejects_a_non_hex_size_line: rejects_a_non_hex_size_line
  by (simp add: rejects_a_non_hex_size_line_def chunk_eval)

definition eof_mid_chunk_is_an_error :: bool where
  "eof_mid_chunk_is_an_error \<longleftrightarrow>
     (case push new_decoder (asc ''20'' @ crlf @ asc ''short'') of
        (Inr _, d) \<Rightarrow> fst (feed_eof d) = Inl (MalformedChunk ''eof mid chunk body'')
      | (Inl _, _) \<Rightarrow> False)"

lemma eof_mid_chunk_is_an_error: eof_mid_chunk_is_an_error
  by (simp add: eof_mid_chunk_is_an_error_def chunk_eval feed_eof_def)

definition default_decoder_matches_the_std_reader :: bool where
  "default_decoder_matches_the_std_reader \<longleftrightarrow>
     map_option fst (decode_pieces [asc ''3'' @ crlf @ asc ''abc'' @ crlf @ asc ''0'' @ crlf @ crlf]) = Some (asc ''abc'')"

lemma default_decoder_matches_the_std_reader: default_decoder_matches_the_std_reader
  by (simp add: default_decoder_matches_the_std_reader_def decode_pieces_def chunk_eval)

definition is_chunked_reads_the_header :: bool where
  "is_chunked_reads_the_header \<longleftrightarrow>
     is_chunked list_headers (ins ''transfer-encoding'' (asc ''chunked'') []) \<and>
     is_chunked list_headers (ins ''transfer-encoding'' (asc ''gzip, chunked'') []) \<and>
     \<not> is_chunked list_headers (ins ''content-type'' (asc ''text/event-stream'') [])"

lemma is_chunked_reads_the_header: is_chunked_reads_the_header
  by (simp add: is_chunked_reads_the_header_def is_chunked_def eq_ignore_case_def header_eval)

text \<open>Three events in three chunks, and what they carry.\<close>

definition three_events :: bytes where
  "three_events =
     asc ''a'' @ crlf @ asc ''data: one'' @ [10] @ crlf @ asc ''a'' @ crlf @ asc ''data: two'' @ [10] @ crlf @
     asc ''b'' @ crlf @ asc ''data: done'' @ [10] @ crlf @ asc ''0'' @ crlf @ crlf"

definition three_bodies :: bytes where
  "three_bodies = asc ''data: one'' @ [10] @ asc ''data: two'' @ [10] @ asc ''data: done'' @ [10]"

definition one_push_emits_every_chunk :: bool where
  "one_push_emits_every_chunk \<longleftrightarrow>
     fst (push new_decoder three_events) = Inr \<lparr>out = three_bodies, is_done = True\<rparr>"

lemma one_push_emits_every_chunk: one_push_emits_every_chunk
  by (simp add: one_push_emits_every_chunk_def three_events_def three_bodies_def chunk_eval)

definition cut_loses_nothing :: "bytes \<Rightarrow> bytes \<Rightarrow> nat \<Rightarrow> bool" where
  "cut_loses_nothing wire body pos \<longleftrightarrow>
     (case push new_decoder (take pos wire) of
        (Inl _, _) \<Rightarrow> False
      | (Inr r1, d) \<Rightarrow>
          if is_done r1 then out r1 = body
          else (case fst (push d (drop pos wire)) of
                  Inl _ \<Rightarrow> False | Inr r2 \<Rightarrow> is_done r2 \<and> out r1 @ out r2 = body))"

definition done_early :: "bytes \<Rightarrow> nat \<Rightarrow> bool" where
  "done_early wire pos \<longleftrightarrow>
     (case fst (push new_decoder (take pos wire)) of Inr r \<Rightarrow> is_done r | Inl _ \<Rightarrow> False)"

definition arbitrary_read_boundaries_lose_nothing :: bool where
  "arbitrary_read_boundaries_lose_nothing \<longleftrightarrow>
     list_all (cut_loses_nothing three_events three_bodies) [1..<length three_events] \<and>
     list_ex (done_early three_events) [1..<length three_events]"

text \<open>Wherever a body that decodes whole is cut, nothing is lost: not only this one.\<close>

lemma push_loop_is_done: "push_loop m b acc = (Inr x, d) \<Longrightarrow> is_done x \<longleftrightarrow> mode d = Done"
proof (induction m b acc rule: push_loop.induct)
  case (1 b acc)
  then show ?case by (auto simp: push_loop.simps(1) split: option.splits sum.splits if_splits)
next
  case (2 remaining b acc)
  from 2(3) show ?case
    unfolding push_loop.simps(2) Let_def using 2(1,2) by (auto split: if_splits)
next
  case (3 b acc)
  then show ?case by (auto simp: push_loop.simps(3) split: if_splits)
qed (auto simp: push_loop.simps(4))

lemma cut_loses_nothing:
  assumes "fst (push new_decoder wire) = Inr \<lparr>out = body, is_done = True\<rparr>"
  shows "cut_loses_nothing wire body pos"
proof -
  obtain d where whole: "push new_decoder (take pos wire @ drop pos wire) = (Inr \<lparr>out = body, is_done = True\<rparr>, d)"
    using assms by (cases "push new_decoder wire") simp
  obtain x d' where first: "push new_decoder (take pos wire) = (x, d')" by fastforce
  note more = push_more [of new_decoder "take pos wire" "drop pos wire", unfolded first whole]
  show ?thesis
  proof (cases x)
    case (Inl e)
    with more show ?thesis by simp
  next
    case (Inr r)
    then have o: "observed (push new_decoder (take pos wire @ drop pos wire)) =
        observed (map_prod (add_out (out r)) id (push d' (drop pos wire)))"
      using push_resume first by blast
    obtain y d2 where second: "push d' (drop pos wire) = (y, d2)" by fastforce
    have "Inr \<lparr>out = body, is_done = True\<rparr> = add_out (out r) y"
      using o unfolding whole second by (simp add: observed_def)
    then obtain r2 where y: "y = Inr r2" "\<lparr>out = body, is_done = True\<rparr> = r2\<lparr>out := out r @ out r2\<rparr>"
      by (cases y) auto
    then have r2: "y = Inr r2" "body = out r @ out r2" "is_done r2"
      by (cases r2; simp)+
    have "mode d' = Done" if "is_done r"
      using that push_loop_is_done first Inr by (fastforce simp: push_def)
    then have "is_done r \<Longrightarrow> out r2 = []"
      using second r2(1) by (auto simp: push_def push_loop.simps(4))
    then show ?thesis
      using first second Inr r2 by (auto simp: cut_loses_nothing_def)
  qed
qed

lemma arbitrary_read_boundaries_lose_nothing: arbitrary_read_boundaries_lose_nothing
proof -
  have "fst (push new_decoder three_events) = Inr \<lparr>out = three_bodies, is_done = True\<rparr>"
    using one_push_emits_every_chunk by (simp add: one_push_emits_every_chunk_def)
  moreover have "done_early three_events 49" "49 \<in> set [1..<length three_events]"
    by (simp_all add: done_early_def three_events_def chunk_eval)
  ultimately show ?thesis
    unfolding arbitrary_read_boundaries_lose_nothing_def list_ex_iff list_all_iff
    using cut_loses_nothing by blast
qed

definition last_chunk_size_line_alone_ends_the_body :: bool where
  "last_chunk_size_line_alone_ends_the_body \<longleftrightarrow>
     (case push new_decoder (asc ''a'' @ crlf @ asc ''data: one'' @ [10] @ crlf @ asc ''0'' @ crlf) of
        (Inr r, d) \<Rightarrow> out r = asc ''data: one'' @ [10] \<and> is_done r \<and>
          (case fst (push d crlf) of Inr r2 \<Rightarrow> out r2 = [] | Inl _ \<Rightarrow> False)
      | (Inl _, _) \<Rightarrow> False)"

lemma last_chunk_size_line_alone_ends_the_body: last_chunk_size_line_alone_ends_the_body
  by (simp add: last_chunk_size_line_alone_ends_the_body_def chunk_eval)

definition a_lone_zero_digit_does_not_end_the_body :: bool where
  "a_lone_zero_digit_does_not_end_the_body \<longleftrightarrow>
     (case push new_decoder (asc ''a'' @ crlf @ asc ''data: one'' @ [10] @ crlf @ asc ''0'') of
        (Inr r, d) \<Rightarrow> out r = asc ''data: one'' @ [10] \<and> \<not> is_done r \<and>
          (case fst (push d (crlf @ crlf)) of Inr r2 \<Rightarrow> is_done r2 \<and> out r2 = [] | Inl _ \<Rightarrow> False)
      | (Inl _, _) \<Rightarrow> False)"

lemma a_lone_zero_digit_does_not_end_the_body: a_lone_zero_digit_does_not_end_the_body
  by (simp add: a_lone_zero_digit_does_not_end_the_body_def chunk_eval)

definition one_push_decodes_every_chunk_in_the_buffer :: bool where
  "one_push_decodes_every_chunk_in_the_buffer \<longleftrightarrow>
     (case fst (push new_decoder three_events) of Inr r \<Rightarrow> out r = three_bodies \<and> is_done r | Inl _ \<Rightarrow> False)"

lemma one_push_decodes_every_chunk_in_the_buffer: one_push_decodes_every_chunk_in_the_buffer
  using one_push_emits_every_chunk
  by (simp add: one_push_decodes_every_chunk_in_the_buffer_def one_push_emits_every_chunk_def)

definition byte_at_a_time_agrees_with_one_big_push :: bool where
  "byte_at_a_time_agrees_with_one_big_push \<longleftrightarrow>
     (case (fst (push new_decoder three_events), decode_pieces (map (\<lambda>b. [b]) three_events)) of
        (Inr whole, Some (acc, fin)) \<Rightarrow> acc = out whole \<and> fin
      | _ \<Rightarrow> False)"

lemma byte_at_a_time_agrees_with_one_big_push: byte_at_a_time_agrees_with_one_big_push
  using one_push_emits_every_chunk
  by (simp add: byte_at_a_time_agrees_with_one_big_push_def one_push_emits_every_chunk_def)
    (simp add: decode_pieces_def three_events_def three_bodies_def chunk_eval)

definition one_well_formed_chunk_is_not_end_of_body :: bool where
  "one_well_formed_chunk_is_not_end_of_body \<longleftrightarrow>
     (case fst (push new_decoder (asc ''B'' @ crlf @ asc ''data: ev00'' @ [10] @ crlf)) of
        Inr r \<Rightarrow> out r = asc ''data: ev00'' @ [10] \<and> \<not> is_done r | Inl _ \<Rightarrow> False)"

lemma one_well_formed_chunk_is_not_end_of_body: one_well_formed_chunk_is_not_end_of_body
  by (simp add: one_well_formed_chunk_is_not_end_of_body_def chunk_eval)

end
