(* ===== verification/Tests_Heads.thy ===== *)
theory Tests_Heads
  imports Tests_Wire
begin

text \<open>
  The unit tests on heads in \<open>hub.rs\<close>, \<open>chunked.rs\<close> and \<open>tunnel.rs\<close>. \<open>httparse\<close> is
  \<open>line_parser\<close>, which reads the status lines and fields these tests contain.
\<close>

section \<open>Heads\<close>

text \<open>The fields of a response head with a three-digit status, as \<open>httparse\<close> splits them.\<close>

definition field_of_line :: "bytes \<Rightarrow> (bytes \<times> bytes) option" where
  "field_of_line line =
     (case position 58 line of
        None \<Rightarrow> None
      | Some i \<Rightarrow> Some (to_ascii_lowercase (take i line), trim_ascii (drop (i + 1) line)))"

definition head_lines :: "bytes \<Rightarrow> bytes list" where
  "head_lines block = map (\<lambda>x. snd (strip_lf x)) (enumerate 0 (split_on 13 block))"

definition status_digits :: "bytes \<Rightarrow> nat option" where
  "status_digits bs =
     (case map (\<lambda>b. to_digit 10 (unat b)) bs of
        [Some a, Some b, Some c] \<Rightarrow> Some (a * 100 + b * 10 + c)
      | _ \<Rightarrow> None)"

definition line_parser :: "(bytes \<times> bytes) list head_parser" where
  "line_parser =
     \<lparr>hp_parse = \<lambda>bs.
        (case find_sub crlf2 bs of
           None \<Rightarrow> Some (Partial, None, [])
         | Some e \<Rightarrow>
             let lines = head_lines (take e bs) in
             Some (Complete (e + 4), status_digits (take 3 (drop 9 (hd lines))), List.map_filter field_of_line (tl lines))),
      hp_build = \<lambda>c hdrs. Some \<lparr>rs_status = c, rs_headers = fold (\<lambda>(k, v) h. hm_insert list_headers h k v) hdrs []\<rparr>\<rparr>"

lemmas head_eval = parse_head_def line_parser_def crlf2_def crlf_def head_lines_def strip_lf_def status_digits_def
  field_of_line_def to_digit_def list_headers_def to_ascii_lowercase_def lower_def trim_ascii_def trim_by_def
  is_whitespace_def MAX_PENDING_HEAD_def List.map_filter_def

definition sse_head :: bytes where
  "sse_head = asc ''HTTP/1.1 200 OK'' @ crlf @ asc ''content-type: text/event-stream'' @ crlf @
     asc ''transfer-encoding: chunked'' @ crlf @ crlf"

definition first_event :: bytes where
  "first_event = asc ''a'' @ crlf @ asc ''data: one'' @ [10] @ crlf"

text \<open>What the parser makes of that head, whatever follows.\<close>

lemma parse_sse_head:
  "parse_head line_parser (sse_head @ body) =
     Some (\<lparr>rs_status = 200, rs_headers = [(asc ''content-type'', asc ''text/event-stream''),
       (asc ''transfer-encoding'', asc ''chunked'')]\<rparr>, body)"
  by (simp add: sse_head_def head_eval)

lemma sse_is_chunked:
  "is_chunked list_headers [(asc ''content-type'', asc ''text/event-stream''), (asc ''transfer-encoding'', asc ''chunked'')]"
  by (simp add: is_chunked_def eq_ignore_case_def header_eval)

lemma first_event_decodes:
  "fst (push new_decoder first_event) = Inr \<lparr>out = asc ''data: one'' @ [10], is_done = False\<rparr>"
  by (simp add: first_event_def chunk_eval)

definition the_live_first_read_is_recognised_as_chunked :: bool where
  "the_live_first_read_is_recognised_as_chunked \<longleftrightarrow>
     (let live = sse_head @ first_event in
      case (find_header_end live, parse_head line_parser live) of
        (Some e, Some (head, body)) \<Rightarrow>
          rs_status head = 200 \<and> is_chunked list_headers (rs_headers head) \<and> body = drop e live \<and> body = first_event
      | _ \<Rightarrow> False)"

lemma the_live_first_read_is_recognised_as_chunked: the_live_first_read_is_recognised_as_chunked
proof -
  have "find_header_end (sse_head @ first_event) = Some (length sse_head)"
    by (simp add: find_header_end_def sse_head_def crlf2_def crlf_def)
  then show ?thesis
    using parse_sse_head [of first_event] sse_is_chunked
    by (simp add: the_live_first_read_is_recognised_as_chunked_def)
qed

definition dechunking_the_live_first_read :: bool where
  "dechunking_the_live_first_read \<longleftrightarrow>
     (case parse_head line_parser (sse_head @ first_event) of
        None \<Rightarrow> False
      | Some (_, body) \<Rightarrow>
          (case fst (push new_decoder body) of
             Inr r \<Rightarrow> out r = asc ''data: one'' @ [10] \<and> \<not> is_done r | Inl _ \<Rightarrow> False))"

lemma dechunking_the_live_first_read: dechunking_the_live_first_read
  using parse_sse_head [of first_event] first_event_decodes by (simp add: dechunking_the_live_first_read_def)

definition is_chunked_is_true_for_a_real_sse_head :: bool where
  "is_chunked_is_true_for_a_real_sse_head \<longleftrightarrow>
     (case parse_head line_parser sse_head of
        Some (res, rest) \<Rightarrow> rest = [] \<and> is_chunked list_headers (rs_headers res) | None \<Rightarrow> False)"

lemma is_chunked_is_true_for_a_real_sse_head: is_chunked_is_true_for_a_real_sse_head
  using parse_sse_head [of "[]"] sse_is_chunked by (simp add: is_chunked_is_true_for_a_real_sse_head_def)

definition coalesced_head_plus_first_event_dechunks :: bool where
  "coalesced_head_plus_first_event_dechunks \<longleftrightarrow>
     (case parse_head line_parser (sse_head @ first_event) of
        None \<Rightarrow> False
      | Some (res, rest) \<Rightarrow>
          is_chunked list_headers (rs_headers res) \<and> rest = first_event \<and>
          (case fst (push new_decoder rest) of
             Inr r \<Rightarrow> out r = asc ''data: one'' @ [10] \<and> \<not> is_done r | Inl _ \<Rightarrow> False))"

lemma coalesced_head_plus_first_event_dechunks: coalesced_head_plus_first_event_dechunks
  using parse_sse_head [of first_event] sse_is_chunked first_event_decodes
  by (simp add: coalesced_head_plus_first_event_dechunks_def)

definition rest_is_the_body_after_the_head :: bool where
  "rest_is_the_body_after_the_head \<longleftrightarrow>
     (case parse_head line_parser (sse_head @ first_event) of
        Some (res, rest) \<Rightarrow> rs_status res = 200 \<and> rest = first_event | None \<Rightarrow> False)"

lemma rest_is_the_body_after_the_head: rest_is_the_body_after_the_head
  using parse_sse_head [of first_event] by (simp add: rest_is_the_body_after_the_head_def)

definition lone_head_has_empty_rest :: bool where
  "lone_head_has_empty_rest \<longleftrightarrow>
     (case parse_head line_parser (asc ''HTTP/1.1 200 OK'' @ crlf @ asc ''content-type: text/event-stream'' @ crlf @ crlf) of
        Some (_, rest) \<Rightarrow> rest = [] | None \<Rightarrow> False)"

lemma lone_head_has_empty_rest: lone_head_has_empty_rest
  by (simp add: lone_head_has_empty_rest_def head_eval)

definition raw_parser_preserves_the_body :: bool where
  "raw_parser_preserves_the_body \<longleftrightarrow>
     (let body = first_event @ asc ''0'' @ crlf @ crlf in
      case parse_head line_parser (sse_head @ body) of
        None \<Rightarrow> False
      | Some (res, rest) \<Rightarrow>
          rest = body \<and>
          (case fst (push new_decoder rest) of Inr r \<Rightarrow> out r = asc ''data: one'' @ [10] | Inl _ \<Rightarrow> False) \<and>
          is_chunked list_headers (rs_headers res))"

lemma raw_parser_preserves_the_body: raw_parser_preserves_the_body
proof -
  have "fst (push new_decoder (first_event @ asc ''0'' @ crlf @ crlf)) =
      Inr \<lparr>out = asc ''data: one'' @ [10], is_done = True\<rparr>"
    by (simp add: first_event_def chunk_eval)
  then show ?thesis
    using parse_sse_head [of "first_event @ asc ''0'' @ crlf @ crlf"] sse_is_chunked
    by (simp add: raw_parser_preserves_the_body_def)
qed

section \<open>Rewritten heads\<close>

definition has :: "bytes \<Rightarrow> string \<Rightarrow> bool" where
  "has head needle \<longleftrightarrow> find_sub (asc needle) head \<noteq> None"

definition forwarded_request_removes_connection_named_headers :: bool where
  "forwarded_request_removes_connection_named_headers \<longleftrightarrow>
     (let headers = ins ''connection'' (asc ''x-local'') (ins ''x-local'' (asc ''private'')
            (ins ''x-request-id'' (asc ''trace-123'') []));
          head = encode_request_head list_headers (asc ''GET'') (asc ''/'') headers
      in \<not> has head ''x-local'' \<and> find_sub (asc ''x-request-id: trace-123'' @ crlf) head \<noteq> None)"

lemma forwarded_request_removes_connection_named_headers: forwarded_request_removes_connection_named_headers
proof -
  let ?head = "asc ''GET / HTTP/1.1'' @ crlf @ asc ''x-request-id: trace-123'' @ crlf @ crlf"
  have "encode_request_head list_headers (asc ''GET'') (asc ''/'') (ins ''connection'' (asc ''x-local'')
      (ins ''x-local'' (asc ''private'') (ins ''x-request-id'' (asc ''trace-123'') []))) = ?head"
    by (simp add: encode_request_head_def head_bytes_def field_line_def header_eval crlf_def)
  moreover have "\<not> has ?head ''x-local''" "find_sub (asc ''x-request-id: trace-123'' @ crlf) ?head \<noteq> None"
    by (simp_all add: has_def crlf_def)
  ultimately show ?thesis
    unfolding forwarded_request_removes_connection_named_headers_def Let_def by (simp only: simp_thms)
qed

lemma te_lines:
  "is_te_chunked (asc ''transfer-encoding: chunked'')" "\<not> is_te_chunked (asc ''HTTP/1.1 200 OK'')"
  "\<not> is_te_chunked (asc ''content-type: text/event-stream'')" "\<not> is_te_chunked (asc ''content-length: 5'')"
  "\<not> is_te_chunked (asc ''transfer-encoding: gzip, chunked'')"
  by (simp_all add: is_te_chunked_def utf8_decode_ascii ascii_def trim_def trim_by_def is_whitespace_def
    eq_ignore_case_cp_def cps_def lower_cp_def)

lemmas reframe_eval = reframe_head_for_tunnel_def find_header_end_def reframed_line_def crlf2_def crlf_def strip_lf_def
  te_lines [simplified]

definition drops_the_framing_header_we_consumed :: bool where
  "drops_the_framing_header_we_consumed \<longleftrightarrow>
     (case reframe_head_for_tunnel sse_head of
        None \<Rightarrow> False
      | Some r \<Rightarrow>
          \<not> has (to_ascii_lowercase r) ''transfer-encoding'' \<and> has r ''content-type: text/event-stream'' \<and>
          drop (length r - 4) r = crlf2 \<and>
          (case parse_head line_parser r of
             None \<Rightarrow> False
           | Some (res, rest) \<Rightarrow>
               rs_status res = 200 \<and> rest = [] \<and> \<not> is_chunked list_headers (rs_headers res)))"

lemma drops_the_framing_header_we_consumed: drops_the_framing_header_we_consumed
proof -
  let ?r = "asc ''HTTP/1.1 200 OK'' @ crlf @ asc ''content-type: text/event-stream'' @ crlf @ crlf"
  have "reframe_head_for_tunnel sse_head = Some ?r"
    by (simp add: sse_head_def reframe_eval)
  moreover have "\<not> has (to_ascii_lowercase ?r) ''transfer-encoding''" "has ?r ''content-type: text/event-stream''"
    by (simp_all add: has_def crlf_def to_ascii_lowercase_def lower_def)
  moreover have "drop (length ?r - 4) ?r = crlf2" by (simp add: crlf_def crlf2_def)
  moreover have "parse_head line_parser ?r =
      Some (\<lparr>rs_status = 200, rs_headers = [(asc ''content-type'', asc ''text/event-stream'')]\<rparr>, [])"
    by (simp add: head_eval)
  moreover have "\<not> is_chunked list_headers [(asc ''content-type'', asc ''text/event-stream'')]"
    by (simp add: is_chunked_def eq_ignore_case_def header_eval)
  ultimately show ?thesis by (simp add: drops_the_framing_header_we_consumed_def del: append.simps asc_simps)
qed

definition leaves_a_head_it_does_not_understand_alone :: bool where
  "leaves_a_head_it_does_not_understand_alone \<longleftrightarrow>
     (let head = asc ''HTTP/1.1 200 OK'' @ crlf @ asc ''transfer-encoding: gzip, chunked'' @ crlf @ crlf
      in reframe_head_for_tunnel head = Some head)"

lemma leaves_a_head_it_does_not_understand_alone: leaves_a_head_it_does_not_understand_alone
  by (simp add: leaves_a_head_it_does_not_understand_alone_def reframe_eval)

definition a_head_without_the_header_is_byte_identical :: bool where
  "a_head_without_the_header_is_byte_identical \<longleftrightarrow>
     (let head = asc ''HTTP/1.1 200 OK'' @ crlf @ asc ''content-length: 5'' @ crlf @ crlf
      in reframe_head_for_tunnel head = Some head)"

lemma a_head_without_the_header_is_byte_identical: a_head_without_the_header_is_byte_identical
  by (simp add: a_head_without_the_header_is_byte_identical_def reframe_eval)

definition an_incomplete_head_is_passed_through_unchanged :: bool where
  "an_incomplete_head_is_passed_through_unchanged \<longleftrightarrow>
     (let head = asc ''HTTP/1.1 200 OK'' @ crlf @ asc ''content-type: text''
      in reframe_head_for_tunnel head = Some head)"

lemma an_incomplete_head_is_passed_through_unchanged: an_incomplete_head_is_passed_through_unchanged
  by (simp add: an_incomplete_head_is_passed_through_unchanged_def reframe_eval)

end
