(* ===== verification/Tests_Hub.thy ===== *)
theory Tests_Hub
  imports Frontend Tests_Heads
begin

text \<open>
  The unit tests of the hub's registry and routing (\<open>mod tests\<close> of \<open>hub.rs\<close>) on
  the model, each a closed statement named as the test is. The digest is a parameter: a test
  asks of it only that the credentials it uses have different digests. The clocks stand still
  during a test, at the times named here; a full queue is a \<open>reserve\<close> that answers \<open>Full\<close>. Not
  here: the tests that need a real socket, a runtime or SHA-256 itself.
\<close>

section \<open>What the tests share\<close>

type_synonym hub_registry = "(bytes \<times> bytes) list registry"

definition wall_time :: nat where "wall_time = secs 1000"

definition test_record :: "(bytes \<Rightarrow> bytes) \<Rightarrow> string \<Rightarrow> string \<Rightarrow> 64 word \<Rightarrow> admin_record" where
  "test_record sha tid credential expires_at =
     \<lparr>ar_id = asc tid, ar_label = asc ''test'', ar_credential_hash = digest sha (asc credential),
      ar_active = True, ar_expires_at = expires_at\<rparr>"

definition test_registry :: "hub_registry" where
  "test_registry = registry_new DEFAULT_LEASE"

definition reg :: "(bytes \<Rightarrow> bytes) \<Rightarrow> string \<Rightarrow> string \<Rightarrow> hub_registry \<Rightarrow> hub_registry" where
  "reg sha tid credential r = snd (register_tether sha (asc tid) (asc ''test'') (asc credential) r)"

definition att :: "(bytes \<Rightarrow> bytes) \<Rightarrow> string \<Rightarrow> string \<Rightarrow> hub_registry \<Rightarrow> sref option \<times> hub_registry" where
  "att sha tid credential r = attach sha wall_time 0 (asc tid) (asc credential) r"

definition auth :: "(bytes \<Rightarrow> bytes) \<Rightarrow> string \<Rightarrow> hub_registry \<Rightarrow> auth_lease option" where
  "auth sha credential r = authorize sha wall_time (asc credential) r"

text \<open>The digests of a test's credentials are different.\<close>

definition apart :: "(bytes \<Rightarrow> bytes) \<Rightarrow> string list \<Rightarrow> bool" where
  "apart sha cs \<longleftrightarrow> distinct (map (digest sha \<circ> asc) cs)"

lemmas registry_eval = wall_time_def test_record_def test_registry_def reg_def att_def auth_def apart_def
  registry_new_def register_tether_def attach_def authorize_def revoke_def evict_def is_active_def
  replace_records_def clear_records_def replacement_of_def tether_of_record_def unchanged_def credentials_of_def
  remaining_def DURATION_MAX_def DEFAULT_LEASE_def secs_def cancel_session_def close_session_def
  upd_session_def upd_stream_def session_new_def Let_def

section \<open>Snapshots and expiry\<close>

definition durable_snapshot_changes_cancel_only_affected_sessions :: "(bytes \<Rightarrow> bytes) \<Rightarrow> bool" where
  "durable_snapshot_changes_cancel_only_affected_sessions sha \<longleftrightarrow>
     (let both = [test_record sha ''a'' ''first'' 1060, test_record sha ''b'' ''other'' 1060];
          r = replace_records wall_time both test_registry;
          (a, r) = att sha ''a'' ''first'' r;
          (b, r) = att sha ''b'' ''other'' r;
          same = replace_records wall_time both r;
          rotated = replace_records wall_time
            [test_record sha ''a'' ''rotated'' 1060, test_record sha ''b'' ''other'' 1060] same;
          cleared = clear_records wall_time rotated
      in a = Some 0 \<and> b = Some 1 \<and>
         \<not> ls_aborted (rg_sessions same ! 0) \<and> \<not> ls_aborted (rg_sessions same ! 1) \<and>
         ls_aborted (rg_sessions rotated ! 0) \<and> \<not> ls_aborted (rg_sessions rotated ! 1) \<and>
         auth sha ''first'' rotated = None \<and> auth sha ''rotated'' rotated \<noteq> None \<and>
         ls_aborted (rg_sessions cleared ! 1) \<and> auth sha ''other'' cleared = None)"

lemma durable_snapshot_changes_cancel_only_affected_sessions:
  assumes "apart sha [''first'', ''other'', ''rotated'']"
  shows "durable_snapshot_changes_cancel_only_affected_sessions sha"
proof -
  let ?hash = "\<lambda>c. digest sha (asc c)"
  let ?t = "\<lambda>tid c. \<lparr>t_id = asc tid, t_label = asc ''test'', t_credential_hash = ?hash c, t_active = True,
    t_expires_at = Some 1060\<rparr>"
  let ?both = "\<lambda>c. [test_record sha ''a'' c 1060, test_record sha ''b'' ''other'' 1060]"
  let ?r = "\<lambda>c live gen sessions. \<lparr>rg_by_credential = [?hash c \<mapsto> asc ''a'', ?hash ''other'' \<mapsto> asc ''b''],
    rg_by_id = [(asc ''a'', ?t ''a'' c), (asc ''b'', ?t ''b'' ''other'')], rg_live = live, rg_next_generation = gen,
    rg_lease = DEFAULT_LEASE, rg_sessions = sessions, rg_streams = []\<rparr> :: hub_registry"
  let ?cancelled = "(session_new 1 0)\<lparr>ls_closed := True, ls_aborted := True\<rparr>"
  have d: "?hash ''first'' \<noteq> ?hash ''other''" "?hash ''first'' \<noteq> ?hash ''rotated''" "?hash ''other'' \<noteq> ?hash ''rotated''"
    "?hash ''other'' \<noteq> ?hash ''first''" "?hash ''rotated'' \<noteq> ?hash ''first''" "?hash ''rotated'' \<noteq> ?hash ''other''"
    "asc ''a'' \<noteq> asc ''b''" "asc ''b'' \<noteq> asc ''a''"
    using assms by (auto simp: apart_def simp del: asc_simps) simp_all
  note eval = registry_eval d
  have start: "replace_records wall_time (?both ''first'') test_registry = ?r ''first'' [] 1 []"
    by (simp add: eval del: asc_simps)
  have a: "att sha ''a'' ''first'' (?r ''first'' [] 1 []) = (Some 0, ?r ''first'' [(asc ''a'', 0)] 2 [session_new 1 0])"
    by (simp add: eval del: asc_simps)
  let ?live = "[(asc ''a'', 0), (asc ''b'', 1)]"
  have b: "att sha ''b'' ''other'' (?r ''first'' [(asc ''a'', 0)] 2 [session_new 1 0]) =
      (Some 1, ?r ''first'' ?live 3 [session_new 1 0, session_new 2 0])"
    by (simp add: eval del: asc_simps)
  have same: "replace_records wall_time (?both ''first'') (?r ''first'' ?live 3 [session_new 1 0, session_new 2 0]) =
      ?r ''first'' ?live 3 [session_new 1 0, session_new 2 0]"
    by (simp add: eval del: asc_simps)
  have rotated: "replace_records wall_time (?both ''rotated'') (?r ''first'' ?live 3 [session_new 1 0, session_new 2 0]) =
      ?r ''rotated'' [(asc ''b'', 1)] 3 [?cancelled, session_new 2 0]"
    by (simp add: eval del: asc_simps)
  show ?thesis
    unfolding durable_snapshot_changes_cancel_only_affected_sessions_def Let_def start a b prod.case same rotated
    by (simp add: eval del: asc_simps)
qed

definition credential_expiry_bounds_authorization_and_prevents_attachment :: "(bytes \<Rightarrow> bytes) \<Rightarrow> bool" where
  "credential_expiry_bounds_authorization_and_prevents_attachment sha \<longleftrightarrow>
     (let r = replace_records wall_time [test_record sha ''a'' ''first'' 1010] test_registry;
          r' = replace_records wall_time [test_record sha ''a'' ''first'' 1000] r
      in (case auth sha ''first'' r of
            Some lease \<Rightarrow> l_ttl lease \<le> secs 10 \<and> secs 8 < l_ttl lease
          | None \<Rightarrow> False) \<and>
         auth sha ''first'' r' = None \<and> \<not> is_active wall_time (asc ''a'') r' \<and>
         fst (att sha ''a'' ''first'' r') = None)"

lemma credential_expiry_bounds_authorization_and_prevents_attachment:
  "credential_expiry_bounds_authorization_and_prevents_attachment sha"
  by (simp add: credential_expiry_bounds_authorization_and_prevents_attachment_def registry_eval)

section \<open>Authorization and revocation\<close>

definition authorize_takes_only_a_credential :: "(bytes \<Rightarrow> bytes) \<Rightarrow> bool" where
  "authorize_takes_only_a_credential sha \<longleftrightarrow>
     (let r = reg sha ''r1'' ''secret-1'' test_registry
      in auth sha ''secret-1'' r = Some \<lparr>l_tether_id = asc ''r1'', l_ttl = DEFAULT_LEASE\<rparr> \<and>
         auth sha ''nope'' r = None)"

lemma authorize_takes_only_a_credential:
  "apart sha [''secret-1'', ''nope''] \<Longrightarrow> authorize_takes_only_a_credential sha"
  by (simp add: authorize_takes_only_a_credential_def registry_eval)

definition digest_is_stable_and_distinguishing :: "(bytes \<Rightarrow> bytes) \<Rightarrow> bool" where
  "digest_is_stable_and_distinguishing sha \<longleftrightarrow>
     digest sha (asc ''token-a'') = digest sha (asc ''token-a'') \<and>
     digest sha (asc ''token-a'') \<noteq> digest sha (asc ''token-b'') \<and> length (digest sha (asc ''token-a'')) = 64"

lemma digest_is_stable_and_distinguishing:
  "apart sha [''token-a'', ''token-b''] \<Longrightarrow> length (sha (asc ''token-a'')) = 32 \<Longrightarrow> digest_is_stable_and_distinguishing sha"
  using digest_format [of sha "asc ''token-a''"]
  by (simp add: digest_is_stable_and_distinguishing_def apart_def)

definition revoked_credential_stops_working_immediately :: "(bytes \<Rightarrow> bytes) \<Rightarrow> bool" where
  "revoked_credential_stops_working_immediately sha \<longleftrightarrow>
     (let r = reg sha ''r1'' ''s1'' test_registry; (changed, r') = revoke (asc ''r1'') r
      in auth sha ''s1'' r \<noteq> None \<and> changed \<and> auth sha ''s1'' r' = None)"

lemma revoked_credential_stops_working_immediately: "revoked_credential_stops_working_immediately sha"
  by (simp add: revoked_credential_stops_working_immediately_def registry_eval)

definition revoke_reports_whether_it_changed_anything :: "(bytes \<Rightarrow> bytes) \<Rightarrow> bool" where
  "revoke_reports_whether_it_changed_anything sha \<longleftrightarrow>
     (let (first, r1) = revoke (asc ''r1'') (reg sha ''r1'' ''s1'' test_registry);
          (second, r2) = revoke (asc ''r1'') r1;
          (third, r3) = revoke (asc ''r1'') r2
      in first \<and> \<not> second \<and> \<not> third \<and> auth sha ''s1'' r3 = None \<and>
         \<not> fst (revoke (asc ''never-registered'') r3))"

lemma revoke_reports_whether_it_changed_anything: "revoke_reports_whether_it_changed_anything sha"
  by (simp add: revoke_reports_whether_it_changed_anything_def registry_eval)

definition unknown_and_revoked_are_indistinguishable_to_the_client :: "(bytes \<Rightarrow> bytes) \<Rightarrow> bool" where
  "unknown_and_revoked_are_indistinguishable_to_the_client sha \<longleftrightarrow>
     (let r = snd (revoke (asc ''r1'') (reg sha ''r1'' ''s1'' test_registry))
      in auth sha ''s1'' r = None \<and> auth sha ''brand-new-token'' r = None)"

lemma unknown_and_revoked_are_indistinguishable_to_the_client:
  "unknown_and_revoked_are_indistinguishable_to_the_client sha"
  by (simp add: unknown_and_revoked_are_indistinguishable_to_the_client_def registry_eval)

definition status_reports_down_rather_than_unknown :: "(bytes \<Rightarrow> bytes) \<Rightarrow> bool" where
  "status_reports_down_rather_than_unknown sha \<longleftrightarrow>
     map (\<lambda>(_, _, st). st) (status wall_time 0 (reg sha ''r1'' ''s1'' test_registry)) = [Down]"

lemma status_reports_down_rather_than_unknown: "status_reports_down_rather_than_unknown sha"
  by (simp add: status_reports_down_rather_than_unknown_def status_def tether_status_def registry_eval)

definition duplicate_registration_of_same_credential_does_not_shadow :: "(bytes \<Rightarrow> bytes) \<Rightarrow> bool" where
  "duplicate_registration_of_same_credential_does_not_shadow sha \<longleftrightarrow>
     (let r = reg sha ''r2'' ''shared'' (reg sha ''r1'' ''shared'' test_registry);
          r' = snd (revoke (asc ''r2'') r)
      in map_option l_tether_id (auth sha ''shared'' r) = Some (asc ''r2'') \<and>
         auth sha ''shared'' r' = None \<and> fst (revoke (asc ''r1'') r'))"

lemma duplicate_registration_of_same_credential_does_not_shadow:
  "duplicate_registration_of_same_credential_does_not_shadow sha"
  by (simp add: duplicate_registration_of_same_credential_does_not_shadow_def registry_eval)

definition lease_is_never_zero :: "(bytes \<Rightarrow> bytes) \<Rightarrow> bool" where
  "lease_is_never_zero sha \<longleftrightarrow>
     (case auth sha ''s1'' (reg sha ''r1'' ''s1'' (registry_new 0)) of
        Some lease \<Rightarrow> secs 5 \<le> l_ttl lease | None \<Rightarrow> False)"

lemma lease_is_never_zero: "lease_is_never_zero sha"
  by (simp add: lease_is_never_zero_def registry_eval)

definition replacing_registration_invalidates_the_previous_credential :: "(bytes \<Rightarrow> bytes) \<Rightarrow> bool" where
  "replacing_registration_invalidates_the_previous_credential sha \<longleftrightarrow>
     (let r = reg sha ''r1'' ''new-secret'' (reg sha ''r1'' ''old-secret'' test_registry)
      in auth sha ''old-secret'' r = None \<and>
         map_option l_tether_id (auth sha ''new-secret'' r) = Some (asc ''r1''))"

lemma replacing_registration_invalidates_the_previous_credential:
  "apart sha [''old-secret'', ''new-secret''] \<Longrightarrow> replacing_registration_invalidates_the_previous_credential sha"
  by (simp add: replacing_registration_invalidates_the_previous_credential_def registry_eval)

definition a_revoked_registration_cannot_attach_after_authorization :: "(bytes \<Rightarrow> bytes) \<Rightarrow> bool" where
  "a_revoked_registration_cannot_attach_after_authorization sha \<longleftrightarrow>
     (let r = reg sha ''r1'' ''secret'' test_registry; r' = snd (revoke (asc ''r1'') r)
      in auth sha ''secret'' r \<noteq> None \<and> fst (att sha ''r1'' ''secret'' r') = None \<and>
         map (\<lambda>(_, _, st). st) (status wall_time 0 (snd (att sha ''r1'' ''secret'' r'))) = [Down])"

lemma a_revoked_registration_cannot_attach_after_authorization:
  "a_revoked_registration_cannot_attach_after_authorization sha"
  by (simp add: a_revoked_registration_cannot_attach_after_authorization_def status_def tether_status_def registry_eval)

definition replacing_registration_cancels_the_previous_session :: "(bytes \<Rightarrow> bytes) \<Rightarrow> bool" where
  "replacing_registration_cancels_the_previous_session sha \<longleftrightarrow>
     (let (s, r) = att sha ''r1'' ''old-secret'' (reg sha ''r1'' ''old-secret'' test_registry);
          r' = reg sha ''r1'' ''new-secret'' r
      in s = Some 0 \<and> ls_aborted (rg_sessions r' ! 0) \<and>
         map (\<lambda>(_, _, st). st) (status wall_time 0 r') = [Down])"

lemma replacing_registration_cancels_the_previous_session:
  "apart sha [''old-secret'', ''new-secret''] \<Longrightarrow> replacing_registration_cancels_the_previous_session sha"
  by (simp add: replacing_registration_cancels_the_previous_session_def status_def tether_status_def registry_eval)

section \<open>Routing\<close>

text \<open>\<open>session.admit(id, Arc::new(StreamState::new(..)))\<close>\<close>

definition test_stream :: "(bytes \<times> bytes) list stream_state" where
  "test_stream = stream_state_new (asc ''GET'') (asc ''/'') []"

definition admit_into :: "sref \<Rightarrow> hub_registry \<Rightarrow> nat \<Rightarrow> (forward_error + unit) \<times> hub_registry" where
  "admit_into s r n =
     (case admit (of_nat n) (length (rg_streams r)) (rg_sessions r ! s) of
        Inl e \<Rightarrow> (Inl e, r)
      | Inr ls \<Rightarrow> (Inr (), (upd_session s (\<lambda>_. ls) r)\<lparr>rg_streams := rg_streams r @ [test_stream]\<rparr>))"

text \<open>A command queue of one place: full while a reservation or a frame holds it.\<close>

definition taken :: "sref list \<Rightarrow> sref \<Rightarrow> send_result" where
  "taken held s = (if s \<in> set held then Full else Sent)"

definition route :: "sref list \<Rightarrow> hub_registry \<Rightarrow> forward_error + bytes \<times> sref" where
  "route held r = reserve_route wall_time 0 (\<lambda>_. False) (taken held) r"

definition two_tethers :: "(bytes \<Rightarrow> bytes) \<Rightarrow> hub_registry" where
  "two_tethers sha = snd (att sha ''b'' ''b-token'' (snd (att sha ''a'' ''a-token''
     (reg sha ''a'' ''a-token'' (reg sha ''b'' ''b-token'' test_registry)))))"

lemmas route_eval = route_def taken_def reserve_route_def candidates_def candidate_def List.map_filter_def
  insort_key_def reserve_stream_start_def MAX_CONCURRENT_STREAMS_def TETHER_SILENCE_def
  admit_into_def admit_def test_stream_def

definition routing_is_stable_and_skips_full_or_less_available_sessions :: "(bytes \<Rightarrow> bytes) \<Rightarrow> bool" where
  "routing_is_stable_and_skips_full_or_less_available_sessions sha \<longleftrightarrow>
     (let r = two_tethers sha;
          loaded = snd (admit_into 0 r 1);
          gone = snd (revoke (asc ''b'') (snd (revoke (asc ''a'') loaded)))
      in route [] r = Inr (asc ''a'', 0) \<and> route [0] r = Inr (asc ''b'', 1) \<and>
         route [] loaded = Inr (asc ''b'', 1) \<and> route [1] loaded = Inr (asc ''a'', 0) \<and>
         route [0, 1] loaded = Inl TetherBusy \<and> route [0, 1] gone = Inl NoTether)"

lemma routing_is_stable_and_skips_full_or_less_available_sessions:
  "apart sha [''a-token'', ''b-token''] \<Longrightarrow> routing_is_stable_and_skips_full_or_less_available_sessions sha"
proof -
  assume a: "apart sha [''a-token'', ''b-token'']"
  let ?t = "\<lambda>tid c active. (asc tid, \<lparr>t_id = asc tid, t_label = asc ''test'', t_credential_hash = digest sha (asc c),
    t_active = active, t_expires_at = None\<rparr>)"
  let ?r = "\<lambda>active live sessions streams.
      \<lparr>rg_by_credential = [digest sha (asc ''b-token'') \<mapsto> asc ''b'', digest sha (asc ''a-token'') \<mapsto> asc ''a''],
       rg_by_id = [?t ''b'' ''b-token'' active, ?t ''a'' ''a-token'' active],
       rg_live = live, rg_next_generation = 3, rg_lease = DEFAULT_LEASE,
       rg_sessions = sessions, rg_streams = streams\<rparr> :: hub_registry"
  let ?live = "[(asc ''a'', 0), (asc ''b'', 1)]"
  let ?loaded = "?r True ?live [(session_new 1 0)\<lparr>ls_streams := [(1, 0)]\<rparr>, session_new 2 0] [test_stream]"
  have two: "two_tethers sha = ?r True ?live [session_new 1 0, session_new 2 0] []"
    using a by (simp add: two_tethers_def registry_eval)
  have loaded: "snd (admit_into 0 (?r True ?live [session_new 1 0, session_new 2 0] []) 1) = ?loaded"
    by (simp add: admit_into_def admit_def MAX_CONCURRENT_STREAMS_def session_new_def upd_session_def)
  have gone: "rg_live (snd (revoke (asc ''b'') (snd (revoke (asc ''a'') ?loaded)))) = []"
    by (simp add: revoke_def evict_def cancel_session_def close_session_def upd_session_def upd_stream_def session_new_def
        Let_def split_beta)
  have none: "rg_live r = [] \<Longrightarrow> route held r = Inl NoTether" for held r
    by (simp add: route_def reserve_route_def candidates_def List.map_filter_def)
  note eval = route_eval session_new_def wall_time_def remaining_def DURATION_MAX_def secs_def Let_def
  show ?thesis
    unfolding routing_is_stable_and_skips_full_or_less_available_sessions_def two Let_def loaded
    by (intro conjI none gone) (simp_all add: eval)
qed

text \<open>\<open>for id in 1..=MAX_CONCURRENT_STREAMS { a.admit(id, ..) }\<close>\<close>

definition fill :: "nat \<Rightarrow> hub_registry \<Rightarrow> hub_registry" where
  "fill n r = fold (\<lambda>i r. snd (admit_into 0 r i)) [1..<Suc n] r"

definition one_tether :: "(bytes \<Rightarrow> bytes) \<Rightarrow> hub_registry" where
  "one_tether sha = snd (att sha ''a'' ''token'' (reg sha ''a'' ''token'' test_registry))"

definition routing_excludes_expired_stale_and_stream_saturated_sessions :: "(bytes \<Rightarrow> bytes) \<Rightarrow> bool" where
  "routing_excludes_expired_stale_and_stream_saturated_sessions sha \<longleftrightarrow>
     (let r = fill MAX_CONCURRENT_STREAMS (one_tether sha);
          cleared = upd_session 0 (\<lambda>ls. ls\<lparr>ls_streams := []\<rparr>) r;
          expired = cleared\<lparr>rg_by_id := map (\<lambda>(tid, t). (tid, t\<lparr>t_expires_at := Some 1\<rparr>)) (rg_by_id cleared)\<rparr>
      in length (ls_streams (rg_sessions r ! 0)) = MAX_CONCURRENT_STREAMS \<and>
         route [] r = Inl TetherBusy \<and>
         reserve_route wall_time (TETHER_SILENCE + secs 1) (\<lambda>_. False) (taken []) cleared = Inl NoTether \<and>
         route [] expired = Inl NoTether)"

text \<open>The admissions of the loop all succeed, and touch nothing but the one session.\<close>

lemma fill_session:
  assumes "r0 = one_tether sha" "n \<le> 64"
  shows "\<exists>xs qs. length xs = n \<and> fst ` set xs \<subseteq> of_nat ` {1..n} \<and>
    fill n r0 = r0\<lparr>rg_sessions := [(session_new 1 0)\<lparr>ls_streams := xs\<rparr>], rg_streams := qs\<rparr>"
  using assms(2)
proof (induction n)
  case 0
  have "rg_sessions r0 = [session_new 1 0]" by (simp add: assms(1) one_tether_def registry_eval)
  then have "fill 0 r0 = r0\<lparr>rg_sessions := [(session_new 1 0)\<lparr>ls_streams := []\<rparr>], rg_streams := rg_streams r0\<rparr>"
    by (cases r0) (simp add: fill_def session_new_def)
  then show ?case by (intro exI [of _ "[]"] exI [of _ "rg_streams r0"]) simp
next
  case (Suc n)
  then obtain xs qs where ih: "length xs = n" "fst ` set xs \<subseteq> of_nat ` {1..n}"
    "fill n r0 = r0\<lparr>rg_sessions := [(session_new 1 0)\<lparr>ls_streams := xs\<rparr>], rg_streams := qs\<rparr>" by auto
  have fresh: "(of_nat (Suc n) :: stream_id) \<notin> fst ` set xs"
  proof
    assume "(of_nat (Suc n) :: stream_id) \<in> fst ` set xs"
    with ih(2) have "(of_nat (Suc n) :: stream_id) \<in> of_nat ` {1..n}" by (rule subsetD)
    then obtain k where k: "k \<in> {1..n}" "(of_nat (Suc n) :: stream_id) = of_nat k" by (rule imageE)
    then have "unat (of_nat (Suc n) :: stream_id) = unat (of_nat k :: stream_id)" by simp
    then have "Suc n mod 65536 = k mod 65536" by (simp only: unat_of_nat) simp
    with k(1) Suc.prems show False by simp
  qed
  have "fill (Suc n) r0 = snd (admit_into 0 (fill n r0) (Suc n))" by (simp add: fill_def)
  also have "\<dots> = r0\<lparr>rg_sessions := [(session_new 1 0)\<lparr>ls_streams := xs @ [(of_nat (Suc n), length qs)]\<rparr>],
      rg_streams := qs @ [test_stream]\<rparr>"
    unfolding ih(3) admit_into_def admit_def using ih(1) Suc.prems update_fresh [OF fresh]
    by (simp add: MAX_CONCURRENT_STREAMS_def upd_session_def session_new_def)
  finally have "fill (Suc n) r0 =
      r0\<lparr>rg_sessions := [(session_new 1 0)\<lparr>ls_streams := xs @ [(of_nat (Suc n), length qs)]\<rparr>],
        rg_streams := qs @ [test_stream]\<rparr>" .
  moreover have "fst ` set (xs @ [(of_nat (Suc n), length qs)]) \<subseteq> of_nat ` {1..Suc n}"
  proof -
    have "of_nat ` {1..n} \<subseteq> (of_nat ` {1..Suc n} :: stream_id set)" by (intro image_mono) auto
    moreover have "(of_nat (Suc n) :: stream_id) \<in> of_nat ` {1..Suc n}" by (rule imageI) simp
    ultimately show ?thesis using ih(2) by simp
  qed
  ultimately show ?case
    using ih(1) by (intro exI [of _ "xs @ [(of_nat (Suc n), length qs)]"] exI [of _ "qs @ [test_stream]"]) simp
qed

lemma routing_excludes_expired_stale_and_stream_saturated_sessions:
  "routing_excludes_expired_stale_and_stream_saturated_sessions sha"
proof -
  obtain xs qs where f: "length xs = MAX_CONCURRENT_STREAMS" "fill MAX_CONCURRENT_STREAMS (one_tether sha) =
      (one_tether sha)\<lparr>rg_sessions := [(session_new 1 0)\<lparr>ls_streams := xs\<rparr>], rg_streams := qs\<rparr>"
    using fill_session [of "one_tether sha" sha MAX_CONCURRENT_STREAMS] by (auto simp: MAX_CONCURRENT_STREAMS_def)
  moreover have "one_tether sha =
      \<lparr>rg_by_credential = [digest sha (asc ''token'') \<mapsto> asc ''a''],
       rg_by_id = [(asc ''a'', \<lparr>t_id = asc ''a'', t_label = asc ''test'', t_credential_hash = digest sha (asc ''token''),
                             t_active = True, t_expires_at = None\<rparr>)],
       rg_live = [(asc ''a'', 0)], rg_next_generation = 2, rg_lease = DEFAULT_LEASE,
       rg_sessions = [session_new 1 0], rg_streams = []\<rparr>"
    by (simp add: one_tether_def registry_eval)
  ultimately show ?thesis
    unfolding routing_excludes_expired_stale_and_stream_saturated_sessions_def f(2)
    by (simp add: route_def taken_def reserve_route_def candidates_def candidate_def List.map_filter_def insort_key_def
        reserve_stream_start_def MAX_CONCURRENT_STREAMS_def TETHER_SILENCE_def session_new_def upd_session_def
        wall_time_def remaining_def DURATION_MAX_def secs_def Let_def)
qed

section \<open>Sessions and streams\<close>

definition closed_sessions_reject_admission_and_fail_existing_streams :: "(bytes \<Rightarrow> bytes) \<Rightarrow> bool" where
  "closed_sessions_reject_admission_and_fail_existing_streams sha \<longleftrightarrow>
     (let (first, r) = admit_into 0 (one_tether sha) 1; r = close_session 0 r
      in first = Inr () \<and> ss_completed (rg_streams r ! 0) \<and>
         fst (admit_into 0 r 2) = Inl TetherGone \<and> ls_streams (rg_sessions r ! 0) = [])"

lemma closed_sessions_reject_admission_and_fail_existing_streams:
  "closed_sessions_reject_admission_and_fail_existing_streams sha"
  by (simp add: closed_sessions_reject_admission_and_fail_existing_streams_def one_tether_def route_eval registry_eval)

definition a_terminal_response_cancels_upload_even_if_the_body_is_retained :: bool where
  "a_terminal_response_cancels_upload_even_if_the_body_is_retained \<longleftrightarrow>
     (let st = stream_complete (install_upload 1 test_stream)
      in ss_aborted st = [1] \<and> ss_aborted (install_upload 2 st) = [1, 2])"

lemma a_terminal_response_cancels_upload_even_if_the_body_is_retained:
  a_terminal_response_cancels_upload_even_if_the_body_is_retained
  by (simp add: a_terminal_response_cancels_upload_even_if_the_body_is_retained_def test_stream_def
      stream_state_new_def stream_complete_def install_upload_def finisher_defs)

text \<open>The consumer polls \<open>i\<close> times before the chunk is queued and \<open>j\<close> times before the end.\<close>

definition drained :: "nat \<Rightarrow> nat \<Rightarrow> bool" where
  "drained i j \<longleftrightarrow>
     (case run_body fifo_api \<lparr>ff_items = [], ff_closed = False, ff_stalls = 0\<rparr>
        (replicate i EPoll @ [EPush (asc ''last'')] @ replicate j EPoll @ [EOutcome 1] @ replicate 2 EPoll) of
      (_, _, polls) \<Rightarrow> delivered polls = [asc ''last''] \<and> last polls = PollEnd)"

definition final_chunk_is_drained_when_completion_races_the_consumer :: bool where
  "final_chunk_is_drained_when_completion_races_the_consumer \<longleftrightarrow>
     list_all (\<lambda>i. list_all (drained i) [0..<4]) [0..<4]"

lemma final_chunk_is_drained_when_completion_races_the_consumer:
  final_chunk_is_drained_when_completion_races_the_consumer
  by (simp add: final_chunk_is_drained_when_completion_races_the_consumer_def upt_rec drained_def run_body_def
      delivered_def fifo_api_def fifo_poll_def numeral_eq_Suc List.map_filter_def)

definition completed_body_drains_after_cooperative_budget_is_exhausted :: bool where
  "completed_body_drains_after_cooperative_budget_is_exhausted \<longleftrightarrow>
     (let st = stream_complete (test_stream\<lparr>ss_chunks := [Chunk (asc ''last'')]\<rparr>);
          body = Live (Some \<lparr>ff_items = ss_chunks st, ff_closed = False, ff_stalls = 1\<rparr>);
          (p1, body) = poll_next fifo_api (ss_outcome st) body;
          (p2, body) = poll_next fifo_api (ss_outcome st) body;
          (p3, body) = poll_next fifo_api (ss_outcome st) body
      in p1 = PollPending \<and> p2 = PollData (asc ''last'') \<and> p3 = PollEnd)"

lemma completed_body_drains_after_cooperative_budget_is_exhausted:
  completed_body_drains_after_cooperative_budget_is_exhausted
  by (simp add: completed_body_drains_after_cooperative_budget_is_exhausted_def fifo_api_def fifo_poll_def
      test_stream_def stream_state_new_def)

definition only_a_pong_proves_bidirectional_hub_liveness :: bool where
  "only_a_pong_proves_bidirectional_hub_liveness \<longleftrightarrow>
     frame_proves_liveness Pong \<and> \<not> frame_proves_liveness Ping \<and>
     \<not> frame_proves_liveness (Data 7 (asc ''still streaming''))"

lemma only_a_pong_proves_bidirectional_hub_liveness: only_a_pong_proves_bidirectional_hub_liveness
  by (simp add: only_a_pong_proves_bidirectional_hub_liveness_def frame_proves_liveness_def)

text \<open>
  A caller that has stopped reading: its queue has two places. The frames of the tether are
  handled one after the other.
\<close>

fun handle_all ::
    "(bytes \<times> bytes) list head_parser \<Rightarrow> frame list \<Rightarrow> hub_registry \<Rightarrow> loop_result \<times> hub_registry" where
  "handle_all P [] r = (Continue, r)"
| "handle_all P (f # fs) r =
     (let chunk_res = (if length (ss_chunks (rg_streams r ! 0)) < 2 then Sent else Full)
      in case handle_frame P chunk_res Sent 0 f r of
           (Continue, r) \<Rightarrow> handle_all P fs r
         | stop \<Rightarrow> stop)"

definition a_full_response_queue_does_not_block_session_control :: "(bytes \<Rightarrow> bytes) \<Rightarrow> bool" where
  "a_full_response_queue_does_not_block_session_control sha \<longleftrightarrow>
     (let r = snd (att sha ''r1'' ''secret'' (reg sha ''r1'' ''secret'' test_registry));
          r = (upd_session 0 (\<lambda>ls. ls\<lparr>ls_streams := [(1, 0)]\<rparr>) r)
                \<lparr>rg_streams := [test_stream]\<rparr>;
          (result, r) = handle_all line_parser
            [RespHead 1 (asc ''HTTP/1.1 200 OK'' @ crlf2), Data 1 (asc ''chunk''), Data 1 (asc ''chunk''),
             Data 1 (asc ''chunk''), Ping] r
      in result = Continue \<and> Pong \<in> set (ls_sent (rg_sessions r ! 0)) \<and>
         ss_completed (rg_streams r ! 0) \<and> is_active wall_time (asc ''r1'') r)"

lemma parse_bare_head:
  "parse_head line_parser (asc ''HTTP/1.1 200 OK'' @ crlf2) = Some (\<lparr>rs_status = 200, rs_headers = []\<rparr>, [])"
  by (simp add: head_eval)

lemma a_full_response_queue_does_not_block_session_control:
  "a_full_response_queue_does_not_block_session_control sha"
  by (simp add: a_full_response_queue_does_not_block_session_control_def handle_frame_def on_resp_head_def
      acceptable_head_def on_data_def reject_stream_def remove_stream_def try_send_def stream_of_def
      parse_bare_head test_stream_def stream_state_new_def push_sent_def registry_eval del: append.simps asc_simps)

end
