(* ===== verification/Tests_Edge.thy ===== *)
theory Tests_Edge
  imports Frontend Tunnel
begin

text \<open>
  The unit tests of \<open>proxy.rs\<close> and those of \<open>tunnel.rs\<close> on URLs and stream handles, over the
  model, each with a lemma that it passes. The parsers of URLs and addresses answer from a
  table of the texts that occur in the tests (\<open>test_net\<close>); a bounded queue answers \<open>Full\<close>
  when it holds its capacity. Not here: the tests that need a socket.
\<close>

section \<open>What the parsers answer\<close>

definition http_uri :: "string \<Rightarrow> string \<Rightarrow> uri" where
  "http_uri host authority =
     \<lparr>u_scheme = Some (asc ''http''), u_authority = Some (asc authority), u_host = Some (asc host),
      u_path = asc ''/'', u_query = None, u_text = asc ''http://'' @ asc authority @ asc ''/''\<rparr>"

definition ws_uri :: "string \<Rightarrow> uri" where
  "ws_uri host =
     \<lparr>u_scheme = Some (asc ''ws''), u_authority = Some (asc host @ asc '':8443''), u_host = Some (asc host),
      u_path = asc ''/ring'', u_query = None, u_text = asc ''ws://'' @ asc host @ asc '':8443/ring''\<rparr>"

definition path_uri :: "string \<Rightarrow> string option \<Rightarrow> uri" where
  "path_uri path q =
     \<lparr>u_scheme = None, u_authority = None, u_host = None, u_path = asc path, u_query = map_option asc q,
      u_text = asc path @ (case q of Some q \<Rightarrow> asc ''?'' @ asc q | None \<Rightarrow> [])\<rparr>"

definition test_net :: net_api where
  "test_net =
     \<lparr>n_parse_uri = map_of
        [(asc ''http://[::1]:8000'', http_uri ''[::1]'' ''[::1]:8000''),
         (asc ''http://127.0.0.1:8000/'', http_uri ''127.0.0.1'' ''127.0.0.1:8000''),
         (asc ''http://localhost:8000/'', http_uri ''localhost'' ''localhost:8000''),
         (asc ''http://10.0.0.5:8000/'', http_uri ''10.0.0.5'' ''10.0.0.5:8000''),
         (asc ''http://example.com:8000/'', http_uri ''example.com'' ''example.com:8000''),
         (asc ''http://127.0.0.1:8000/v1/chat/completions?x=1&y=2'',
            (http_uri ''127.0.0.1'' ''127.0.0.1:8000'')
              \<lparr>u_path := asc ''/v1/chat/completions'', u_query := Some (asc ''x=1&y=2''),
               u_text := asc ''http://127.0.0.1:8000/v1/chat/completions?x=1&y=2''\<rparr>),
         (asc ''ws://[::1]:8443/ring'', ws_uri ''[::1]''),
         (asc ''ws://127.0.0.1:8443/ring'', ws_uri ''127.0.0.1''),
         (asc ''ws://rental.localhost:8443/ring'', ws_uri ''rental.localhost'')],
      n_parse_socket = map_of
        [(asc ''[::1]:8000'', (V6 1, 8000)), (asc ''127.0.0.1:8000'', (LOCALHOST, 8000)),
         (asc ''10.0.0.5:8000'', (V4 0x0A000005, 8000)), (asc ''0.0.0.0:8000'', (V4 0, 8000))],
      n_parse_ip = map_of [(asc ''::1'', V6 1), (asc ''127.0.0.1'', LOCALHOST), (asc ''10.0.0.5'', V4 0x0A000005)],
      n_parse_authority = map_of
        [(asc ''localhost'', (asc ''localhost'', None)), (asc ''localhost:8000'', (asc ''localhost'', Some (asc ''8000''))),
         (asc ''example.com:8000'', (asc ''example.com'', Some (asc ''8000'')))],
      n_parse_port = map_of [(asc ''8000'', 8000)]\<rparr>"

lemmas net_eval = test_net_def http_uri_def ws_uri_def path_uri_def loopback_authority_def bare_authority_def
  named_address_def trim_brackets_def trim_by_def eq_ignore_case_def to_ascii_lowercase_def lower_def LOCALHOST_def

section \<open>The local proxy\<close>

definition connection_rejects_wildcard_instead_of_dialing_it :: bool where
  "connection_rejects_wildcard_instead_of_dialing_it \<longleftrightarrow>
     loopback_authority test_net (asc ''0.0.0.0:8000'') 80 = Inl NotLoopback"

lemma connection_rejects_wildcard_instead_of_dialing_it: connection_rejects_wildcard_instead_of_dialing_it
  by (simp add: connection_rejects_wildcard_instead_of_dialing_it_def net_eval)

definition localhost_connects_to_the_validated_literal_address :: bool where
  "localhost_connects_to_the_validated_literal_address \<longleftrightarrow>
     loopback_authority test_net (asc ''localhost:8000'') 80 = Inr (LOCALHOST, 8000) \<and>
     loopback_authority test_net (asc ''localhost'') 80 = Inr (LOCALHOST, 80)"

lemma localhost_connects_to_the_validated_literal_address: localhost_connects_to_the_validated_literal_address
  by (simp add: localhost_connects_to_the_validated_literal_address_def net_eval)

definition ipv6_loopback_authority_preserves_an_explicit_port :: bool where
  "ipv6_loopback_authority_preserves_an_explicit_port \<longleftrightarrow>
     loopback_authority test_net (asc ''http://[::1]:8000'') 80 = Inr (V6 1, 8000)"

lemma ipv6_loopback_authority_preserves_an_explicit_port: ipv6_loopback_authority_preserves_an_explicit_port
  by (simp add: ipv6_loopback_authority_preserves_an_explicit_port_def net_eval)

definition forward_uri_preserves_path_and_query :: bool where
  "forward_uri_preserves_path_and_query \<longleftrightarrow>
     (case forward_uri test_net (http_uri ''127.0.0.1'' ''127.0.0.1:8000'')
             (path_uri ''/v1/chat/completions'' (Some ''x=1&y=2'')) of
        Some got \<Rightarrow> u_path got = asc ''/v1/chat/completions'' \<and> u_query got = Some (asc ''x=1&y=2'') \<and>
          u_authority got = Some (asc ''127.0.0.1:8000'')
      | None \<Rightarrow> False)"

lemma forward_uri_preserves_path_and_query: forward_uri_preserves_path_and_query
  by (simp add: forward_uri_preserves_path_and_query_def forward_uri_def net_eval)

definition forward_uri_normalises_empty_path_to_root :: bool where
  "forward_uri_normalises_empty_path_to_root \<longleftrightarrow>
     map_option u_path (forward_uri test_net (http_uri ''127.0.0.1'' ''127.0.0.1:8000'') (path_uri ''/'' None)) =
       Some (asc ''/'')"

lemma forward_uri_normalises_empty_path_to_root: forward_uri_normalises_empty_path_to_root
  by (simp add: forward_uri_normalises_empty_path_to_root_def forward_uri_def net_eval Let_def)

definition loopback_guard_accepts_only_loopback_hosts :: bool where
  "loopback_guard_accepts_only_loopback_hosts \<longleftrightarrow>
     list_all (is_loopback test_net)
       [http_uri ''127.0.0.1'' ''127.0.0.1:8000'', http_uri ''localhost'' ''localhost:8000''] \<and>
     list_all (\<lambda>u. \<not> is_loopback test_net u)
       [http_uri ''10.0.0.5'' ''10.0.0.5:8000'', http_uri ''example.com'' ''example.com:8000'']"

lemma loopback_guard_accepts_only_loopback_hosts: loopback_guard_accepts_only_loopback_hosts
  by (simp add: loopback_guard_accepts_only_loopback_hosts_def is_loopback_def net_eval)

definition constant_eq_rejects_wrong_token_and_length :: bool where
  "constant_eq_rejects_wrong_token_and_length \<longleftrightarrow>
     constant_eq (asc ''abc'') (asc ''abc'') \<and> \<not> constant_eq (asc ''abc'') (asc ''abd'') \<and>
     \<not> constant_eq (asc ''abc'') (asc ''abcd'')"

lemma constant_eq_rejects_wrong_token_and_length: constant_eq_rejects_wrong_token_and_length
  by (simp add: constant_eq_rejects_wrong_token_and_length_def constant_eq_def)

definition authorized_requires_bearer_scheme :: bool where
  "authorized_requires_bearer_scheme \<longleftrightarrow>
     (let auth = (\<lambda>v. hm_insert list_headers [] (asc ''authorization'') (asc v)); token = asc ''s3cret''
      in hm_get list_headers [] (asc ''authorization'') = None \<and>
         \<not> authorized list_headers (auth ''s3cret'') token \<and>
         authorized list_headers (auth ''Bearer s3cret'') token \<and>
         \<not> authorized list_headers (auth ''Bearer wrong'') token)"

lemma authorized_requires_bearer_scheme: authorized_requires_bearer_scheme
  by (simp add: authorized_requires_bearer_scheme_def authorized_def hm_get_def list_headers_def strip_prefix_def
      constant_eq_def visible_def)

section \<open>The tether\<close>

definition plaintext_hub_urls_require_literal_loopback :: bool where
  "plaintext_hub_urls_require_literal_loopback \<longleftrightarrow>
     url_is_loopback test_net (asc ''ws://[::1]:8443/ring'') \<and>
     url_is_loopback test_net (asc ''ws://127.0.0.1:8443/ring'') \<and>
     \<not> url_is_loopback test_net (asc ''ws://rental.localhost:8443/ring'')"

lemma plaintext_hub_urls_require_literal_loopback: plaintext_hub_urls_require_literal_loopback
  by (simp add: plaintext_hub_urls_require_literal_loopback_def url_is_loopback_def net_eval)

text \<open>A session with one stream, and a queue that holds what its pump was given.\<close>

definition one_stream :: tether_session where
  "one_stream = open_stream 1 [] \<lparr>ts_streams = [], ts_pumps = [], ts_sent = [], ts_heartbeat = heartbeat_new 0\<rparr>"

definition a_closed_request_body_does_not_cancel_the_response_pump :: bool where
  "a_closed_request_body_does_not_cancel_the_response_pump \<longleftrightarrow>
     (let t = snd (enqueue_stream_input Closed 1 [] one_stream)
      in \<not> pm_aborted (ts_pumps t ! 0) \<and> map_of (ts_streams t) 1 \<noteq> None \<and>
         pm_aborted (ts_pumps (tether_teardown t) ! 0))"

lemma a_closed_request_body_does_not_cancel_the_response_pump: a_closed_request_body_does_not_cancel_the_response_pump
  by (simp add: a_closed_request_body_does_not_cancel_the_response_pump_def enqueue_stream_input_def one_stream_def
      open_stream_def tether_teardown_def abort_pump_def upd_pump_def)

definition dropping_a_stream_handle_cancels_its_engine_pump :: bool where
  "dropping_a_stream_handle_cancels_its_engine_pump \<longleftrightarrow> pm_aborted (ts_pumps (drop_stream 1 one_stream) ! 0)"

lemma dropping_a_stream_handle_cancels_its_engine_pump: dropping_a_stream_handle_cancels_its_engine_pump
  by (simp add: dropping_a_stream_handle_cancels_its_engine_pump_def drop_stream_def one_stream_def
      open_stream_def abort_pump_def upd_pump_def)

definition lease_expiry_cannot_wait_for_a_full_writer_queue :: bool where
  "lease_expiry_cannot_wait_for_a_full_writer_queue \<longleftrightarrow>
     fst (tether_step 0 Full Full LeaseTick one_stream) = TOk"

lemma lease_expiry_cannot_wait_for_a_full_writer_queue: lease_expiry_cannot_wait_for_a_full_writer_queue
  by (simp add: lease_expiry_cannot_wait_for_a_full_writer_queue_def tether_step_def)

end
