(* ===== verification/Tests_Admin.thy ===== *)
theory Tests_Admin
  imports Admin Frames
begin

text \<open>
  The unit tests of \<open>admin.rs\<close> over the model of the registration store, each with a lemma
  that it passes. A test runs in the surroundings \<open>example_env\<close>: the clock stands at 1000,
  every call succeeds unless the test makes it fail, and the random bytes of an issuance
  repeat one byte, the test's \<open>seed\<close>. The digest is a parameter with results of 32 bytes.
  The disk is the database with the files credentials are delivered to. Not here: the tests of SQLite
  and of the file system themselves.
\<close>

section \<open>What the tests share\<close>

type_synonym disk = "database \<times> files"

definition env_of :: "byte \<Rightarrow> admin_env" where
  "env_of seed = example_env 1000 seed"

definition credential_of :: "byte \<Rightarrow> bytes" where
  "credential_of seed = concat (map hex2 (replicate 32 seed))"

text \<open>A disk by its registrations, its log (the action, the tether and its expiry) and its files.\<close>

type_synonym log_entry = "bytes \<times> bytes option \<times> int option"

definition entry :: "int \<Rightarrow> log_entry \<Rightarrow> audit_row" where
  "entry n = (\<lambda>(action, tid, expires). \<lparr>au_sequence = n, au_timestamp = 1000, au_operator_uid = 7,
     au_action = action, au_tether_id = tid, au_expires_at = expires\<rparr>)"

definition entries :: "log_entry list \<Rightarrow> audit_row list" where
  "entries log = map (\<lambda>(i, e). entry (int i + 1) e) (enumerate 0 log)"

definition database_of :: "registration_row list \<Rightarrow> log_entry list \<Rightarrow> database" where
  "database_of rows log = \<lparr>db_version = 1, db_registrations = rows, db_audit = entries log,
     db_sequence = int (length log)\<rparr>"

definition disk_of :: "registration_row list \<Rightarrow> log_entry list \<Rightarrow> files \<Rightarrow> disk" where
  "disk_of rows log fs = (database_of rows log, fs)"

abbreviation registered :: "bytes \<Rightarrow> int \<Rightarrow> log_entry" where
  "registered tid e \<equiv> (asc ''register'', Some tid, Some e)"

abbreviation rotated :: "bytes \<Rightarrow> int \<Rightarrow> log_entry" where
  "rotated tid e \<equiv> (asc ''rotate'', Some tid, Some e)"

abbreviation revoked :: "bytes \<Rightarrow> log_entry" where
  "revoked tid \<equiv> (asc ''revoke'', Some tid, None)"

abbreviation initialized :: log_entry where
  "initialized \<equiv> (asc ''init'', None, None)"

definition init_disk :: disk where
  "init_disk = disk_of [] [initialized] (\<lambda>_. None)"

lemma entries_append: "entries (log @ [e]) = entries log @ [entry (int (length log) + 1) e]"
  by (simp add: entries_def enumerate_append_eq)

lemma length_entries [simp]: "length (entries log) = length log"
  by (simp add: entries_def)

lemma database_of_simps [simp]:
  "db_version (database_of rows log) = 1" "db_registrations (database_of rows log) = rows"
  "db_audit (database_of rows log) = entries log" "db_sequence (database_of rows log) = int (length log)"
  "fst (disk_of rows log fs) = database_of rows log" "snd (disk_of rows log fs) = fs"
  "(database_of rows log)\<lparr>db_registrations := rows'\<rparr> = database_of rows' log"
  by (simp_all add: database_of_def disk_of_def)

definition do_register ::
    "(bytes \<Rightarrow> bytes) \<Rightarrow> byte \<Rightarrow> bytes \<Rightarrow> bytes \<Rightarrow> 64 word \<Rightarrow> string \<Rightarrow> disk \<Rightarrow> unit fallible \<times> disk" where
  "do_register sha seed tid label ttl path d =
     admin_register sha (env_of seed) tid label ttl (asc path) example_store (fst d) (snd d)"

definition do_rotate ::
    "(bytes \<Rightarrow> bytes) \<Rightarrow> byte \<Rightarrow> bytes \<Rightarrow> 64 word \<Rightarrow> string \<Rightarrow> disk \<Rightarrow> unit fallible \<times> disk" where
  "do_rotate sha seed tid ttl path d =
     admin_rotate sha (env_of seed) tid ttl (asc path) example_store (fst d) (snd d)"

definition do_revoke :: "bytes \<Rightarrow> disk \<Rightarrow> bool fallible \<times> disk" where
  "do_revoke tid d =
     (let (res, db) = admin_revoke (env_of 0) tid example_store (fst d) in (res, db, snd d))"

definition read_all :: "disk \<Rightarrow> admin_record list fallible" where
  "read_all d = snapshot (env_of 0) example_store (fst d)"

definition read_audit :: "64 word \<Rightarrow> disk \<Rightarrow> audit_row list fallible" where
  "read_audit after d = audit (env_of 0) after example_store (fst d)"

definition reopens :: "disk \<Rightarrow> bool" where
  "reopens d \<longleftrightarrow> store_open (env_of 0) (asc ''state'') (Some (fst d)) = Inr (example_store, fst d)"

section \<open>The operations when nothing fails\<close>

lemma init_disk_is_init:
  "store_init (env_of 0) (asc ''state'') None = (Inr (), Some (fst init_disk))"
  by (simp add: store_init_def normalized_directory_def env_of_def example_env_def call_def private_metadata_def
      example_metadata_def initialize_def connect_def check_files_def identity_def append_audit_def i64_try_from_def
      no_schema_def audit_checks_def audit_actions_def init_disk_def database_of_def entries_def entry_def)

lemma env_of_simps [simp]:
  "ae_ok (env_of seed) c" "ae_euid (env_of seed) = 7" "ae_clock (env_of seed) = Some 1000"
  "ae_audit_clock (env_of seed) = Some 1000" "ae_random (env_of seed) = Some (replicate 32 seed)"
  "call (env_of seed) c = Inr ()" "check_files (env_of seed) n example_store = Inr ()"
  by (simp_all add: env_of_def example_env_def call_def check_files_def private_metadata_def example_metadata_def
      example_store_def identity_def)

lemma reopens_iff [simp]: "reopens d \<longleftrightarrow> db_version (fst d) = 1"
  by (simp add: reopens_def store_open_def normalized_directory_def connect_def check_schema_def)
    (simp add: env_of_def example_env_def private_metadata_def example_metadata_def identity_def example_store_def
      check_files_def)

definition new_row :: "(bytes \<Rightarrow> bytes) \<Rightarrow> byte \<Rightarrow> bytes \<Rightarrow> bytes \<Rightarrow> int \<Rightarrow> registration_row" where
  "new_row sha seed tid label expires =
     \<lparr>rr_id = tid, rr_label = label, rr_credential_hash = digest sha (credential_of seed), rr_active = 1,
      rr_expires_at = expires\<rparr>"

lemma append_audit_calm:
  assumes "action \<in> set audit_actions" "int (length log) < 2 ^ 63 - 1"
    "(case expiry of None \<Rightarrow> Inr None | Some e \<Rightarrow> map_sum id Some (i64_try_from e)) = Inr x"
  shows "append_audit (env_of seed) action (Some tid) expiry (database_of rows log) =
     Inr (database_of rows (log @ [(action, Some tid, x)]))"
  using assms
  by (simp add: append_audit_def audit_checks_def i64_try_from_def [of 1000] database_of_def entries_append entry_def)

definition delivered_to :: "string \<Rightarrow> byte \<Rightarrow> files \<Rightarrow> files" where
  "delivered_to path seed fs = fs(asc path \<mapsto> \<lparr>of_mode = 384, of_bytes = credential_of seed @ [10]\<rparr>)"

text \<open>The lifetimes the tests use, and when a registration issued at 1000 expires.\<close>

definition lifetimes :: "(64 word \<times> int) set" where
  "lifetimes = {(60, 1060), (86400, 87400)}"

lemma issue_calm:
  assumes "(ttl, e) \<in> lifetimes" "validate_id tid = Inr ()"
  shows "issue sha (env_of seed) tid label ttl path example_store db fs =
    (case issue_transaction sha (env_of seed) tid label (word_of_int e) db of
       Inl m \<Rightarrow> (Inl m, db, fs)
     | Inr (db', c) \<Rightarrow> if fs path = None
         then (Inr (), db', fs(path \<mapsto> \<lparr>of_mode = 384, of_bytes = c @ [10]\<rparr>))
         else (Inl ''cannot create output'', db, fs))"
  using assms
  by (auto simp: issue_def issue_expiry_def lifetimes_def pending_create_def pending_drop_def Let_def
      split: sum.splits)

lemma id_sql_length: "validate_id tid = Inr () \<Longrightarrow> between 1 63 (sql_length tid)"
proof -
  assume v: "validate_id tid = Inr ()"
  then have l: "tid \<noteq> []" "length tid \<le> 63" "list_all (\<lambda>b. id_byte b \<or> b = 45) tid"
    by (simp_all add: validate_id_def split: if_splits)
  then have "takeWhile (\<lambda>b. b \<noteq> 0) tid = tid" "filter (\<lambda>b. \<not> cont b) tid = tid"
    by (auto simp: list_all_iff id_byte_def cont_def takeWhile_eq_all_conv filter_id_conv)
  then have "sql_length tid = length tid" unfolding sql_length_def by (simp only:)
  with l show ?thesis by (cases tid) (simp_all add: between_def)
qed

definition label_ok :: "bytes \<Rightarrow> bool" where
  "label_ok label \<longleftrightarrow> validate_label label = Inr () \<and> between 1 128 (sql_length label)"

lemma admin_register_calm:
  assumes "\<forall>x. length (sha x) = 32" "(ttl, e) \<in> lifetimes" "validate_id tid = Inr ()" "label_ok label"
    "int (length log) < 2 ^ 63 - 1" "tid \<notin> rr_id ` set rows" "length rows < MAX_REGISTRATIONS"
    "fs path = None"
  shows "admin_register sha (env_of seed) tid label ttl path example_store (database_of rows log) fs =
    (Inr (), database_of (rows @ [new_row sha seed tid label e]) (log @ [registered tid e]),
     fs(path \<mapsto> \<lparr>of_mode = 384, of_bytes = credential_of seed @ [10]\<rparr>))"
proof -
  have "registration_checks (new_row sha seed tid label e)"
    using digest_format [of sha "credential_of seed"] hex_sql_length [of "digest sha (credential_of seed)"]
      id_sql_length [OF assms(3)] assms(1,2,4)
    by (auto simp: registration_checks_def new_row_def label_ok_def lifetimes_def)
  moreover have "sint (word_of_int e :: 64 word) = e" "i64_try_from (word_of_int e) = Inr e"
    using assms(2) by (auto simp: lifetimes_def i64_try_from_def)
  ultimately have "issue_transaction sha (env_of seed) tid (Some label) (word_of_int e) (database_of rows log) =
      Inr (database_of (rows @ [new_row sha seed tid label e]) (log @ [registered tid e]), credential_of seed)"
    using assms(5-7)
    by (simp add: issue_transaction_def check_schema_def issue_row_def insert_registration_def append_audit_calm
        audit_actions_def new_row_def credential_of_def Let_def del: asc_simps)
  then show ?thesis
    using assms(2-4,8) unfolding admin_register_def
    by (simp add: issue_calm label_ok_def del: asc_simps)
qed

lemma register_calm:
  assumes "\<forall>x. length (sha x) = 32" "(ttl, e) \<in> lifetimes" "validate_id tid = Inr ()" "label_ok label"
    "int (length log) < 2 ^ 63 - 1" "tid \<notin> rr_id ` set rows" "length rows < MAX_REGISTRATIONS"
    "fs (asc path) = None"
  shows "do_register sha seed tid label ttl path (disk_of rows log fs) =
    (Inr (), disk_of (rows @ [new_row sha seed tid label e]) (log @ [registered tid e]) (delivered_to path seed fs))"
  using admin_register_calm [OF assms(1-7), of fs "asc path" seed] assms(8)
  by (simp add: do_register_def delivered_to_def disk_of_def)

lemma register_refused:
  "validate_id tid \<noteq> Inr () \<or> validate_label label \<noteq> Inr () \<or> \<not> (60 \<le> ttl \<and> ttl \<le> 86400) \<or>
   tid \<in> rr_id ` set (db_registrations (fst d)) \<or> MAX_REGISTRATIONS \<le> length (db_registrations (fst d)) \<or>
   snd d (asc path) \<noteq> None \<Longrightarrow>
   \<exists>m. do_register sha seed tid label ttl path d = (Inl m, d)"
  by (cases d) (auto simp: do_register_def admin_register_def issue_def issue_transaction_def issue_row_def
      insert_registration_def pending_create_def try_then_def Let_def simp del: asc_simps
      split: sum.splits prod.splits)

lemma rotate_calm:
  assumes "\<forall>x. length (sha x) = 32" "(ttl, e) \<in> lifetimes" "validate_id tid = Inr ()"
    "int (length log) < 2 ^ 63 - 1" "list_all registration_checks rows"
    "length (filter (\<lambda>row. rr_id row = tid) rows) = 1" "fs (asc path) = None"
  shows "do_rotate sha seed tid ttl path (disk_of rows log fs) =
    (Inr (), disk_of (map (\<lambda>row. if rr_id row = tid then new_row sha seed tid (rr_label row) e else row) rows)
       (log @ [rotated tid e]) (delivered_to path seed fs))"
proof -
  let ?f = "\<lambda>row. row\<lparr>rr_credential_hash := digest sha (credential_of seed), rr_active := 1, rr_expires_at := e\<rparr>"
  let ?rows = "map (\<lambda>row. if rr_id row = tid then ?f row else row) rows"
  have e: "sint (word_of_int e :: 64 word) = e" "i64_try_from (word_of_int e) = Inr e" "0 < e"
    using assms(2) by (auto simp: lifetimes_def i64_try_from_def)
  have f: "?f row = new_row sha seed (rr_id row) (rr_label row) e" for row :: registration_row
    by (simp add: new_row_def)
  have "list_all (\<lambda>row. rr_id row = tid \<longrightarrow> registration_checks (?f row)) rows"
    using digest_format [of sha "credential_of seed"] hex_sql_length [of "digest sha (credential_of seed)"]
      assms(1,5) e(3) by (auto simp: registration_checks_def list_all_iff)
  then have "issue_transaction sha (env_of seed) tid None (word_of_int e) (database_of rows log) =
      Inr (database_of ?rows (log @ [rotated tid e]), credential_of seed)"
    using assms(4,6) e
    by (simp add: issue_transaction_def check_schema_def issue_row_def update_registrations_def append_audit_calm
        audit_actions_def credential_of_def Let_def del: asc_simps)
  moreover have "?rows = map (\<lambda>row. if rr_id row = tid then new_row sha seed tid (rr_label row) e else row) rows"
    by (rule map_cong) (auto simp: f)
  ultimately show ?thesis
    using assms(2,3,7) unfolding do_rotate_def admin_rotate_def
    by (simp add: issue_calm delivered_to_def disk_of_def del: asc_simps)
qed

lemma rotate_refused:
  "validate_id tid \<noteq> Inr () \<or> \<not> (60 \<le> ttl \<and> ttl \<le> 86400) \<or>
   length (filter (\<lambda>row. rr_id row = tid) (db_registrations (fst d))) \<noteq> 1 \<or> snd d (asc path) \<noteq> None \<Longrightarrow>
   \<exists>m. do_rotate sha seed tid ttl path d = (Inl m, d)"
  by (cases d) (auto simp: do_rotate_def admin_rotate_def issue_def issue_transaction_def issue_row_def
      update_registrations_def pending_create_def try_then_def Let_def simp del: asc_simps
      split: sum.splits prod.splits if_splits)

lemma revoke_calm:
  assumes "validate_id tid = Inr ()" "int (length log) < 2 ^ 63 - 1" "list_all registration_checks rows"
    "length (filter (\<lambda>row. rr_id row = tid \<and> rr_active row = 1) rows) = n" "n \<le> 1"
  shows "do_revoke tid (disk_of rows log fs) =
    (if n = 1
     then (Inr True, disk_of (map (\<lambda>row. if rr_id row = tid \<and> rr_active row = 1 then row\<lparr>rr_active := 0\<rparr> else row) rows)
             (log @ [revoked tid]) fs)
     else (Inr False, disk_of rows log fs))"
proof -
  let ?p = "\<lambda>row. rr_id row = tid \<and> rr_active row = 1"
  have c: "list_all (\<lambda>row. ?p row \<longrightarrow> registration_checks (row\<lparr>rr_active := 0\<rparr>)) rows"
    using assms(3) by (auto simp: list_all_iff registration_checks_def)
  show ?thesis
  proof (cases "n = 1")
    case True
    with c assms show ?thesis
      by (simp add: do_revoke_def admin_revoke_def check_schema_def update_registrations_def append_audit_calm
          audit_actions_def disk_of_def Let_def del: asc_simps)
  next
    case False
    with assms(4,5) have "length (filter ?p rows) = 0" by linarith
    then have "filter ?p rows = []" by (simp only: length_0_conv)
    then have "map (\<lambda>row. if ?p row then row\<lparr>rr_active := 0\<rparr> else row) rows = rows"
      by (auto simp: filter_empty_conv intro: map_idI)
    with c False assms show ?thesis
      by (simp add: do_revoke_def admin_revoke_def check_schema_def update_registrations_def disk_of_def Let_def
          del: asc_simps)
  qed
qed

lemma read_calm:
  assumes "list_all column_range rows" "list_all valid_row rows" "length rows \<le> MAX_REGISTRATIONS"
  shows "read_all (disk_of rows log fs) = Inr (map record_of (sort_key rr_id rows))"
  using assms by (simp add: read_all_def snapshot_exact_base readable_def)

lemma read_refused:
  "list_all column_range rows \<Longrightarrow> MAX_REGISTRATIONS < length rows \<or> \<not> list_all valid_row rows \<Longrightarrow>
   \<exists>m. read_all (disk_of rows log fs) = Inl m"
  using snapshot_exact_base [of "database_of rows log" "env_of 0" example_store]
  by (cases "read_all (disk_of rows log fs)") (auto simp: read_all_def)

lemma sorted_entries: "sort_key au_sequence (filter P (entries log)) = filter P (entries log)"
proof -
  have "map au_sequence (entries log) = map (\<lambda>i. int i + 1) [0..<length log]"
    by (auto simp: entries_def entry_def enumerate_eq_zip split_beta intro: nth_equalityI)
  then have "sorted (map au_sequence (entries log))" by (simp add: sorted_map sorted_wrt_map)
  then have "sorted (map au_sequence (filter P (entries log)))" by (rule sorted_filter)
  then show ?thesis by (rule sort_key_id_if_sorted)
qed

definition log_text :: "log_entry list \<Rightarrow> bool" where
  "log_text log \<longleftrightarrow> list_all (\<lambda>(action, tid, _). utf8_decode action \<noteq> None \<and>
     (\<forall>t \<in> set_option tid. utf8_decode t \<noteq> None)) log"

lemma entries_ok: "log_text log \<Longrightarrow> list_all audit_event_ok (entries log)"
  by (auto simp: log_text_def entries_def entry_def audit_event_ok_def list_all_iff enumerate_eq_zip
      dest!: set_zip_rightD)

lemma audit_calm:
  assumes "log_text log" "uint after < 2 ^ 63"
  shows "read_audit after (disk_of rows log fs) =
     Inr (take 100 (filter (\<lambda>row. uint after < au_sequence row) (entries log)))"
proof -
  have "list_all audit_event_ok (take 100 (filter (\<lambda>row. uint after < au_sequence row) (entries log)))"
    using entries_ok [OF assms(1)] by (auto simp: list_all_iff dest: in_set_takeD)
  with assms(2) show ?thesis
    by (simp add: read_audit_def audit_def i64_try_from_def check_schema_def sorted_entries)
qed

lemma valid_new_row:
  assumes "\<forall>x. length (sha x) = 32" "validate_id tid = Inr ()" "validate_label label = Inr ()"
    "utf8_decode label \<noteq> None" "0 < e" "e < 2 ^ 63"
  shows "valid_row (new_row sha seed tid label e)" "column_range (new_row sha seed tid label e)"
  using assms digest_format [of sha "credential_of seed"]
  by (auto simp: valid_row_def column_range_def new_row_def)

lemma new_row_simps [simp]:
  "rr_id (new_row sha seed tid label e) = tid" "rr_label (new_row sha seed tid label e) = label"
  "rr_active (new_row sha seed tid label e) = 1" "rr_expires_at (new_row sha seed tid label e) = e"
  "rr_credential_hash (new_row sha seed tid label e) = digest sha (credential_of seed)"
  by (simp_all add: new_row_def)

lemma checks_new_row:
  "\<forall>x. length (sha x) = 32 \<Longrightarrow> validate_id tid = Inr () \<Longrightarrow> label_ok label \<Longrightarrow> 0 < e \<Longrightarrow>
   registration_checks (new_row sha seed tid label e)"
  using digest_format [of sha "credential_of seed"] hex_sql_length [of "digest sha (credential_of seed)"]
    id_sql_length [of tid]
  by (simp add: registration_checks_def label_ok_def)

lemma credential_format: "length (credential_of seed) = 64" "list_all is_hex_lower (credential_of seed)"
  using digest_format [of "\<lambda>_. replicate 32 seed"] by (simp_all add: credential_of_def digest_def del: replicate.simps)

lemmas text_eval = validate_id_def id_byte_def label_ok_def validate_label_def chars_def utf8_decode_ascii ascii_def
  is_control_def sql_length_def cont_def between_def

section \<open>The tests\<close>

definition persistence_rotation_revocation_and_expiry_metadata :: "(bytes \<Rightarrow> bytes) \<Rightarrow> bool" where
  "persistence_rotation_revocation_and_expiry_metadata sha \<longleftrightarrow>
     (let a = asc ''a-1'';
          (r1, d1) = do_register sha 1 a (asc ''Rental A'') 60 ''first'' init_disk;
          (r2, d2) = do_rotate sha 2 a 86400 ''second'' d1;
          (r3, d3) = do_revoke a d2;
          (r4, d4) = do_revoke a d3;
          (r5, d5) = do_revoke (asc ''missing'') d4;
          (r6, d6) = do_rotate sha 3 a 60 ''third'' d5
      in r1 = Inr () \<and> r2 = Inr () \<and> r3 = Inr True \<and> r4 = Inr False \<and> r5 = Inr False \<and> r6 = Inr () \<and>
         list_all reopens [d1, d5] \<and>
         (case (read_all d1, snd d1 (asc ''first''), read_all d2) of
            (Inr [first], Some f, Inr [second]) \<Rightarrow>
              ar_id first = a \<and> ar_label first = asc ''Rental A'' \<and> ar_active first \<and> ar_expires_at first = 1060 \<and>
              length (butlast (of_bytes f)) = 64 \<and> list_all is_hex_lower (butlast (of_bytes f)) \<and>
              ar_credential_hash first = digest sha (butlast (of_bytes f)) \<and>
              ar_credential_hash second \<noteq> ar_credential_hash first \<and> ar_expires_at second = 87400
          | _ \<Rightarrow> False) \<and>
         map_sum id (map ar_active) (read_all d5) = Inr [False] \<and>
         map_sum id (map ar_active) (read_all d6) = Inr [True] \<and>
         (case read_audit 0 d6 of
            Inr rows \<Rightarrow>
              map au_action rows = [asc ''init'', asc ''register'', asc ''rotate'', asc ''revoke'', asc ''rotate''] \<and>
              list_all (\<lambda>row. au_operator_uid row = 7) rows \<and> au_expires_at (rows ! 1) = Some 1060
          | Inl _ \<Rightarrow> False))"

lemma a1: "validate_id (asc ''a-1'') = Inr ()" "validate_id (asc ''missing'') = Inr ()"
  "label_ok (asc ''Rental A'')" "utf8_decode (asc ''Rental A'') \<noteq> None" "validate_label (asc ''Rental A'') = Inr ()"
  "utf8_decode (asc ''a-1'') = Some (map unat (asc ''a-1''))"
  by (simp_all add: text_eval)

lemma persistence_rotation_revocation_and_expiry_metadata:
  assumes len: "\<forall>x. length (sha x) = 32" and hash: "digest sha (credential_of 1) \<noteq> digest sha (credential_of 2)"
  shows "persistence_rotation_revocation_and_expiry_metadata sha"
proof -
  let ?a = "asc ''a-1''" and ?l = "asc ''Rental A''"
  let ?row = "\<lambda>seed e. new_row sha seed ?a ?l e" and ?off = "(new_row sha 2 ?a ?l 87400)\<lparr>rr_active := 0\<rparr>"
  let ?f1 = "delivered_to ''first'' 1 (\<lambda>_. None)"
  let ?f2 = "delivered_to ''second'' 2 ?f1"
  let ?log = "[initialized, registered ?a 1060]"
  let ?d1 = "disk_of [?row 1 1060] ?log ?f1"
  let ?d2 = "disk_of [?row 2 87400] (?log @ [rotated ?a 87400]) ?f2"
  let ?d3 = "disk_of [?off] (?log @ [rotated ?a 87400, revoked ?a]) ?f2"
  let ?d6 = "disk_of [?row 3 1060] (?log @ [rotated ?a 87400, revoked ?a, rotated ?a 1060])
    (delivered_to ''third'' 3 ?f2)"
  note life = lifetimes_def delivered_to_def MAX_REGISTRATIONS_def
  have c: "registration_checks (?row seed e)" if "0 < e" for seed e using checks_new_row [OF len a1(1,3) that] .
  have v: "valid_row (?row seed e) \<and> column_range (?row seed e)" if "0 < e" "e < 2 ^ 63" for seed e
    using valid_new_row [OF len a1(1,5,4) that] by simp
  have off: "registration_checks ?off" "valid_row ?off" "column_range ?off"
    using c [of 87400 2] v [of 87400 2] by (auto simp: registration_checks_def valid_row_def column_range_def)
  have s1: "do_register sha 1 ?a ?l 60 ''first'' init_disk = (Inr (), ?d1)"
    unfolding init_disk_def using len a1 by (subst register_calm [where e = 1060]) (simp_all add: life del: asc_simps)
  have s2: "do_rotate sha 2 ?a 86400 ''second'' ?d1 = (Inr (), ?d2)"
    using len a1 c by (subst rotate_calm [where e = 87400]) (simp_all add: life)
  have s3: "do_revoke ?a ?d2 = (Inr True, ?d3)"
    using a1 c by (subst revoke_calm [where n = 1]) (simp_all del: asc_simps)
  have s4: "do_revoke ?a ?d3 = (Inr False, ?d3)" "do_revoke (asc ''missing'') ?d3 = (Inr False, ?d3)"
    using a1 off by (subst revoke_calm [where n = 0]; simp)+
  have s6: "do_rotate sha 3 ?a 60 ''third'' ?d3 = (Inr (), ?d6)"
    using len a1 off by (subst rotate_calm [where e = 1060]) (simp_all add: life)
  have reads: "read_all ?d1 = Inr [record_of (?row 1 1060)]" "read_all ?d2 = Inr [record_of (?row 2 87400)]"
    "read_all ?d3 = Inr [record_of ?off]" "read_all ?d6 = Inr [record_of (?row 3 1060)]"
    using v off by (simp_all add: read_calm MAX_REGISTRATIONS_def)
  have log: "read_audit 0 ?d6 = Inr (entries (?log @ [rotated ?a 87400, revoked ?a, rotated ?a 1060]))"
    by (subst audit_calm) (simp_all add: log_text_def utf8_decode_ascii ascii_def entries_def entry_def)
  show ?thesis
    unfolding persistence_rotation_revocation_and_expiry_metadata_def Let_def s1 s2 s3 s4 s6 prod.case reads log sum.case
    using hash credential_format [of 1]
    by (simp add: record_of_def delivered_to_def entries_def entry_def del: asc_simps)
qed

text \<open>Refused operations leave the disk, so the audit and every delivered file, as they were.\<close>

definition fails :: "('a fallible \<times> disk) \<Rightarrow> disk \<Rightarrow> bool" where
  "fails result d \<longleftrightarrow> isl (fst result) \<and> snd result = d"

lemma failsI: "\<exists>m. result = (Inl m, d) \<Longrightarrow> fails result d"
  by (auto simp: fails_def)

definition duplicate_registration_and_output_cannot_change_persisted_state :: "(bytes \<Rightarrow> bytes) \<Rightarrow> bool" where
  "duplicate_registration_and_output_cannot_change_persisted_state sha \<longleftrightarrow>
     (let (r, d) = do_register sha 1 (asc ''a'') (asc ''A'') 60 ''one'' init_disk
      in r = Inr () \<and> fails (do_register sha 2 (asc ''a'') (asc ''Duplicate'') 60 ''two'' d) d \<and>
         snd d (asc ''two'') = None \<and>
         fails (do_register sha 3 (asc ''b'') (asc ''B'') 60 ''one'' d) d \<and>
         fails (do_rotate sha 4 (asc ''a'') 60 ''one'' d) d \<and>
         fails (do_rotate sha 5 (asc ''missing'') 60 ''two'' d) d \<and>
         map_sum id length (read_audit 0 d) = Inr 2)"

lemma register_first:
  assumes "\<forall>x. length (sha x) = 32"
  shows "do_register sha seed (asc ''a'') (asc ''A'') 60 path init_disk =
    (Inr (), disk_of [new_row sha seed (asc ''a'') (asc ''A'') 1060] [initialized, registered (asc ''a'') 1060]
       (delivered_to path seed (\<lambda>_. None)))"
  unfolding init_disk_def using assms
  by (subst register_calm [where e = 1060]) (simp_all add: text_eval lifetimes_def MAX_REGISTRATIONS_def)

lemma duplicate_registration_and_output_cannot_change_persisted_state:
  assumes "\<forall>x. length (sha x) = 32"
  shows "duplicate_registration_and_output_cannot_change_persisted_state sha"
  unfolding duplicate_registration_and_output_cannot_change_persisted_state_def register_first [OF assms] Let_def prod.case
  by (intro conjI failsI register_refused rotate_refused)
    (simp_all add: delivered_to_def, subst audit_calm,
      simp_all add: log_text_def utf8_decode_ascii ascii_def entries_def entry_def)

definition failed_output_and_failed_commit_roll_back_registration_and_audit :: "(bytes \<Rightarrow> bytes) \<Rightarrow> bool" where
  "failed_output_and_failed_commit_roll_back_registration_and_audit sha \<longleftrightarrow>
     (let attempt = (\<lambda>broken path. admin_register sha ((env_of 1)\<lparr>ae_ok := (\<lambda>c. c \<noteq> broken)\<rparr>) (asc ''a'') (asc ''A'')
            60 (asc path) example_store (fst init_disk) (snd init_disk))
      in fails (attempt OpenOutputParent ''missing/credential'') init_disk \<and> fails (attempt Commit ''failed'') init_disk)"

lemma issue_fails:
  "\<not> ae_ok E OpenOutputParent \<or> \<not> ae_ok E CreateOutput \<or> \<not> ae_ok E Commit \<Longrightarrow>
   isl (fst (issue sha E tid label ttl path st db fs))"
  by (elim disjE) (simp_all add: issue_def pending_create_def call_def split: sum.split prod.split)

lemma issue_undone:
  assumes "\<not> ae_ok E OpenOutputParent \<or> \<not> ae_ok E CreateOutput \<or> \<not> ae_ok E Commit" "ae_ok E RemoveOutput"
  shows "fails (issue sha E tid label ttl path st db fs) (db, fs)"
proof (cases "issue sha E tid label ttl path st db fs")
  case (fields r db' fs')
  with issue_fails [OF assms(1), of sha tid label ttl path st db fs] have "isl r" by simp
  with fields issue_delivers_or_undoes_base [where sha = sha and E = E and tid = tid and label = label and
      ttl_secs = ttl and out = path and st = st and db = db and fs = fs] assms(2) show ?thesis
    by (cases r) (simp_all add: fails_def)
qed

lemma text_A: "validate_label (asc ''A'') = Inr ()" "label_ok (asc ''A'')" "utf8_decode (asc ''A'') \<noteq> None"
  by (simp_all add: text_eval)

lemma failed_output_and_failed_commit_roll_back_registration_and_audit:
  "failed_output_and_failed_commit_roll_back_registration_and_audit sha"
  using issue_undone [where db = "fst init_disk" and fs = "snd init_disk"] text_A
  by (simp add: failed_output_and_failed_commit_roll_back_registration_and_audit_def admin_register_def
      del: asc_simps)

text \<open>An operation in surroundings other than \<open>env_of\<close>: opening the store, and reading an open one.\<close>

definition open_fails :: "admin_env \<Rightarrow> database option \<Rightarrow> bool" where
  "open_fails E found \<longleftrightarrow> isl (store_open E (asc ''state'') found)"

definition read_fails :: "admin_env \<Rightarrow> database \<Rightarrow> bool" where
  "read_fails E db \<longleftrightarrow> isl (snapshot E example_store db)"

lemmas open_eval = open_fails_def read_fails_def store_open_def snapshot_def normalized_directory_def connect_def
  check_files_def check_schema_def call_def private_metadata_def identity_def env_of_def example_env_def
  example_metadata_def example_store_def

definition bad_permissions_symlinks_and_disappearing_state_fail_closed :: bool where
  "bad_permissions_symlinks_and_disappearing_state_fail_closed \<longleftrightarrow>
     (let E = env_of 0; db = fst init_disk;
          public_directory = E\<lparr>ae_directory := (\<lambda>_. Some ((example_metadata True)\<lparr>md_mode := 488\<rparr>))\<rparr>;
          public_database = E\<lparr>ae_database := (\<lambda>_. Some ((example_metadata False)\<lparr>md_mode := 416\<rparr>))\<rparr>;
          directory_link = E\<lparr>ae_directory := (\<lambda>_. Some ((example_metadata True)\<lparr>md_is_dir := False\<rparr>))\<rparr>;
          no_database = E\<lparr>ae_database := (\<lambda>_. None)\<rparr>;
          database_link = E\<lparr>ae_database := (\<lambda>_. Some ((example_metadata False)\<lparr>md_is_file := False\<rparr>))\<rparr>
      in list_all (\<lambda>E. open_fails E (Some db) \<and> read_fails E db) [public_directory, public_database, database_link] \<and>
         open_fails directory_link (Some db) \<and> isl (fst (store_init directory_link (asc ''link'') (Some db))) \<and>
         read_fails no_database db)"

lemma bad_permissions_symlinks_and_disappearing_state_fail_closed:
  bad_permissions_symlinks_and_disappearing_state_fail_closed
  by (simp add: bad_permissions_symlinks_and_disappearing_state_fail_closed_def open_eval store_init_def)

definition unknown_schema_corrupt_database_and_invalid_records_are_rejected :: bool where
  "unknown_schema_corrupt_database_and_invalid_records_are_rejected \<longleftrightarrow>
     (let E = env_of 0; db = fst init_disk; unknown = db\<lparr>db_version := 2\<rparr>;
          bad = db\<lparr>db_registrations := [\<lparr>rr_id = asc ''UPPER'', rr_label = asc ''bad'', rr_credential_hash = asc ''abc'',
                    rr_active = 1, rr_expires_at = 1\<rparr>]\<rparr>
      in open_fails E (Some unknown) \<and> read_fails E unknown \<and> read_fails E bad \<and>
         open_fails (E\<lparr>ae_ok := (\<lambda>c. c \<noteq> Pragmas)\<rparr>) (Some db))"

lemma unknown_schema_corrupt_database_and_invalid_records_are_rejected:
  unknown_schema_corrupt_database_and_invalid_records_are_rejected
  by (simp add: unknown_schema_corrupt_database_and_invalid_records_are_rejected_def init_disk_def open_eval read_row_def
      get_text_def u64_try_from_def text_eval)

definition replaced_database_invalidates_an_already_open_store :: bool where
  "replaced_database_invalidates_an_already_open_store \<longleftrightarrow>
     (let E = (env_of 0)\<lparr>ae_database := (\<lambda>_. Some ((example_metadata False)\<lparr>md_ino := 9\<rparr>))\<rparr>; db = fst init_disk
      in read_fails E db \<and>
         (case store_open E (asc ''state'') (Some db) of
            Inr (st, db) \<Rightarrow> snapshot E st db = Inr [] | Inl _ \<Rightarrow> False))"

lemma replaced_database_invalidates_an_already_open_store: replaced_database_invalidates_an_already_open_store
  by (simp add: replaced_database_invalidates_an_already_open_store_def init_disk_def open_eval)

definition missing_schema_columns_fail_even_when_no_records_exist :: bool where
  "missing_schema_columns_fail_even_when_no_records_exist \<longleftrightarrow>
     (let E = (env_of 0)\<lparr>ae_ok := (\<lambda>c. c \<noteq> Probe)\<rparr>; db = fst init_disk
      in read_fails E db \<and> open_fails E (Some db))"

lemma missing_schema_columns_fail_even_when_no_records_exist: missing_schema_columns_fail_even_when_no_records_exist
  by (simp add: missing_schema_columns_fail_even_when_no_records_exist_def init_disk_def open_eval)

definition rejects_invalid_ids_labels_ttls_without_creating_a_credential :: "(bytes \<Rightarrow> bytes) \<Rightarrow> bool" where
  "rejects_invalid_ids_labels_ttls_without_creating_a_credential sha \<longleftrightarrow>
     (let attempt = (\<lambda>tid label ttl. do_register sha 1 tid label ttl ''secret'' init_disk);
          e_acute = concat (replicate 128 [195, 169])
      in list_all (\<lambda>tid. fails (attempt tid (asc ''A'') 60) init_disk)
           [[], asc ''Upper'', asc ''-first'', asc ''a_b'', asc ''a b'', asc ''a/b'', asc ''a'' @ [10] @ asc ''b'',
            replicate 64 97] \<and>
         list_all (\<lambda>label. fails (attempt (asc ''a'') label 60) init_disk)
           [[], asc ''new'' @ [10] @ asc ''line'', asc ''a'' @ [0] @ asc ''b'', replicate 129 97] \<and>
         list_all (\<lambda>ttl. fails (attempt (asc ''a'') (asc ''A'') ttl) init_disk) [0, 59, 86401, - 1] \<and>
         fst (attempt (replicate 63 97) e_acute 60) = Inr ())"

text \<open>128 letters of two bytes each: 256 bytes, 128 characters.\<close>

lemma e_acute:
  "utf8_decode (concat (replicate n [195, 169])) = Some (replicate n 233)"
  "sql_length (concat (replicate n [195, 169])) = n"
proof (induction n)
  case (Suc n)
  have "takeWhile (\<lambda>b. b \<noteq> 0) ([195, 169] @ bs) = [195, 169] @ takeWhile (\<lambda>b. b \<noteq> 0) bs" for bs :: bytes by simp
  with Suc show "utf8_decode (concat (replicate (Suc n) [195, 169])) = Some (replicate (Suc n) 233)"
    "sql_length (concat (replicate (Suc n) [195, 169])) = Suc n"
    by (simp_all add: sql_length_def cont_def low6_def)
qed (simp_all add: sql_length_def)

lemma rejects_invalid_ids_labels_ttls_without_creating_a_credential:
  assumes "\<forall>x. length (sha x) = 32"
  shows "rejects_invalid_ids_labels_ttls_without_creating_a_credential sha"
proof -
  let ?attempt = "\<lambda>tid label ttl. do_register sha 1 tid label ttl ''secret'' init_disk"
  have ids: "fails (?attempt tid (asc ''A'') 60) init_disk" if "validate_id tid \<noteq> Inr ()" for tid
    using that by (intro failsI register_refused) simp
  have labels: "fails (?attempt (asc ''a'') label 60) init_disk" if "validate_label label \<noteq> Inr ()" for label
    using that by (intro failsI register_refused) simp
  have ttls: "fails (?attempt (asc ''a'') (asc ''A'') ttl) init_disk" if "\<not> (60 \<le> ttl \<and> ttl \<le> 86400)" for ttl
    using that by (intro failsI register_refused) simp
  have never: "fails (?attempt (asc ''a'') (asc ''A'') (- 1)) init_disk"
    by (rule ttls) (simp add: word_le_nat_alt unsigned_minus_1_eq_mask mask_eq_exp_minus_1)
  have "label_ok (concat (replicate 128 [195, 169]))"
    using e_acute [of 128] by (simp add: label_ok_def validate_label_def chars_def between_def is_control_def
        list_ex_iff del: concat_replicate_single)
  moreover have "validate_id (replicate 63 97) = Inr ()"
    by (simp add: validate_id_def id_byte_def list_all_iff hd_replicate)
  ultimately have "fst (?attempt (replicate 63 97) (concat (replicate 128 [195, 169])) 60) = Inr ()"
    unfolding init_disk_def using assms
    by (subst register_calm [where e = 1060]) (simp_all add: lifetimes_def MAX_REGISTRATIONS_def)
  moreover have "list_all (\<lambda>tid. validate_id tid \<noteq> Inr ())
      [[], asc ''Upper'', asc ''-first'', asc ''a_b'', asc ''a b'', asc ''a/b'', asc ''a'' @ [10] @ asc ''b'',
       replicate 64 97]"
    by (simp add: validate_id_def id_byte_def del: replicate.simps)
  moreover have "list_all (\<lambda>label. validate_label label \<noteq> Inr ())
      [[], asc ''new'' @ [10] @ asc ''line'', asc ''a'' @ [0] @ asc ''b'', replicate 129 97]"
    by (simp add: validate_label_def chars_def utf8_decode_ascii ascii_def is_control_def del: replicate.simps)
  ultimately show ?thesis
    unfolding rejects_invalid_ids_labels_ttls_without_creating_a_credential_def Let_def
    using ids labels ttls never by (simp add: list_all_iff del: replicate.simps)
qed

definition list_distinguishes_active_expired_and_revoked_without_hashes :: "(bytes \<Rightarrow> bytes) \<Rightarrow> bool" where
  "list_distinguishes_active_expired_and_revoked_without_hashes sha \<longleftrightarrow>
     (let add = (\<lambda>seed name d. snd (do_register sha seed (asc name) (asc name) 60 name d));
          d = add 3 ''revoked'' (add 2 ''expired'' (add 1 ''active'' init_disk));
          rows = map (\<lambda>row. if rr_id row = asc ''expired'' then row\<lparr>rr_expires_at := 1\<rparr> else row)
                   (db_registrations (fst d));
          d = snd (do_revoke (asc ''revoked'') ((fst d)\<lparr>db_registrations := rows\<rparr>, snd d))
      in map_sum id (map (\<lambda>l. (li_state l, li_active l))) (list_records (env_of 0) example_store (fst d)) =
           Inr [(''active'', True), (''expired'', False), (''revoked'', False)])"

lemma tether_names:
  assumes "name \<in> {''active'', ''expired'', ''revoked''}"
  shows "validate_id (asc name) = Inr ()" "label_ok (asc name)" "utf8_decode (asc name) \<noteq> None"
    "validate_label (asc name) = Inr ()"
  using assms by (elim insertE emptyE; simp add: text_eval)+

lemma tether_names_distinct:
  "asc ''active'' \<noteq> asc ''expired''" "asc ''active'' \<noteq> asc ''revoked''" "asc ''expired'' \<noteq> asc ''revoked''"
  by simp_all

abbreviation named_row :: "(bytes \<Rightarrow> bytes) \<Rightarrow> byte \<Rightarrow> string \<Rightarrow> int \<Rightarrow> registration_row" where
  "named_row sha seed name e \<equiv> new_row sha seed (asc name) (asc name) e"

definition three_registered :: "(bytes \<Rightarrow> bytes) \<Rightarrow> disk" where
  "three_registered sha = disk_of
     [named_row sha 1 ''active'' 1060, named_row sha 2 ''expired'' 1060, named_row sha 3 ''revoked'' 1060]
     [initialized, registered (asc ''active'') 1060, registered (asc ''expired'') 1060, registered (asc ''revoked'') 1060]
     (delivered_to ''revoked'' 3 (delivered_to ''expired'' 2 (delivered_to ''active'' 1 (\<lambda>_. None))))"

lemma three_registered:
  assumes len: "\<forall>x. length (sha x) = 32"
  shows "(let add = (\<lambda>seed name d. snd (do_register sha seed (asc name) (asc name) 60 name d))
    in add 3 ''revoked'' (add 2 ''expired'' (add 1 ''active'' init_disk))) = three_registered sha"
proof -
  note life = lifetimes_def delivered_to_def MAX_REGISTRATIONS_def
  have add: "do_register sha seed (asc name) (asc name) 60 name (disk_of rows log fs) =
      (Inr (), disk_of (rows @ [named_row sha seed name 1060]) (log @ [registered (asc name) 1060])
        (delivered_to name seed fs))"
    if "name \<in> {''active'', ''expired'', ''revoked''}" "length log < 10" "length rows < 10"
      "asc name \<notin> rr_id ` set rows" "fs (asc name) = None" for seed name rows log fs
    using that len by (intro register_calm) (simp_all add: lifetimes_def MAX_REGISTRATIONS_def tether_names)
  show ?thesis
    unfolding init_disk_def three_registered_def Let_def using tether_names_distinct
    by (simp add: add delivered_to_def del: asc_simps)
qed

lemma list_distinguishes_active_expired_and_revoked_without_hashes:
  assumes len: "\<forall>x. length (sha x) = 32"
  shows "list_distinguishes_active_expired_and_revoked_without_hashes sha"
proof -
  let ?act = "named_row sha 1 ''active'' 1060" and ?exp = "named_row sha 2 ''expired''"
    and ?rev = "named_row sha 3 ''revoked'' 1060"
  let ?rows = "[?act, ?exp 1, ?rev\<lparr>rr_active := 0\<rparr>]"
  have checks: "registration_checks (named_row sha seed name e)"
    if "name \<in> {''active'', ''expired'', ''revoked''}" "0 < e" for seed name e
    using checks_new_row [OF len] tether_names [OF that(1)] that(2) by simp
  have rev: "do_revoke (asc ''revoked'') (disk_of [?act, ?exp 1, ?rev] log fs) =
      (Inr True, disk_of ?rows (log @ [revoked (asc ''revoked'')]) fs)" if "length log = 4" for log fs
    using tether_names [of "''revoked''"] tether_names_distinct checks that
    by (subst revoke_calm [where n = 1]) (simp_all del: asc_simps)
  have valid: "valid_row (named_row sha seed name e)" "column_range (named_row sha seed name e)"
    if "name \<in> {''active'', ''expired'', ''revoked''}" "0 < e" "e < 2 ^ 63" for seed name e
    using valid_new_row [OF len] tether_names [OF that(1)] that(2,3) by simp_all
  have "valid_row (?rev\<lparr>rr_active := 0\<rparr>)" "column_range (?rev\<lparr>rr_active := 0\<rparr>)"
    using valid [of "''revoked''" 1060 3] by (simp_all add: valid_row_def column_range_def del: asc_simps)
  then have "list_all valid_row ?rows" "list_all column_range ?rows"
    using valid by (simp_all del: asc_simps)
  moreover have "sort_key rr_id ?rows = ?rows" by simp
  ultimately have read: "snapshot (env_of 0) example_store (database_of ?rows log) = Inr (map record_of ?rows)" for log
    using read_calm [of ?rows] by (simp add: read_all_def MAX_REGISTRATIONS_def del: asc_simps)
  have moved: "(?exp 1060)\<lparr>rr_expires_at := 1\<rparr> = ?exp 1" by (simp add: new_row_def)
  from rev read three_registered [OF len] tether_names_distinct show ?thesis
    unfolding list_distinguishes_active_expired_and_revoked_without_hashes_def Let_def
    by (simp add: moved three_registered_def disk_of_def list_records_def record_of_def listed_of_def Let_def del: asc_simps)
qed

definition competing_duplicate_writers_issue_only_one_credential :: "(bytes \<Rightarrow> bytes) \<Rightarrow> bool" where
  "competing_duplicate_writers_issue_only_one_credential sha \<longleftrightarrow>
     (let writer = (\<lambda>(seed, path). do_register sha seed (asc ''same-id'') (asc ''A'') 60 path)
      in list_all (\<lambda>(w1, w2).
           let (r1, d1) = writer w1 init_disk; (r2, d2) = writer w2 d1
           in length (filter (\<lambda>r. \<not> isl r) [r1, r2]) = 1 \<and>
              length (filter (\<lambda>path. snd d2 (asc path) \<noteq> None) [''token-0'', ''token-1'']) = 1 \<and>
              map_sum id length (read_all d2) = Inr 1 \<and> map_sum id length (read_audit 0 d2) = Inr 2)
         [((1, ''token-0''), (2, ''token-1'')), ((2, ''token-1''), (1, ''token-0''))])"

lemma competing_duplicate_writers_issue_only_one_credential:
  assumes "\<forall>x. length (sha x) = 32"
  shows "competing_duplicate_writers_issue_only_one_credential sha"
proof -
  let ?s = "asc ''same-id''" and ?A = "asc ''A''"
  let ?d = "\<lambda>seed path. disk_of [new_row sha seed ?s ?A 1060] [initialized, registered ?s 1060]
    (delivered_to path seed (\<lambda>_. None))"
  have ok: "validate_id ?s = Inr ()" "label_ok ?A" "validate_label ?A = Inr ()" "utf8_decode ?A \<noteq> None"
    by (simp_all add: text_eval)
  have first: "do_register sha seed ?s ?A 60 path init_disk = (Inr (), ?d seed path)" for seed path
    unfolding init_disk_def using assms ok
    by (subst register_calm [where e = 1060]) (simp_all add: lifetimes_def MAX_REGISTRATIONS_def del: asc_simps)
  have second: "\<exists>m. do_register sha seed' ?s ?A 60 path' (?d seed path) = (Inl m, ?d seed path)" for seed path seed' path'
    by (rule register_refused) simp
  obtain m1 m2 where m: "do_register sha 2 ?s ?A 60 ''token-1'' (?d 1 ''token-0'') = (Inl m1, ?d 1 ''token-0'')"
    "do_register sha 1 ?s ?A 60 ''token-0'' (?d 2 ''token-1'') = (Inl m2, ?d 2 ''token-1'')"
    using second by meson
  have paths: "asc ''token-0'' \<noteq> asc ''token-1''" by simp
  have reads: "map_sum id length (read_all (?d seed path)) = Inr 1" for seed path
    using valid_new_row [OF assms ok(1,3,4), of 1060] by (simp add: read_calm MAX_REGISTRATIONS_def del: asc_simps)
  have log: "map_sum id length (read_audit 0 (?d seed path)) = Inr 2" for seed path
    by (subst audit_calm) (simp_all add: log_text_def utf8_decode_ascii ascii_def entries_def entry_def)
  show ?thesis
    unfolding competing_duplicate_writers_issue_only_one_credential_def Let_def list.pred_inject prod.case first m
    using reads log paths by (simp add: delivered_to_def del: asc_simps)
qed

text \<open>A path that is a link, dangling or not: \<open>create_new\<close> fails on it.\<close>

definition credential_output_rejects_symlinks_including_dangling_ones :: "(bytes \<Rightarrow> bytes) \<Rightarrow> bool" where
  "credential_output_rejects_symlinks_including_dangling_ones sha \<longleftrightarrow>
     (let dangling = admin_register sha ((env_of 1)\<lparr>ae_ok := (\<lambda>c. c \<noteq> CreateOutput)\<rparr>) (asc ''a'') (asc ''A'') 60
            (asc ''link'') example_store (fst init_disk) (snd init_disk);
          kept = (fst init_disk, [asc ''link'' \<mapsto> \<lparr>of_mode = 420, of_bytes = asc ''keep''\<rparr>])
      in fails dangling init_disk \<and> fails (do_register sha 1 (asc ''a'') (asc ''A'') 60 ''link'' kept) kept \<and>
         read_all kept = Inr [])"

lemma credential_output_rejects_symlinks_including_dangling_ones:
  "credential_output_rejects_symlinks_including_dangling_ones sha"
proof -
  have "fails (admin_register sha ((env_of 1)\<lparr>ae_ok := (\<lambda>c. c \<noteq> CreateOutput)\<rparr>) (asc ''a'') (asc ''A'') 60
      (asc ''link'') example_store (fst init_disk) (snd init_disk)) init_disk"
    using text_A issue_undone [where db = "fst init_disk" and fs = "snd init_disk"]
    by (simp add: admin_register_def del: asc_simps)
  moreover have "fails (do_register sha 1 (asc ''a'') (asc ''A'') 60 ''link'' (db, [asc ''link'' \<mapsto> f]))
      (db, [asc ''link'' \<mapsto> f])" for db f
    by (intro failsI register_refused) simp
  moreover have "read_all (fst init_disk, fs) = Inr []" for fs
    using read_calm [of "[]" "[initialized]" fs] by (simp add: init_disk_def disk_of_def)
  ultimately show ?thesis
    by (simp add: credential_output_rejects_symlinks_including_dangling_ones_def del: asc_simps)
qed

definition numbered :: "string \<Rightarrow> nat \<Rightarrow> bytes" where
  "numbered prefix i = asc prefix @ to_dec i"

lemma numbered_inj: "i < 2 ^ 64 \<Longrightarrow> j < 2 ^ 64 \<Longrightarrow> numbered p i = numbered p j \<longleftrightarrow> i = j"
proof
  assume ij: "i < 2 ^ 64" "j < 2 ^ 64" and "numbered p i = numbered p j"
  then have "to_dec (unat (of_nat i :: 64 word)) = to_dec (unat (of_nat j :: 64 word))"
    by (simp add: numbered_def unsigned_of_nat take_bit_nat_eq_self)
  then have "decode_welcome (to_dec (unat (of_nat i :: 64 word))) = decode_welcome (to_dec (unat (of_nat j :: 64 word)))"
    by (rule arg_cong)
  then have "(of_nat i :: 64 word) = of_nat j"
    by (simp only: decode_welcome_to_dec sum.inject frame.inject)
  then have "unat (of_nat i :: 64 word) = unat (of_nat j :: 64 word)" by simp
  with ij show "i = j" by (simp add: unsigned_of_nat take_bit_nat_eq_self)
qed simp

lemma numbered_valid: "i < 2 ^ 64 \<Longrightarrow> p \<in> {''tether-'', ''t-''} \<Longrightarrow> validate_id (numbered p i) = Inr ()"
proof -
  assume i: "i < 2 ^ 64" and p: "p \<in> {''tether-'', ''t-''}"
  have "id_byte b" if "b \<in> set (to_dec i)" for b
  proof -
    from that have "unat b \<in> set (map unat (to_dec i))" by simp
    then have "unat b \<in> set (dec_digits i)" by (simp only: unat_to_dec)
    from dec_digits_range [OF this] show ?thesis by (simp add: id_byte_def)
  qed
  then show ?thesis
    using p length_to_dec_u64 [OF i] by (auto simp: validate_id_def numbered_def list_all_iff id_byte_def)
qed

text \<open>The \<open>i\<close>-th registration of the loop.\<close>

definition add_numbered :: "(bytes \<Rightarrow> bytes) \<Rightarrow> nat \<Rightarrow> disk \<Rightarrow> disk" where
  "add_numbered sha i d = snd (admin_register sha (env_of 1) (numbered ''tether-'' i) (asc ''A'') 60
     (numbered ''token-'' i) example_store (fst d) (snd d))"

definition audit_pagination_never_repeats_or_skips_committed_events :: "(bytes \<Rightarrow> bytes) \<Rightarrow> bool" where
  "audit_pagination_never_repeats_or_skips_committed_events sha \<longleftrightarrow>
     (let d = fold (add_numbered sha) [0..<101] init_disk
      in (case (read_audit 0 d, read_audit 100 d) of
            (Inr first, Inr second) \<Rightarrow>
              length first = 100 \<and> au_sequence (hd first) = 1 \<and> au_sequence (last first) = 100 \<and>
              length second = 2 \<and> map au_sequence second = [101, 102]
          | _ \<Rightarrow> False) \<and>
         read_audit 102 d = Inr [] \<and> isl (read_audit (- 1) d))"

abbreviation numbered_rows :: "(bytes \<Rightarrow> bytes) \<Rightarrow> nat list \<Rightarrow> registration_row list" where
  "numbered_rows sha xs \<equiv> map (\<lambda>i. new_row sha 1 (numbered ''tether-'' i) (asc ''A'') 1060) xs"

abbreviation numbered_log :: "nat list \<Rightarrow> log_entry list" where
  "numbered_log xs \<equiv> initialized # map (\<lambda>i. registered (numbered ''tether-'' i) 1060) xs"

text \<open>Distinct registrations in any order.\<close>

lemma numbered_filled:
  assumes len: "\<forall>x. length (sha x) = 32" and xs: "distinct xs" "\<forall>i \<in> set xs. i < 2 ^ 64" "length xs \<le> 101"
  shows "\<exists>fs. fold (add_numbered sha) xs init_disk = disk_of (numbered_rows sha xs) (numbered_log xs) fs \<and>
      (\<forall>j. j < 2 ^ 64 \<and> j \<notin> set xs \<longrightarrow> fs (numbered ''token-'' j) = None)"
  using xs
proof (induction xs rule: rev_induct)
  case (snoc n xs)
  then obtain fs where fs: "fold (add_numbered sha) xs init_disk = disk_of (numbered_rows sha xs) (numbered_log xs) fs"
    "\<And>j. j < 2 ^ 64 \<Longrightarrow> j \<notin> set xs \<Longrightarrow> fs (numbered ''token-'' j) = None" by auto
  have "validate_id (numbered ''tether-'' n) = Inr ()" using snoc.prems by (intro numbered_valid) simp_all
  moreover have "numbered ''tether-'' n \<notin> (\<lambda>i. numbered ''tether-'' i) ` set xs"
    using snoc.prems by (auto simp: numbered_inj)
  ultimately have "add_numbered sha n (disk_of (numbered_rows sha xs) (numbered_log xs) fs) =
      disk_of (numbered_rows sha (xs @ [n])) (numbered_log (xs @ [n]))
        (fs(numbered ''token-'' n \<mapsto> \<lparr>of_mode = 384, of_bytes = credential_of 1 @ [10]\<rparr>))"
    unfolding add_numbered_def database_of_simps using len text_A snoc.prems fs(2) [of n]
    by (subst admin_register_calm [where e = 1060])
      (simp_all add: lifetimes_def MAX_REGISTRATIONS_def image_image disk_of_def del: asc_simps)
  moreover have "j \<noteq> n \<Longrightarrow> j < 2 ^ 64 \<Longrightarrow> numbered ''token-'' j \<noteq> numbered ''token-'' n" for j
    using snoc.prems by (simp add: numbered_inj)
  ultimately show ?case using fs by (auto intro!: exI)
qed (auto simp: init_disk_def)

lemma log_text_numbered: "log_text (numbered_log xs)"
proof -
  have "utf8_decode (numbered ''tether-'' i) \<noteq> None" for i
    using utf8_decode_ascii [of "numbered ''tether-'' i"] ascii_to_dec [of i] by (auto simp: ascii_def numbered_def)
  then show ?thesis by (simp add: log_text_def list_all_iff utf8_decode_ascii ascii_def)
qed

lemma audit_pagination_never_repeats_or_skips_committed_events:
  assumes "\<forall>x. length (sha x) = 32"
  shows "audit_pagination_never_repeats_or_skips_committed_events sha"
proof -
  let ?log = "numbered_log [0..<101]"
  obtain fs where fs: "fold (add_numbered sha) [0..<101] init_disk = disk_of (numbered_rows sha [0..<101]) ?log fs"
    using numbered_filled [OF assms, of "[0..<101]"] by auto
  note readable_log = log_text_numbered [of "[0..<101]"]
  have rows: "map au_sequence (entries ?log) = map (\<lambda>i. int i + 1) [0..<102]"
    by (rule nth_equalityI) (auto simp: entries_def entry_def enumerate_eq_zip split_beta)
  have page: "\<exists>rows. read_audit (of_nat n) (fold (add_numbered sha) [0..<101] init_disk) = Inr rows \<and>
      map au_sequence rows = take 100 (filter (\<lambda>s. int n < s) (map (\<lambda>i. int i + 1) [0..<102]))" if "n < 2 ^ 63" for n
  proof -
    have "uint (of_nat n :: 64 word) = int n" using that by (simp add: unsigned_of_nat take_bit_nat_eq_self uint_nat)
    with that show ?thesis
      unfolding fs audit_calm [OF readable_log, of "of_nat n"] rows [symmetric]
      by (subst audit_calm [OF readable_log]) (simp_all add: take_map filter_map o_def)
  qed
  let ?d = "fold (add_numbered sha) [0..<101] init_disk"
  have n: "take 100 (filter (\<lambda>s. int 0 < s) (map (\<lambda>i. int i + 1) [0..<102])) = map (\<lambda>i. int i + 1) [0..<100]"
    "take 100 (filter (\<lambda>s. int 100 < s) (map (\<lambda>i. int i + 1) [0..<102])) = [101, 102]"
    "take 100 (filter (\<lambda>s. int 102 < s) (map (\<lambda>i. int i + 1) [0..<102])) = []"
    by (simp_all add: take_map upt_rec [of _ 102] upt_rec [of _ 100])
  from page [of 0] page [of 100] page [of 102] obtain first second where
    r: "read_audit 0 ?d = Inr first" "read_audit 100 ?d = Inr second" "read_audit 102 ?d = Inr []"
    and first: "map au_sequence first = map (\<lambda>i. int i + 1) [0..<100]" and second: "map au_sequence second = [101, 102]"
    unfolding n by auto
  have "length first = 100" "length second = 2"
    using first second by (auto dest!: arg_cong [of _ _ length])
  moreover have "hd (map (\<lambda>i. int i + 1) [0..<100]) = 1" "last (map (\<lambda>i. int i + 1) [0..<100]) = 100"
    by (simp_all add: hd_map last_map)
  moreover from calculation have "first \<noteq> []" by auto
  then have "au_sequence (hd first) = hd (map au_sequence first)" "au_sequence (last first) = last (map au_sequence first)"
    by (simp_all add: hd_map last_map)
  moreover have "isl (read_audit (- 1) ?d)"
    by (simp add: read_audit_def audit_def i64_try_from_def unsigned_minus_1_eq_mask mask_eq_exp_minus_1)
  ultimately show ?thesis
    using r first second by (simp add: audit_pagination_never_repeats_or_skips_committed_events_def Let_def)
qed

text \<open>Four writers, whose transactions take place in some order.\<close>

definition concurrent_writers_preserve_records_and_exactly_one_audit_per_mutation :: "(bytes \<Rightarrow> bytes) \<Rightarrow> bool" where
  "concurrent_writers_preserve_records_and_exactly_one_audit_per_mutation sha \<longleftrightarrow>
     list_all (\<lambda>order.
       let d = fold (add_numbered sha) order init_disk
       in map_sum id length (read_all d) = Inr 4 \<and> map_sum id length (read_audit 0 d) = Inr 5)
       (filter distinct (List.n_lists 4 [0..<4]))"

lemma concurrent_writers_preserve_records_and_exactly_one_audit_per_mutation:
  assumes len: "\<forall>x. length (sha x) = 32"
  shows "concurrent_writers_preserve_records_and_exactly_one_audit_per_mutation sha"
proof -
  have "map_sum id length (read_all (fold (add_numbered sha) xs init_disk)) = Inr 4 \<and>
      map_sum id length (read_audit 0 (fold (add_numbered sha) xs init_disk)) = Inr 5"
    if xs: "xs \<in> set (List.n_lists 4 [0..<4])" "distinct xs" for xs
  proof -
    from xs(1) have x: "length xs = 4" "\<forall>i \<in> set xs. i < 4" by (auto simp: set_n_lists)
    then have x64: "\<forall>i \<in> set xs. i < 2 ^ 64" by fastforce
    obtain fs where fs: "fold (add_numbered sha) xs init_disk = disk_of (numbered_rows sha xs) (numbered_log xs) fs"
      using numbered_filled [OF len xs(2) x64] x(1) by auto
    have "valid_row row \<and> column_range row" if "row \<in> set (numbered_rows sha xs)" for row
      using that x64 valid_new_row [OF len numbered_valid text_A(1,3), of _ "''tether-''" 1060] by auto
    then have "list_all valid_row (numbered_rows sha xs)" "list_all column_range (numbered_rows sha xs)"
      by (simp_all only: list_all_iff) auto
    then have "read_all (disk_of (numbered_rows sha xs) (numbered_log xs) fs) =
        Inr (map record_of (sort_key rr_id (numbered_rows sha xs)))"
      using x(1) by (intro read_calm) (simp_all add: MAX_REGISTRATIONS_def)
    moreover have "filter (\<lambda>row. 0 < au_sequence row) (entries log) = entries log" for log
      by (auto simp: entries_def entry_def enumerate_eq_zip filter_id_conv)
    ultimately show ?thesis
      unfolding fs using x(1) by (subst audit_calm [OF log_text_numbered]) simp_all
  qed
  then show ?thesis
    by (simp add: concurrent_writers_preserve_records_and_exactly_one_audit_per_mutation_def Let_def list_all_iff
        del: n_lists.simps)
qed

definition private_files_and_initialization_are_explicit :: "(bytes \<Rightarrow> bytes) \<Rightarrow> bool" where
  "private_files_and_initialization_are_explicit sha \<longleftrightarrow>
     open_fails ((env_of 0)\<lparr>ae_directory := (\<lambda>_. None)\<rparr>) None \<and>
     (let (r, d) = do_register sha 1 (asc ''a'') (asc ''A'') 60 ''credential'' init_disk
      in r = Inr () \<and> map_option of_mode (snd d (asc ''credential'')) = Some 384 \<and>
         isl (fst (store_init (env_of 0) (asc ''state'') (Some (fst d)))) \<and>
         map_sum id length (read_all d) = Inr 1)"

lemma private_files_and_initialization_are_explicit:
  assumes len: "\<forall>x. length (sha x) = 32"
  shows "private_files_and_initialization_are_explicit sha"
proof -
  have "isl (fst (store_init (env_of 0) (asc ''state'') (Some db)))" for db
    by (simp add: store_init_def normalized_directory_def env_of_def example_env_def private_metadata_def
        example_metadata_def)
  moreover have "open_fails ((env_of 0)\<lparr>ae_directory := (\<lambda>_. None)\<rparr>) None" by (simp add: open_eval)
  moreover have "validate_id (asc ''a'') = Inr ()" by (simp add: text_eval)
  then have "map_sum id length (read_all (disk_of [new_row sha 1 (asc ''a'') (asc ''A'') 1060] log fs)) = Inr 1" for log fs
    using valid_new_row [OF len _ text_A(1,3), of _ 1060] by (simp add: read_calm MAX_REGISTRATIONS_def del: asc_simps)
  ultimately show ?thesis
    unfolding private_files_and_initialization_are_explicit_def register_first [OF len] Let_def prod.case
    by (simp add: delivered_to_def)
qed

definition registrations_are_bounded_and_oversized_snapshots_fail_closed :: "(bytes \<Rightarrow> bytes) \<Rightarrow> bool" where
  "registrations_are_bounded_and_oversized_snapshots_fail_closed sha \<longleftrightarrow>
     (let row = (\<lambda>tid. \<lparr>rr_id = tid, rr_label = asc ''A'', rr_credential_hash = replicate 64 97, rr_active = 1,
            rr_expires_at = 9999999999\<rparr>);
          rows = map (\<lambda>x. row (numbered ''t-'' x)) [1..<10001];
          full = disk_of rows [initialized] (\<lambda>_. None);
          over = disk_of (rows @ [row (asc ''extra'')]) [initialized] (\<lambda>_. None)
      in map_sum id length (read_all full) = Inr 10000 \<and>
         fails (do_register sha 1 (asc ''extra'') (asc ''A'') 60 ''secret'' full) full \<and>
         isl (read_all over))"

lemma registrations_are_bounded_and_oversized_snapshots_fail_closed:
  "registrations_are_bounded_and_oversized_snapshots_fail_closed sha"
proof -
  let ?row = "\<lambda>tid. \<lparr>rr_id = tid, rr_label = asc ''A'', rr_credential_hash = replicate 64 97, rr_active = 1,
    rr_expires_at = 9999999999\<rparr>"
  let ?rows = "map (\<lambda>x. ?row (numbered ''t-'' x)) [1..<10001]"
  have "valid_row (?row (numbered ''t-'' x)) \<and> column_range (?row (numbered ''t-'' x))" if "x < 10001" for x
    using text_A numbered_valid [of x "''t-''"] that
    by (simp add: valid_row_def column_range_def list_all_iff is_hex_lower_def del: asc_simps)
  then have rows: "list_all valid_row ?rows" "list_all column_range ?rows" "length ?rows = MAX_REGISTRATIONS"
    by (simp_all add: list_all_iff MAX_REGISTRATIONS_def)
  have "column_range (?row (asc ''extra''))" by (simp add: column_range_def)
  with rows obtain m where "read_all (disk_of (?rows @ [?row (asc ''extra'')]) [initialized] (\<lambda>_. None)) = Inl m"
    using read_refused [of "?rows @ [?row (asc ''extra'')]" "[initialized]" "\<lambda>_. None"] by auto
  moreover have "fails (do_register sha 1 (asc ''extra'') (asc ''A'') 60 ''secret'' (disk_of ?rows [initialized] (\<lambda>_. None)))
      (disk_of ?rows [initialized] (\<lambda>_. None))"
    using rows(3) by (intro failsI register_refused) simp
  moreover have "map_sum id length (read_all (disk_of ?rows [initialized] (\<lambda>_. None))) = Inr 10000"
    using rows by (simp only: read_calm order_refl) (simp add: MAX_REGISTRATIONS_def)
  ultimately show ?thesis
    unfolding registrations_are_bounded_and_oversized_snapshots_fail_closed_def Let_def by simp
qed

end
