(* ===== verification/Spec2Isabelle.thy ===== *)
theory Spec2Isabelle
  imports Hub Chunked End_To_End Expulsion Request_Path Keepalive Tasks Crosstalk Canary
    Answers Tests_Hub Tests_Edge Tests_Admin
begin

text \<open>
  A model of anvil-ring, an outbound-only tunnel that lets callers of a public hub reach
  an inference engine on a machine that listens on nothing. It translates the Rust crate
  under \<open>cargo/src\<close>; theories and source files correspond as follows.

  \<^item> \<open>Ring_Prelude\<close>, \<open>Rust_Std\<close>: bytes, errors as sums with \<open>?\<close> as \<open>try_then\<close>, big-endian
    integers, association lists for hash maps, and the functions of the Rust standard
    library the program calls, with the value of a numeral by the positions of its digits.
    Two generic interfaces: \<open>incremental\<close>, a consumer of a byte stream for which two reads
    are as good as one, and \<open>invariant_machine\<close>, a step function with an invariant and its
    reachable states.
  \<^item> \<open>Frames\<close> (\<open>frames.rs\<close>): the ten wire frames, their encoder and incremental decoder;
    a decoded frame is the one that was encoded, and what the decoder accepts is described
    exactly.
  \<^item> \<open>Headers\<close> (\<open>headers.rs\<close>), \<open>Chunked\<close> (\<open>chunked.rs\<close>), \<open>Heads\<close> (heads in \<open>hub.rs\<close> and
    \<open>tunnel.rs\<close>): removal of hop-by-hop fields over any header map, the chunked decoder
    against a grammar stated apart from it, and what it hands on read by read, and where a
    head ends in a byte stream.
  \<^item> \<open>Messages\<close> (\<open>decode\<close> and \<open>ws_msg\<close> at both ends): frames in WebSocket messages.
  \<^item> \<open>Streams\<close>, \<open>Credentials\<close>, \<open>Registry\<close>, \<open>Routing\<close>, \<open>Session\<close>, \<open>Hub\<close> (\<open>hub.rs\<close>): one
    caller's stream with its atomic steps; digests and durable records; registrations,
    authorization, revocation and live sessions; the choice of a tether and the opening of
    a stream; one pass of a tether session's loop for every event, with handshake and
    teardown; and all of it as one machine under every order of events. Sessions and
    streams are shared objects, so they live in stores and tables hold references. A
    forwarded request is chosen a session under the routing lock and admitted to it later;
    the session tasks, the uploads and the callers' handles do not take that lock, so their
    events fall between the two halves (\<open>between\<close>, \<open>HAdmit\<close>).
  \<^item> \<open>Proxy\<close> (\<open>proxy.rs\<close>), \<open>Tunnel\<close> (\<open>tunnel.rs\<close>), \<open>Frontend\<close> (\<open>frontend.rs\<close>): the local
    proxy with its loopback and token checks; the tether's session, heartbeat and engine
    exchange; the caller's request handler and streaming body.
  \<^item> \<open>Admin\<close> (\<open>admin.rs\<close>), \<open>Main_CLI\<close> (\<open>main.rs\<close>): the durable store with its commands as
    operations on two tables, and the executable with its refresh task.
  \<^item> \<open>Client\<close>, \<open>Session_Clock\<close> (\<open>run_client\<close>, \<open>serve_over\<close>, \<open>run_session\<close> of \<open>tunnel.rs\<close>): the
    reconnect loop around the tether's session, and that session's loop with its timers.
  \<^item> \<open>Keepalive\<close>: one connection with the loops of both its ends, their timers and the frames
    on their way, as long as nothing but the keepalive travels.
  \<^item> \<open>Tasks\<close> (\<open>tasks.rs\<close>, and where \<open>tunnel.rs\<close>, \<open>hub.rs\<close>, \<open>frontend.rs\<close> and \<open>main.rs\<close> spawn):
    which spawned task is kept by which other one through handles whose drop cancels, that
    none outlives its owner, and that the tunnel's stream table is the set of these handles.
  \<^item> \<open>Retired\<close>, \<open>Inactive\<close>, \<open>Deployment\<close>, \<open>Expulsion\<close> (\<open>main.rs\<close>, \<open>hub.rs\<close>, \<open>admin.rs\<close>
    together): what a session stays once the registry has dropped it, which commands keep a
    registration inactive, the hub process with its refresh task and clock beside the
    administrator's commands, and the way a revocation takes through them.
  \<^item> \<open>Request_Path\<close>: a caller's request from the hub through the tether to the engine.
  \<^item> \<open>Bystanders\<close>, \<open>Multiplex\<close>, \<open>Crosstalk\<close> (\<open>hub.rs\<close> and \<open>tunnel.rs\<close> together): what the
    hub's events leave alone in a session they are not about; the whole hub joined to one
    tether's session, with its pumps writing in any order; and that what each of the many
    calls on it receives comes from the exchange its own request started.
  \<^item> \<open>Answers\<close> (\<open>frontend.rs\<close> and \<open>hub.rs\<close> together): one caller's answer beside the whole
    hub, from the admission of its request on: the head the handler waits for and
    republishes, and the body, polled in steps between which any event may fall.
  \<^item> \<open>Canary\<close> (\<open>bin/buffering_canary.rs\<close>): the negative control of the streaming test.
  \<^item> \<open>Tests_Wire\<close>, \<open>Tests_Heads\<close>, \<open>Tests_Hub\<close>, \<open>Tests_Edge\<close>, \<open>Tests_Admin\<close>: the unit tests of the
    source files over the model, each proved to pass; several hold for every input of their
    kind, not only the one the test chooses (cuts of a body, orders of writers).
  \<^item> \<open>End_To_End\<close> and this theory: an answer from the engine to the caller, and a credential
    from the administrator's command to the hub's decision, through all parts between.

  What the lemmas show: per component, a well-formedness invariant that every operation
  keeps (\<open>registry_ok\<close>, \<open>hub_ok\<close>, \<open>tether_ok\<close>, \<open>world_ok\<close>) and what each operation does on
  each of its branches, errors included; then what follows for the program: who is
  authorized and for how long, that cancelling a session reaches every request on it, that
  no answer is fabricated, truncated or given to another caller, that the store changes whole commands
  at a time, that a revoked tether stays out under every interleaving, and that sessions end.

  Interfaces. Third-party code is an argument: SHA-256 (\<open>sha\<close>), the header map of the \<open>http\<close>
  crate (\<open>header_api\<close>, laws \<open>header_map\<close>), head parsers (\<open>head_parser\<close>,
  \<open>request_parser\<close>), address and URI parsers (\<open>net_api\<close>), the chunk channel
  (\<open>receiver_api\<close>, laws \<open>receiver\<close>), and what the operating system and SQLite answer
  (\<open>admin_env\<close>). The frame codec is used through \<open>wire_codec\<close>. Each locale is interpreted
  on definitions of the model; the laws of third-party code on a concrete instance.

  Time and atomicity. Instants and durations are nanoseconds, counters are words of the
  code's width. A critical section of the code is one step; the select loops choose events
  in any order. In \<open>Deployment\<close>, \<open>Session_Clock\<close> and \<open>Keepalive\<close> a clock passes between the steps; it
  does not pass the instant of a timer before that timer's arm has run, which is the one
  assumption about the scheduler. \<open>refresh_round\<close> carries the instant a turn takes effect
  apart from the instant it ends. Two reads that follow each other without a lock are two
  instants where their order matters: the head and the completion flag in \<open>caller_answer\<close>,
  the failure, the completion and the queue in a poll of the body. No definition uses fuel: loops are structural recursion
  over the inputs they consume, the chunked decoder's loop and the settling
  of cancelled tasks have a measure, and the session
  loop without input is a \<open>while_option\<close> that is proved to return.

  Not modelled: sockets, TLS, hyper's connections,
  log lines and help texts, SQLite's PRAGMA settings and the JSON of reports; the wakers
  behind the polls, so that no property says a waiting caller is woken; the order in which
  a hash map is read, where list order stands for it (\<open>credentials_of\<close>, of two registrations
  with one digest); the Python egress probe and the deployment scripts; the integration
  tests, and the unit tests that exercise a socket, a channel's capacity or SHA-256 itself.
\<close>

section \<open>Properties across components\<close>

text \<open>
  C2: Issued means usable: the credential an administrator's register or rotate delivers, read
  back and trimmed as a tether does it, is what the hub accepts once it has refreshed from
  the store, until the credential expires and unless another registration happens to have
  the same digest; and nothing that does not have its digest is accepted for that tether,
  in particular not the credential it replaced.
\<close>
theorem issued_credential_works:
  assumes "issue sha E tid label ttl_secs dest st db fs = (Inr u, db', fs')"
    and "list_all column_range (db_registrations db')" "distinct (map rr_id (db_registrations db'))"
    and "snapshot E' st' db' = Inr recs" "registry_ok r" "replace_records wall recs r = r'"
  shows "\<exists>file clock. fs' dest = Some file \<and> ae_clock E = Some clock \<and>
    (let credential = trim_cred (of_bytes file); expires = secs (unat clock + unat ttl_secs) in
       (\<forall>now c l. authorize sha now c r' = Some l \<and> l_tether_id l = tid \<longrightarrow>
          digest sha c = digest sha credential \<and> now + l_ttl l \<le> expires) \<and>
       ((\<forall>row \<in> set (db_registrations db). rr_id row \<noteq> tid \<longrightarrow> rr_credential_hash row \<noteq> digest sha credential) \<longrightarrow>
          (\<forall>now. now + secs 1 \<le> expires \<longrightarrow>
             (\<exists>l. authorize sha now credential r' = Some l \<and> l_tether_id l = tid))))"
proof -
  obtain random clock where i: "ae_clock E = Some clock" "unat clock + unat ttl_secs < 2 ^ 63"
    "fs' dest = Some \<lparr>of_mode = 384, of_bytes = concat (map hex2 random) @ [10]\<rparr>"
    "issuable tid label (db_registrations db)"
    "db_registrations db' = issued_rows tid label (digest sha (concat (map hex2 random)))
       (int (unat clock + unat ttl_secs)) (db_registrations db)"
    by (rule issue_success [OF assms(1)])
  let ?c = "concat (map hex2 random)" and ?e = "unat clock + unat ttl_secs"
  note recs = snapshot_records [OF assms(2-4)]
  note rows = issued_rows_in [OF i(4), of _ "digest sha ?c" "int ?e", folded i(5)]
  have ids: "ar_id (record_of row) = rr_id row" for row by (simp add: record_of_def)
  have new: "ar_credential_hash (record_of row) = digest sha ?c \<and> ar_active (record_of row) \<and>
      unat (ar_expires_at (record_of row)) = ?e"
    if "row \<in> set (db_registrations db')" "rr_id row = tid" for row
    using rows(1) [OF that] word_of_time [OF i(2)] by (simp add: record_of_def)
  have "digest sha c = digest sha ?c \<and> now + l_ttl l \<le> secs ?e"
    if l: "authorize sha now c r' = Some l" "l_tether_id l = tid" for now c l
  proof -
    from l governed_by_snapshot [OF assms(5), of recs wall] assms(6)
    obtain rec where "rec \<in> set recs" "ar_id rec = tid" "ar_credential_hash rec = digest sha c"
        "now + l_ttl l \<le> secs (unat (ar_expires_at rec))"
      unfolding governed_by_def by blast
    with recs(1) new show ?thesis by (auto simp: ids)
  qed
  moreover have "\<exists>l. authorize sha now ?c r' = Some l \<and> l_tether_id l = tid"
    if unique: "\<forall>row \<in> set (db_registrations db). rr_id row \<noteq> tid \<longrightarrow> rr_credential_hash row \<noteq> digest sha ?c"
      and now: "now + secs 1 \<le> secs ?e" for now
  proof -
    from issued_row_exists [OF i(4)] obtain row where row: "row \<in> set (db_registrations db')" "rr_id row = tid"
      unfolding i(5) by blast
    have "\<forall>rec' \<in> set recs. ar_credential_hash rec' = digest sha ?c \<longrightarrow> ar_id rec' = ar_id (record_of row)"
      using unique rows(2) row(2) unfolding recs(1) by (auto simp: record_of_def)
    from snapshot_accepts [OF recs(2) _ _ _ this] row new [OF row] recs(1) i(2) now assms(6) show ?thesis
      by (auto simp: ids)
  qed
  ultimately show ?thesis using i(1,3) by (simp add: Let_def hex_trim) blast
qed

theorem issued_credential_works_witness:
  "\<exists>db' fs' recs file. example_issue = (Inr (), db', fs') \<and> fs' [111] = Some file \<and>
     snapshot (example_env 1000 1) example_store db' = Inr recs \<and>
     (\<exists>l. authorize example_sha (secs 1000) (trim_cred (of_bytes file)) (replace_records 0 recs example_registry) = Some l \<and>
        l_tether_id l = [97])"
proof -
  obtain db' fs' where i: "example_issue = (Inr (), db', fs')"
    using example_issue_ok by (metis prod.collapse)
  note iss = i [unfolded example_issue_def]
  have ok: "database_ok db' \<and> advances example_database db'"
    by (rule issue_ok [OF _ iss])
      (auto simp: database_ok_def example_database_def no_schema_def rows_ok_def audit_ok_def
        validate_label_def chars_def is_control_def example_digest)
  obtain random clock where s: "ae_clock (example_env 1000 1) = Some clock"
      "db_registrations db' = issued_rows [97] (Some [98]) (digest example_sha (concat (map hex2 random)))
       (int (unat clock + unat (60 :: 64 word))) (db_registrations example_database)"
    by (rule issue_success [OF iss])
  have one: "db_registrations db' \<noteq> []" using s(2) by (simp add: issued_rows_def)
  then have v: "db_version db' = 1" "rows_ok (db_registrations db')"
    using ok by (auto simp: database_ok_def no_schema_def)
  then have c: "list_all column_range (db_registrations db')" "distinct (map rr_id (db_registrations db'))"
    by (simp_all add: rows_ok_def)
  obtain recs where snap: "snapshot (example_env 1000 1) example_store db' = Inr recs"
    using snapshot_exact_base [OF c(1)] v example_readable by (auto simp: rows_ok_def)
  from issued_credential_works [OF iss c snap example_registry_ok refl, of 0]
  obtain fl clock2 where f: "fs' [111] = Some fl" "ae_clock (example_env 1000 1) = Some clock2"
    "(\<forall>row \<in> set (db_registrations example_database). rr_id row \<noteq> [97] \<longrightarrow>
        rr_credential_hash row \<noteq> digest example_sha (trim_cred (of_bytes fl))) \<longrightarrow>
     (\<forall>now. now + secs 1 \<le> secs (unat clock2 + unat (60 :: 64 word)) \<longrightarrow>
       (\<exists>l. authorize example_sha now (trim_cred (of_bytes fl)) (replace_records 0 recs example_registry) = Some l \<and>
          l_tether_id l = [97]))"
    unfolding Let_def by blast
  have "clock2 = 1000" using f(2) by (simp add: example_env_def)
  moreover have "db_registrations example_database = []" by (simp add: example_database_def no_schema_def)
  ultimately have "\<exists>l. authorize example_sha (secs 1000) (trim_cred (of_bytes fl)) (replace_records 0 recs example_registry) = Some l \<and>
      l_tether_id l = [97]"
    using f(3) by (simp add: secs_def)
  with i f(1) snap show ?thesis by blast
qed

text \<open>
  Revoked means cut off: after the administrator's revoke the next refresh of the hub
  cancels the tether's live session, removes it from the routing table and authorizes no
  credential as that tether any more.
\<close>
lemma revocation_reaches_hub:
  assumes "admin_revoke E tid st db = (Inr changed, db')"
    and "list_all column_range (db_registrations db')" "distinct (map rr_id (db_registrations db'))"
    and "snapshot E' st' db' = Inr recs" "registry_ok r" "replace_records wall recs r = r'"
  shows "map_of (rg_live r') tid = None \<and>
    (\<forall>s. map_of (rg_live r) tid = Some s \<longrightarrow> cancelled (rg_sessions r' ! s)) \<and>
    (\<forall>sha now c l. authorize sha now c r' = Some l \<longrightarrow> l_tether_id l \<noteq> tid)"
proof -
  note recs = snapshot_records [OF assms(2-4)]
  have off: "\<not> ar_active rec" if "rec \<in> set recs" "ar_id rec = tid" for rec
    using that recs(1) revoked_rows [OF assms(1)] by (auto simp: record_of_def)
  have "\<not> unchanged wall (replacement_of recs) (rg_by_id r) tid"
  proof
    assume "unchanged wall (replacement_of recs) (rg_by_id r) tid"
    then obtain t where t: "map_of (replacement_of recs) tid = Some t" "remaining wall t \<noteq> None"
      by (auto simp: unchanged_def split: option.splits)
    then obtain rec where rec: "find (\<lambda>rec. ar_id rec = tid) (rev recs) = Some rec" "t = tether_of_record rec"
      unfolding map_of_replacement by (elim map_option_eq_Some [THEN iffD1, elim_format] exE conjE) simp
    have "rec \<in> set recs" "ar_id rec = tid" using find_SomeD [OF rec(1)] by simp_all
    with off t(2) rec(2) show False by (simp add: remaining_def tether_of_record_def)
  qed
  moreover have "map_of (rg_live r') tid = None" if "map_of (rg_live r) tid = None"
    using that assms(6) by (auto simp: replace_records_alt Let_def map_of_live_filter)
  moreover have "\<forall>sha now c l. authorize sha now c r' = Some l \<longrightarrow> l_tether_id l \<noteq> tid"
    using governed_by_snapshot [OF assms(5), of recs wall] off assms(6) unfolding governed_by_def by metis
  ultimately show ?thesis
    using snapshot_governs_base [OF assms(5,6)] by (cases "map_of (rg_live r) tid") auto
qed


lemma revocation_reaches_hub_witness:
  "\<exists>db' recs. admin_revoke (example_env 1000 1) [97] example_store
       (example_database\<lparr>db_registrations := example_rows\<rparr>) = (Inr True, db') \<and>
     snapshot (example_env 1000 1) example_store db' = Inr recs \<and>
     map_of (rg_live (replace_records 0 recs example_registry)) [97] = None \<and>
     cancelled (rg_sessions (replace_records 0 recs example_registry) ! 0)"
proof -
  let ?db = "example_database\<lparr>db_registrations := example_rows\<rparr>"
  have hash: "sql_length (replicate 64 48) = 64" "list_all is_hex_lower (replicate 64 48)"
    using hex_sql_length [of "replicate 64 48"] by (simp_all add: list_all_iff is_hex_lower_def)
  obtain db' where r: "admin_revoke (example_env 1000 1) [97] example_store ?db = (Inr True, db')"
  proof -
    have "fst (admin_revoke (example_env 1000 1) [97] example_store ?db) = Inr True"
      using hash by (simp add: admin_revoke_def validate_id_def id_byte_def example_files call_def example_env_ok
          check_schema_def example_database_def no_schema_def update_registrations_def example_rows_def
          registration_checks_def between_def sql_length_def [of "[_]"] cont_def append_audit_def audit_checks_def
          audit_actions_def i64_try_from_def example_env_fields Let_def del: replicate_Suc asc_simps)
    then show ?thesis using that by (metis prod.collapse)
  qed
  have "rows_ok example_rows"
    using hash by (simp add: example_rows_def rows_ok_def MAX_REGISTRATIONS_def valid_row_def column_range_def
        validate_id_def validate_label_def chars_def id_byte_def is_control_def Let_def del: replicate_Suc)
  then have "database_ok ?db" by (simp add: database_ok_def example_database_def no_schema_def audit_ok_def)
  from revoke_ok [OF this r] have ok: "database_ok db'" "advances ?db db'" by simp_all
  have "db_version db' = 1"
    using ok(2) by (auto simp: advances_def example_database_def)
  with ok(1) have v: "db_version db' = 1" "rows_ok (db_registrations db')"
    by (auto simp: database_ok_def no_schema_def)
  then have c: "list_all column_range (db_registrations db')" "distinct (map rr_id (db_registrations db'))"
    by (simp_all add: rows_ok_def)
  obtain recs where snap: "snapshot (example_env 1000 1) example_store db' = Inr recs"
    using snapshot_exact_base [OF c(1)] v example_readable by (auto simp: rows_ok_def)
  have "map_of (rg_live example_registry) [97] = Some 0" by (simp add: example_registry_eq)
  with revocation_reaches_hub [OF r c snap example_registry_ok refl, of 0] r snap show ?thesis by blast
qed



end
